(* ===== verification/Prelude.thy ===== *)
theory Prelude
  imports Main "HOL-Library.Word"
begin

text \<open>
  Shared vocabulary of the development: machine integers and byte strings, the error
  type of the crate, the two result monads the engine code is written in (a pure one
  for readers and a state-passing one for mutators of a blob frame), little-endian
  codecs, and byte buffers with their read-over-write laws.

  A blob frame is a buffer of \<open>PAGE_SIZE\<close> bytes.  It is modelled as a function from
  addresses to bytes; every access of the code is bounds-checked against
  \<open>PAGE_SIZE\<close> before it reads or writes.  Unsigned integers that only ever live in
  a byte buffer (slot numbers, offsets, counters, sequence numbers) are natural numbers
  in the model and are cut to their width when they are stored, by \<open>nat_le\<close>.
\<close>

section \<open>Collections of facts\<close>

named_theorems buf_simps \<open>reading over writing in byte buffers\<close>
named_theorems monad_simps \<open>unfolding of the result monads\<close>

section \<open>Machine integers and byte strings\<close>

type_synonym u8 = "8 word"
type_synonym u32 = "32 word"
type_synonym u64 = "64 word"
type_synonym bytes = "u8 list"
type_synonym buf = "nat \<Rightarrow> u8"
type_synonym blob_guid = "u8 list"

text \<open>The casts \<^verbatim>\<open>x as u8\<close>, \<^verbatim>\<open>x as u16\<close> and \<^verbatim>\<open>x as u32\<close>, and the saturating operators.\<close>

definition as_u8 :: "nat \<Rightarrow> nat" where
  "as_u8 x = x mod 2 ^ 8"

definition as_u16 :: "nat \<Rightarrow> nat" where
  "as_u16 x = x mod 2 ^ 16"

definition as_u32 :: "nat \<Rightarrow> nat" where
  "as_u32 x = x mod 2 ^ 32"

definition sat_add :: "nat \<Rightarrow> nat \<Rightarrow> nat \<Rightarrow> nat" where
  "sat_add w a b = min (a + b) (2 ^ w - 1)"

lemma as_u8_less [simp]: "x < 256 \<Longrightarrow> as_u8 x = x"
  by (simp add: as_u8_def)

lemma as_u16_less [simp]: "x < 65536 \<Longrightarrow> as_u16 x = x"
  by (simp add: as_u16_def)

lemma as_u32_less [simp]: "x < 4294967296 \<Longrightarrow> as_u32 x = x"
  by (simp add: as_u32_def)

section \<open>Errors\<close>

text \<open>
  The error type of \<^verbatim>\<open>src/api/errors.rs\<close> with the two allocator error types it wraps.
  \<open>Panic\<close> stands for a Rust panic (a failed \<^verbatim>\<open>expect\<close> or an index out of range) and
  \<open>StackOverflow\<close> for a recursion that does not come back within the given depth.
\<close>

datatype alloc_error = OutOfSlots | OutOfSpace nat nat | InvalidRequest

datatype free_error = InvalidSlot nat | TypeMismatch nat nat

datatype error =
    BlobStoreIo string
  | Alloc alloc_error
  | Free free_error
  | KeyTooLong nat
  | ValueTooLong nat
  | NotYetImplemented string
  | Internal string
  | NodeCorrupt string "blob_guid option" "nat option"
  | ReplaySanityFailed string nat
  | NotFound
  | DstExists
  | TreeNotFound string
  | TreeExists string
  | InvalidTreeName string
  | TreeDropped
  | OutsideViewScope nat nat
  | Panic string
  | StackOverflow

definition node_corrupt :: "string \<Rightarrow> error" where
  "node_corrupt context = NodeCorrupt context None None"

fun with_blob_guid :: "error \<Rightarrow> blob_guid \<Rightarrow> error" where
  "with_blob_guid (NodeCorrupt c None s) guid = NodeCorrupt c (Some guid) s"
| "with_blob_guid e guid = e"

fun with_slot :: "error \<Rightarrow> nat \<Rightarrow> error" where
  "with_slot (NodeCorrupt c g None) slot_index = NodeCorrupt c g (Some slot_index)"
| "with_slot e slot_index = e"

section \<open>Result monads\<close>

text \<open>
  \<open>'a res\<close> is \<^verbatim>\<open>Result<T>\<close>.  \<open>('s, 'a) st\<close> is code that mutates a state and may fail: the
  state reached so far is kept when it fails, as the Rust code keeps what it wrote before
  an early return.  \<open>rbind\<close> and \<open>sbind\<close> are the \<^verbatim>\<open>?\<close> operator.
\<close>

type_synonym 'a res = "error + 'a"
type_synonym ('s, 'a) st = "'s \<Rightarrow> 'a res \<times> 's"

definition rbind :: "'a res \<Rightarrow> ('a \<Rightarrow> 'b res) \<Rightarrow> 'b res" where
  "rbind m k = (case m of Inl e \<Rightarrow> Inl e | Inr x \<Rightarrow> k x)"

definition ok_or :: "'a option \<Rightarrow> error \<Rightarrow> 'a res" where
  "ok_or m e = (case m of None \<Rightarrow> Inl e | Some x \<Rightarrow> Inr x)"

definition sret :: "'a \<Rightarrow> ('s, 'a) st" where
  "sret x = (\<lambda>s. (Inr x, s))"

definition sfail :: "error \<Rightarrow> ('s, 'a) st" where
  "sfail e = (\<lambda>s. (Inl e, s))"

definition sbind :: "('s, 'a) st \<Rightarrow> ('a \<Rightarrow> ('s, 'b) st) \<Rightarrow> ('s, 'b) st" where
  "sbind m k = (\<lambda>s. case m s of (Inl e, s') \<Rightarrow> (Inl e, s') | (Inr x, s') \<Rightarrow> k x s')"

definition sread :: "('s \<Rightarrow> 'a res) \<Rightarrow> ('s, 'a) st" where
  "sread f = (\<lambda>s. (f s, s))"

definition sget :: "('s \<Rightarrow> 'a) \<Rightarrow> ('s, 'a) st" where
  "sget f = (\<lambda>s. (Inr (f s), s))"

definition smod :: "('s \<Rightarrow> 's) \<Rightarrow> ('s, unit) st" where
  "smod f = (\<lambda>s. (Inr (), f s))"

lemma rbind_simps [simp]:
  "rbind (Inl e) k = Inl e"
  "rbind (Inr x) k = k x"
  by (simp_all add: rbind_def)

lemma rbind_Inr_iff: "rbind m k = Inr y \<longleftrightarrow> (\<exists>x. m = Inr x \<and> k x = Inr y)"
  by (cases m) simp_all

lemma ok_or_simps [simp]:
  "ok_or None e = Inl e"
  "ok_or (Some x) e = Inr x"
  by (simp_all add: ok_or_def)

lemma ok_or_Inr_iff [simp]: "ok_or m e = Inr x \<longleftrightarrow> m = Some x"
  by (cases m) simp_all

lemma st_simps [simp]:
  "sret x s = (Inr x, s)"
  "sfail e s = (Inl e, s)"
  "sread f s = (f s, s)"
  "sget g s = (Inr (g s), s)"
  "smod h s = (Inr (), h s)"
  by (simp_all add: sret_def sfail_def sread_def sget_def smod_def)

lemma sbind_Inr: "m s = (Inr x, s') \<Longrightarrow> sbind m k s = k x s'"
  by (simp add: sbind_def)

lemma sbind_Inl: "m s = (Inl e, s') \<Longrightarrow> sbind m k s = (Inl e, s')"
  by (simp add: sbind_def)

lemma sbind_simps [simp]:
  "sbind (sret x) k1 s = k1 x s"
  "sbind (sfail e) k2 s = (Inl e, s)"
  "sbind (sget g) k3 s = k3 (g s) s"
  "sbind (smod h) k4 s = k4 () (h s)"
  by (simp_all add: sbind_def)

lemma sbind_sread: "sbind (sread f) k s = (case f s of Inl e \<Rightarrow> (Inl e, s) | Inr x \<Rightarrow> k x s)"
  by (simp add: sbind_def)

lemma sbind_sread_Inr [simp]: "f s = Inr x \<Longrightarrow> sbind (sread f) k s = k x s"
  by (simp add: sbind_def)

lemma sbind_sread_Inl [simp]: "f s = Inl e \<Longrightarrow> sbind (sread f) k s = (Inl e, s)"
  by (simp add: sbind_def)

lemma sbind_sread_const [simp]: "sbind (sread (\<lambda>_. Inr x)) k = k x"
  by (simp add: sbind_def sread_def)

lemma sbind_cases:
  assumes "sbind m k s = (r, s')"
  obtains (fail) e where "m s = (Inl e, s')" "r = Inl e"
    | (ok) x s1 where "m s = (Inr x, s1)" "k x s1 = (r, s')"
  using assms by (auto simp: sbind_def split: prod.splits sum.splits)

lemma sbind_Inr_iff:
  "sbind m k s = (Inr y, s') \<longleftrightarrow> (\<exists>x s1. m s = (Inr x, s1) \<and> k x s1 = (Inr y, s'))"
  by (auto simp: sbind_def split: prod.splits sum.splits)

section \<open>Little-endian integers\<close>

text \<open>
  \<open>nat_le n x\<close> is \<^verbatim>\<open>to_le_bytes\<close> at a width of \<open>n\<close> bytes, \<open>le_nat\<close> is
  \<^verbatim>\<open>from_le_bytes\<close>.
\<close>

fun nat_le :: "nat \<Rightarrow> nat \<Rightarrow> bytes" where
  "nat_le 0 x = []"
| "nat_le (Suc n) x = of_nat (x mod 256) # nat_le n (x div 256)"

fun le_nat :: "bytes \<Rightarrow> nat" where
  "le_nat [] = 0"
| "le_nat (b # bs) = unat b + 256 * le_nat bs"

lemma length_nat_le [simp]: "length (nat_le n x) = n"
  by (induction n arbitrary: x) simp_all

lemma u8_bound: "unat (b :: u8) < 256"
  using unsigned_less [of b] by simp

lemma unat_of_nat_u8 [simp]: "unat (of_nat (x mod 256) :: u8) = x mod 256"
  by (simp add: unat_of_nat take_bit_eq_mod)

lemma unat_of_nat_u8_less [simp]: "x < 256 \<Longrightarrow> unat (of_nat x :: u8) = x"
  using unat_of_nat_u8 [of x] by simp

lemma le_nat_nat_le [simp]: "le_nat (nat_le n x) = x mod 256 ^ n"
proof (induction n arbitrary: x)
  case (Suc n)
  have "x mod (256 * 256 ^ n) = 256 * (x div 256 mod 256 ^ n) + x mod 256"
    by (rule mod_mult2_eq)
  with Suc show ?case by simp
qed simp

lemma le_nat_bound: "le_nat bs < 256 ^ length bs"
proof (induction bs)
  case (Cons b bs)
  have "unat b < 256" by (rule u8_bound)
  with Cons show ?case by simp
qed simp

lemma nat_le_le_nat [simp]: "nat_le (length bs) (le_nat bs) = bs"
proof (induction bs)
  case (Cons b bs)
  have b: "unat b < 256" by (rule u8_bound)
  then have "(unat b + 256 * le_nat bs) mod 256 = unat b"
    and "(unat b + 256 * le_nat bs) div 256 = le_nat bs"
    by simp_all
  with Cons show ?case by simp
qed simp

lemma nat_le_inject: "x < 256 ^ n \<Longrightarrow> y < 256 ^ n \<Longrightarrow> nat_le n x = nat_le n y \<Longrightarrow> x = y"
  by (metis le_nat_nat_le mod_less)

text \<open>An array of \<open>u32\<close> values in consecutive bytes.\<close>

fun u32s :: "nat \<Rightarrow> bytes \<Rightarrow> nat list" where
  "u32s 0 bs = []"
| "u32s (Suc n) bs = le_nat (take 4 bs) # u32s n (drop 4 bs)"

definition u32_bytes :: "nat list \<Rightarrow> bytes" where
  "u32_bytes xs = concat (map (nat_le 4) xs)"

lemma length_u32s [simp]: "length (u32s n bs) = n"
  by (induction n arbitrary: bs) simp_all

lemma length_u32_bytes [simp]: "length (u32_bytes xs) = 4 * length xs"
  by (induction xs) (simp_all add: u32_bytes_def)

lemma u32s_u32_bytes:
  "\<forall>x\<in>set xs. x < 4294967296 \<Longrightarrow> u32s (length xs) (u32_bytes xs @ rest) = xs"
proof (induction xs)
  case (Cons x xs)
  then show ?case by (simp add: u32_bytes_def)
qed simp

lemma u32_bytes_u32s: "length bs = 4 * n \<Longrightarrow> u32_bytes (u32s n bs) = bs"
proof (induction n arbitrary: bs)
  case (Suc n)
  then have "nat_le 4 (le_nat (take 4 bs)) = take 4 bs"
    by (metis length_take min_absorb2 mult_Suc_right le_add1 nat_le_le_nat)
  moreover from Suc have "u32_bytes (u32s n (drop 4 bs)) = drop 4 bs" by simp
  ultimately show ?case by (simp add: u32_bytes_def)
qed (simp add: u32_bytes_def)

lemma u32s_bound: "x \<in> set (u32s n bs) \<Longrightarrow> x < 4294967296"
proof (induction n arbitrary: bs)
  case (Suc n)
  have "le_nat (take 4 bs) < 256 ^ length (take 4 bs)" by (rule le_nat_bound)
  also have "\<dots> \<le> 256 ^ 4" by (rule power_increasing) simp_all
  finally have "le_nat (take 4 bs) < 4294967296" by simp
  with Suc show ?case by auto
qed simp

section \<open>Byte buffers\<close>

text \<open>\<open>rd b off n\<close> is \<^verbatim>\<open>&buf[off..off + n]\<close>; \<open>wr b off bs\<close> copies \<open>bs\<close> to \<^verbatim>\<open>buf[off..]\<close>.\<close>

definition rd :: "buf \<Rightarrow> nat \<Rightarrow> nat \<Rightarrow> bytes" where
  "rd b off n = map (\<lambda>i. b (off + i)) [0..<n]"

definition wr :: "buf \<Rightarrow> nat \<Rightarrow> bytes \<Rightarrow> buf" where
  "wr b off bs = (\<lambda>a. if off \<le> a \<and> a < off + length bs then bs ! (a - off) else b a)"

abbreviation region :: "nat \<Rightarrow> nat \<Rightarrow> nat set" where
  "region off n \<equiv> {off..<off + n}"

lemma length_rd [simp]: "length (rd b off n) = n"
  by (simp add: rd_def)

lemma rd_nth [simp]: "i < n \<Longrightarrow> rd b off n ! i = b (off + i)"
  by (simp add: rd_def)

lemma rd_0 [simp]: "rd b off 0 = []"
  by (simp add: rd_def)

lemma wr_same_rd [buf_simps]: "rd (wr b off bs) off (length bs) = bs"
  by (rule nth_equalityI) (simp_all add: wr_def)

lemma rd_wr_same [buf_simps, simp]: "length bs = n \<Longrightarrow> rd (wr b off bs) off n = bs"
  using wr_same_rd by blast

lemma rd_cong: "(\<And>a. a \<in> region off n \<Longrightarrow> b' a = b a) \<Longrightarrow> rd b' off n = rd b off n"
  by (simp add: rd_def)

lemma wr_other: "a \<notin> region off (length bs) \<Longrightarrow> wr b off bs a = b a"
  by (auto simp: wr_def)

lemma rd_wr_disjoint:
  "off' + n \<le> off \<or> off + length bs \<le> off' \<Longrightarrow> rd (wr b off bs) off' n = rd b off' n"
  by (rule rd_cong) (auto intro: wr_other)

lemma rd_wr_disjoint_set:
  "region off' n \<inter> region off (length bs) = {} \<Longrightarrow> rd (wr b off bs) off' n = rd b off' n"
  by (rule rd_cong) (rule wr_other, auto)

lemma take_rd: "k \<le> n \<Longrightarrow> take k (rd b off n) = rd b off k"
  by (rule nth_equalityI) simp_all

lemma drop_rd: "k \<le> n \<Longrightarrow> drop k (rd b off n) = rd b (off + k) (n - k)"
  by (rule nth_equalityI) (simp_all add: add.assoc)

lemma rd_append: "rd b off (m + n) = rd b off m @ rd b (off + m) n"
  by (rule nth_equalityI) (auto simp: nth_append rd_def)

lemma wr_rd_eq: "wr b off (rd b off n) = b"
  by (rule ext) (auto simp: wr_def rd_def)

text \<open>Fixed-width fields of a buffer.\<close>

definition get_u16 :: "buf \<Rightarrow> nat \<Rightarrow> nat" where
  "get_u16 b off = le_nat (rd b off 2)"

definition get_u32 :: "buf \<Rightarrow> nat \<Rightarrow> nat" where
  "get_u32 b off = le_nat (rd b off 4)"

definition put_u16 :: "buf \<Rightarrow> nat \<Rightarrow> nat \<Rightarrow> buf" where
  "put_u16 b off x = wr b off (nat_le 2 x)"

definition put_u32 :: "buf \<Rightarrow> nat \<Rightarrow> nat \<Rightarrow> buf" where
  "put_u32 b off x = wr b off (nat_le 4 x)"

lemma get_u16_bound [simp]: "get_u16 b off < 65536"
  using le_nat_bound [of "rd b off 2"] by (simp add: get_u16_def)

lemma get_u32_bound [simp]: "get_u32 b off < 4294967296"
  using le_nat_bound [of "rd b off 4"] by (simp add: get_u32_def)

lemma get_put_same [buf_simps]:
  "get_u16 (put_u16 b off x) off = x mod 65536"
  "get_u32 (put_u32 b off x) off = x mod 4294967296"
  by (simp_all add: get_u16_def get_u32_def put_u16_def put_u32_def)

lemma get_u16_wr [buf_simps]:
  "off' + 2 \<le> off \<or> off + length bs \<le> off' \<Longrightarrow> get_u16 (wr b off bs) off' = get_u16 b off'"
  by (simp add: get_u16_def rd_wr_disjoint)

lemma get_u32_wr [buf_simps]:
  "off' + 4 \<le> off \<or> off + length bs \<le> off' \<Longrightarrow> get_u32 (wr b off bs) off' = get_u32 b off'"
  by (simp add: get_u32_def rd_wr_disjoint)

lemma get_u16_put [buf_simps]:
  "off' + 2 \<le> off \<or> off + 2 \<le> off' \<Longrightarrow> get_u16 (put_u16 b off x) off' = get_u16 b off'"
  "off' + 2 \<le> off \<or> off + 4 \<le> off' \<Longrightarrow> get_u16 (put_u32 b off x) off' = get_u16 b off'"
  by (simp_all add: put_u16_def put_u32_def get_u16_wr)

lemma get_u32_put [buf_simps]:
  "off' + 4 \<le> off \<or> off + 2 \<le> off' \<Longrightarrow> get_u32 (put_u16 b off x) off' = get_u32 b off'"
  "off' + 4 \<le> off \<or> off + 4 \<le> off' \<Longrightarrow> get_u32 (put_u32 b off x) off' = get_u32 b off'"
  by (simp_all add: put_u16_def put_u32_def get_u32_wr)

lemma rd_put [buf_simps]:
  "off' + n \<le> off \<or> off + 2 \<le> off' \<Longrightarrow> rd (put_u16 b off x) off' n = rd b off' n"
  "off' + n \<le> off \<or> off + 4 \<le> off' \<Longrightarrow> rd (put_u32 b off x) off' n = rd b off' n"
  by (simp_all add: put_u16_def put_u32_def rd_wr_disjoint)

lemma put_other:
  "a \<notin> region off 2 \<Longrightarrow> put_u16 b off x a = b a"
  "a \<notin> region off 4 \<Longrightarrow> put_u32 b off x a = b a"
  by (simp_all add: put_u16_def put_u32_def wr_other)

section \<open>Calls that may fail\<close>

text \<open>
  The outcome of a call to the operating system or to a store.  \<open>IoError n\<close>: the call fails, and
  the first \<open>n\<close> units of its work (bytes of a write, images of a batch) were done.
\<close>

datatype io_outcome = IoOk | IoError nat

definition io_error :: error where
  "io_error = BlobStoreIo ''I/O error''"

end
