(* ===== verification/Layout.thy ===== *)
theory Layout
  imports Prelude
begin

text \<open>
  The on-disk layout of \<^verbatim>\<open>src/layout/\<close>: the constants and header fields of a blob frame,
  the bit-packed slot entries, the node types with their sizes, and the bodies of the
  seven node structs with the byte-level image that \<^verbatim>\<open>#[repr(C)]\<close> and \<^verbatim>\<open>bytemuck\<close> give
  them.  The locale \<open>pod_layout\<close> states what every struct promises (a fixed size and a
  lossless cast in both directions) and is interpreted for each of them.
\<close>

unbundle bit_operations_syntax

section \<open>The blob header (\<^verbatim>\<open>layout/header.rs\<close>)\<close>

definition PAGE_SIZE :: nat where "PAGE_SIZE = 0x80000"
definition HEADER_SIZE :: nat where "HEADER_SIZE = 0x1000"
definition MAX_SLOTS :: nat where "MAX_SLOTS = 0x2800"
definition SLOT_TABLE_SIZE :: nat where "SLOT_TABLE_SIZE = MAX_SLOTS * 4"
definition DATA_AREA_START :: nat where "DATA_AREA_START = HEADER_SIZE + SLOT_TABLE_SIZE"
definition ROOT_BLOB_GUID :: blob_guid where "ROOT_BLOB_GUID = replicate 16 0"

lemma layout_consts:
  "PAGE_SIZE = 524288" "HEADER_SIZE = 4096" "MAX_SLOTS = 10240" "DATA_AREA_START = 45056"
  by (simp_all add: PAGE_SIZE_def HEADER_SIZE_def MAX_SLOTS_def DATA_AREA_START_def SLOT_TABLE_SIZE_def)

text \<open>The header fields, at the offsets the source pins at compile time.\<close>

definition num_slots :: "buf \<Rightarrow> nat" where "num_slots b = get_u16 b 0x54"
definition root_slot :: "buf \<Rightarrow> nat" where "root_slot b = get_u16 b 0x56"
definition space_used :: "buf \<Rightarrow> nat" where "space_used b = get_u32 b 0x58"
definition num_ext_blobs :: "buf \<Rightarrow> nat" where "num_ext_blobs b = get_u16 b 0x5c"
definition compact_times :: "buf \<Rightarrow> nat" where "compact_times b = get_u32 b 0x60"
definition gap_space :: "buf \<Rightarrow> nat" where "gap_space b = get_u32 b 0x68"
definition tombstone_leaf_cnt :: "buf \<Rightarrow> nat" where "tombstone_leaf_cnt b = get_u32 b 0x6c"
definition free_list_head :: "buf \<Rightarrow> nat \<Rightarrow> nat" where "free_list_head b i = get_u16 b (0x70 + 2 * i)"
definition header_guid :: "buf \<Rightarrow> blob_guid" where "header_guid b = rd b 0xa0 16"

definition set_num_slots :: "nat \<Rightarrow> buf \<Rightarrow> buf" where "set_num_slots x b = put_u16 b 0x54 x"
definition set_root_slot :: "nat \<Rightarrow> buf \<Rightarrow> buf" where "set_root_slot x b = put_u16 b 0x56 x"
definition set_space_used :: "nat \<Rightarrow> buf \<Rightarrow> buf" where "set_space_used x b = put_u32 b 0x58 x"
definition set_num_ext_blobs :: "nat \<Rightarrow> buf \<Rightarrow> buf" where "set_num_ext_blobs x b = put_u16 b 0x5c x"
definition set_compact_times :: "nat \<Rightarrow> buf \<Rightarrow> buf" where "set_compact_times x b = put_u32 b 0x60 x"
definition set_gap_space :: "nat \<Rightarrow> buf \<Rightarrow> buf" where "set_gap_space x b = put_u32 b 0x68 x"
definition set_tombstone_leaf_cnt :: "nat \<Rightarrow> buf \<Rightarrow> buf" where "set_tombstone_leaf_cnt x b = put_u32 b 0x6c x"
definition set_free_list_head :: "nat \<Rightarrow> nat \<Rightarrow> buf \<Rightarrow> buf" where "set_free_list_head i x b = put_u16 b (0x70 + 2 * i) x"
definition set_header_guid :: "blob_guid \<Rightarrow> buf \<Rightarrow> buf" where "set_header_guid g b = wr b 0xa0 g"

lemmas header_get_defs = num_slots_def root_slot_def space_used_def num_ext_blobs_def
  compact_times_def gap_space_def tombstone_leaf_cnt_def free_list_head_def header_guid_def

lemmas header_set_defs = set_num_slots_def set_root_slot_def set_space_used_def
  set_num_ext_blobs_def set_compact_times_def set_gap_space_def set_tombstone_leaf_cnt_def
  set_free_list_head_def set_header_guid_def

lemma header_get_set_same [simp]:
  "num_slots (set_num_slots x b) = x mod 65536"
  "root_slot (set_root_slot x b) = x mod 65536"
  "space_used (set_space_used x b) = x mod 4294967296"
  "num_ext_blobs (set_num_ext_blobs x b) = x mod 65536"
  "compact_times (set_compact_times x b) = x mod 4294967296"
  "gap_space (set_gap_space x b) = x mod 4294967296"
  "tombstone_leaf_cnt (set_tombstone_leaf_cnt x b) = x mod 4294967296"
  "free_list_head (set_free_list_head i x b) i = x mod 65536"
  "length g = 16 \<Longrightarrow> header_guid (set_header_guid g b) = g"
  by (simp_all add: header_get_defs header_set_defs buf_simps)

lemma num_slots_set [simp]:
  "num_slots (set_root_slot x b) = num_slots b"
  "num_slots (set_space_used x b) = num_slots b"
  "num_slots (set_num_ext_blobs x b) = num_slots b"
  "num_slots (set_compact_times x b) = num_slots b"
  "num_slots (set_gap_space x b) = num_slots b"
  "num_slots (set_tombstone_leaf_cnt x b) = num_slots b"
  "num_slots (set_free_list_head i x b) = num_slots b"
  "num_slots (set_header_guid gd b) = num_slots b"
  by (simp_all add: header_get_defs header_set_defs buf_simps)

lemma root_slot_set [simp]:
  "root_slot (set_num_slots x b) = root_slot b"
  "root_slot (set_space_used x b) = root_slot b"
  "root_slot (set_num_ext_blobs x b) = root_slot b"
  "root_slot (set_compact_times x b) = root_slot b"
  "root_slot (set_gap_space x b) = root_slot b"
  "root_slot (set_tombstone_leaf_cnt x b) = root_slot b"
  "root_slot (set_free_list_head i x b) = root_slot b"
  "root_slot (set_header_guid gd b) = root_slot b"
  by (simp_all add: header_get_defs header_set_defs buf_simps)

lemma space_used_set [simp]:
  "space_used (set_num_slots x b) = space_used b"
  "space_used (set_root_slot x b) = space_used b"
  "space_used (set_num_ext_blobs x b) = space_used b"
  "space_used (set_compact_times x b) = space_used b"
  "space_used (set_gap_space x b) = space_used b"
  "space_used (set_tombstone_leaf_cnt x b) = space_used b"
  "space_used (set_free_list_head i x b) = space_used b"
  "space_used (set_header_guid gd b) = space_used b"
  by (simp_all add: header_get_defs header_set_defs buf_simps)

lemma num_ext_blobs_set [simp]:
  "num_ext_blobs (set_num_slots x b) = num_ext_blobs b"
  "num_ext_blobs (set_root_slot x b) = num_ext_blobs b"
  "num_ext_blobs (set_space_used x b) = num_ext_blobs b"
  "num_ext_blobs (set_compact_times x b) = num_ext_blobs b"
  "num_ext_blobs (set_gap_space x b) = num_ext_blobs b"
  "num_ext_blobs (set_tombstone_leaf_cnt x b) = num_ext_blobs b"
  "num_ext_blobs (set_free_list_head i x b) = num_ext_blobs b"
  "num_ext_blobs (set_header_guid gd b) = num_ext_blobs b"
  by (simp_all add: header_get_defs header_set_defs buf_simps)

lemma compact_times_set [simp]:
  "compact_times (set_num_slots x b) = compact_times b"
  "compact_times (set_root_slot x b) = compact_times b"
  "compact_times (set_space_used x b) = compact_times b"
  "compact_times (set_num_ext_blobs x b) = compact_times b"
  "compact_times (set_gap_space x b) = compact_times b"
  "compact_times (set_tombstone_leaf_cnt x b) = compact_times b"
  "compact_times (set_free_list_head i x b) = compact_times b"
  "compact_times (set_header_guid gd b) = compact_times b"
  by (simp_all add: header_get_defs header_set_defs buf_simps)

lemma gap_space_set [simp]:
  "gap_space (set_num_slots x b) = gap_space b"
  "gap_space (set_root_slot x b) = gap_space b"
  "gap_space (set_space_used x b) = gap_space b"
  "gap_space (set_num_ext_blobs x b) = gap_space b"
  "gap_space (set_compact_times x b) = gap_space b"
  "gap_space (set_tombstone_leaf_cnt x b) = gap_space b"
  "gap_space (set_free_list_head i x b) = gap_space b"
  "gap_space (set_header_guid gd b) = gap_space b"
  by (simp_all add: header_get_defs header_set_defs buf_simps)

lemma tombstone_leaf_cnt_set [simp]:
  "tombstone_leaf_cnt (set_num_slots x b) = tombstone_leaf_cnt b"
  "tombstone_leaf_cnt (set_root_slot x b) = tombstone_leaf_cnt b"
  "tombstone_leaf_cnt (set_space_used x b) = tombstone_leaf_cnt b"
  "tombstone_leaf_cnt (set_num_ext_blobs x b) = tombstone_leaf_cnt b"
  "tombstone_leaf_cnt (set_compact_times x b) = tombstone_leaf_cnt b"
  "tombstone_leaf_cnt (set_gap_space x b) = tombstone_leaf_cnt b"
  "tombstone_leaf_cnt (set_free_list_head i x b) = tombstone_leaf_cnt b"
  "tombstone_leaf_cnt (set_header_guid gd b) = tombstone_leaf_cnt b"
  by (simp_all add: header_get_defs header_set_defs buf_simps)

lemma free_list_head_set [simp]:
  "free_list_head (set_num_slots x b) i = free_list_head b i"
  "free_list_head (set_root_slot x b) i = free_list_head b i"
  "free_list_head (set_space_used x b) i = free_list_head b i"
  "free_list_head (set_num_ext_blobs x b) i = free_list_head b i"
  "free_list_head (set_compact_times x b) i = free_list_head b i"
  "free_list_head (set_gap_space x b) i = free_list_head b i"
  "free_list_head (set_tombstone_leaf_cnt x b) i = free_list_head b i"
  "i < 8 \<Longrightarrow> free_list_head (set_header_guid gd b) i = free_list_head b i"
  by (simp_all add: header_get_defs header_set_defs buf_simps)

lemma free_list_head_set_other [simp]:
  "i \<noteq> j \<Longrightarrow> free_list_head (set_free_list_head j x b) i = free_list_head b i"
  unfolding free_list_head_def set_free_list_head_def by (rule get_u16_put(1)) arith

lemma header_guid_set [simp]:
  "header_guid (set_num_slots x b) = header_guid b"
  "header_guid (set_root_slot x b) = header_guid b"
  "header_guid (set_space_used x b) = header_guid b"
  "header_guid (set_num_ext_blobs x b) = header_guid b"
  "header_guid (set_compact_times x b) = header_guid b"
  "header_guid (set_gap_space x b) = header_guid b"
  "header_guid (set_tombstone_leaf_cnt x b) = header_guid b"
  "i < 8 \<Longrightarrow> header_guid (set_free_list_head i x b) = header_guid b"
  by (simp_all add: header_get_defs header_set_defs buf_simps)

text \<open>Writes at or above the end of the header do not change it; header updates stay inside it.\<close>

lemma header_wr [simp]:
  assumes "HEADER_SIZE \<le> off"
  shows "num_slots (wr b off bs) = num_slots b"
    and "root_slot (wr b off bs) = root_slot b"
    and "space_used (wr b off bs) = space_used b"
    and "num_ext_blobs (wr b off bs) = num_ext_blobs b"
    and "compact_times (wr b off bs) = compact_times b"
    and "gap_space (wr b off bs) = gap_space b"
    and "tombstone_leaf_cnt (wr b off bs) = tombstone_leaf_cnt b"
    and "i < 8 \<Longrightarrow> free_list_head (wr b off bs) i = free_list_head b i"
    and "header_guid (wr b off bs) = header_guid b"
  using assms by (simp_all add: header_get_defs get_u16_wr get_u32_wr rd_wr_disjoint HEADER_SIZE_def)

lemma header_set_other [simp]:
  assumes "HEADER_SIZE \<le> a"
  shows "set_num_slots x b a = b a"
    and "set_root_slot x b a = b a"
    and "set_space_used x b a = b a"
    and "set_num_ext_blobs x b a = b a"
    and "set_compact_times x b a = b a"
    and "set_gap_space x b a = b a"
    and "set_tombstone_leaf_cnt x b a = b a"
    and "i < 8 \<Longrightarrow> set_free_list_head i x b a = b a"
    and "length g = 16 \<Longrightarrow> set_header_guid g b a = b a"
  using assms by (simp_all add: header_set_defs put_u16_def put_u32_def wr_other HEADER_SIZE_def)

lemma header_cong:
  assumes "\<And>a. a < HEADER_SIZE \<Longrightarrow> b' a = b a"
  shows "num_slots b' = num_slots b" and "root_slot b' = root_slot b"
    and "space_used b' = space_used b" and "num_ext_blobs b' = num_ext_blobs b"
    and "gap_space b' = gap_space b" and "tombstone_leaf_cnt b' = tombstone_leaf_cnt b"
    and "i < 8 \<Longrightarrow> free_list_head b' i = free_list_head b i"
    and "header_guid b' = header_guid b"
proof -
  have r: "rd b' off n = rd b off n" if "off + n \<le> 4096" for off n
    by (rule rd_cong) (use that assms in \<open>simp add: HEADER_SIZE_def\<close>)
  show "num_slots b' = num_slots b" "root_slot b' = root_slot b"
    "space_used b' = space_used b" "num_ext_blobs b' = num_ext_blobs b"
    "gap_space b' = gap_space b" "tombstone_leaf_cnt b' = tombstone_leaf_cnt b"
    "i < 8 \<Longrightarrow> free_list_head b' i = free_list_head b i"
    "header_guid b' = header_guid b"
    by (simp_all add: header_get_defs get_u16_def get_u32_def r)
qed

lemma header_bounds [simp]:
  "num_slots b < 65536" "root_slot b < 65536" "space_used b < 4294967296"
  "num_ext_blobs b < 65536" "gap_space b < 4294967296" "tombstone_leaf_cnt b < 4294967296"
  "free_list_head b i < 65536"
  by (simp_all add: header_get_defs)

section \<open>Node types (\<^verbatim>\<open>layout/node.rs\<close>)\<close>

datatype node_type = Invalid | LeafT | PrefixT | BlobT | Node4T | Node16T | Node48T | Node256T | EmptyRoot

fun nt_as_u8 :: "node_type \<Rightarrow> nat" where
  "nt_as_u8 Invalid = 0"
| "nt_as_u8 LeafT = 1"
| "nt_as_u8 PrefixT = 2"
| "nt_as_u8 BlobT = 3"
| "nt_as_u8 Node4T = 4"
| "nt_as_u8 Node16T = 5"
| "nt_as_u8 Node48T = 6"
| "nt_as_u8 Node256T = 7"
| "nt_as_u8 EmptyRoot = 8"

definition from_raw :: "nat \<Rightarrow> node_type option" where
  "from_raw v = (if v = 0 then Some Invalid else if v = 1 then Some LeafT
    else if v = 2 then Some PrefixT else if v = 3 then Some BlobT
    else if v = 4 then Some Node4T else if v = 5 then Some Node16T
    else if v = 6 then Some Node48T else if v = 7 then Some Node256T
    else if v = 8 then Some EmptyRoot else None)"

definition SIZE_BY_TYPE :: "nat list" where
  "SIZE_BY_TYPE = [16, 128, 128, 24, 88, 456, 1032, 8]"

text \<open>\<open>None\<close> is the panic on \<open>Invalid\<close>.\<close>

definition size_of_node :: "node_type \<Rightarrow> nat option" where
  "size_of_node nt = (if nt = Invalid then None else Some (SIZE_BY_TYPE ! (nt_as_u8 nt - 1)))"

fun node_bytes :: "node_type \<Rightarrow> nat" where
  "node_bytes Invalid = 0"
| "node_bytes LeafT = 16"
| "node_bytes PrefixT = 128"
| "node_bytes BlobT = 128"
| "node_bytes Node4T = 24"
| "node_bytes Node16T = 88"
| "node_bytes Node48T = 456"
| "node_bytes Node256T = 1032"
| "node_bytes EmptyRoot = 8"

lemma size_of_node [simp]: "nt \<noteq> Invalid \<Longrightarrow> size_of_node nt = Some (node_bytes nt)"
  by (cases nt) (simp_all add: size_of_node_def SIZE_BY_TYPE_def)

lemma node_bytes_aligned [simp]: "node_bytes nt mod 8 = 0" "8 dvd node_bytes nt"
  by (cases nt; simp)+

lemma node_bytes_bounds: "nt \<noteq> Invalid \<Longrightarrow> 8 \<le> node_bytes nt" "node_bytes nt \<le> 1032"
  by (cases nt; simp)+

lemma nt_as_u8_bound: "nt_as_u8 nt \<le> 8"
  by (cases nt) simp_all

lemma nt_as_u8_0 [simp]: "nt_as_u8 nt = 0 \<longleftrightarrow> nt = Invalid"
  by (cases nt) simp_all

lemma nt_as_u8_inject [simp]: "nt_as_u8 s = nt_as_u8 t \<longleftrightarrow> s = t"
  by (cases s; cases t) simp_all

lemma from_raw_as_u8 [simp]: "from_raw (nt_as_u8 nt) = Some nt"
  by (cases nt) (simp_all add: from_raw_def)

lemma from_raw_Some: "from_raw v = Some nt \<Longrightarrow> v = nt_as_u8 nt"
  by (auto simp: from_raw_def split: if_splits)

section \<open>Slot entries (\<^verbatim>\<open>layout/slot.rs\<close>)\<close>

record slot_entry =
  offset_div8 :: u32
  ntype_or_next_free :: "16 word"

definition OFFSET_DIV8_MASK :: u32 where "OFFSET_DIV8_MASK = push_bit 17 1 - 1"
definition TAG_SHIFT :: nat where "TAG_SHIFT = 17"

definition slot_live :: "node_type \<Rightarrow> nat \<Rightarrow> slot_entry" where
  "slot_live nt byte_off = \<lparr>offset_div8 = of_nat (byte_off div 8), ntype_or_next_free = of_nat (nt_as_u8 nt)\<rparr>"

definition slot_freed :: "nat \<Rightarrow> nat \<Rightarrow> slot_entry" where
  "slot_freed next_free_slot byte_off =
     \<lparr>offset_div8 = of_nat (byte_off div 8), ntype_or_next_free = of_nat next_free_slot\<rparr>"

definition byte_offset :: "slot_entry \<Rightarrow> nat" where
  "byte_offset e = unat (offset_div8 e * 8)"

definition slot_node_type :: "slot_entry \<Rightarrow> node_type option" where
  "slot_node_type e = from_raw (unat (ucast (ntype_or_next_free e) :: u8))"

definition next_free :: "slot_entry \<Rightarrow> nat" where
  "next_free e = unat (ntype_or_next_free e)"

definition slot_raw :: "slot_entry \<Rightarrow> u32" where
  "slot_raw e = push_bit TAG_SHIFT (ucast (ntype_or_next_free e)) OR offset_div8 e"

definition slot_decode :: "u32 \<Rightarrow> slot_entry" where
  "slot_decode w = \<lparr>offset_div8 = w AND OFFSET_DIV8_MASK, ntype_or_next_free = ucast (drop_bit TAG_SHIFT w)\<rparr>"

text \<open>The packing in arithmetic terms.\<close>

lemma OFFSET_DIV8_MASK_mask: "OFFSET_DIV8_MASK = mask 17"
  by (simp add: OFFSET_DIV8_MASK_def mask_eq_exp_minus_1 push_bit_eq_mult)

lemma take_bit_word_self: "unat w < 2 ^ n \<Longrightarrow> take_bit n (w :: 'a::len word) = w"
  by (simp only: word_unat_eq_iff unsigned_take_bit_eq take_bit_nat_eq_self)

lemma slot_decode_raw:
  assumes "unat (offset_div8 e) < 2 ^ 17" and "unat (ntype_or_next_free e) < 2 ^ 15"
  shows "slot_decode (slot_raw e) = e"
proof -
  have off: "take_bit 17 (offset_div8 e) = offset_div8 e"
    using assms(1) by (rule take_bit_word_self)
  have tag: "take_bit 15 (ntype_or_next_free e) = ntype_or_next_free e"
    using assms(2) by (rule take_bit_word_self)
  have offb: "n < 17" if "bit (offset_div8 e) n" for n
    using off that by (metis bit_take_bit_iff)
  have tagb: "n < 15" if "bit (ntype_or_next_free e) n" for n
    using tag that by (metis bit_take_bit_iff)
  have "slot_raw e AND OFFSET_DIV8_MASK = offset_div8 e"
    by (rule bit_word_eqI)
      (auto simp: slot_raw_def OFFSET_DIV8_MASK_mask TAG_SHIFT_def bit_simps dest: offb)
  moreover have "ucast (drop_bit TAG_SHIFT (slot_raw e)) = ntype_or_next_free e"
  proof (rule bit_word_eqI)
    fix n assume "n < LENGTH(16)"
    then show "bit (ucast (drop_bit TAG_SHIFT (slot_raw e)) :: 16 word) n = bit (ntype_or_next_free e) n"
      by (cases "n < 15") (auto simp: slot_raw_def TAG_SHIFT_def bit_simps dest: offb tagb)
  qed
  ultimately show ?thesis by (simp add: slot_decode_def)
qed

lemma unat_of_nat_less: "x < 2 ^ LENGTH('a) \<Longrightarrow> unat (of_nat x :: 'a::len word) = x"
  by (simp add: unat_of_nat take_bit_nat_eq_self)

lemma slot_live_wf:
  "off < PAGE_SIZE \<Longrightarrow> unat (offset_div8 (slot_live nt off)) = off div 8"
  "unat (ntype_or_next_free (slot_live nt off)) = nt_as_u8 nt"
  using nt_as_u8_bound [of nt]
  by (simp_all add: slot_live_def unat_of_nat_less layout_consts)

lemma slot_freed_wf:
  "off < PAGE_SIZE \<Longrightarrow> unat (offset_div8 (slot_freed nf off)) = off div 8"
  "nf < 2 ^ 16 \<Longrightarrow> unat (ntype_or_next_free (slot_freed nf off)) = nf"
  by (simp_all add: slot_freed_def unat_of_nat_less layout_consts)

lemma slot_live_round:
  assumes "off < PAGE_SIZE"
  shows "slot_decode (slot_raw (slot_live nt off)) = slot_live nt off"
  using assms nt_as_u8_bound [of nt]
  by (intro slot_decode_raw) (simp_all add: slot_live_wf, simp add: layout_consts)

lemma slot_freed_round:
  assumes "off < PAGE_SIZE" and "nf < 2 ^ 15"
  shows "slot_decode (slot_raw (slot_freed nf off)) = slot_freed nf off"
  using assms by (intro slot_decode_raw) (simp_all add: slot_freed_wf, simp add: layout_consts)

lemma byte_offset_alt: "unat (offset_div8 e) < 2 ^ 17 \<Longrightarrow> byte_offset e = 8 * unat (offset_div8 e)"
  by (simp add: byte_offset_def unat_word_ariths)

lemma byte_offset_live [simp]:
  "off < PAGE_SIZE \<Longrightarrow> 8 dvd off \<Longrightarrow> byte_offset (slot_live nt off) = off"
  by (subst byte_offset_alt) (simp_all add: slot_live_wf, simp add: layout_consts)

lemma byte_offset_freed [simp]:
  "off < PAGE_SIZE \<Longrightarrow> 8 dvd off \<Longrightarrow> byte_offset (slot_freed nf off) = off"
  by (subst byte_offset_alt) (simp_all add: slot_freed_wf, simp add: layout_consts)

lemma slot_node_type_live [simp]: "slot_node_type (slot_live nt off) = Some nt"
  by (cases nt) (simp_all add: slot_node_type_def slot_live_def from_raw_def)

lemma next_free_freed [simp]: "nf < 2 ^ 16 \<Longrightarrow> next_free (slot_freed nf off) = nf"
  by (simp add: next_free_def slot_freed_wf)

section \<open>Properties of the slot entries\<close>

text \<open>C33. A slot entry survives its packing into 32 bits: a live entry keeps its node type
  and its byte offset, a free entry keeps its link and its byte offset, for every aligned
  offset of the page and every slot number of the table.\<close>

theorem slot_entry_roundtrip:
  assumes "off < PAGE_SIZE" and "8 dvd off" and "nf \<le> MAX_SLOTS"
  shows "slot_node_type (slot_decode (slot_raw (slot_live nt off))) = Some nt
     \<and> byte_offset (slot_decode (slot_raw (slot_live nt off))) = off
     \<and> next_free (slot_decode (slot_raw (slot_freed nf off))) = nf
     \<and> byte_offset (slot_decode (slot_raw (slot_freed nf off))) = off"
  using assms by (simp add: slot_live_round slot_freed_round layout_consts)

theorem slot_entry_roundtrip_witness:
  "(45064 :: nat) < PAGE_SIZE \<and> 8 dvd (45064 :: nat) \<and> 7 \<le> MAX_SLOTS
   \<and> slot_node_type (slot_decode (slot_raw (slot_live Node48T 45064))) = Some Node48T
   \<and> byte_offset (slot_decode (slot_raw (slot_live Node48T 45064))) = 45064
   \<and> next_free (slot_decode (slot_raw (slot_freed 7 45064))) = 7
   \<and> byte_offset (slot_decode (slot_raw (slot_freed 7 45064))) = 45064"
  using slot_entry_roundtrip [of 45064 7 Node48T] by (simp add: layout_consts)

text \<open>The node type of an entry is only meaningful while the slot is live: the tag of a
  free entry is a link, and reading it as a node type looks at its low byte only, so a link
  to slot 260 reads as a four-way node although the tag is past every node type.\<close>

theorem freed_entry_reads_as_node:
  "slot_node_type (slot_freed 260 off) = Some Node4T \<and> nt_as_u8 Node4T < 260"
  by (simp add: slot_node_type_def slot_freed_def from_raw_def)

end
