(* ===== verification/Nodes.thy ===== *)
theory Nodes
  imports Layout
begin

text \<open>
  The node bodies of \<^verbatim>\<open>src/layout/leaf.rs\<close>, \<^verbatim>\<open>prefix.rs\<close>, \<^verbatim>\<open>blob_node.rs\<close> and
  \<^verbatim>\<open>nodes.rs\<close>: one record per struct, its byte image (\<open>enc\<close>) and the cast back from a
  body of the right size (\<open>dec\<close>).  Padding fields are part of the records, so that a
  read-modify-write of a body keeps every byte the code keeps.
\<close>

section \<open>What a plain-old-data struct promises\<close>

locale pod_layout =
  fixes enc :: "'a \<Rightarrow> bytes"
    and dec :: "bytes \<Rightarrow> 'a"
    and wf :: "'a \<Rightarrow> bool"
    and size :: nat
  assumes length_enc: "wf x \<Longrightarrow> length (enc x) = size"
    and dec_enc: "wf x \<Longrightarrow> dec (enc x) = x"
    and enc_dec: "length bs = size \<Longrightarrow> enc (dec bs) = bs"
    and wf_dec: "length bs = size \<Longrightarrow> wf (dec bs)"
begin

lemma read_after_write: "wf x \<Longrightarrow> dec (rd (wr b off (enc x)) off size) = x"
  by (simp add: length_enc dec_enc)

lemma write_back: "wr b off (enc (dec (rd b off size))) = b"
  by (simp add: enc_dec wr_rd_eq)

lemma enc_inject: "wf x \<Longrightarrow> wf y \<Longrightarrow> enc x = enc y \<Longrightarrow> x = y"
  by (metis dec_enc)

lemma write_frame: "wf x \<Longrightarrow> a \<notin> region off size \<Longrightarrow> wr b off (enc x) a = b a"
  by (simp add: length_enc wr_other)

lemma wf_read: "wf (dec (rd b off size))"
  by (simp add: wf_dec)

end

text \<open>Splitting a body at the field boundaries.\<close>

lemma nat_le_take: "n \<le> length bs \<Longrightarrow> nat_le n (le_nat (take n bs)) = take n bs"
  by (metis length_take min_absorb2 nat_le_le_nat)

lemma field_first: "rest = drop n bs \<Longrightarrow> take n bs @ rest = bs"
  by simp

lemma field_next: "m' = m \<Longrightarrow> rest = drop (m + n) bs \<Longrightarrow> take n (drop m bs) @ rest = drop m' bs"
  by (metis add.commute append_take_drop_id drop_drop)

lemma field_last: "m' = m \<Longrightarrow> length bs = m + n \<Longrightarrow> take n (drop m bs) = drop m' bs"
  by simp

lemmas field_rules = field_first field_next field_last

lemma le_nat_take_bound: "le_nat (take n bs) < 256 ^ n"
proof -
  have "le_nat (take n bs) < 256 ^ length (take n bs)" by (rule le_nat_bound)
  also have "\<dots> \<le> (256 :: nat) ^ n" by (rule power_increasing) simp_all
  finally show ?thesis .
qed

section \<open>Leaf\<close>

record leaf =
  value_size :: nat
  tombstone :: nat
  leaf_pad :: nat
  key_offset :: nat
  leaf_seq :: nat

definition wf_leaf :: "leaf \<Rightarrow> bool" where
  "wf_leaf l \<longleftrightarrow> value_size l < 256 ^ 2 \<and> tombstone l < 256 ^ 1 \<and> leaf_pad l < 256 ^ 1
     \<and> key_offset l < 256 ^ 4 \<and> leaf_seq l < 256 ^ 8"

definition enc_leaf :: "leaf \<Rightarrow> bytes" where
  "enc_leaf l = nat_le 2 (value_size l) @ nat_le 1 (tombstone l) @ nat_le 1 (leaf_pad l)
     @ nat_le 4 (key_offset l) @ nat_le 8 (leaf_seq l)"

definition dec_leaf :: "bytes \<Rightarrow> leaf" where
  "dec_leaf bs = \<lparr>value_size = le_nat (take 2 bs), tombstone = le_nat (take 1 (drop 2 bs)),
     leaf_pad = le_nat (take 1 (drop 3 bs)), key_offset = le_nat (take 4 (drop 4 bs)),
     leaf_seq = le_nat (take 8 (drop 8 bs))\<rparr>"

definition leaf_live :: "nat \<Rightarrow> nat \<Rightarrow> nat \<Rightarrow> leaf" where
  "leaf_live koff vsize seq = \<lparr>value_size = vsize, tombstone = 0, leaf_pad = 0,
     key_offset = koff, leaf_seq = seq\<rparr>"

text \<open>\<^verbatim>\<open>(raw + 7) & !7\<close> on \<open>u32\<close>.\<close>

definition align8 :: "nat \<Rightarrow> nat" where
  "align8 raw = unat ((of_nat raw + 7 :: u32) AND NOT 7)"

definition leaf_extent_size :: "nat \<Rightarrow> nat \<Rightarrow> nat" where
  "leaf_extent_size key_len value_len = (let raw = 2 + key_len + value_len in align8 raw)"

interpretation leaf: pod_layout enc_leaf dec_leaf wf_leaf 16
proof
  fix bs :: bytes assume "length bs = 16"
  then show "enc_leaf (dec_leaf bs) = bs"
    unfolding enc_leaf_def dec_leaf_def leaf.simps
    by (subst nat_le_take, simp)+ (intro field_rules; simp)
  show "wf_leaf (dec_leaf bs)"
    unfolding wf_leaf_def dec_leaf_def by (simp only: leaf.simps le_nat_take_bound simp_thms)
qed (simp_all add: enc_leaf_def dec_leaf_def wf_leaf_def)

lemma wf_leaf_live: "koff < 2 ^ 32 \<Longrightarrow> vsize < 2 ^ 16 \<Longrightarrow> seq < 2 ^ 64 \<Longrightarrow> wf_leaf (leaf_live koff vsize seq)"
  by (simp add: wf_leaf_def leaf_live_def)

lemma leaf_live_simps [simp]:
  "value_size (leaf_live koff vsize seq) = vsize"
  "tombstone (leaf_live koff vsize seq) = 0"
  "key_offset (leaf_live koff vsize seq) = koff"
  "leaf_seq (leaf_live koff vsize seq) = seq"
  by (simp_all add: leaf_live_def)

text \<open>The extent size is the raw size rounded up to a multiple of eight.\<close>

lemma and_not_7: "(w :: u32) AND NOT 7 = push_bit 3 (drop_bit 3 w)"
proof (rule bit_word_eqI)
  have m: "(7 :: u32) = mask 3" by (simp add: mask_eq_exp_minus_1)
  fix n assume "n < LENGTH(32)"
  then show "bit (w AND NOT 7) n = bit (push_bit 3 (drop_bit 3 w)) n"
    by (auto simp: bit_simps m)
qed

lemma unat_and_not_7: "unat ((w :: u32) AND NOT 7) = 8 * (unat w div 8)"
proof -
  have w: "unat w < 4294967296"
    using unsigned_less [of w] by simp
  then have "unat (drop_bit 3 w) = unat w div 8"
    by (simp only: unsigned_drop_bit_eq) (simp add: drop_bit_eq_div take_bit_nat_eq_self)
  moreover have "unat (push_bit 3 (drop_bit 3 w)) = (8 * unat (drop_bit 3 w)) mod 2 ^ 32"
    by (simp add: push_bit_eq_mult unat_word_ariths mult.commute)
  moreover have "8 * (unat w div 8) < 2 ^ 32"
    using w by (simp add: le_less_trans [OF times_div_less_eq_dividend])
  ultimately show ?thesis unfolding and_not_7 by simp
qed

lemma align8_eq:
  assumes "raw < 2 ^ 31"
  shows "align8 raw = 8 * ((raw + 7) div 8)"
proof -
  have "(of_nat raw + 7 :: u32) = of_nat (raw + 7)" by simp
  moreover have "unat (of_nat (raw + 7) :: u32) = raw + 7"
    by (rule unat_of_nat_less) (use assms in simp)
  ultimately have "unat (of_nat raw + 7 :: u32) = raw + 7" by (simp only:)
  then show ?thesis by (simp only: align8_def unat_and_not_7)
qed

lemma align8_bounds:
  assumes "raw < 2 ^ 31"
  shows "8 dvd align8 raw" and "raw \<le> align8 raw" and "align8 raw < raw + 8"
  using align8_eq [OF assms] by simp_all

lemma leaf_extent_size_bounds:
  assumes "key_len < 2 ^ 17" and "value_len < 2 ^ 17"
  shows "8 dvd leaf_extent_size key_len value_len"
    and "2 + key_len + value_len \<le> leaf_extent_size key_len value_len"
    and "leaf_extent_size key_len value_len < 2 + key_len + value_len + 8"
  using assms align8_bounds [of "2 + key_len + value_len"]
  by (simp_all add: leaf_extent_size_def Let_def)

section \<open>Prefix\<close>

definition PREFIX_MAX_INLINE :: nat where "PREFIX_MAX_INLINE = 112"

record prefix =
  pfx_count :: nat
  pfx_node_type :: nat
  pfx_pad_2 :: bytes
  prefix_len :: nat
  pfx_pad_6 :: nat
  pfx_child :: nat
  pfx_pad_12 :: nat
  pfx_bytes :: bytes

definition wf_prefix :: "prefix \<Rightarrow> bool" where
  "wf_prefix p \<longleftrightarrow> pfx_count p < 256 ^ 1 \<and> pfx_node_type p < 256 ^ 1 \<and> length (pfx_pad_2 p) = 2
     \<and> prefix_len p < 256 ^ 2 \<and> pfx_pad_6 p < 256 ^ 2 \<and> pfx_child p < 256 ^ 4
     \<and> pfx_pad_12 p < 256 ^ 4 \<and> length (pfx_bytes p) = 112"

definition enc_prefix :: "prefix \<Rightarrow> bytes" where
  "enc_prefix p = nat_le 1 (pfx_count p) @ nat_le 1 (pfx_node_type p) @ pfx_pad_2 p
     @ nat_le 2 (prefix_len p) @ nat_le 2 (pfx_pad_6 p) @ nat_le 4 (pfx_child p)
     @ nat_le 4 (pfx_pad_12 p) @ pfx_bytes p"

definition dec_prefix :: "bytes \<Rightarrow> prefix" where
  "dec_prefix bs = \<lparr>pfx_count = le_nat (take 1 bs), pfx_node_type = le_nat (take 1 (drop 1 bs)),
     pfx_pad_2 = take 2 (drop 2 bs), prefix_len = le_nat (take 2 (drop 4 bs)),
     pfx_pad_6 = le_nat (take 2 (drop 6 bs)), pfx_child = le_nat (take 4 (drop 8 bs)),
     pfx_pad_12 = le_nat (take 4 (drop 12 bs)), pfx_bytes = take 112 (drop 16 bs)\<rparr>"

text \<open>\<^verbatim>\<open>Prefix::new\<close> asserts that the bytes fit inline.\<close>

definition prefix_new :: "bytes \<Rightarrow> nat \<Rightarrow> prefix res" where
  "prefix_new prefix_bytes child_slot =
     (if length prefix_bytes \<le> PREFIX_MAX_INLINE
      then Inr \<lparr>pfx_count = 1, pfx_node_type = nt_as_u8 PrefixT, pfx_pad_2 = replicate 2 0,
        prefix_len = as_u16 (length prefix_bytes), pfx_pad_6 = 0, pfx_child = child_slot,
        pfx_pad_12 = 0,
        pfx_bytes = prefix_bytes @ replicate (PREFIX_MAX_INLINE - length prefix_bytes) 0\<rparr>
      else Inl (Panic ''Prefix::new''))"

interpretation prefix: pod_layout enc_prefix dec_prefix wf_prefix 128
proof
  fix bs :: bytes assume len: "length bs = 128"
  then show "enc_prefix (dec_prefix bs) = bs"
    unfolding enc_prefix_def dec_prefix_def prefix.simps
    by (subst nat_le_take, simp)+ (intro field_rules; simp)
  show "wf_prefix (dec_prefix bs)"
    unfolding wf_prefix_def dec_prefix_def
    by (simp only: prefix.simps le_nat_take_bound simp_thms) (simp add: len)
qed (simp_all add: enc_prefix_def dec_prefix_def wf_prefix_def)

section \<open>Blob crossing\<close>

definition BLOB_MAX_INLINE :: nat where "BLOB_MAX_INLINE = 104"

record blob_node =
  bn_count :: nat
  bn_node_type :: nat
  bn_pad_2 :: bytes
  bn_prefix_len :: nat
  bn_pad_6 :: nat
  child_blob_guid :: blob_guid
  bn_bytes :: bytes

definition wf_blob_node :: "blob_node \<Rightarrow> bool" where
  "wf_blob_node p \<longleftrightarrow> bn_count p < 256 ^ 1 \<and> bn_node_type p < 256 ^ 1 \<and> length (bn_pad_2 p) = 2
     \<and> bn_prefix_len p < 256 ^ 2 \<and> bn_pad_6 p < 256 ^ 2 \<and> length (child_blob_guid p) = 16
     \<and> length (bn_bytes p) = 104"

definition enc_blob_node :: "blob_node \<Rightarrow> bytes" where
  "enc_blob_node p = nat_le 1 (bn_count p) @ nat_le 1 (bn_node_type p) @ bn_pad_2 p
     @ nat_le 2 (bn_prefix_len p) @ nat_le 2 (bn_pad_6 p) @ child_blob_guid p @ bn_bytes p"

definition dec_blob_node :: "bytes \<Rightarrow> blob_node" where
  "dec_blob_node bs = \<lparr>bn_count = le_nat (take 1 bs), bn_node_type = le_nat (take 1 (drop 1 bs)),
     bn_pad_2 = take 2 (drop 2 bs), bn_prefix_len = le_nat (take 2 (drop 4 bs)),
     bn_pad_6 = le_nat (take 2 (drop 6 bs)), child_blob_guid = take 16 (drop 8 bs),
     bn_bytes = take 104 (drop 24 bs)\<rparr>"

definition blob_node_new :: "bytes \<Rightarrow> blob_guid \<Rightarrow> blob_node res" where
  "blob_node_new prefix_bytes child_guid =
     (if length prefix_bytes \<le> BLOB_MAX_INLINE
      then Inr \<lparr>bn_count = 1, bn_node_type = nt_as_u8 BlobT, bn_pad_2 = replicate 2 0,
        bn_prefix_len = as_u16 (length prefix_bytes), bn_pad_6 = 0, child_blob_guid = child_guid,
        bn_bytes = prefix_bytes @ replicate (BLOB_MAX_INLINE - length prefix_bytes) 0\<rparr>
      else Inl (Panic ''BlobNode::new''))"

interpretation blob_node: pod_layout enc_blob_node dec_blob_node wf_blob_node 128
proof
  fix bs :: bytes assume len: "length bs = 128"
  then show "enc_blob_node (dec_blob_node bs) = bs"
    unfolding enc_blob_node_def dec_blob_node_def blob_node.simps
    by (subst nat_le_take, simp)+ (intro field_rules; simp)
  show "wf_blob_node (dec_blob_node bs)"
    unfolding wf_blob_node_def dec_blob_node_def
    by (simp only: blob_node.simps le_nat_take_bound simp_thms) (simp add: len)
qed (simp_all add: enc_blob_node_def dec_blob_node_def wf_blob_node_def)

section \<open>Inner nodes\<close>

record node4 =
  n4_count :: nat
  n4_node_type :: nat
  n4_pad :: bytes
  n4_keys :: bytes
  n4_children :: "nat list"

definition wf_node4 :: "node4 \<Rightarrow> bool" where
  "wf_node4 n \<longleftrightarrow> n4_count n < 256 ^ 1 \<and> n4_node_type n < 256 ^ 1 \<and> length (n4_pad n) = 2
     \<and> length (n4_keys n) = 4 \<and> length (n4_children n) = 4
     \<and> (\<forall>c\<in>set (n4_children n). c < 4294967296)"

definition enc_node4 :: "node4 \<Rightarrow> bytes" where
  "enc_node4 n = nat_le 1 (n4_count n) @ nat_le 1 (n4_node_type n) @ n4_pad n @ n4_keys n
     @ u32_bytes (n4_children n)"

definition dec_node4 :: "bytes \<Rightarrow> node4" where
  "dec_node4 bs = \<lparr>n4_count = le_nat (take 1 bs), n4_node_type = le_nat (take 1 (drop 1 bs)),
     n4_pad = take 2 (drop 2 bs), n4_keys = take 4 (drop 4 bs),
     n4_children = u32s 4 (drop 8 bs)\<rparr>"

definition node4_empty :: node4 where
  "node4_empty = \<lparr>n4_count = 0, n4_node_type = nt_as_u8 Node4T, n4_pad = replicate 2 0,
     n4_keys = replicate 4 0, n4_children = replicate 4 0\<rparr>"

interpretation node4: pod_layout enc_node4 dec_node4 wf_node4 24
proof
  fix bs :: bytes assume len: "length bs = 24"
  then have "u32_bytes (u32s 4 (drop 8 bs)) = drop 8 bs"
    by (intro u32_bytes_u32s) simp
  with len show "enc_node4 (dec_node4 bs) = bs"
    unfolding enc_node4_def dec_node4_def node4.simps
    by (simp only:) ((subst nat_le_take, simp)+, intro field_rules; simp)
  show "wf_node4 (dec_node4 bs)"
    unfolding wf_node4_def dec_node4_def
    by (simp only: node4.simps le_nat_take_bound simp_thms) (simp add: len u32s_bound)
next
  fix n assume "wf_node4 n"
  then show "dec_node4 (enc_node4 n) = n" and "length (enc_node4 n) = 24"
    using u32s_u32_bytes [of "n4_children n" "[]"]
    by (simp_all add: enc_node4_def dec_node4_def wf_node4_def)
qed

lemma wf_node4_empty [simp]: "wf_node4 node4_empty"
  by (simp add: wf_node4_def node4_empty_def)

record node16 =
  n16_count :: nat
  n16_node_type :: nat
  n16_pad :: bytes
  n16_keys :: bytes
  n16_children :: "nat list"

definition wf_node16 :: "node16 \<Rightarrow> bool" where
  "wf_node16 n \<longleftrightarrow> n16_count n < 256 ^ 1 \<and> n16_node_type n < 256 ^ 1 \<and> length (n16_pad n) = 6
     \<and> length (n16_keys n) = 16 \<and> length (n16_children n) = 16
     \<and> (\<forall>c\<in>set (n16_children n). c < 4294967296)"

definition enc_node16 :: "node16 \<Rightarrow> bytes" where
  "enc_node16 n = nat_le 1 (n16_count n) @ nat_le 1 (n16_node_type n) @ n16_pad n @ n16_keys n
     @ u32_bytes (n16_children n)"

definition dec_node16 :: "bytes \<Rightarrow> node16" where
  "dec_node16 bs = \<lparr>n16_count = le_nat (take 1 bs), n16_node_type = le_nat (take 1 (drop 1 bs)),
     n16_pad = take 6 (drop 2 bs), n16_keys = take 16 (drop 8 bs),
     n16_children = u32s 16 (drop 24 bs)\<rparr>"

definition node16_empty :: node16 where
  "node16_empty = \<lparr>n16_count = 0, n16_node_type = nt_as_u8 Node16T, n16_pad = replicate 6 0,
     n16_keys = replicate 16 0, n16_children = replicate 16 0\<rparr>"

interpretation node16: pod_layout enc_node16 dec_node16 wf_node16 88
proof
  fix bs :: bytes assume len: "length bs = 88"
  then have "u32_bytes (u32s 16 (drop 24 bs)) = drop 24 bs"
    by (intro u32_bytes_u32s) simp
  with len show "enc_node16 (dec_node16 bs) = bs"
    unfolding enc_node16_def dec_node16_def node16.simps
    by (simp only:) ((subst nat_le_take, simp)+, intro field_rules; simp)
  show "wf_node16 (dec_node16 bs)"
    unfolding wf_node16_def dec_node16_def
    by (simp only: node16.simps le_nat_take_bound simp_thms) (simp add: len u32s_bound)
next
  fix n assume "wf_node16 n"
  then show "dec_node16 (enc_node16 n) = n" and "length (enc_node16 n) = 88"
    using u32s_u32_bytes [of "n16_children n" "[]"]
    by (simp_all add: enc_node16_def dec_node16_def wf_node16_def)
qed

lemma wf_node16_empty [simp]: "wf_node16 node16_empty"
  by (simp add: wf_node16_def node16_empty_def)

record node48 =
  n48_count :: nat
  n48_node_type :: nat
  n48_pad :: bytes
  n48_index :: bytes
  n48_children :: "nat list"

definition wf_node48 :: "node48 \<Rightarrow> bool" where
  "wf_node48 n \<longleftrightarrow> n48_count n < 256 ^ 1 \<and> n48_node_type n < 256 ^ 1 \<and> length (n48_pad n) = 6
     \<and> length (n48_index n) = 256 \<and> length (n48_children n) = 48
     \<and> (\<forall>c\<in>set (n48_children n). c < 4294967296)"

definition enc_node48 :: "node48 \<Rightarrow> bytes" where
  "enc_node48 n = nat_le 1 (n48_count n) @ nat_le 1 (n48_node_type n) @ n48_pad n @ n48_index n
     @ u32_bytes (n48_children n)"

definition dec_node48 :: "bytes \<Rightarrow> node48" where
  "dec_node48 bs = \<lparr>n48_count = le_nat (take 1 bs), n48_node_type = le_nat (take 1 (drop 1 bs)),
     n48_pad = take 6 (drop 2 bs), n48_index = take 256 (drop 8 bs),
     n48_children = u32s 48 (drop 264 bs)\<rparr>"

definition node48_empty :: node48 where
  "node48_empty = \<lparr>n48_count = 0, n48_node_type = nt_as_u8 Node48T, n48_pad = replicate 6 0,
     n48_index = replicate 256 0, n48_children = replicate 48 0\<rparr>"

interpretation node48: pod_layout enc_node48 dec_node48 wf_node48 456
proof
  fix bs :: bytes assume len: "length bs = 456"
  then have "u32_bytes (u32s 48 (drop 264 bs)) = drop 264 bs"
    by (intro u32_bytes_u32s) simp
  with len show "enc_node48 (dec_node48 bs) = bs"
    unfolding enc_node48_def dec_node48_def node48.simps
    by (simp only:) ((subst nat_le_take, simp)+, intro field_rules; simp)
  show "wf_node48 (dec_node48 bs)"
    unfolding wf_node48_def dec_node48_def
    by (simp only: node48.simps le_nat_take_bound simp_thms) (simp add: len u32s_bound)
next
  fix n assume "wf_node48 n"
  then show "dec_node48 (enc_node48 n) = n" and "length (enc_node48 n) = 456"
    using u32s_u32_bytes [of "n48_children n" "[]"]
    by (simp_all add: enc_node48_def dec_node48_def wf_node48_def)
qed

lemma wf_node48_empty [simp]: "wf_node48 node48_empty"
  by (simp add: wf_node48_def node48_empty_def)

record node256 =
  n256_count :: nat
  n256_node_type :: nat
  n256_pad :: bytes
  n256_children :: "nat list"

definition wf_node256 :: "node256 \<Rightarrow> bool" where
  "wf_node256 n \<longleftrightarrow> n256_count n < 256 ^ 1 \<and> n256_node_type n < 256 ^ 1 \<and> length (n256_pad n) = 6
     \<and> length (n256_children n) = 256
     \<and> (\<forall>c\<in>set (n256_children n). c < 4294967296)"

definition enc_node256 :: "node256 \<Rightarrow> bytes" where
  "enc_node256 n = nat_le 1 (n256_count n) @ nat_le 1 (n256_node_type n) @ n256_pad n
     @ u32_bytes (n256_children n)"

definition dec_node256 :: "bytes \<Rightarrow> node256" where
  "dec_node256 bs = \<lparr>n256_count = le_nat (take 1 bs), n256_node_type = le_nat (take 1 (drop 1 bs)),
     n256_pad = take 6 (drop 2 bs),
     n256_children = u32s 256 (drop 8 bs)\<rparr>"

definition node256_empty :: node256 where
  "node256_empty = \<lparr>n256_count = 0, n256_node_type = nt_as_u8 Node256T, n256_pad = replicate 6 0,
     n256_children = replicate 256 0\<rparr>"

interpretation node256: pod_layout enc_node256 dec_node256 wf_node256 1032
proof
  fix bs :: bytes assume len: "length bs = 1032"
  then have "u32_bytes (u32s 256 (drop 8 bs)) = drop 8 bs"
    by (intro u32_bytes_u32s) simp
  with len show "enc_node256 (dec_node256 bs) = bs"
    unfolding enc_node256_def dec_node256_def node256.simps
    by (simp only:) ((subst nat_le_take, simp)+, intro field_rules; simp)
  show "wf_node256 (dec_node256 bs)"
    unfolding wf_node256_def dec_node256_def
    by (simp only: node256.simps le_nat_take_bound simp_thms) (simp add: len u32s_bound)
next
  fix n assume "wf_node256 n"
  then show "dec_node256 (enc_node256 n) = n" and "length (enc_node256 n) = 1032"
    using u32s_u32_bytes [of "n256_children n" "[]"]
    by (simp_all add: enc_node256_def dec_node256_def wf_node256_def)
qed

lemma wf_node256_empty [simp]: "wf_node256 node256_empty"
  by (simp add: wf_node256_def node256_empty_def)

section \<open>Properties of the node bodies\<close>



text \<open>The extent of a leaf is a multiple of eight bytes, holds the length field, the key
  and the value, and wastes fewer than eight bytes; the 32-bit rounding does not wrap.\<close>

theorem leaf_extent_size_fits:
  assumes "key_len < 2 ^ 17" and "value_len < 2 ^ 17"
  shows "8 dvd leaf_extent_size key_len value_len
     \<and> 2 + key_len + value_len \<le> leaf_extent_size key_len value_len
     \<and> leaf_extent_size key_len value_len < 2 + key_len + value_len + 8"
  using leaf_extent_size_bounds [OF assms] by blast

theorem leaf_extent_size_fits_witness:
  "(5 :: nat) < 2 ^ 17 \<and> (9 :: nat) < 2 ^ 17 \<and> 8 dvd leaf_extent_size 5 9
   \<and> 2 + 5 + 9 \<le> leaf_extent_size 5 9 \<and> leaf_extent_size 5 9 < 2 + 5 + 9 + 8"
  using leaf_extent_size_fits [of 5 9] by simp

end
