(* ===== verification/Blob_Frame.thy ===== *)
theory Blob_Frame
  imports Nodes
begin

text \<open>
  The slotted allocator of a blob frame, \<^verbatim>\<open>src/store/blob_frame.rs\<close>: slot lookup, body
  access, node allocation from the per-type free lists and the bump region, extents, and
  freeing.  Every operation acts on the bytes of the frame.

  \<open>alloc_inv b fl\<close> is the allocator's invariant; \<open>fl\<close> lists, per node type, the slots on
  its free chain.  \<open>owned b fl\<close> is the set of addresses the allocator owns: the header, the
  unused slot entries, the bump region and the entries and bodies of the free slots.  An
  allocation hands part of it to the caller, a free takes it back, and neither touches a
  byte outside it.
\<close>

section \<open>Operations\<close>

definition SPILLOVER_RESERVATION :: nat where "SPILLOVER_RESERVATION = 128"

definition entry_addr :: "nat \<Rightarrow> nat" where
  "entry_addr slot = HEADER_SIZE + (slot - 1) * 4"

definition slot_entry :: "buf \<Rightarrow> nat \<Rightarrow> slot_entry option" where
  "slot_entry b slot =
     (if slot = 0 \<or> slot > num_slots b then None
      else Some (slot_decode (of_nat (get_u32 b (entry_addr slot)))))"

definition write_slot_entry :: "nat \<Rightarrow> slot_entry \<Rightarrow> buf \<Rightarrow> buf" where
  "write_slot_entry slot entry b = put_u32 b (entry_addr slot) (unat (slot_raw entry))"

text \<open>A body is handed out as a slice; the model returns its offset and length.\<close>

definition body_of_slot :: "buf \<Rightarrow> nat \<Rightarrow> (nat \<times> nat) option" where
  "body_of_slot b slot =
     (case slot_entry b slot of
        None \<Rightarrow> None
      | Some e \<Rightarrow>
          (case slot_node_type e of
             None \<Rightarrow> None
           | Some ntype \<Rightarrow>
               (case size_of_node ntype of
                  None \<Rightarrow> None
                | Some sz \<Rightarrow>
                    (if byte_offset e + sz > PAGE_SIZE then None
                     else Some (byte_offset e, sz)))))"

definition bytes_at :: "buf \<Rightarrow> nat \<Rightarrow> nat \<Rightarrow> bytes option" where
  "bytes_at b off len = (if off + len > PAGE_SIZE then None else Some (rd b off len))"

definition pop_free :: "nat \<Rightarrow> nat \<Rightarrow> node_type \<Rightarrow> nat \<Rightarrow> (buf, nat) st" where
  "pop_free idx free_head ntype sz = (\<lambda>b.
     case slot_entry b free_head of
       None \<Rightarrow> (Inl (Alloc InvalidRequest), b)
     | Some e \<Rightarrow>
         (let b1 = set_free_list_head idx (next_free e) b;
              b2 = write_slot_entry free_head (slot_live ntype (byte_offset e)) b1;
              b3 = set_gap_space (as_u32 (gap_space b2 + sz)) b2
          in (Inr free_head, b3)))"

definition bump_node :: "node_type \<Rightarrow> nat \<Rightarrow> (buf, nat) st" where
  "bump_node ntype sz = (\<lambda>b.
     if num_slots b \<ge> MAX_SLOTS then (Inl (Alloc OutOfSlots), b)
     else
       (let raw_avail = PAGE_SIZE - space_used b;
            avail = (if ntype = BlobT then raw_avail else raw_avail - SPILLOVER_RESERVATION)
        in if avail < sz then (Inl (Alloc (OutOfSpace sz avail)), b)
           else
             (let body_off = space_used b;
                  new_slot = num_slots b + 1;
                  b1 = write_slot_entry new_slot (slot_live ntype body_off) b;
                  b2 = set_num_slots (num_slots b1 + 1) b1;
                  b3 = set_space_used (space_used b2 + sz) b2;
                  b4 = set_gap_space (as_u32 (gap_space b3 + sz)) b3
              in (Inr new_slot, b4))))"

definition ntype_idx :: "node_type \<Rightarrow> nat" where
  "ntype_idx ntype = nt_as_u8 ntype - 1"

fun sibling_idx :: "node_type \<Rightarrow> nat option" where
  "sibling_idx BlobT = Some (ntype_idx PrefixT)"
| "sibling_idx PrefixT = Some (ntype_idx BlobT)"
| "sibling_idx _ = None"

definition alloc_node_inner :: "node_type \<Rightarrow> (buf, nat) st" where
  "alloc_node_inner ntype = (\<lambda>b.
     if ntype = Invalid then (Inl (Alloc InvalidRequest), b)
     else
       (case size_of_node ntype of
          None \<Rightarrow> (Inl (Panic ''size_of_node(Invalid)''), b)
        | Some sz \<Rightarrow>
            (let free_head = free_list_head b (ntype_idx ntype)
             in if free_head \<noteq> 0 then pop_free (ntype_idx ntype) free_head ntype sz b
                else
                  (case sibling_idx ntype of
                     Some si \<Rightarrow>
                       (let sibling_head = free_list_head b si
                        in if sibling_head \<noteq> 0 then pop_free si sibling_head ntype sz b
                           else bump_node ntype sz b)
                   | None \<Rightarrow> bump_node ntype sz b))))"

definition alloc_node :: "node_type \<Rightarrow> (buf, nat) st" where
  "alloc_node ntype =
     sbind (alloc_node_inner ntype) (\<lambda>slot.
       if ntype = BlobT
       then sbind (smod (\<lambda>b. set_num_ext_blobs (sat_add 16 (num_ext_blobs b) 1) b)) (\<lambda>_. sret slot)
       else sret slot)"

definition live_type :: "buf \<Rightarrow> nat \<Rightarrow> (slot_entry \<times> node_type) res" where
  "live_type b slot =
     rbind (ok_or (slot_entry b slot) (Free (InvalidSlot slot))) (\<lambda>e.
     rbind (ok_or (slot_node_type e) (Free (TypeMismatch slot (next_free e)))) (\<lambda>ntype.
     Inr (e, ntype)))"

definition free_node_inner :: "nat \<Rightarrow> (buf, unit) st" where
  "free_node_inner slot =
     sbind (sread (\<lambda>b. live_type b slot)) (\<lambda>(e, ntype).
       if ntype = Invalid then sfail (Free (TypeMismatch slot (next_free e)))
       else
         smod (\<lambda>b.
           let old_head = free_list_head b (ntype_idx ntype);
               b1 = write_slot_entry slot (slot_freed old_head (byte_offset e)) b
           in set_free_list_head (ntype_idx ntype) slot b1))"

definition free_node :: "nat \<Rightarrow> (buf, unit) st" where
  "free_node slot =
     sbind (sread (\<lambda>b. live_type b slot)) (\<lambda>(e, ntype).
     sbind (free_node_inner slot) (\<lambda>_.
       if ntype = BlobT then smod (\<lambda>b. set_num_ext_blobs (num_ext_blobs b - 1) b)
       else sret ()))"

definition alloc_extent :: "nat \<Rightarrow> (buf, nat) st" where
  "alloc_extent sz = (\<lambda>b.
     if sz = 0 then (Inl (Alloc InvalidRequest), b)
     else
       (let aligned = align8 sz;
            avail = PAGE_SIZE - space_used b - SPILLOVER_RESERVATION
        in if avail < aligned then (Inl (Alloc (OutOfSpace aligned avail)), b)
           else (Inr (space_used b), set_space_used (space_used b + aligned) b)))"

definition frame_zero :: buf where "frame_zero = (\<lambda>_. 0)"

definition frame_init :: "blob_guid \<Rightarrow> unit res \<times> buf" where
  "frame_init guid =
     sbind (alloc_node EmptyRoot) (\<lambda>slot. smod (set_root_slot slot))
       (set_space_used DATA_AREA_START (set_header_guid guid frame_zero))"

section \<open>Slot table\<close>

definition entry :: "buf \<Rightarrow> nat \<Rightarrow> slot_entry" where
  "entry b slot = slot_decode (of_nat (get_u32 b (entry_addr slot)))"

lemma slot_entry_eq: "slot_entry b s = (if s = 0 \<or> s > num_slots b then None else Some (entry b s))"
  by (simp add: slot_entry_def entry_def)

lemma entry_addr_ge [simp]: "HEADER_SIZE \<le> entry_addr s"
  by (simp add: entry_addr_def)

lemma entry_region_ge: "a \<in> region (entry_addr s) n \<Longrightarrow> HEADER_SIZE \<le> a"
  by (simp add: entry_addr_def)

lemma entry_addr_table: "1 \<le> s \<Longrightarrow> s \<le> MAX_SLOTS \<Longrightarrow> entry_addr s + 4 \<le> DATA_AREA_START"
  by (simp add: entry_addr_def layout_consts)

lemma entry_cong: "(\<And>a. a \<in> region (entry_addr s) 4 \<Longrightarrow> b' a = b a) \<Longrightarrow> entry b' s = entry b s"
  using rd_cong [of "entry_addr s" 4 b' b] by (simp add: entry_def get_u32_def)

lemma entry_write_same:
  "slot_decode (slot_raw e) = e \<Longrightarrow> entry (write_slot_entry s e b) s = e"
proof -
  assume e: "slot_decode (slot_raw e) = e"
  have "unat (slot_raw e) < 4294967296"
    using unsigned_less [of "slot_raw e"] by simp
  with e show ?thesis by (simp add: entry_def write_slot_entry_def get_put_same)
qed

lemma entry_write_other:
  "1 \<le> s \<Longrightarrow> 1 \<le> s' \<Longrightarrow> s \<noteq> s' \<Longrightarrow> entry (write_slot_entry s e b) s' = entry b s'"
  unfolding entry_def write_slot_entry_def
  by (subst get_u32_put(2)) (auto simp: entry_addr_def)

lemma entry_set [simp]:
  "entry (set_num_slots x b) s = entry b s"
  "entry (set_root_slot x b) s = entry b s"
  "entry (set_space_used x b) s = entry b s"
  "entry (set_num_ext_blobs x b) s = entry b s"
  "entry (set_compact_times x b) s = entry b s"
  "entry (set_gap_space x b) s = entry b s"
  "entry (set_tombstone_leaf_cnt x b) s = entry b s"
  "i < 8 \<Longrightarrow> entry (set_free_list_head i x b) s = entry b s"
  by (rule entry_cong; frule entry_region_ge; simp)+

lemma header_write_slot_entry [simp]:
  "num_slots (write_slot_entry s e b) = num_slots b"
  "root_slot (write_slot_entry s e b) = root_slot b"
  "space_used (write_slot_entry s e b) = space_used b"
  "num_ext_blobs (write_slot_entry s e b) = num_ext_blobs b"
  "compact_times (write_slot_entry s e b) = compact_times b"
  "gap_space (write_slot_entry s e b) = gap_space b"
  "tombstone_leaf_cnt (write_slot_entry s e b) = tombstone_leaf_cnt b"
  "i < 8 \<Longrightarrow> free_list_head (write_slot_entry s e b) i = free_list_head b i"
  "header_guid (write_slot_entry s e b) = header_guid b"
  by (simp_all add: write_slot_entry_def put_u32_def)

lemma write_slot_entry_other: "a \<notin> region (entry_addr s) 4 \<Longrightarrow> write_slot_entry s e b a = b a"
  by (simp add: write_slot_entry_def put_other)

lemma decode_offset_bound: "unat (offset_div8 (slot_decode w)) < 2 ^ 17"
proof -
  have "w AND OFFSET_DIV8_MASK = take_bit 17 w"
    by (simp add: OFFSET_DIV8_MASK_mask take_bit_eq_mask)
  then have "unat (offset_div8 (slot_decode w)) = take_bit 17 (unat w)"
    by (simp only: slot_decode_def slot_entry.simps unsigned_take_bit_eq)
  then show ?thesis by (simp only: take_bit_nat_less_exp)
qed

lemma decode_tag_bound: "next_free (slot_decode w) < 2 ^ 15"
proof -
  have w: "unat w < 4294967296" using unsigned_less [of w] by simp
  have "unat (drop_bit 17 w) = unat w div 2 ^ 17"
    using w by (simp only: unsigned_drop_bit_eq) (simp add: drop_bit_eq_div take_bit_nat_eq_self)
  with w have "unat (drop_bit 17 w) < 2 ^ 15" by simp
  moreover have "unat (ucast (drop_bit 17 w) :: 16 word) \<le> unat (drop_bit 17 w)"
    by (simp add: unsigned_ucast_eq)
  ultimately show ?thesis by (simp add: next_free_def slot_decode_def TAG_SHIFT_def)
qed

lemma entry_offset_dvd [simp]: "8 dvd byte_offset (entry b s)"
  using decode_offset_bound by (simp add: entry_def byte_offset_alt)

section \<open>Allocator invariant\<close>

definition nfoot :: "nat \<Rightarrow> node_type \<Rightarrow> nat \<Rightarrow> nat set" where
  "nfoot s nt off = region (entry_addr s) 4 \<union> region off (node_bytes nt)"

definition node_at :: "buf \<Rightarrow> nat \<Rightarrow> node_type \<Rightarrow> nat \<Rightarrow> bool" where
  "node_at b s nt off \<longleftrightarrow> 1 \<le> s \<and> s \<le> num_slots b \<and> s \<le> MAX_SLOTS \<and> nt \<noteq> Invalid
     \<and> entry b s = slot_live nt off \<and> 8 dvd off
     \<and> DATA_AREA_START \<le> off \<and> off + node_bytes nt \<le> PAGE_SIZE"

fun chain :: "buf \<Rightarrow> node_type \<Rightarrow> nat \<Rightarrow> nat list \<Rightarrow> bool" where
  "chain b nt h [] \<longleftrightarrow> h = 0"
| "chain b nt h (s # ss) \<longleftrightarrow> h = s \<and> 1 \<le> s \<and> s \<le> num_slots b
     \<and> DATA_AREA_START \<le> byte_offset (entry b s)
     \<and> byte_offset (entry b s) + node_bytes nt \<le> space_used b
     \<and> chain b nt (next_free (entry b s)) ss"

abbreviation free_foot :: "buf \<Rightarrow> node_type \<Rightarrow> nat \<Rightarrow> nat set" where
  "free_foot b nt s \<equiv> nfoot s nt (byte_offset (entry b s))"

definition alloc_inv :: "buf \<Rightarrow> (node_type \<Rightarrow> nat list) \<Rightarrow> bool" where
  "alloc_inv b fl \<longleftrightarrow> num_slots b \<le> MAX_SLOTS
     \<and> DATA_AREA_START \<le> space_used b \<and> space_used b \<le> PAGE_SIZE \<and> 8 dvd space_used b
     \<and> fl Invalid = []
     \<and> (\<forall>nt. nt \<noteq> Invalid \<longrightarrow> chain b nt (free_list_head b (ntype_idx nt)) (fl nt))
     \<and> (\<forall>nt. distinct (fl nt))
     \<and> (\<forall>nt nt' s s'. s \<in> set (fl nt) \<longrightarrow> s' \<in> set (fl nt') \<longrightarrow> (nt, s) \<noteq> (nt', s')
          \<longrightarrow> free_foot b nt s \<inter> free_foot b nt' s' = {})"

definition fixed_owned :: "buf \<Rightarrow> nat set" where
  "fixed_owned b = {0..<HEADER_SIZE} \<union> {HEADER_SIZE + 4 * num_slots b..<DATA_AREA_START}
     \<union> {space_used b..<PAGE_SIZE}"

definition owned :: "buf \<Rightarrow> (node_type \<Rightarrow> nat list) \<Rightarrow> nat set" where
  "owned b fl = fixed_owned b \<union> (\<Union>nt. \<Union>s\<in>set (fl nt). free_foot b nt s)"

lemma nt_idx [simp]: "ntype_idx nt < 8"
  using nt_as_u8_bound [of nt] by (auto simp: ntype_idx_def)

lemma nt_idx_inject: "nt \<noteq> Invalid \<Longrightarrow> nt' \<noteq> Invalid \<Longrightarrow> ntype_idx nt = ntype_idx nt' \<longleftrightarrow> nt = nt'"
  by (cases nt; cases nt') (simp_all add: ntype_idx_def)

lemma chain_slots: "chain b nt h ss \<Longrightarrow> s \<in> set ss \<Longrightarrow> 1 \<le> s \<and> s \<le> num_slots b
    \<and> DATA_AREA_START \<le> byte_offset (entry b s)
    \<and> byte_offset (entry b s) + node_bytes nt \<le> space_used b"
  by (induction ss arbitrary: h) auto

lemma chain_cong:
  assumes "chain b nt h ss" and "\<And>s. s \<in> set ss \<Longrightarrow> entry b' s = entry b s"
    and "num_slots b \<le> num_slots b'" and "space_used b \<le> space_used b'"
  shows "chain b' nt h ss"
  using assms by (induction ss arbitrary: h) auto

lemma alloc_inv_slots:
  assumes "alloc_inv b fl" and "s \<in> set (fl nt)"
  shows "nt \<noteq> Invalid" and "1 \<le> s" and "s \<le> num_slots b"
    and "DATA_AREA_START \<le> byte_offset (entry b s)"
    and "byte_offset (entry b s) + node_bytes nt \<le> space_used b"
proof -
  show "nt \<noteq> Invalid" using assms by (auto simp: alloc_inv_def)
  with assms(1) have "chain b nt (free_list_head b (ntype_idx nt)) (fl nt)"
    by (simp add: alloc_inv_def)
  with assms(2) show "1 \<le> s" "s \<le> num_slots b" "DATA_AREA_START \<le> byte_offset (entry b s)"
    "byte_offset (entry b s) + node_bytes nt \<le> space_used b"
    using chain_slots by blast+
qed

lemma entry_region_inter: "1 \<le> s \<Longrightarrow> 1 \<le> s' \<Longrightarrow> region (entry_addr s) 4 \<inter> region (entry_addr s') 4 \<noteq> {} \<longleftrightarrow> s = s'"
  by (auto simp: entry_addr_def)

lemma nfoot_entry: "entry_addr s \<in> nfoot s nt off"
  by (simp add: nfoot_def)

lemma alloc_inv_disjoint:
  assumes "alloc_inv b fl" and "s \<in> set (fl nt)" and "s' \<in> set (fl nt')" and "(nt, s) \<noteq> (nt', s')"
  shows "free_foot b nt s \<inter> free_foot b nt' s' = {}"
  using assms unfolding alloc_inv_def by blast

lemma alloc_inv_other_slot:
  assumes "alloc_inv b fl" and "s \<in> set (fl nt)" and "s' \<in> set (fl nt')" and "(nt, s) \<noteq> (nt', s')"
  shows "s \<noteq> s'"
proof
  assume "s = s'"
  then have "entry_addr s \<in> free_foot b nt s \<inter> free_foot b nt' s'"
    by (simp add: nfoot_entry)
  moreover from assms have "free_foot b nt s \<inter> free_foot b nt' s' = {}"
    unfolding alloc_inv_def by blast
  ultimately show False by blast
qed

text \<open>A node outside the allocator's memory is not on a free chain, and its body ends below the
  bump cursor.\<close>

lemma node_at_not_free:
  assumes "nfoot s nt off \<inter> owned b fl = {}"
  shows "s \<notin> set (fl nt')"
proof
  assume "s \<in> set (fl nt')"
  then have "entry_addr s \<in> owned b fl"
    unfolding owned_def using nfoot_entry by blast
  with assms nfoot_entry [of s nt off] show False by blast
qed

lemma node_at_below_cursor:
  assumes "node_at b s nt off" and "nfoot s nt off \<inter> owned b fl = {}"
  shows "off + node_bytes nt \<le> space_used b"
proof (rule ccontr)
  assume "\<not> off + node_bytes nt \<le> space_used b"
  with assms(1) have "off + node_bytes nt - 1 \<in> nfoot s nt off \<inter> fixed_owned b"
    using node_bytes_bounds(1) [of nt] by (auto simp: nfoot_def fixed_owned_def node_at_def)
  with assms(2) show False by (auto simp: owned_def)
qed

lemma node_at_cong:
  assumes "node_at b s nt off" and "num_slots b \<le> num_slots b'"
    and "\<And>a. a \<in> nfoot s nt off \<Longrightarrow> b' a = b a"
  shows "node_at b' s nt off"
proof -
  have "entry b' s = entry b s" by (rule entry_cong) (simp add: assms(3) nfoot_def)
  with assms(1,2) show ?thesis by (simp add: node_at_def)
qed

lemma node_at_unique: "node_at b s nt off \<Longrightarrow> node_at b s nt' off' \<Longrightarrow> nt' = nt \<and> off' = off"
proof -
  assume a: "node_at b s nt off" "node_at b s nt' off'"
  then have e: "slot_live nt off = slot_live nt' off'" by (simp add: node_at_def)
  have lt: "off < PAGE_SIZE" "off' < PAGE_SIZE"
    using a node_bytes_bounds(1) [of nt] node_bytes_bounds(1) [of nt'] by (auto simp: node_at_def)
  have "Some nt = Some nt'" by (metis e slot_node_type_live)
  moreover have "off = off'"
    using a lt e by (metis byte_offset_live node_at_def)
  ultimately show ?thesis by simp
qed

lemma slot_entry_node_at: "node_at b s nt off \<Longrightarrow> slot_entry b s = Some (slot_live nt off)"
  by (auto simp: slot_entry_eq node_at_def)

lemma body_of_slot_node_at: "node_at b s nt off \<Longrightarrow> body_of_slot b s = Some (off, node_bytes nt)"
proof -
  assume a: "node_at b s nt off"
  then have "off < PAGE_SIZE" "8 dvd off"
    using node_bytes_bounds(1) [of nt] by (auto simp: node_at_def)
  with a show ?thesis by (simp add: body_of_slot_def slot_entry_node_at) (simp add: node_at_def)
qed

section \<open>Allocation hands over owned memory\<close>

text \<open>
  \<open>handover b fl b' fl' N\<close>: going from \<open>b\<close> to \<open>b'\<close> the allocator gave up exactly the addresses
  \<open>N\<close>, changed no byte it did not own, and left the header fields that belong to others alone.
\<close>

definition handover :: "buf \<Rightarrow> (node_type \<Rightarrow> nat list) \<Rightarrow> buf \<Rightarrow> (node_type \<Rightarrow> nat list) \<Rightarrow> nat set \<Rightarrow> bool" where
  "handover b fl b' fl' N \<longleftrightarrow> alloc_inv b' fl' \<and> N \<subseteq> owned b fl \<and> owned b' fl' = owned b fl - N
     \<and> (\<forall>a. a \<notin> owned b fl \<longrightarrow> b' a = b a)
     \<and> num_slots b \<le> num_slots b' \<and> space_used b \<le> space_used b'
     \<and> root_slot b' = root_slot b \<and> tombstone_leaf_cnt b' = tombstone_leaf_cnt b
     \<and> compact_times b' = compact_times b \<and> header_guid b' = header_guid b"

lemma nfoot_fixed:
  assumes "1 \<le> s" and "s \<le> num_slots b" and "num_slots b \<le> MAX_SLOTS"
    and "DATA_AREA_START \<le> off" and "off + node_bytes nt \<le> space_used b"
  shows "nfoot s nt off \<inter> fixed_owned b = {}"
proof -
  have "region (entry_addr s) 4 \<inter> fixed_owned b = {}"
    using assms by (auto simp: fixed_owned_def entry_addr_def layout_consts alloc_inv_def)
  moreover have "region off (node_bytes nt) \<inter> fixed_owned b = {}"
    using assms by (auto simp: fixed_owned_def layout_consts)
  ultimately show ?thesis by (auto simp: nfoot_def)
qed

lemma free_foot_fixed:
  assumes "alloc_inv b fl" and "s \<in> set (fl nt)"
  shows "free_foot b nt s \<inter> fixed_owned b = {}"
  using alloc_inv_slots [OF assms] assms(1) by (intro nfoot_fixed) (auto simp: alloc_inv_def)

lemma entry_slot_live_write:
  assumes "off < PAGE_SIZE"
  shows "entry (write_slot_entry s (slot_live nt off) b) s = slot_live nt off"
  using assms by (intro entry_write_same slot_live_round)

lemma alloc_inv_mono:
  assumes inv: "alloc_inv b fl" and sub: "\<And>u. set (fl' u) \<subseteq> set (fl u)" and dist: "\<And>u. distinct (fl' u)"
    and mem: "\<And>u t. t \<in> set (fl' u) \<Longrightarrow> entry b' t = entry b t"
    and ch: "\<And>t. t \<noteq> Invalid \<Longrightarrow> chain b t (free_list_head b' (ntype_idx t)) (fl' t)"
    and hdr: "num_slots b \<le> num_slots b'" "num_slots b' \<le> MAX_SLOTS"
      "space_used b \<le> space_used b'" "space_used b' \<le> PAGE_SIZE" "8 dvd space_used b'"
  shows "alloc_inv b' fl'"
    and "(\<Union>u. \<Union>t\<in>set (fl' u). free_foot b' u t) = (\<Union>u. \<Union>t\<in>set (fl' u). free_foot b u t)"
proof -
  have chains: "chain b' t (free_list_head b' (ntype_idx t)) (fl' t)" if "t \<noteq> Invalid" for t
    using ch [OF that] mem hdr(1,3) by (rule chain_cong)
  have disj: "free_foot b' t x \<inter> free_foot b' u y = {}"
    if xy: "x \<in> set (fl' t)" "y \<in> set (fl' u)" "(t, x) \<noteq> (u, y)" for t u x y
  proof -
    have "free_foot b t x \<inter> free_foot b u y = {}"
      using inv sub xy unfolding alloc_inv_def by blast
    with xy show ?thesis by (simp only: mem)
  qed
  have "DATA_AREA_START \<le> space_used b'" using inv hdr by (simp add: alloc_inv_def)
  moreover have "fl' Invalid = []" using inv sub [of Invalid] by (simp add: alloc_inv_def)
  ultimately show "alloc_inv b' fl'"
    unfolding alloc_inv_def using hdr chains dist disj by blast
  show "(\<Union>u. \<Union>t\<in>set (fl' u). free_foot b' u t) = (\<Union>u. \<Union>t\<in>set (fl' u). free_foot b u t)"
    by (intro SUP_cong refl) (simp add: mem)
qed

lemma UN_push:
  "(\<Union>u. \<Union>t\<in>set ((fl(n := x # fl n)) u). g u t) = g n x \<union> (\<Union>u. \<Union>t\<in>set (fl u). g u t)"
proof (intro subset_antisym subsetI)
  fix a assume "a \<in> g n x \<union> (\<Union>u. \<Union>t\<in>set (fl u). g u t)"
  moreover have "set (fl u) \<subseteq> set ((fl(n := x # fl n)) u)" and "x \<in> set ((fl(n := x # fl n)) n)" for u
    by auto
  ultimately show "a \<in> (\<Union>u. \<Union>t\<in>set ((fl(n := x # fl n)) u). g u t)" by blast
qed (auto split: if_splits)

lemma give_up:
  assumes "F \<inter> A = {}" and "U = F \<union> R" and "F \<inter> R = {}"
  shows "A \<union> R = A \<union> U - F" and "F \<subseteq> A \<union> U"
  using assms by auto

lemma give_up_fixed: "N \<inter> R = {} \<Longrightarrow> A - N \<union> R = A \<union> R - N"
  by auto

lemma owned_pop:
  assumes inv: "alloc_inv b fl" and fl: "fl nt0 = s # ss"
  defines "R \<equiv> (\<Union>u. \<Union>t\<in>set ((fl(nt0 := ss)) u). free_foot b u t)"
  shows "(\<Union>u. \<Union>t\<in>set (fl u). free_foot b u t) = free_foot b nt0 s \<union> R"
    and "free_foot b nt0 s \<inter> R = {}"
proof -
  have dist: "s \<notin> set ss" using inv fl unfolding alloc_inv_def by (metis distinct.simps(2))
  have X: "(fl(nt0 := ss))(nt0 := s # (fl(nt0 := ss)) nt0) = fl" using fl by auto
  show "(\<Union>u. \<Union>t\<in>set (fl u). free_foot b u t) = free_foot b nt0 s \<union> R"
    using UN_push [of "free_foot b" "fl(nt0 := ss)" nt0 s] unfolding X R_def .
  have "free_foot b nt0 s \<inter> free_foot b u t = {}" if t: "t \<in> set ((fl(nt0 := ss)) u)" for u t
  proof -
    have "(nt0, s) \<noteq> (u, t)" and "t \<in> set (fl u)" and "s \<in> set (fl nt0)"
      using t dist fl by (auto split: if_splits)
    with inv show ?thesis unfolding alloc_inv_def by blast
  qed
  then show "free_foot b nt0 s \<inter> R = {}" unfolding R_def by blast
qed

lemma pop_free_spec:
  assumes inv: "alloc_inv b fl" and fl: "fl nt0 = s # ss"
    and sz: "node_bytes nt = node_bytes nt0" and nt: "nt \<noteq> Invalid"
  defines "off \<equiv> byte_offset (entry b s)"
  shows "\<exists>b'. pop_free (ntype_idx nt0) s nt (node_bytes nt) b = (Inr s, b')
    \<and> node_at b' s nt off \<and> handover b fl b' (fl(nt0 := ss)) (nfoot s nt off)"
proof -
  let ?fl = "fl(nt0 := ss)" and ?i = "ntype_idx nt0" and ?nf = "next_free (entry b s)"
  define b1 where "b1 = set_free_list_head ?i ?nf b"
  define b2 where "b2 = write_slot_entry s (slot_live nt off) b1"
  define b' where "b' = set_gap_space (as_u32 (gap_space b2 + node_bytes nt)) b2"
  have s: "s \<in> set (fl nt0)" using fl by simp
  note sl = alloc_inv_slots [OF inv s]
  have nf: "?nf < 65536" using decode_tag_bound [of "of_nat (get_u32 b (entry_addr s))"]
    by (simp add: entry_def)
  have off: "off < PAGE_SIZE" "8 dvd off" "off + node_bytes nt \<le> space_used b"
    using inv sl node_bytes_bounds(1) [OF nt] by (auto simp: alloc_inv_def off_def sz)
  have run: "pop_free ?i s nt (node_bytes nt) b = (Inr s, b')"
    using sl by (simp add: pop_free_def slot_entry_eq b1_def b2_def b'_def off_def Let_def)
  have hdr: "num_slots b' = num_slots b" "space_used b' = space_used b" "root_slot b' = root_slot b"
    "tombstone_leaf_cnt b' = tombstone_leaf_cnt b" "compact_times b' = compact_times b"
    "header_guid b' = header_guid b"
    by (simp_all add: b'_def b2_def b1_def)
  have heads: "free_list_head b' (ntype_idx t) = (if t = nt0 then ?nf else free_list_head b (ntype_idx t))"
    if "t \<noteq> Invalid" for t
    using nf nt_idx_inject [OF that sl(1)] by (simp add: b'_def b2_def b1_def)
  have es: "entry b' s = slot_live nt off"
    using off(1) by (simp add: b'_def b2_def entry_slot_live_write)
  have dist: "distinct (fl u)" for u using inv by (simp add: alloc_inv_def)
  have mem: "entry b' t = entry b t" if "t \<in> set (?fl u)" for t u
  proof -
    have t: "t \<in> set (fl u)" using that fl by (auto split: if_splits)
    have "t \<noteq> s"
    proof (cases "u = nt0")
      case True then show ?thesis using that dist [of nt0] fl by auto
    next
      case False then show ?thesis using alloc_inv_other_slot [OF inv s t] by auto
    qed
    with t sl show ?thesis using alloc_inv_slots(2) [OF inv t]
      by (simp add: b'_def b2_def b1_def entry_write_other)
  qed
  have "chain b nt0 (free_list_head b ?i) (s # ss)" using inv sl fl by (metis alloc_inv_def)
  then have ch: "chain b t (free_list_head b' (ntype_idx t)) (?fl t)" if "t \<noteq> Invalid" for t
    using inv that by (cases "t = nt0") (simp_all add: heads alloc_inv_def)
  have sub: "set (?fl u) \<subseteq> set (fl u)" "distinct (?fl u)" for u using fl dist [of u] by auto
  have inv': "alloc_inv b' ?fl"
    and rest: "(\<Union>u. \<Union>t\<in>set (?fl u). free_foot b' u t) = (\<Union>u. \<Union>t\<in>set (?fl u). free_foot b u t)"
    using alloc_inv_mono [OF inv sub mem ch] inv hdr by (simp_all add: alloc_inv_def)
  have foot: "nfoot s nt off = free_foot b nt0 s" by (simp add: nfoot_def sz off_def)
  have fixed: "fixed_owned b' = fixed_owned b" by (simp add: fixed_owned_def hdr)
  have own: "owned b' ?fl = owned b fl - nfoot s nt off" "nfoot s nt off \<subseteq> owned b fl"
    unfolding owned_def rest fixed foot
    by (rule give_up [OF free_foot_fixed [OF inv s] owned_pop [OF inv fl]])+
  have frame: "b' a = b a" if a: "a \<notin> owned b fl" for a
  proof -
    have "HEADER_SIZE \<le> a" using a by (auto simp: owned_def fixed_owned_def)
    moreover have "a \<notin> region (entry_addr s) 4" using a own(2) by (auto simp: nfoot_def)
    ultimately show ?thesis by (simp add: b'_def b2_def b1_def write_slot_entry_other)
  qed
  have "node_at b' s nt off"
    using sl off nt es inv by (simp add: node_at_def hdr alloc_inv_def off_def)
  moreover have "handover b fl b' ?fl (nfoot s nt off)"
    using inv' own frame hdr by (simp add: handover_def)
  ultimately show ?thesis using run by blast
qed

lemma handover_same_lists:
  assumes inv: "alloc_inv b fl"
    and ent: "\<And>t. 1 \<le> t \<Longrightarrow> t \<le> num_slots b \<Longrightarrow> entry b' t = entry b t"
    and heads: "\<And>i. i < 8 \<Longrightarrow> free_list_head b' i = free_list_head b i"
    and hdr: "num_slots b \<le> num_slots b'" "num_slots b' \<le> MAX_SLOTS"
      "space_used b \<le> space_used b'" "space_used b' \<le> PAGE_SIZE" "8 dvd space_used b'"
    and N: "N \<subseteq> fixed_owned b" "fixed_owned b' = fixed_owned b - N"
    and frame: "\<And>a. a \<notin> fixed_owned b \<Longrightarrow> b' a = b a"
    and rest: "root_slot b' = root_slot b" "tombstone_leaf_cnt b' = tombstone_leaf_cnt b"
      "compact_times b' = compact_times b" "header_guid b' = header_guid b"
  shows "handover b fl b' fl N"
proof -
  have mem: "entry b' t = entry b t" if "t \<in> set (fl u)" for t u
    using alloc_inv_slots [OF inv that] by (intro ent)
  have ch: "chain b t (free_list_head b' (ntype_idx t)) (fl t)" if "t \<noteq> Invalid" for t
    using inv that by (simp add: heads alloc_inv_def)
  have dist: "distinct (fl u)" for u using inv by (simp add: alloc_inv_def)
  have mono: "alloc_inv b' fl"
    "(\<Union>u. \<Union>t\<in>set (fl u). free_foot b' u t) = (\<Union>u. \<Union>t\<in>set (fl u). free_foot b u t)"
    using alloc_inv_mono [OF inv subset_refl dist mem ch hdr] by simp_all
  have "N \<inter> (\<Union>u. \<Union>t\<in>set (fl u). free_foot b u t) = {}"
    using N(1) free_foot_fixed [OF inv] by blast
  then have "owned b' fl = owned b fl - N" unfolding owned_def mono(2) N(2) by (rule give_up_fixed)
  moreover have "N \<subseteq> owned b fl" using N(1) by (simp add: owned_def le_supI1)
  moreover have "b' a = b a" if "a \<notin> owned b fl" for a
    using that by (intro frame) (simp add: owned_def)
  ultimately show ?thesis using mono(1) hdr rest by (simp add: handover_def)
qed

lemma bump_node_spec:
  assumes inv: "alloc_inv b fl" and nt: "nt \<noteq> Invalid"
  shows "(\<exists>e. bump_node nt (node_bytes nt) b = (Inl (Alloc e), b) \<and> e \<noteq> InvalidRequest)
    \<or> (\<exists>s off b'. bump_node nt (node_bytes nt) b = (Inr s, b') \<and> node_at b' s nt off
        \<and> handover b fl b' fl (nfoot s nt off))"
proof (cases "num_slots b \<ge> MAX_SLOTS \<or>
    (if nt = BlobT then PAGE_SIZE - space_used b else PAGE_SIZE - space_used b - SPILLOVER_RESERVATION) < node_bytes nt")
  case True
  then show ?thesis by (auto simp: bump_node_def Let_def)
next
  case False
  define off where "off = space_used b"
  define s where "s = num_slots b + 1"
  define b1 where "b1 = write_slot_entry s (slot_live nt off) b"
  define b' where "b' = set_gap_space (as_u32 (gap_space b1 + node_bytes nt))
    (set_space_used (space_used b1 + node_bytes nt) (set_num_slots (num_slots b1 + 1) b1))"
  note invd = inv [unfolded alloc_inv_def]
  have room: "off + node_bytes nt \<le> PAGE_SIZE" "num_slots b < MAX_SLOTS"
    using False invd by (auto simp: off_def split: if_splits)
  have run: "bump_node nt (node_bytes nt) b = (Inr s, b')"
    using False by (simp add: bump_node_def Let_def b'_def b1_def s_def off_def)
  have off: "off < PAGE_SIZE" "8 dvd off" "DATA_AREA_START \<le> off"
    using room node_bytes_bounds(1) [OF nt] invd by (auto simp: off_def)
  have hdr: "num_slots b' = s" "space_used b' = off + node_bytes nt" "root_slot b' = root_slot b"
    "tombstone_leaf_cnt b' = tombstone_leaf_cnt b" "compact_times b' = compact_times b"
    "header_guid b' = header_guid b" "\<And>i. i < 8 \<Longrightarrow> free_list_head b' i = free_list_head b i"
    using room by (simp_all add: b'_def b1_def s_def off_def layout_consts)
  have es: "entry b' s = slot_live nt off"
    using off by (simp add: b'_def b1_def entry_slot_live_write)
  have ent: "entry b' t = entry b t" if "1 \<le> t" "t \<le> num_slots b" for t
    using that by (simp add: b'_def b1_def entry_write_other s_def)
  have node: "node_at b' s nt off"
    using es off room nt by (simp add: node_at_def hdr s_def)
  have N: "nfoot s nt off \<subseteq> fixed_owned b" "fixed_owned b' = fixed_owned b - nfoot s nt off"
    using off room unfolding nfoot_def fixed_owned_def entry_addr_def hdr s_def off_def [symmetric]
    by (auto simp: layout_consts)
  have frame: "b' a = b a" if "a \<notin> fixed_owned b" for a
  proof -
    have "HEADER_SIZE \<le> a" using that by (simp add: fixed_owned_def)
    moreover have "a \<notin> region (entry_addr s) 4" using that N(1) by (auto simp: nfoot_def)
    ultimately show ?thesis by (simp add: b'_def b1_def write_slot_entry_other)
  qed
  have "handover b fl b' fl (nfoot s nt off)"
    by (rule handover_same_lists [OF inv ent _ _ _ _ _ _ N frame])
      (use room off in \<open>simp_all add: hdr s_def off_def\<close>)
  with run node show ?thesis by blast
qed

lemma alloc_node_inner_spec:
  assumes inv: "alloc_inv b fl" and nt: "nt \<noteq> Invalid"
  shows "(\<exists>e. alloc_node_inner nt b = (Inl (Alloc e), b) \<and> e \<noteq> InvalidRequest)
    \<or> (\<exists>s off b' fl'. alloc_node_inner nt b = (Inr s, b') \<and> node_at b' s nt off
        \<and> handover b fl b' fl' (nfoot s nt off))"
proof -
  have ch: "chain b t (free_list_head b (ntype_idx t)) (fl t)" if "t \<noteq> Invalid" for t
    using inv that by (simp add: alloc_inv_def)
  have pop: "\<exists>s off b' fl'. pop_free (ntype_idx t) (free_list_head b (ntype_idx t)) nt (node_bytes nt) b = (Inr s, b')
      \<and> node_at b' s nt off \<and> handover b fl b' fl' (nfoot s nt off)"
    if "t \<noteq> Invalid" "free_list_head b (ntype_idx t) \<noteq> 0" "node_bytes nt = node_bytes t" for t
  proof -
    obtain s ss where "fl t = s # ss" and "free_list_head b (ntype_idx t) = s"
      using ch [OF \<open>t \<noteq> Invalid\<close>] \<open>free_list_head b (ntype_idx t) \<noteq> 0\<close> by (cases "fl t") auto
    then show ?thesis using pop_free_spec [OF inv _ that(3) nt, of s ss] by fastforce
  qed
  note bump = bump_node_spec [OF inv nt]
  show ?thesis
  proof (cases "free_list_head b (ntype_idx nt) = 0")
    case False
    then show ?thesis using pop [OF nt] nt by (simp add: alloc_node_inner_def)
  next
    case True
    consider "alloc_node_inner nt b = bump_node nt (node_bytes nt) b"
      | t where "t \<noteq> Invalid" "node_bytes nt = node_bytes t" "free_list_head b (ntype_idx t) \<noteq> 0"
          "alloc_node_inner nt b = pop_free (ntype_idx t) (free_list_head b (ntype_idx t)) nt (node_bytes nt) b"
    proof (cases "sibling_idx nt")
      case None
      with True nt that(1) show ?thesis by (simp add: alloc_node_inner_def)
    next
      case (Some si)
      obtain t where "t \<noteq> Invalid" "node_bytes nt = node_bytes t" "si = ntype_idx t"
        using Some by (cases nt) (auto intro: that)
      with Some True nt that show ?thesis
        by (cases "free_list_head b si = 0") (simp_all add: alloc_node_inner_def)
    qed
    then show ?thesis
    proof cases
      case 1
      with bump show ?thesis by metis
    next
      case (2 t)
      then show ?thesis using pop by metis
    qed
  qed
qed

lemma handover_refl: "alloc_inv b fl \<Longrightarrow> handover b fl b fl {}"
  by (simp add: handover_def)

lemma handover_trans:
  assumes "handover b fl b1 fl1 N1" and "handover b1 fl1 b2 fl2 N2"
  shows "handover b fl b2 fl2 (N1 \<union> N2)"
  using assms unfolding handover_def by (auto simp: Diff_Un)

text \<open>Updates of the header fields that the allocator does not rely on.\<close>

definition aux_update :: "buf \<Rightarrow> buf \<Rightarrow> bool" where
  "aux_update b b' \<longleftrightarrow> (\<forall>a. HEADER_SIZE \<le> a \<longrightarrow> b' a = b a) \<and> num_slots b' = num_slots b
     \<and> space_used b' = space_used b \<and> (\<forall>i<8. free_list_head b' i = free_list_head b i)"

lemma aux_update_set [intro, simp]:
  "aux_update b (set_root_slot x b)"
  "aux_update b (set_num_ext_blobs x b)"
  "aux_update b (set_compact_times x b)"
  "aux_update b (set_gap_space x b)"
  "aux_update b (set_tombstone_leaf_cnt x b)"
  by (simp_all add: aux_update_def)

lemma aux_update_entry: "aux_update b b' \<Longrightarrow> entry b' s = entry b s"
  by (rule entry_cong, drule entry_region_ge) (simp add: aux_update_def)

lemma aux_update_inv:
  assumes "aux_update b b'" and "alloc_inv b fl"
  shows "alloc_inv b' fl" and "owned b' fl = owned b fl"
proof -
  have mem: "entry b' t = entry b t" for t using assms(1) by (rule aux_update_entry)
  have ch: "chain b t (free_list_head b' (ntype_idx t)) (fl t)" if "t \<noteq> Invalid" for t
    using assms that by (simp add: alloc_inv_def aux_update_def)
  have dist: "distinct (fl u)" for u using assms(2) by (simp add: alloc_inv_def)
  show "alloc_inv b' fl"
    using alloc_inv_mono(1) [OF assms(2) subset_refl dist mem ch] assms
    by (simp add: aux_update_def alloc_inv_def)
  show "owned b' fl = owned b fl"
    using assms(1) by (simp add: owned_def mem fixed_owned_def aux_update_def)
qed

lemma aux_update_handover:
  assumes "aux_update b b'" and "alloc_inv b fl" and "root_slot b' = root_slot b"
    and "tombstone_leaf_cnt b' = tombstone_leaf_cnt b" and "compact_times b' = compact_times b"
    and "header_guid b' = header_guid b"
  shows "handover b fl b' fl {}"
proof -
  have "b' a = b a" if "a \<notin> owned b fl" for a
    using assms(1) that by (simp add: aux_update_def owned_def fixed_owned_def)
  with assms show ?thesis using aux_update_inv [OF assms(1,2)]
    by (simp add: handover_def aux_update_def)
qed

lemma node_at_aux: "aux_update b b' \<Longrightarrow> node_at b s nt off \<Longrightarrow> node_at b' s nt off"
  by (simp add: node_at_def aux_update_entry) (simp add: aux_update_def)

lemma alloc_node_spec:
  assumes inv: "alloc_inv b fl" and nt: "nt \<noteq> Invalid"
  obtains (fail) e where "alloc_node nt b = (Inl (Alloc e), b)" and "e \<noteq> InvalidRequest"
    | (ok) s off b' fl' where "alloc_node nt b = (Inr s, b')" and "node_at b' s nt off"
        and "handover b fl b' fl' (nfoot s nt off)"
proof -
  from alloc_node_inner_spec [OF inv nt] show thesis
  proof (elim disjE exE conjE)
    fix e assume "alloc_node_inner nt b = (Inl (Alloc e), b)" "e \<noteq> InvalidRequest"
    then show thesis by (intro fail) (simp_all add: alloc_node_def sbind_def)
  next
    fix s off b1 fl'
    assume run: "alloc_node_inner nt b = (Inr s, b1)" and node: "node_at b1 s nt off"
      and ho: "handover b fl b1 fl' (nfoot s nt off)"
    define b' where "b' = (if nt = BlobT then set_num_ext_blobs (sat_add 16 (num_ext_blobs b1) 1) b1 else b1)"
    have aux: "aux_update b1 b'" by (simp add: b'_def) (simp add: aux_update_def)
    have "alloc_node nt b = (Inr s, b')"
      by (simp add: alloc_node_def sbind_Inr [of _ _ s b1] run b'_def)
    moreover have "node_at b' s nt off" using aux node by (rule node_at_aux)
    moreover have "handover b1 fl' b' fl' {}"
      using ho aux by (intro aux_update_handover) (auto simp: handover_def b'_def)
    ultimately show thesis using handover_trans [OF ho, of b' fl' "{}"] ok by simp
  qed
qed

lemma alloc_extent_spec:
  assumes inv: "alloc_inv b fl" and n: "0 < n" "n < 2 ^ 31"
  obtains (fail) e where "alloc_extent n b = (Inl (Alloc e), b)" and "e \<noteq> InvalidRequest"
    | (ok) off b' where "alloc_extent n b = (Inr off, b')" and "off = space_used b"
        and "8 dvd off" and "DATA_AREA_START \<le> off" and "off + align8 n \<le> PAGE_SIZE"
        and "handover b fl b' fl (region off (align8 n))"
proof (cases "PAGE_SIZE - space_used b - SPILLOVER_RESERVATION < align8 n")
  case True
  with n have "alloc_extent n b
      = (Inl (Alloc (OutOfSpace (align8 n) (PAGE_SIZE - space_used b - SPILLOVER_RESERVATION))), b)"
    by (simp add: alloc_extent_def Let_def)
  then show thesis by (rule fail) simp
next
  case False
  define b' where "b' = set_space_used (space_used b + align8 n) b"
  note invd = inv [unfolded alloc_inv_def]
  have pos: "0 < align8 n" using n align8_bounds(2) [of n] by simp
  have room: "space_used b + align8 n \<le> PAGE_SIZE" using False invd pos by simp
  have run: "alloc_extent n b = (Inr (space_used b), b')"
    using False n by (simp add: alloc_extent_def Let_def b'_def)
  have su: "space_used b' = space_used b + align8 n"
    using room by (simp add: b'_def layout_consts)
  have "handover b fl b' fl (region (space_used b) (align8 n))"
  proof (rule handover_same_lists [OF inv])
    show "region (space_used b) (align8 n) \<subseteq> fixed_owned b"
      using room by (auto simp: fixed_owned_def)
    show "fixed_owned b' = fixed_owned b - region (space_used b) (align8 n)"
      using room invd unfolding fixed_owned_def su by (auto simp: b'_def layout_consts)
    show "b' a = b a" if "a \<notin> fixed_owned b" for a
      using that by (simp add: b'_def fixed_owned_def)
  qed (use invd room align8_bounds [OF n(2)] in \<open>simp_all add: b'_def layout_consts\<close>)
  with run room invd show thesis by (intro ok) auto
qed

section \<open>Freeing returns memory\<close>

definition reclaim :: "buf \<Rightarrow> (node_type \<Rightarrow> nat list) \<Rightarrow> buf \<Rightarrow> (node_type \<Rightarrow> nat list) \<Rightarrow> nat set \<Rightarrow> bool" where
  "reclaim b fl b' fl' N \<longleftrightarrow> alloc_inv b' fl' \<and> owned b' fl' = owned b fl \<union> N
     \<and> (\<forall>a. a \<notin> owned b fl \<union> N \<longrightarrow> b' a = b a)
     \<and> num_slots b' = num_slots b \<and> space_used b' = space_used b
     \<and> root_slot b' = root_slot b \<and> tombstone_leaf_cnt b' = tombstone_leaf_cnt b
     \<and> compact_times b' = compact_times b \<and> header_guid b' = header_guid b"

lemma free_node_inner_run:
  assumes node: "node_at b s nt off"
  defines "b' \<equiv> set_free_list_head (ntype_idx nt) s
    (write_slot_entry s (slot_freed (free_list_head b (ntype_idx nt)) off) b)"
  shows "free_node_inner s b = (Inr (), b')"
    and "free_node s b = (Inr (), if nt = BlobT then set_num_ext_blobs (num_ext_blobs b' - 1) b' else b')"
proof -
  have "off < PAGE_SIZE" "8 dvd off" "nt \<noteq> Invalid"
    using node node_bytes_bounds(1) [of nt] by (auto simp: node_at_def)
  then have lt: "live_type b s = Inr (slot_live nt off, nt)" and bo: "byte_offset (slot_live nt off) = off"
    using node by (simp_all add: live_type_def slot_entry_node_at)
  then show run: "free_node_inner s b = (Inr (), b')"
    using \<open>nt \<noteq> Invalid\<close> by (simp add: free_node_inner_def b'_def Let_def)
  show "free_node s b = (Inr (), if nt = BlobT then set_num_ext_blobs (num_ext_blobs b' - 1) b' else b')"
    using lt by (simp add: free_node_def sbind_Inr [of "free_node_inner s" b, OF run])
qed

lemma free_node_spec:
  assumes inv: "alloc_inv b fl" and node: "node_at b s nt off" and disj: "nfoot s nt off \<inter> owned b fl = {}"
  shows "\<exists>b'. free_node s b = (Inr (), b') \<and> reclaim b fl b' (fl(nt := s # fl nt)) (nfoot s nt off)"
proof -
  let ?fl = "fl(nt := s # fl nt)" and ?h = "free_list_head b (ntype_idx nt)"
  define b1 where "b1 = set_free_list_head (ntype_idx nt) s (write_slot_entry s (slot_freed ?h off) b)"
  define b' where "b' = (if nt = BlobT then set_num_ext_blobs (num_ext_blobs b1 - 1) b1 else b1)"
  note invd = inv [unfolded alloc_inv_def] and nd = node [unfolded node_at_def]
  have run: "free_node s b = (Inr (), b')"
    using free_node_inner_run(2) [OF node] by (simp add: b'_def b1_def)
  have hdr: "num_slots b' = num_slots b" "space_used b' = space_used b" "root_slot b' = root_slot b"
    "tombstone_leaf_cnt b' = tombstone_leaf_cnt b" "compact_times b' = compact_times b"
    "header_guid b' = header_guid b"
    by (simp_all add: b'_def b1_def)
  have s: "s < 65536" "1 \<le> s" using nd by (auto simp: layout_consts)
  have off: "off < PAGE_SIZE" "8 dvd off" "DATA_AREA_START \<le> off" "off + node_bytes nt \<le> space_used b"
    using nd node_bytes_bounds(1) [of nt] node_at_below_cursor [OF node disj] by auto
  have nf: "s \<notin> set (fl u)" for u using node_at_not_free [OF disj] .
  have ch: "chain b t (free_list_head b (ntype_idx t)) (fl t)" if "t \<noteq> Invalid" for t
    using invd that by blast
  have h: "?h < 2 ^ 15"
  proof (cases "fl nt")
    case Nil then show ?thesis using ch [of nt] nd by simp
  next
    case (Cons x xs) then show ?thesis using ch [of nt] nd invd by (simp add: layout_consts)
  qed
  have es: "entry b' s = slot_freed ?h off"
    using entry_write_same [OF slot_freed_round [OF off(1) h], of s b] by (auto simp: b'_def b1_def)
  have eo: "entry b' t = entry b t" if "t \<in> set (fl u)" for t u
  proof -
    have "1 \<le> t" "t \<noteq> s" using that alloc_inv_slots(2) [OF inv that] nf by auto
    then show ?thesis using s by (simp add: b'_def b1_def entry_write_other)
  qed
  have heads: "free_list_head b' (ntype_idx t) = (if t = nt then s else free_list_head b (ntype_idx t))"
    if "t \<noteq> Invalid" for t
    using s nd nt_idx_inject [OF that, of nt] by (auto simp: b'_def b1_def)
  have ffs: "free_foot b' nt s = nfoot s nt off" using off by (simp add: es)
  have ffo: "free_foot b' u t = free_foot b u t" if "t \<in> set (fl u)" for t u using eo [OF that] by simp
  have chains: "chain b' t (free_list_head b' (ntype_idx t)) (?fl t)" if "t \<noteq> Invalid" for t
  proof -
    have "chain b' t (free_list_head b (ntype_idx t)) (fl t)"
      using chain_cong [OF ch [OF that] eo] hdr by simp
    then show ?thesis using that s off h nd by (cases "t = nt") (auto simp: heads es hdr)
  qed
  have sep: "nfoot s nt off \<inter> free_foot b u t = {}" if "t \<in> set (fl u)" for t u
    using disj that unfolding owned_def by blast
  have "alloc_inv b' ?fl"
    unfolding alloc_inv_def
  proof (intro conjI allI impI)
    fix t u x y assume xy: "x \<in> set (?fl t)" "y \<in> set (?fl u)" "(t, x) \<noteq> (u, y)"
    have old: "free_foot b' t x \<inter> free_foot b' u y = {}" if "x \<in> set (fl t)" "y \<in> set (fl u)"
      using alloc_inv_disjoint [OF inv that xy(3)] that by (simp only: ffo)
    show "free_foot b' t x \<inter> free_foot b' u y = {}"
      using xy old sep [of x t] sep [of y u] ffs ffo [of x t] ffo [of y u]
      by (auto split: if_splits)
  qed (use invd nf hdr chains nd in auto)
  moreover have "owned b' ?fl = owned b fl \<union> nfoot s nt off"
  proof -
    have "(\<Union>u. \<Union>t\<in>set (?fl u). free_foot b' u t) = nfoot s nt off \<union> (\<Union>u. \<Union>t\<in>set (fl u). free_foot b' u t)"
      using UN_push [of "free_foot b'" fl nt s] unfolding ffs .
    moreover have "(\<Union>u. \<Union>t\<in>set (fl u). free_foot b' u t) = (\<Union>u. \<Union>t\<in>set (fl u). free_foot b u t)"
      by (intro SUP_cong refl) (simp add: ffo)
    moreover have "fixed_owned b' = fixed_owned b" by (simp add: fixed_owned_def hdr)
    ultimately show ?thesis unfolding owned_def by (simp only: Un_ac)
  qed
  moreover have "b' a = b a" if "a \<notin> owned b fl \<union> nfoot s nt off" for a
    using that by (simp add: b'_def b1_def owned_def fixed_owned_def nfoot_def write_slot_entry_other)
  ultimately show ?thesis using run hdr by (auto simp: reclaim_def)
qed

section \<open>A fresh frame\<close>

lemma le_nat_zeros: "le_nat (replicate n 0) = 0"
  by (induction n) simp_all

lemma get_zero: "get_u16 frame_zero off = 0" "get_u32 frame_zero off = 0"
  by (simp_all add: get_u16_def get_u32_def rd_def frame_zero_def map_replicate_const le_nat_zeros)

lemma header_zero:
  "num_slots frame_zero = 0" "free_list_head frame_zero i = 0" "tombstone_leaf_cnt frame_zero = 0"
  by (simp_all add: header_get_defs get_zero)

lemma frame_init_spec:
  assumes "length guid = 16"
  obtains b fl where "frame_init guid = (Inr (), b)" and "alloc_inv b fl" and "root_slot b = 1"
    and "node_at b 1 EmptyRoot DATA_AREA_START"
    and "nfoot 1 EmptyRoot DATA_AREA_START \<inter> owned b fl = {}"
    and "header_guid b = guid" and "tombstone_leaf_cnt b = 0"
    and "num_slots b = 1" and "space_used b = DATA_AREA_START + 8" and "\<And>i. i < 8 \<Longrightarrow> free_list_head b i = 0"
proof -
  define z where "z = set_space_used DATA_AREA_START (set_header_guid guid frame_zero)"
  let ?fl = "\<lambda>_ :: node_type. [] :: nat list"
  have z: "num_slots z = 0" "space_used z = 45056" "header_guid z = guid" "tombstone_leaf_cnt z = 0"
    and zh: "i < 8 \<Longrightarrow> free_list_head z i = 0" for i
    using assms by (simp_all add: z_def header_zero layout_consts)
  have inv: "alloc_inv z ?fl"
    by (simp add: alloc_inv_def z zh layout_consts)
  have run: "alloc_node EmptyRoot z = bump_node EmptyRoot 8 z"
    by (simp add: alloc_node_def sbind_def alloc_node_inner_def zh split: prod.splits sum.splits)
  moreover have "fst (bump_node EmptyRoot 8 z) = Inr 1"
    by (simp add: bump_node_def z layout_consts SPILLOVER_RESERVATION_def Let_def)
  ultimately have one: "fst (alloc_node EmptyRoot z) = Inr 1" by simp
  show thesis
  proof (rule alloc_node_spec [OF inv, of EmptyRoot])
    fix s off b1 fl' assume a: "alloc_node EmptyRoot z = (Inr s, b1)" "node_at b1 s EmptyRoot off"
      "handover z ?fl b1 fl' (nfoot s EmptyRoot off)"
    have s: "s = 1" using one a(1) by simp
    have "b1 = snd (bump_node EmptyRoot 8 z)" using a(1) run by simp
    then have "entry b1 1 = slot_live EmptyRoot DATA_AREA_START" and fresh: "num_slots b1 = 1"
        "space_used b1 = DATA_AREA_START + 8" "i < 8 \<Longrightarrow> free_list_head b1 i = 0" for i
      using zh entry_slot_live_write [of DATA_AREA_START 1 EmptyRoot z]
      by (simp_all add: bump_node_def z layout_consts SPILLOVER_RESERVATION_def Let_def)
    then have n1: "node_at b1 1 EmptyRoot DATA_AREA_START"
      using a(2) s by (simp add: node_at_def layout_consts)
    have off: "off = DATA_AREA_START" using node_at_unique [OF n1 a(2) [unfolded s]] by simp
    let ?b = "set_root_slot 1 b1"
    have i: "alloc_inv b1 fl'" and o: "owned b1 fl' = owned z ?fl - nfoot s EmptyRoot off"
      and g: "header_guid b1 = guid" "tombstone_leaf_cnt b1 = 0"
      using a(3) z by (simp_all add: handover_def)
    show thesis
    proof (rule that)
      show "frame_init guid = (Inr (), ?b)"
        by (simp add: frame_init_def z_def [symmetric] sbind_Inr [of "alloc_node EmptyRoot" z, OF a(1)] s)
      show "alloc_inv ?b fl'" using i by (rule aux_update_inv(1) [OF aux_update_set(1)])
      show "node_at ?b 1 EmptyRoot DATA_AREA_START"
        using n1 by (rule node_at_aux [OF aux_update_set(1)])
      show "nfoot 1 EmptyRoot DATA_AREA_START \<inter> owned ?b fl' = {}"
        using aux_update_inv(2) [OF aux_update_set(1) i] o s off by auto
    qed (simp_all add: g fresh)
  next
    fix e assume "alloc_node EmptyRoot z = (Inl (Alloc e), z)"
    then show thesis using one by simp
  qed simp
qed

section \<open>Properties of the allocator\<close>

text \<open>C25. Allocating a node in a well-formed frame either fails with an out-of-slots or
  out-of-space error and leaves every byte of the frame as it was, or returns a slot whose
  entry and body are well-formed, taken from memory the allocator owned, so that no live
  node overlaps it, and all bytes the allocator does not own are unchanged.\<close>

theorem alloc_node_safe:
  assumes "alloc_inv b fl" and "nt \<noteq> Invalid"
  shows "case alloc_node nt b of
      (Inl e, b') \<Rightarrow> b' = b \<and> (\<exists>a. e = Alloc a \<and> a \<noteq> InvalidRequest)
    | (Inr s, b') \<Rightarrow> \<exists>off fl'. node_at b' s nt off \<and> handover b fl b' fl' (nfoot s nt off)"
  by (rule alloc_node_spec [OF assms]) (simp, simp, blast)

lemma some_frame: "\<exists>b fl. alloc_inv b fl \<and> node_at b 1 EmptyRoot DATA_AREA_START
   \<and> nfoot 1 EmptyRoot DATA_AREA_START \<inter> owned b fl = {}"
  by (rule frame_init_spec [of "replicate 16 0"]) auto

theorem alloc_node_safe_witness:
  "\<exists>b fl. alloc_inv b fl \<and> Node4T \<noteq> Invalid \<and> (case alloc_node Node4T b of
      (Inl e, b') \<Rightarrow> b' = b \<and> (\<exists>a. e = Alloc a \<and> a \<noteq> InvalidRequest)
    | (Inr s, b') \<Rightarrow> \<exists>off fl'. node_at b' s Node4T off \<and> handover b fl b' fl' (nfoot s Node4T off))"
proof -
  obtain b fl where b: "alloc_inv b fl" using some_frame by blast
  have nt: "Node4T \<noteq> Invalid" by simp
  show ?thesis by (intro exI conjI) (rule b nt alloc_node_safe [OF b nt])+
qed

text \<open>C27. Allocating an extent either fails and leaves the frame as it was, or returns the
  old space cursor: an aligned range inside the data area and inside the page, taken from
  memory the allocator owned.\<close>

theorem alloc_extent_safe:
  assumes "alloc_inv b fl" and "0 < n" and "n < 2 ^ 31"
  shows "case alloc_extent n b of
      (Inl e, b') \<Rightarrow> b' = b \<and> (\<exists>a. e = Alloc a \<and> a \<noteq> InvalidRequest)
    | (Inr off, b') \<Rightarrow> off = space_used b \<and> 8 dvd off \<and> DATA_AREA_START \<le> off
        \<and> off + align8 n \<le> PAGE_SIZE \<and> handover b fl b' fl (region off (align8 n))"
  by (rule alloc_extent_spec [OF assms]) simp_all

theorem alloc_extent_safe_witness:
  "\<exists>b fl. alloc_inv b fl \<and> (0 :: nat) < 24 \<and> (24 :: nat) < 2 ^ 31 \<and> (case alloc_extent 24 b of
      (Inl e, b') \<Rightarrow> b' = b \<and> (\<exists>a. e = Alloc a \<and> a \<noteq> InvalidRequest)
    | (Inr off, b') \<Rightarrow> off = space_used b \<and> 8 dvd off \<and> DATA_AREA_START \<le> off
        \<and> off + align8 24 \<le> PAGE_SIZE \<and> handover b fl b' fl (region off (align8 24)))"
proof -
  obtain b fl where b: "alloc_inv b fl" using some_frame by blast
  have n: "(0 :: nat) < 24" "(24 :: nat) < 2 ^ 31" by simp_all
  show ?thesis by (intro exI conjI) (rule b n alloc_extent_safe [OF b n])+
qed

text \<open>C26. Freeing a live node never fails, gives its slot entry and body back to the
  allocator, keeps the free lists well-formed and disjoint, and changes no byte outside.\<close>

theorem free_node_safe:
  assumes "alloc_inv b fl" and "node_at b s nt off" and "nfoot s nt off \<inter> owned b fl = {}"
  shows "\<exists>b'. free_node s b = (Inr (), b') \<and> reclaim b fl b' (fl(nt := s # fl nt)) (nfoot s nt off)"
  using assms by (rule free_node_spec)

theorem free_node_safe_witness:
  "\<exists>b fl. alloc_inv b fl \<and> node_at b 1 EmptyRoot DATA_AREA_START
     \<and> nfoot 1 EmptyRoot DATA_AREA_START \<inter> owned b fl = {}
     \<and> (\<exists>b'. free_node 1 b = (Inr (), b')
         \<and> reclaim b fl b' (fl(EmptyRoot := 1 # fl EmptyRoot)) (nfoot 1 EmptyRoot DATA_AREA_START))"
  using some_frame free_node_safe by blast

text \<open>Freeing rejects a slot that is not in use: slot zero and slots past the high-water
  mark are reported as invalid and the frame is left as it was.\<close>

theorem free_node_invalid:
  assumes "s = 0 \<or> num_slots b < s"
  shows "free_node s b = (Inl (Free (InvalidSlot s)), b)"
  using assms by (auto simp: free_node_def live_type_def slot_entry_eq)

theorem free_node_invalid_witness:
  "(0 :: nat) = 0 \<and> free_node 0 frame_zero = (Inl (Free (InvalidSlot 0)), frame_zero)"
  using free_node_invalid [of 0 frame_zero] by simp

text \<open>Initialising a frame succeeds for every blob identifier and gives a well-formed
  frame whose root is slot 1, an empty-root node at the start of the data area.\<close>

theorem frame_init_ok:
  assumes "length guid = 16"
  shows "\<exists>b fl. frame_init guid = (Inr (), b) \<and> alloc_inv b fl \<and> root_slot b = 1
     \<and> node_at b 1 EmptyRoot DATA_AREA_START \<and> nfoot 1 EmptyRoot DATA_AREA_START \<inter> owned b fl = {}
     \<and> header_guid b = guid"
  using assms by (rule frame_init_spec) blast

theorem frame_init_ok_witness:
  "length ROOT_BLOB_GUID = 16 \<and> (\<exists>b fl. frame_init ROOT_BLOB_GUID = (Inr (), b) \<and> alloc_inv b fl
     \<and> root_slot b = 1 \<and> node_at b 1 EmptyRoot DATA_AREA_START
     \<and> nfoot 1 EmptyRoot DATA_AREA_START \<inter> owned b fl = {} \<and> header_guid b = ROOT_BLOB_GUID)"
proof -
  have g: "length ROOT_BLOB_GUID = 16" by (simp add: ROOT_BLOB_GUID_def)
  show ?thesis using frame_init_ok [OF g] g by blast
qed

end
