(* ===== verification/Simd.thy ===== *)
theory Simd
  imports Prelude
begin

text \<open>
  The byte-scanning primitives of \<^verbatim>\<open>src/engine/simd.rs\<close>.  The source selects its loops by
  target: SSE2 with optional AVX2 on x86-64, NEON on aarch64, scalar code elsewhere.  The
  model takes the target as an argument, builds the lane masks the intrinsics return, and
  shows that every target computes what the scalar loop computes.
\<close>

unbundle bit_operations_syntax

datatype target = X86 bool | Arm | Other

section \<open>Bit counting and lane masks\<close>

definition trailing_zeros :: "'a::len word \<Rightarrow> nat" where
  "trailing_zeros w = length (takeWhile (\<lambda>i. \<not> bit w i) [0..<LENGTH('a)])"

definition trailing_ones :: "'a::len word \<Rightarrow> nat" where
  "trailing_ones w = length (takeWhile (\<lambda>i. bit w i) [0..<LENGTH('a)])"

text \<open>
  \<open>movemask\<close> collects one bit per lane, lane 0 in the lowest bit; the lanes hold the
  result of a lane-wise comparison.
\<close>

definition movemask :: "bool list \<Rightarrow> u32" where
  "movemask lanes = horner_sum of_bool 2 lanes"

definition cmp_16_bytes_bitmask :: "bytes \<Rightarrow> bytes \<Rightarrow> u32" where
  "cmp_16_bytes_bitmask a b = movemask (map2 (=) (take 16 a) (take 16 b))"

definition cmp_32_bytes_bitmask :: "bytes \<Rightarrow> bytes \<Rightarrow> u32" where
  "cmp_32_bytes_bitmask a b = movemask (map2 (=) (take 32 a) (take 32 b))"

definition cmp_byte_eq_mask_16 :: "u8 \<Rightarrow> bytes \<Rightarrow> u32" where
  "cmp_byte_eq_mask_16 needle xs = movemask (map (\<lambda>x. x = needle) (take 16 xs))"

definition cmp_byte_eq_mask_32 :: "u8 \<Rightarrow> bytes \<Rightarrow> u32" where
  "cmp_byte_eq_mask_32 needle xs = movemask (map (\<lambda>x. x = needle) (take 32 xs))"

definition cmp_byte_neq_zero_mask_16 :: "bytes \<Rightarrow> u32" where
  "cmp_byte_neq_zero_mask_16 xs = NOT (movemask (map (\<lambda>x. x = 0) (take 16 xs))) AND 0xFFFF"

definition cmp_byte_neq_zero_mask_32 :: "bytes \<Rightarrow> u32" where
  "cmp_byte_neq_zero_mask_32 xs = NOT (movemask (map (\<lambda>x. x = 0) (take 32 xs)))"

definition cmp_u32_neq_zero_mask_4 :: "nat list \<Rightarrow> u32" where
  "cmp_u32_neq_zero_mask_4 xs =
     NOT (movemask (map (\<lambda>x. x = 0) (take 4 xs)) AND 0xF) AND 0xF"

definition cmp_u32_neq_zero_mask_8 :: "nat list \<Rightarrow> u32" where
  "cmp_u32_neq_zero_mask_8 xs =
     NOT (movemask (map (\<lambda>x. x = 0) (take 8 xs)) AND 0xFF) AND 0xFF"

definition find_byte_in_16 :: "bytes \<Rightarrow> nat \<Rightarrow> u8 \<Rightarrow> nat option" where
  "find_byte_in_16 keys count byte =
     (let m = movemask (map (\<lambda>x. x = byte) (take 16 keys));
          count_mask = (if count \<ge> 16 then 0xFFFF else push_bit count 1 - 1);
          masked = m AND count_mask
      in if masked = 0 then None else Some (trailing_zeros masked))"

text \<open>
  NEON has no movemask.  The comparison gives a byte vector of \<open>0xFF\<close> and \<open>0x00\<close>; a
  narrowing shift packs it to one nibble per byte, and a chain of shift-or-mask steps
  compacts the nibbles to bits.
\<close>

definition byte_lanes :: "bool list \<Rightarrow> bytes" where
  "byte_lanes ps = map (\<lambda>p. if p then - 1 else 0) ps"

fun shrn_4 :: "bytes \<Rightarrow> bytes" where
  "shrn_4 (lo # hi # rest) = ucast (drop_bit 4 (ucast lo OR push_bit 8 (ucast hi) :: 16 word)) # shrn_4 rest"
| "shrn_4 rest = []"

definition byte_mask_to_nibble_u64 :: "bytes \<Rightarrow> u64" where
  "byte_mask_to_nibble_u64 cmp = horner_sum ucast 256 (shrn_4 cmp)"

definition nibble_mask_to_bitmask_16 :: "u64 \<Rightarrow> u32" where
  "nibble_mask_to_bitmask_16 nib =
     (let x = nib AND 0x1111111111111111;
          x = (x OR drop_bit 3 x) AND 0x0303030303030303;
          x = (x OR drop_bit 6 x) AND 0x000f000f000f000f;
          x = (x OR drop_bit 12 x) AND 0x000000ff000000ff;
          x = (x OR drop_bit 24 x) AND 0x000000000000ffff
      in ucast x)"

definition arm_cmp_16_bytes_nibble :: "bytes \<Rightarrow> bytes \<Rightarrow> u64" where
  "arm_cmp_16_bytes_nibble a b = byte_mask_to_nibble_u64 (byte_lanes (map2 (=) (take 16 a) (take 16 b)))"

definition arm_find_byte_in_16 :: "bytes \<Rightarrow> nat \<Rightarrow> u8 \<Rightarrow> nat option" where
  "arm_find_byte_in_16 keys count byte =
     (let mask64 = byte_mask_to_nibble_u64 (byte_lanes (map (\<lambda>x. x = byte) (take 16 keys)));
          count_bits = min count 16 * 4;
          count_mask = (if count_bits = 64 then - 1 else push_bit count_bits 1 - 1);
          masked = mask64 AND count_mask
      in if masked = 0 then None else Some (trailing_zeros masked div 4))"

definition arm_cmp_byte_eq_mask_16 :: "u8 \<Rightarrow> bytes \<Rightarrow> u32" where
  "arm_cmp_byte_eq_mask_16 needle xs =
     nibble_mask_to_bitmask_16 (byte_mask_to_nibble_u64 (byte_lanes (map (\<lambda>x. x = needle) (take 16 xs))))"

definition arm_cmp_byte_neq_zero_mask_16 :: "bytes \<Rightarrow> u32" where
  "arm_cmp_byte_neq_zero_mask_16 xs =
     nibble_mask_to_bitmask_16
       (byte_mask_to_nibble_u64 (map NOT (byte_lanes (map (\<lambda>x. x = 0) (take 16 xs)))))"

definition arm_cmp_u32_neq_zero_mask_4 :: "nat list \<Rightarrow> u32" where
  "arm_cmp_u32_neq_zero_mask_4 xs =
     (let as_bytes = concat (map (\<lambda>p. replicate 4 (NOT (if p then - 1 else 0))) (map (\<lambda>x. x = 0) (take 4 xs)));
          nib = byte_mask_to_nibble_u64 as_bytes;
          byte_bits = nibble_mask_to_bitmask_16 nib
      in nibble_mask_to_bitmask_16 (ucast (byte_bits AND 0x1111)) AND 0xF)"

section \<open>Scanning loops\<close>

text \<open>
  \<open>chunk_scan w lanes xs i\<close> is the loop \<^verbatim>\<open>while i + w <= len\<close> that tests one window at a
  time: \<open>Inl\<close> is an early return with the index found, \<open>Inr\<close> the index where the loop stops.
\<close>

function chunk_scan :: "nat \<Rightarrow> ('a list \<Rightarrow> u32) \<Rightarrow> 'a list \<Rightarrow> nat \<Rightarrow> nat + nat" where
  "chunk_scan w lanes xs i =
     (if 0 < w \<and> i + w \<le> length xs
      then let m = lanes (drop i xs)
           in if m \<noteq> 0 then Inl (i + trailing_zeros m) else chunk_scan w lanes xs (i + w)
      else Inr i)"
  by pat_completeness auto
termination by (relation "measure (\<lambda>(w, lanes, xs, i). length xs - i)") auto

function scalar_scan :: "('a \<Rightarrow> bool) \<Rightarrow> 'a list \<Rightarrow> nat \<Rightarrow> nat option" where
  "scalar_scan p xs i =
     (if i < length xs then if p (xs ! i) then Some i else scalar_scan p xs (i + 1) else None)"
  by pat_completeness auto
termination by (relation "measure (\<lambda>(p, xs, i). length xs - i)") auto

declare chunk_scan.simps [simp del] scalar_scan.simps [simp del]

text \<open>Running the next loop when a loop did not return.\<close>

definition or_else :: "nat + nat \<Rightarrow> (nat \<Rightarrow> nat option) \<Rightarrow> nat option" where
  "or_else r k = (case r of Inl j \<Rightarrow> Some j | Inr i \<Rightarrow> k i)"

definition find_byte :: "target \<Rightarrow> bytes \<Rightarrow> u8 \<Rightarrow> nat \<Rightarrow> nat option" where
  "find_byte t xs needle start =
     (if start \<ge> length xs then None
      else case t of
        X86 avx2 \<Rightarrow>
          or_else (if length xs - start \<ge> 32 \<and> avx2 then chunk_scan 32 (cmp_byte_eq_mask_32 needle) xs start else Inr start)
            (\<lambda>i. or_else (chunk_scan 16 (cmp_byte_eq_mask_16 needle) xs i) (scalar_scan (\<lambda>x. x = needle) xs))
      | Arm \<Rightarrow> or_else (chunk_scan 16 (arm_cmp_byte_eq_mask_16 needle) xs start) (scalar_scan (\<lambda>x. x = needle) xs)
      | Other \<Rightarrow> scalar_scan (\<lambda>x. x = needle) xs start)"

definition find_next_nonzero_byte :: "target \<Rightarrow> bytes \<Rightarrow> nat \<Rightarrow> nat option" where
  "find_next_nonzero_byte t xs start =
     (if start \<ge> length xs then None
      else case t of
        X86 avx2 \<Rightarrow>
          or_else (if length xs - start \<ge> 32 \<and> avx2 then chunk_scan 32 cmp_byte_neq_zero_mask_32 xs start else Inr start)
            (\<lambda>i. or_else (chunk_scan 16 cmp_byte_neq_zero_mask_16 xs i) (scalar_scan (\<lambda>x. x \<noteq> 0) xs))
      | Arm \<Rightarrow> or_else (chunk_scan 16 arm_cmp_byte_neq_zero_mask_16 xs start) (scalar_scan (\<lambda>x. x \<noteq> 0) xs)
      | Other \<Rightarrow> scalar_scan (\<lambda>x. x \<noteq> 0) xs start)"

definition find_next_nonzero_u32 :: "target \<Rightarrow> nat list \<Rightarrow> nat \<Rightarrow> nat option" where
  "find_next_nonzero_u32 t xs start =
     (if start \<ge> length xs then None
      else case t of
        X86 avx2 \<Rightarrow>
          or_else (if length xs - start \<ge> 16 \<and> avx2 then chunk_scan 8 cmp_u32_neq_zero_mask_8 xs start else Inr start)
            (\<lambda>i. or_else (chunk_scan 4 cmp_u32_neq_zero_mask_4 xs i) (scalar_scan (\<lambda>x. x \<noteq> 0) xs))
      | Arm \<Rightarrow> or_else (chunk_scan 4 arm_cmp_u32_neq_zero_mask_4 xs start) (scalar_scan (\<lambda>x. x \<noteq> 0) xs)
      | Other \<Rightarrow> scalar_scan (\<lambda>x. x \<noteq> 0) xs start)"

definition node16_find_byte_scalar :: "bytes \<Rightarrow> nat \<Rightarrow> u8 \<Rightarrow> nat option" where
  "node16_find_byte_scalar keys count byte = scalar_scan (\<lambda>x. x = byte) (take (min count 16) keys) 0"

definition node16_find_byte :: "target \<Rightarrow> bytes \<Rightarrow> nat \<Rightarrow> u8 \<Rightarrow> nat option" where
  "node16_find_byte t keys count byte =
     (case t of
        X86 _ \<Rightarrow> find_byte_in_16 keys count byte
      | Arm \<Rightarrow> arm_find_byte_in_16 keys count byte
      | Other \<Rightarrow> node16_find_byte_scalar keys count byte)"

text \<open>
  \<open>lcp_scan w f a b i limit\<close> compares windows of \<open>w\<close> bytes; \<open>f\<close> is the comparison of one
  window, with the offset of the first difference.
\<close>

function lcp_scan :: "nat \<Rightarrow> (bytes \<Rightarrow> bytes \<Rightarrow> nat option) \<Rightarrow> bytes \<Rightarrow> bytes \<Rightarrow> nat \<Rightarrow> nat \<Rightarrow> nat + nat" where
  "lcp_scan w f a b i limit =
     (if 0 < w \<and> i + w \<le> limit
      then case f (drop i a) (drop i b) of Some k \<Rightarrow> Inl (i + k) | None \<Rightarrow> lcp_scan w f a b (i + w) limit
      else Inr i)"
  by pat_completeness auto
termination by (relation "measure (\<lambda>(w, f, a, b, i, limit). limit - i)") auto

function lcp_scalar :: "bytes \<Rightarrow> bytes \<Rightarrow> nat \<Rightarrow> nat \<Rightarrow> nat" where
  "lcp_scalar a b i limit = (if i < limit \<and> a ! i = b ! i then lcp_scalar a b (i + 1) limit else i)"
  by pat_completeness auto
termination by (relation "measure (\<lambda>(a, b, i, limit). limit - i)") auto

declare lcp_scan.simps [simp del] lcp_scalar.simps [simp del]

definition avx2_window :: "bytes \<Rightarrow> bytes \<Rightarrow> nat option" where
  "avx2_window a b = (let m = cmp_32_bytes_bitmask a b in if m \<noteq> - 1 then Some (trailing_ones m) else None)"

definition sse2_window :: "bytes \<Rightarrow> bytes \<Rightarrow> nat option" where
  "sse2_window a b = (let m = cmp_16_bytes_bitmask a b in if m \<noteq> 0xFFFF then Some (trailing_ones m) else None)"

definition neon_window :: "bytes \<Rightarrow> bytes \<Rightarrow> nat option" where
  "neon_window a b = (let m = arm_cmp_16_bytes_nibble a b in if m \<noteq> - 1 then Some (trailing_ones m div 4) else None)"

definition u64_window :: "bytes \<Rightarrow> bytes \<Rightarrow> nat option" where
  "u64_window a b =
     (let x = horner_sum ucast 256 (take 8 a) XOR horner_sum ucast 256 (take 8 b) :: u64
      in if x \<noteq> 0 then Some (trailing_zeros x div 8) else None)"

definition longest_common_prefix_tail :: "bytes \<Rightarrow> bytes \<Rightarrow> nat \<Rightarrow> nat \<Rightarrow> nat" where
  "longest_common_prefix_tail a b i limit =
     (case lcp_scan 8 u64_window a b i limit of Inl k \<Rightarrow> k | Inr j \<Rightarrow> lcp_scalar a b j limit)"

definition longest_common_prefix :: "target \<Rightarrow> bytes \<Rightarrow> bytes \<Rightarrow> nat" where
  "longest_common_prefix t a b =
     (let limit = min (length a) (length b);
          tail = (\<lambda>i. longest_common_prefix_tail a b i limit)
      in case t of
           X86 avx2 \<Rightarrow>
             (case (if limit \<ge> 32 \<and> avx2 then lcp_scan 32 avx2_window a b 0 limit else Inr 0) of
                Inl k \<Rightarrow> k
              | Inr i \<Rightarrow> (case lcp_scan 16 sse2_window a b i limit of Inl k \<Rightarrow> k | Inr j \<Rightarrow> tail j))
         | Arm \<Rightarrow> (case lcp_scan 16 neon_window a b 0 limit of Inl k \<Rightarrow> k | Inr j \<Rightarrow> tail j)
         | Other \<Rightarrow> tail 0)"

section \<open>Specification: the first index from a start\<close>

definition first_from :: "('a \<Rightarrow> bool) \<Rightarrow> 'a list \<Rightarrow> nat \<Rightarrow> nat option" where
  "first_from p xs i = find (\<lambda>j. p (xs ! j)) [i..<length xs]"

lemma find_append: "find p (xs @ ys) = (case find p xs of None \<Rightarrow> find p ys | Some x \<Rightarrow> Some x)"
  by (induction xs) simp_all

lemma first_from_step:
  "first_from p xs i = (if i < length xs then if p (xs ! i) then Some i else first_from p xs (i + 1) else None)"
  by (simp add: first_from_def upt_conv_Cons)

lemma scalar_scan_first: "scalar_scan p xs i = first_from p xs i"
proof (induction "length xs - i" arbitrary: i)
  case 0
  then show ?case by (subst scalar_scan.simps, subst first_from_step) simp
next
  case (Suc n)
  then have "scalar_scan p xs (i + 1) = first_from p xs (i + 1)" by simp
  then show ?case by (subst scalar_scan.simps, subst first_from_step) simp
qed

lemma first_from_Some:
  assumes "i \<le> j" and "j < length xs" and "p (xs ! j)" and "\<And>k. i \<le> k \<Longrightarrow> k < j \<Longrightarrow> \<not> p (xs ! k)"
  shows "first_from p xs i = Some j"
proof -
  have "[i..<length xs] = [i..<j] @ j # [j + 1..<length xs]"
    using assms(1,2) by (metis Suc_eq_plus1 le_Suc_ex less_or_eq_imp_le upt_add_eq_append upt_conv_Cons)
  moreover have "find (\<lambda>j. p (xs ! j)) [i..<j] = None" using assms(4) by (auto simp: find_None_iff)
  ultimately show ?thesis using assms(3) by (simp add: first_from_def find_append)
qed

lemma first_from_skip:
  assumes "i \<le> j" and "j \<le> length xs" and "\<And>k. i \<le> k \<Longrightarrow> k < j \<Longrightarrow> \<not> p (xs ! k)"
  shows "first_from p xs i = first_from p xs j"
proof -
  have "[i..<length xs] = [i..<j] @ [j..<length xs]"
    using assms(1,2) by (metis le_Suc_ex upt_add_eq_append)
  moreover have "find (\<lambda>j. p (xs ! j)) [i..<j] = None" using assms(3) by (auto simp: find_None_iff)
  ultimately show ?thesis by (simp add: first_from_def find_append)
qed

lemma first_from_iff:
  "first_from p xs i = Some j \<longleftrightarrow> i \<le> j \<and> j < length xs \<and> p (xs ! j) \<and> (\<forall>k. i \<le> k \<and> k < j \<longrightarrow> \<not> p (xs ! k))"
proof
  assume f: "first_from p xs i = Some j"
  then obtain n where n: "n < length [i..<length xs]" "p (xs ! ([i..<length xs] ! n))"
    "j = [i..<length xs] ! n" "\<forall>m<n. \<not> p (xs ! ([i..<length xs] ! m))"
    by (auto simp: first_from_def find_Some_iff)
  have "\<not> p (xs ! k)" if "i \<le> k" "k < j" for k
    using n that spec [OF n(4), of "k - i"] by auto
  with n show "i \<le> j \<and> j < length xs \<and> p (xs ! j) \<and> (\<forall>k. i \<le> k \<and> k < j \<longrightarrow> \<not> p (xs ! k))" by auto
qed (auto intro: first_from_Some)

section \<open>Masks and bit counts\<close>

lemma bit_movemask: "bit (movemask ps) n \<longleftrightarrow> n < 32 \<and> n < length ps \<and> ps ! n"
  by (auto simp: movemask_def bit_horner_sum_bit_word_iff)

lemma trailing_zeros_bit:
  fixes w :: "'a::len word"
  assumes "w \<noteq> 0"
  shows "trailing_zeros w < LENGTH('a)" and "bit w (trailing_zeros w)"
    and "\<And>k. k < trailing_zeros w \<Longrightarrow> \<not> bit w k"
proof -
  have "\<exists>i < LENGTH('a). bit w i"
    using assms by (metis bit_0_eq bit_imp_le_length bot_apply bot_bool_def bit_word_eqI)
  then have "takeWhile (\<lambda>i. \<not> bit w i) [0..<LENGTH('a)] \<noteq> [0..<LENGTH('a)]"
    by (auto simp: takeWhile_eq_all_conv)
  then have lt: "trailing_zeros w < length [0..<LENGTH('a)]"
    unfolding trailing_zeros_def
    by (metis length_takeWhile_le le_neq_implies_less takeWhile_eq_take take_all_iff)
  then show "trailing_zeros w < LENGTH('a)" by simp
  show "bit w (trailing_zeros w)"
    using nth_length_takeWhile [of "\<lambda>i. \<not> bit w i" "[0..<LENGTH('a)]"] lt
    by (simp add: trailing_zeros_def)
  show "\<not> bit w k" if "k < trailing_zeros w" for k
  proof -
    have "[0..<LENGTH('a)] ! k \<in> set (takeWhile (\<lambda>i. \<not> bit w i) [0..<LENGTH('a)])"
      using that unfolding trailing_zeros_def by (metis nth_mem takeWhile_nth)
    then have "\<not> bit w ([0..<LENGTH('a)] ! k)" by (rule set_takeWhileD [THEN conjunct2])
    with that lt show ?thesis by simp
  qed
qed

lemma trailing_ones_not: "trailing_ones w = trailing_zeros (NOT w)"
proof -
  have "takeWhile (\<lambda>i. bit w i) [0..<LENGTH('a)] = takeWhile (\<lambda>i. \<not> bit (NOT w) i) [0..<LENGTH('a)]"
    by (rule takeWhile_cong) (auto simp: bit_not_iff)
  then show ?thesis by (simp add: trailing_ones_def trailing_zeros_def)
qed

text \<open>A lane mask: one bit per element of a window, set where the predicate holds.\<close>

locale lane_mask =
  fixes p :: "'a \<Rightarrow> bool" and lanes :: "'a list \<Rightarrow> u32" and w :: nat
  assumes width: "0 < w" "w \<le> 32"
    and lanes: "w \<le> length xs \<Longrightarrow> bit (lanes xs) n \<longleftrightarrow> n < w \<and> p (xs ! n)"
begin

lemma chunk_scan_first:
  "case chunk_scan w lanes xs i of
     Inl j \<Rightarrow> first_from p xs i = Some j
   | Inr k \<Rightarrow> first_from p xs i = first_from p xs k"
proof (induction "length xs - i" arbitrary: i rule: less_induct)
  case less
  show ?case
  proof (cases "i + w \<le> length xs")
    case False
    then show ?thesis by (subst chunk_scan.simps) simp
  next
    case True
    let ?m = "lanes (drop i xs)"
    have b: "bit ?m n \<longleftrightarrow> n < w \<and> p (xs ! (i + n))" for n
      using True lanes [of "drop i xs" n] by auto
    show ?thesis
    proof (cases "?m = 0")
      case False
      note tz = trailing_zeros_bit [OF False]
      have "first_from p xs i = Some (i + trailing_zeros ?m)"
      proof (rule first_from_Some)
        show "i + trailing_zeros ?m < length xs" using tz(2) b True by (metis add_strict_left_mono less_le_trans)
        show "p (xs ! (i + trailing_zeros ?m))" using tz(2) b by blast
        show "\<not> p (xs ! k)" if "i \<le> k" "k < i + trailing_zeros ?m" for k
        proof -
          have "k - i < trailing_zeros ?m" using that by simp
          moreover have "trailing_zeros ?m < w" using tz(2) b by blast
          ultimately show ?thesis using tz(3) [of "k - i"] b [of "k - i"] that by simp
        qed
      qed simp
      with True False width show ?thesis by (subst chunk_scan.simps) simp
    next
      case m0: True
      have "first_from p xs i = first_from p xs (i + w)"
      proof (rule first_from_skip)
        show "\<not> p (xs ! k)" if "i \<le> k" "k < i + w" for k
          using b [of "k - i"] m0 that by simp
      qed (use True in auto)
      moreover have "chunk_scan w lanes xs i = chunk_scan w lanes xs (i + w)"
        using True m0 width by (subst chunk_scan.simps) simp
      ultimately show ?thesis using less [of "i + w"] True width by (auto split: sum.splits)
    qed
  qed
qed

lemma or_else_first:
  assumes "\<And>k. rest k = first_from p xs k"
  shows "or_else (chunk_scan w lanes xs i) rest = first_from p xs i"
  using chunk_scan_first [of xs i] assms by (auto simp: or_else_def split: sum.splits)

end

section \<open>The masks of every target\<close>

lemma bit_0xFFFF: "bit (0xFFFF :: u32) n \<longleftrightarrow> n < 16"
proof -
  have m: "(0xFFFF :: u32) = mask 16" by (simp add: mask_eq_exp_minus_1)
  show ?thesis unfolding m bit_mask_iff by auto
qed

lemma bit_0xFF: "bit (0xFF :: u32) n \<longleftrightarrow> n < 8"
proof -
  have m: "(0xFF :: u32) = mask 8" by (simp add: mask_eq_exp_minus_1)
  show ?thesis unfolding m bit_mask_iff by auto
qed

lemma bit_0xF: "bit (0xF :: u32) n \<longleftrightarrow> n < 4"
proof -
  have m: "(0xF :: u32) = mask 4" by (simp add: mask_eq_exp_minus_1)
  show ?thesis unfolding m bit_mask_iff by auto
qed

interpretation eq16: lane_mask "\<lambda>x. x = needle" "cmp_byte_eq_mask_16 needle" 16 for needle
  by (standard; (unfold cmp_byte_eq_mask_16_def bit_movemask)?; auto)

interpretation eq32: lane_mask "\<lambda>x. x = needle" "cmp_byte_eq_mask_32 needle" 32 for needle
  by (standard; (unfold cmp_byte_eq_mask_32_def bit_movemask)?; auto)

interpretation nz16: lane_mask "\<lambda>x. x \<noteq> 0" cmp_byte_neq_zero_mask_16 16
  by (standard; (unfold cmp_byte_neq_zero_mask_16_def bit_movemask bit_and_iff bit_not_iff bit_0xFFFF)?; auto)

interpretation nz32: lane_mask "\<lambda>x. x \<noteq> 0" cmp_byte_neq_zero_mask_32 32
  by (standard; (unfold cmp_byte_neq_zero_mask_32_def bit_movemask bit_not_iff)?; auto)

interpretation nzw4: lane_mask "\<lambda>x. x \<noteq> 0" cmp_u32_neq_zero_mask_4 4
  by (standard; (unfold cmp_u32_neq_zero_mask_4_def bit_movemask bit_and_iff bit_not_iff bit_0xF)?; auto)

interpretation nzw8: lane_mask "\<lambda>x. x \<noteq> 0" cmp_u32_neq_zero_mask_8 8
  by (standard; (unfold cmp_u32_neq_zero_mask_8_def bit_movemask bit_and_iff bit_not_iff bit_0xFF)?; auto)

section \<open>NEON masks\<close>

lemma bit_le_bytes:
  "bit (horner_sum ucast 256 (bs :: bytes) :: u64) n \<longleftrightarrow>
     n < 64 \<and> n div 8 < length bs \<and> bit (bs ! (n div 8)) (n mod 8)"
proof (induction bs arbitrary: n)
  case (Cons x bs)
  let ?h = "horner_sum ucast 256 bs :: u64"
  have "ucast x AND push_bit 8 ?h = 0"
    by (rule bit_word_eqI) (auto simp: bit_simps dest: bit_imp_le_length)
  then have "horner_sum ucast 256 (x # bs) = ucast x OR push_bit 8 ?h"
    by (simp add: disjunctive_add_eq_or push_bit_eq_mult mult.commute)
  moreover have "bit (ucast x OR push_bit 8 ?h) n \<longleftrightarrow> n < 64 \<and> (if n < 8 then bit x n else bit ?h (n - 8))"
    by (auto simp: bit_simps dest: bit_imp_le_length)
  moreover have "n div 8 = Suc ((n - 8) div 8)" "n mod 8 = (n - 8) mod 8" if "8 \<le> n"
    using that by (simp_all add: le_div_geq le_mod_geq)
  ultimately show ?case
    by (cases "n < 8") (auto simp: Cons.IH)
qed simp

lemma nth_shrn_4:
  "k < length (shrn_4 bs) \<Longrightarrow>
     shrn_4 bs ! k = ucast (drop_bit 4 (ucast (bs ! (2 * k)) OR push_bit 8 (ucast (bs ! (2 * k + 1))) :: 16 word))"
proof (induction bs arbitrary: k rule: shrn_4.induct)
  case (1 lo hi rest)
  then show ?case by (cases k) simp_all
qed simp_all

lemma length_shrn_4: "length (shrn_4 bs) = length bs div 2"
  by (induction bs rule: shrn_4.induct) simp_all

text \<open>One nibble per byte lane.\<close>

lemma bit_nibble_mask:
  assumes len: "length ps = 16"
  shows "bit (byte_mask_to_nibble_u64 (byte_lanes ps)) n \<longleftrightarrow> n < 64 \<and> ps ! (n div 4)"
proof (cases "n < 64")
  case True
  let ?bs = "byte_lanes ps"
  have lb: "length ?bs = 16" using len by (simp add: byte_lanes_def)
  have lane: "bit (?bs ! i) k \<longleftrightarrow> ps ! i" if "i < 16" "k < 8" for i k
    using that len by (simp add: byte_lanes_def)
  have k: "n div 8 < 8" "n mod 8 < 8" using True by auto
  have "bit (byte_mask_to_nibble_u64 ?bs) n \<longleftrightarrow> bit (shrn_4 ?bs ! (n div 8)) (n mod 8)"
    using True k lb by (simp add: byte_mask_to_nibble_u64_def bit_le_bytes length_shrn_4)
  also have "\<dots> \<longleftrightarrow> (if n mod 8 < 4 then bit (?bs ! (2 * (n div 8))) (4 + n mod 8)
      else bit (?bs ! (2 * (n div 8) + 1)) (n mod 8 - 4))"
    using k lb by (auto simp: nth_shrn_4 length_shrn_4 bit_simps dest: bit_imp_le_length)
  also have "\<dots> \<longleftrightarrow> ps ! (n div 4)"
  proof (cases "n mod 8 < 4")
    case True
    then have "n div 4 = 2 * (n div 8)" by presburger
    with True k lane show ?thesis by simp
  next
    case False
    then have "n div 4 = 2 * (n div 8) + 1" by presburger
    with False k lane show ?thesis by simp
  qed
  finally show ?thesis using True by simp
qed (auto dest: bit_imp_le_length)

lemma less_16_cases:
  "(n :: nat) < 16 \<longleftrightarrow> n \<in> {0, 1, 2, 3, 4, 5, 6, 7, 8, 9, 10, 11, 12, 13, 14, 15}"
  by (simp, presburger)

lemma bit_nibble_mask_to_bitmask:
  "bit (nibble_mask_to_bitmask_16 nib) n \<longleftrightarrow> n < 16 \<and> bit nib (4 * n)"
proof (cases "n < 16")
  case True
  then show ?thesis
    unfolding less_16_cases
    by (elim insertE emptyE)
      (simp_all add: nibble_mask_to_bitmask_16_def Let_def bit_and_iff bit_or_iff bit_drop_bit_eq bit_ucast_iff)
next
  case False
  have m: "(0xFFFF :: u64) = mask 16" by (simp add: mask_eq_exp_minus_1)
  from False show ?thesis
    unfolding nibble_mask_to_bitmask_16_def Let_def m bit_ucast_iff bit_and_iff bit_mask_iff by simp
qed

lemma bit_arm_mask:
  "length ps = 16 \<Longrightarrow>
     bit (nibble_mask_to_bitmask_16 (byte_mask_to_nibble_u64 (byte_lanes ps))) n \<longleftrightarrow> n < 16 \<and> ps ! n"
  by (auto simp: bit_nibble_mask_to_bitmask bit_nibble_mask)

lemma not_byte_lanes: "map NOT (byte_lanes ps) = byte_lanes (map Not ps)"
  by (simp add: byte_lanes_def)

interpretation arm_eq16: lane_mask "\<lambda>x. x = needle" "arm_cmp_byte_eq_mask_16 needle" 16 for needle
  by (standard; (unfold arm_cmp_byte_eq_mask_16_def)?; auto simp: bit_arm_mask)

interpretation arm_nz16: lane_mask "\<lambda>x. x \<noteq> 0" arm_cmp_byte_neq_zero_mask_16 16
  by (standard; (unfold arm_cmp_byte_neq_zero_mask_16_def not_byte_lanes)?; auto simp: bit_arm_mask)

lemma u32_lanes_as_bytes:
  "concat (map (\<lambda>p. replicate 4 (NOT (if p then - 1 else 0))) ps)
     = byte_lanes (concat (map (\<lambda>p. replicate 4 (\<not> p)) ps))"
  by (induction ps) (simp_all add: byte_lanes_def)

lemma nth_concat_replicate:
  "n < k * length ps \<Longrightarrow> concat (map (\<lambda>p. replicate k (f p)) ps) ! n = f (ps ! (n div k))"
proof (induction ps arbitrary: n)
  case (Cons x ps)
  then have "0 < k" by (cases k) simp_all
  with Cons show ?case
    by (cases "n < k") (auto simp: nth_append le_div_geq)
qed simp

lemma length_concat_replicate: "length (concat (map (\<lambda>p. replicate k (f p)) ps)) = k * length ps"
  by (induction ps) simp_all

lemma bit_0x1111:
  assumes "n < 16"
  shows "bit (0x1111 :: u32) n \<longleftrightarrow> n mod 4 = 0"
  using assms unfolding less_16_cases by (elim insertE emptyE) simp_all

interpretation arm_nzw4: lane_mask "\<lambda>x. x \<noteq> 0" arm_cmp_u32_neq_zero_mask_4 4
proof
  fix xs :: "nat list" and n
  assume len: "4 \<le> length xs"
  let ?ps = "map (\<lambda>x. x = 0) (take 4 xs)"
  let ?bb = "nibble_mask_to_bitmask_16 (byte_mask_to_nibble_u64 (byte_lanes (concat (map (\<lambda>p. replicate 4 (\<not> p)) ?ps))))"
  have bb: "bit ?bb k \<longleftrightarrow> k < 16 \<and> xs ! (k div 4) \<noteq> 0" for k
    using len bit_arm_mask [of "concat (map (\<lambda>p. replicate 4 (\<not> p)) ?ps)" k]
      length_concat_replicate [of 4 Not ?ps] nth_concat_replicate [of k 4 ?ps Not]
    by (auto simp del: map_map)
  have "bit (arm_cmp_u32_neq_zero_mask_4 xs) n \<longleftrightarrow> n < 4 \<and> bit (ucast (?bb AND 0x1111) :: u64) (4 * n)"
    unfolding arm_cmp_u32_neq_zero_mask_4_def Let_def u32_lanes_as_bytes bit_and_iff bit_0xF bit_nibble_mask_to_bitmask
    by auto
  also have "\<dots> \<longleftrightarrow> n < 4 \<and> xs ! n \<noteq> 0"
    using bb [of "4 * n"] bit_0x1111 [of "4 * n"] by (auto simp: bit_ucast_iff bit_and_iff)
  finally show "bit (arm_cmp_u32_neq_zero_mask_4 xs) n \<longleftrightarrow> n < 4 \<and> xs ! n \<noteq> 0" .
qed simp_all

section \<open>Every target computes the scalar result\<close>

lemma first_from_past: "length xs \<le> i \<Longrightarrow> first_from p xs i = None"
  by (simp add: first_from_def)

lemma find_byte_first: "find_byte t xs needle start = first_from (\<lambda>x. x = needle) xs start"
proof (cases t)
  case (X86 avx2)
  have "or_else (chunk_scan 16 (cmp_byte_eq_mask_16 needle) xs i) (scalar_scan (\<lambda>x. x = needle) xs)
      = first_from (\<lambda>x. x = needle) xs i" for i
    by (rule eq16.or_else_first) (rule scalar_scan_first)
  then show ?thesis
    using eq32.or_else_first [of _ needle xs start]
    by (simp add: X86 find_byte_def first_from_past or_else_def)
next
  case Arm
  then show ?thesis
    using arm_eq16.or_else_first [of _ needle xs start, OF scalar_scan_first]
    by (simp add: find_byte_def first_from_past)
qed (simp add: find_byte_def first_from_past scalar_scan_first)

lemma find_next_nonzero_byte_first:
  "find_next_nonzero_byte t xs start = first_from (\<lambda>x. x \<noteq> 0) xs start"
proof (cases t)
  case (X86 avx2)
  have "or_else (chunk_scan 16 cmp_byte_neq_zero_mask_16 xs i) (scalar_scan (\<lambda>x. x \<noteq> 0) xs)
      = first_from (\<lambda>x. x \<noteq> 0) xs i" for i
    by (rule nz16.or_else_first) (rule scalar_scan_first)
  then show ?thesis
    using nz32.or_else_first [of _ xs start]
    by (simp add: X86 find_next_nonzero_byte_def first_from_past or_else_def)
next
  case Arm
  then show ?thesis
    using arm_nz16.or_else_first [of _ xs start, OF scalar_scan_first]
    by (simp add: find_next_nonzero_byte_def first_from_past)
qed (simp add: find_next_nonzero_byte_def first_from_past scalar_scan_first)

lemma find_next_nonzero_u32_first:
  "find_next_nonzero_u32 t xs start = first_from (\<lambda>x. x \<noteq> 0) xs start"
proof (cases t)
  case (X86 avx2)
  have "or_else (chunk_scan 4 cmp_u32_neq_zero_mask_4 xs i) (scalar_scan (\<lambda>x. x \<noteq> 0) xs)
      = first_from (\<lambda>x. x \<noteq> 0) xs i" for i
    by (rule nzw4.or_else_first) (rule scalar_scan_first)
  then show ?thesis
    using nzw8.or_else_first [of _ xs start]
    by (simp add: X86 find_next_nonzero_u32_def first_from_past or_else_def)
next
  case Arm
  then show ?thesis
    using arm_nzw4.or_else_first [of _ xs start, OF scalar_scan_first]
    by (simp add: find_next_nonzero_u32_def first_from_past)
qed (simp add: find_next_nonzero_u32_def first_from_past scalar_scan_first)

lemma find_in_window:
  assumes len: "16 \<le> length keys"
  shows "first_from (\<lambda>x. x = byte) (take (min count 16) keys) 0 = Some i \<longleftrightarrow>
    i < min count 16 \<and> keys ! i = byte \<and> (\<forall>k<i. keys ! k \<noteq> byte)"
  using len by (auto simp: first_from_iff)

lemma find_by_mask:
  fixes m :: "'a::len word"
  assumes len: "16 \<le> length keys" and d: "0 < d"
    and bits: "\<And>n. bit m n \<longleftrightarrow> n div d < min count 16 \<and> keys ! (n div d) = byte"
  shows "(if m = 0 then None else Some (trailing_zeros m div d))
    = first_from (\<lambda>x. x = byte) (take (min count 16) keys) 0"
proof (cases "m = 0")
  case True
  have "keys ! i \<noteq> byte" if "i < min count 16" for i
    using bits [of "d * i"] True that d by simp
  then have "first_from (\<lambda>x. x = byte) (take (min count 16) keys) 0 = None"
    by (metis find_in_window [OF len] option.exhaust)
  with True show ?thesis by simp
next
  case False
  note tz = trailing_zeros_bit [OF False]
  have "keys ! k \<noteq> byte" if "k < trailing_zeros m div d" for k
  proof -
    have "Suc k * d \<le> trailing_zeros m"
      using that d by (simp only: Suc_le_eq flip: less_eq_div_iff_mult_less_eq)
    then have "d * k < trailing_zeros m" using d by (simp add: mult.commute)
    moreover have "trailing_zeros m div d < min count 16" using tz(2) bits by blast
    ultimately show ?thesis using tz(3) [of "d * k"] bits [of "d * k"] d that by auto
  qed
  moreover have "trailing_zeros m div d < min count 16 \<and> keys ! (trailing_zeros m div d) = byte"
    using tz(2) bits by blast
  ultimately show ?thesis using False by (simp add: find_in_window [OF len] eq_commute [of "Some _"])
qed

lemma bit_count_mask:
  "bit (if count \<ge> 16 then 0xFFFF else push_bit count 1 - 1 :: u32) n \<longleftrightarrow> n < min count 16"
proof -
  have m: "(push_bit count 1 - 1 :: u32) = mask count" by (simp add: mask_eq_exp_minus_1 push_bit_eq_mult)
  show ?thesis
  proof (cases "16 \<le> count")
    case True
    then have "bit (if count \<ge> 16 then 0xFFFF else push_bit count 1 - 1 :: u32) n \<longleftrightarrow> n < 16"
      by (simp only: if_True bit_0xFFFF)
    with True show ?thesis by (simp add: min_def)
  next
    case False
    then show ?thesis by (simp only: if_False m bit_mask_iff) auto
  qed
qed

lemma bit_count_mask64:
  assumes "n < 64"
  shows "bit (if min count 16 * 4 = 64 then - 1 else push_bit (min count 16 * 4) 1 - 1 :: u64) n
    \<longleftrightarrow> n div 4 < min count 16"
proof -
  have "(push_bit k 1 - 1 :: u64) = mask k" for k by (simp add: mask_eq_exp_minus_1 push_bit_eq_mult)
  then show ?thesis using assms by (auto simp: bit_mask_iff)
qed

lemma node16_find_byte_first:
  assumes "length keys = 16"
  shows "node16_find_byte t keys count byte = first_from (\<lambda>x. x = byte) (take (min count 16) keys) 0"
proof (cases t)
  case (X86 avx2)
  let ?m = "movemask (map (\<lambda>x. x = byte) (take 16 keys)) AND
    (if count \<ge> 16 then 0xFFFF else push_bit count 1 - 1)"
  have "bit ?m n \<longleftrightarrow> n div 1 < min count 16 \<and> keys ! (n div 1) = byte" for n
    unfolding bit_and_iff bit_movemask bit_count_mask using assms by auto
  then have "find_byte_in_16 keys count byte = first_from (\<lambda>x. x = byte) (take (min count 16) keys) 0"
    using find_by_mask [of keys 1 ?m count byte] assms
    unfolding find_byte_in_16_def Let_def div_by_1 by simp
  with X86 show ?thesis by (simp add: node16_find_byte_def)
next
  case Arm
  have "arm_find_byte_in_16 keys count byte = first_from (\<lambda>x. x = byte) (take (min count 16) keys) 0"
    unfolding arm_find_byte_in_16_def Let_def
  proof (rule find_by_mask)
    fix n
    show "bit (byte_mask_to_nibble_u64 (byte_lanes (map (\<lambda>x. x = byte) (take 16 keys))) AND
       (if min count 16 * 4 = 64 then - 1 else push_bit (min count 16 * 4) 1 - 1)) n
      \<longleftrightarrow> n div 4 < min count 16 \<and> keys ! (n div 4) = byte"
      using assms bit_count_mask64 [of n count] by (cases "n < 64") (auto simp: bit_and_iff bit_nibble_mask)
  qed (use assms in auto)
  with Arm show ?thesis by (simp add: node16_find_byte_def)
qed (simp add: node16_find_byte_def node16_find_byte_scalar_def scalar_scan_first)

section \<open>Longest common prefix\<close>

fun lcp :: "'a list \<Rightarrow> 'a list \<Rightarrow> nat" where
  "lcp (x # xs) (y # ys) = (if x = y then Suc (lcp xs ys) else 0)"
| "lcp _ _ = 0"

lemma lcp_le: "lcp a b \<le> length a" "lcp a b \<le> length b"
  by (induction a b rule: lcp.induct) auto

lemma lcp_take: "n \<le> lcp a b \<Longrightarrow> take n a = take n b"
proof (induction a b arbitrary: n rule: lcp.induct)
  case (1 x xs y ys)
  then show ?case by (cases n) (auto split: if_splits)
qed auto

lemma lcp_nth: "k < lcp a b \<Longrightarrow> a ! k = b ! k"
  by (metis Suc_leI lcp_take less_eq_Suc_le nth_take order_refl lessI)

lemma lcp_diff: "lcp a b < length a \<Longrightarrow> lcp a b < length b \<Longrightarrow> a ! lcp a b \<noteq> b ! lcp a b"
  by (induction a b rule: lcp.induct) auto

lemma lcp_unique:
  assumes "n \<le> length a" and "n \<le> length b" and "\<And>k. k < n \<Longrightarrow> a ! k = b ! k"
    and "n < length a \<Longrightarrow> n < length b \<Longrightarrow> a ! n \<noteq> b ! n"
  shows "lcp a b = n"
proof (rule antisym)
  show "lcp a b \<le> n" using assms(4) lcp_le [of a b] lcp_nth [of n a b] by (metis less_le_trans not_le)
  show "n \<le> lcp a b" using assms(1-3) lcp_diff [of a b] by (metis less_le_trans not_le)
qed

lemma lcp_drop:
  assumes "take i a = take i b" and "i \<le> length a" and "i \<le> length b"
  shows "lcp a b = i + lcp (drop i a) (drop i b)"
proof (rule lcp_unique)
  let ?k = "lcp (drop i a) (drop i b)"
  show "i + ?k \<le> length a" "i + ?k \<le> length b"
    using lcp_le [of "drop i a" "drop i b"] assms(2,3) by auto
  show "a ! k = b ! k" if "k < i + ?k" for k
  proof (cases "k < i")
    case True
    then show ?thesis using assms(1) by (metis nth_take)
  next
    case False
    then have "drop i a ! (k - i) = drop i b ! (k - i)" using that by (intro lcp_nth) simp
    with False assms(2,3) show ?thesis by simp
  qed
  show "a ! (i + ?k) \<noteq> b ! (i + ?k)" if "i + ?k < length a" "i + ?k < length b"
    using that lcp_diff [of "drop i a" "drop i b"] by simp
qed

lemma lcp_full: "lcp a b = length a \<longleftrightarrow> length a \<le> length b \<and> take (length a) b = a"
proof
  assume "lcp a b = length a"
  then show "length a \<le> length b \<and> take (length a) b = a"
    using lcp_le(2) [of a b] lcp_take [of "length a" a b] by simp
next
  assume "length a \<le> length b \<and> take (length a) b = a"
  then show "lcp a b = length a" by (intro lcp_unique) (auto, metis nth_take)
qed

lemma lcp_scalar_lcp:
  assumes "i \<le> min (length a) (length b)" and "take i a = take i b"
  shows "lcp_scalar a b i (min (length a) (length b)) = lcp a b"
  using assms
proof (induction "min (length a) (length b) - i" arbitrary: i)
  case 0
  then have i: "i = min (length a) (length b)" by simp
  have "lcp a b = i"
  proof (rule lcp_unique)
    show "a ! k = b ! k" if "k < i" for k using 0(3) that by (metis nth_take)
  qed (use i in auto)
  with i show ?case by (subst lcp_scalar.simps) simp
next
  case (Suc n)
  let ?l = "min (length a) (length b)"
  have il: "i < ?l" using Suc.hyps(2) by linarith
  show ?case
  proof (cases "a ! i = b ! i")
    case True
    have "take (i + 1) a = take (i + 1) b"
      using Suc.prems(2) True il by (simp add: take_Suc_conv_app_nth)
    then have "lcp_scalar a b (i + 1) ?l = lcp a b"
      using Suc.hyps(2) il by (intro Suc.hyps(1)) simp_all
    with True il show ?thesis by (subst lcp_scalar.simps) simp
  next
    case False
    have "lcp (drop i a) (drop i b) = 0" using False il by (intro lcp_unique) auto
    then have "lcp a b = i" using Suc.prems il by (subst lcp_drop [of i]) auto
    with False show ?thesis by (subst lcp_scalar.simps) simp
  qed
qed

locale window_compare =
  fixes w :: nat and f :: "bytes \<Rightarrow> bytes \<Rightarrow> nat option"
  assumes width: "0 < w"
    and window: "w \<le> length a \<Longrightarrow> w \<le> length b \<Longrightarrow> f a b = (if take w a = take w b then None else Some (lcp a b))"
begin

lemma lcp_scan_lcp:
  assumes "i \<le> min (length a) (length b)" and "take i a = take i b"
  shows "case lcp_scan w f a b i (min (length a) (length b)) of
      Inl k \<Rightarrow> k = lcp a b
    | Inr j \<Rightarrow> j \<le> min (length a) (length b) \<and> take j a = take j b"
  using assms
proof (induction "min (length a) (length b) - i" arbitrary: i rule: less_induct)
  case less
  let ?l = "min (length a) (length b)"
  show ?case
  proof (cases "i + w \<le> ?l")
    case False
    then have "lcp_scan w f a b i ?l = Inr i" by (subst lcp_scan.simps) auto
    then show ?thesis using less.prems by simp
  next
    case True
    have fw: "f (drop i a) (drop i b)
        = (if take w (drop i a) = take w (drop i b) then None else Some (lcp (drop i a) (drop i b)))"
      using True by (intro window) auto
    show ?thesis
    proof (cases "take w (drop i a) = take w (drop i b)")
      case eq: True
      have t: "take (i + w) a = take (i + w) b" using less.prems(2) eq by (simp add: take_add)
      have "lcp_scan w f a b i ?l = lcp_scan w f a b (i + w) ?l"
        using True width fw eq by (subst lcp_scan.simps) auto
      moreover have "?l - (i + w) < ?l - i" using True width by (intro diff_less_mono2) simp_all
      ultimately show ?thesis using less.hyps [OF _ True t] by (simp only:)
    next
      case False
      have "lcp_scan w f a b i ?l = Inl (i + lcp (drop i a) (drop i b))"
        using True width fw False by (subst lcp_scan.simps) auto
      then show ?thesis using lcp_drop [OF less.prems(2)] True by simp
    qed
  qed
qed

end

lemma lcp_by_mask:
  fixes z :: "'a::len word"
  assumes d: "0 < d" and len: "w \<le> length a" "w \<le> length b"
    and bits: "\<And>k. k < w \<Longrightarrow> a ! k \<noteq> b ! k \<longleftrightarrow> (\<exists>j<d. bit z (d * k + j))"
    and diff: "take w a \<noteq> take w b"
  shows "trailing_zeros z div d = lcp a b"
proof -
  obtain k0 where k0: "k0 < w" "a ! k0 \<noteq> b ! k0"
    using diff len by (auto simp: list_eq_iff_nth_eq)
  then obtain j0 where j0: "j0 < d" "bit z (d * k0 + j0)" using bits by blast
  then have "z \<noteq> 0" by auto
  note tz = trailing_zeros_bit [OF this]
  let ?t = "trailing_zeros z"
  have t: "?t = d * (?t div d) + ?t mod d" "?t mod d < d" using d by simp_all
  have "?t \<le> d * k0 + j0" using tz(3) j0(2) by (meson not_le)
  then have "?t div d \<le> k0" using j0(1) d
    by (metis div_le_mono div_less div_mult_self4 add.right_neutral d less_numeral_extra(3))
  then have tw: "?t div d < w" using k0 by simp
  show ?thesis
  proof (rule lcp_unique [symmetric])
    have "\<exists>j<d. bit z (d * (?t div d) + j)" using tz(2) t by metis
    then show "a ! (?t div d) \<noteq> b ! (?t div d)" using bits [OF tw] by blast
    show "a ! k = b ! k" if "k < ?t div d" for k
    proof -
      have "Suc k * d \<le> ?t" using that d by (simp only: Suc_le_eq flip: less_eq_div_iff_mult_less_eq)
      then have "\<not> bit z (d * k + j)" if "j < d" for j
        using that by (intro tz(3)) (simp add: mult.commute)
      then show ?thesis using bits [of k] that tw by auto
    qed
  qed (use tw len in auto)
qed

lemma take_eq_iff:
  "w \<le> length a \<Longrightarrow> w \<le> length b \<Longrightarrow> take w a = take w b \<longleftrightarrow> (\<forall>k<w. a ! k = b ! k)"
  by (metis nth_take nth_take_lemma)

lemma bit_movemask_eq:
  "w \<le> length a \<Longrightarrow> w \<le> length b \<Longrightarrow> bit (movemask (map2 (=) (take w a) (take w b))) n
     \<longleftrightarrow> n < 32 \<and> n < w \<and> a ! n = b ! n"
  by (cases "n < w") (simp_all add: bit_movemask min_absorb2)

interpretation sse2: window_compare 16 sse2_window
proof
  fix a b :: bytes
  assume len: "16 \<le> length a" "16 \<le> length b"
  let ?m = "cmp_16_bytes_bitmask a b"
  have bm: "bit ?m n \<longleftrightarrow> n < 16 \<and> a ! n = b ! n" for n
    unfolding cmp_16_bytes_bitmask_def bit_movemask_eq [OF len] by auto
  have full: "?m = 0xFFFF \<longleftrightarrow> take 16 a = take 16 b"
  proof -
    have "?m = 0xFFFF \<longleftrightarrow> (\<forall>n<16. a ! n = b ! n)"
    proof -
      have lt: "possible_bit TYPE(32 word) n" if "n < 16" for n using that by simp
      show ?thesis unfolding bit_eq_iff [of ?m] bm bit_0xFFFF using lt by blast
    qed
    then show ?thesis by (simp only: take_eq_iff [OF len])
  qed
  have "trailing_ones ?m = lcp a b" if "take 16 a \<noteq> take 16 b"
    using lcp_by_mask [of 1 16 a b "NOT ?m"] len that bm
    by (simp add: trailing_ones_not bit_not_iff)
  with full show "sse2_window a b = (if take 16 a = take 16 b then None else Some (lcp a b))"
    by (simp add: sse2_window_def Let_def)
qed simp

interpretation avx2: window_compare 32 avx2_window
proof
  fix a b :: bytes
  assume len: "32 \<le> length a" "32 \<le> length b"
  let ?m = "cmp_32_bytes_bitmask a b"
  have bm: "bit ?m n \<longleftrightarrow> n < 32 \<and> a ! n = b ! n" for n
    unfolding cmp_32_bytes_bitmask_def bit_movemask_eq [OF len] by auto
  have full: "?m = - 1 \<longleftrightarrow> take 32 a = take 32 b"
  proof -
    have "?m = - 1 \<longleftrightarrow> (\<forall>n<32. a ! n = b ! n)"
      by (subst bit_eq_iff) (auto simp: bm)
    then show ?thesis by (simp only: take_eq_iff [OF len])
  qed
  have "trailing_ones ?m = lcp a b" if "take 32 a \<noteq> take 32 b"
    using lcp_by_mask [of 1 32 a b "NOT ?m"] len that bm
    by (simp add: trailing_ones_not bit_not_iff)
  with full show "avx2_window a b = (if take 32 a = take 32 b then None else Some (lcp a b))"
    by (simp add: avx2_window_def Let_def)
qed simp

interpretation neon: window_compare 16 neon_window
proof
  fix a b :: bytes
  assume len: "16 \<le> length a" "16 \<le> length b"
  let ?m = "arm_cmp_16_bytes_nibble a b"
  have bm: "bit ?m n \<longleftrightarrow> n < 64 \<and> a ! (n div 4) = b ! (n div 4)" for n
    using len bit_nibble_mask [of "map2 (=) (take 16 a) (take 16 b)" n]
    unfolding arm_cmp_16_bytes_nibble_def by (cases "n < 64") simp_all
  have full: "?m = - 1 \<longleftrightarrow> take 16 a = take 16 b"
  proof -
    have "?m = - 1 \<longleftrightarrow> (\<forall>n<64. a ! (n div 4) = b ! (n div 4))"
      by (subst bit_eq_iff) (simp add: bm)
    also have "\<dots> \<longleftrightarrow> (\<forall>k<16. a ! k = b ! k)"
    proof (intro iffI allI impI)
      fix k :: nat assume "\<forall>n<64. a ! (n div 4) = b ! (n div 4)" and "k < 16"
      then show "a ! k = b ! k" by (elim allE [of _ "4 * k"]) simp
    qed (simp add: less_mult_imp_div_less)
    finally show ?thesis by (simp only: take_eq_iff [OF len])
  qed
  have "trailing_ones ?m div 4 = lcp a b" if "take 16 a \<noteq> take 16 b"
  proof (unfold trailing_ones_not, rule lcp_by_mask [OF _ len _ that])
    fix k :: nat assume "k < 16"
    then have "bit (NOT ?m) (4 * k + j) \<longleftrightarrow> a ! k \<noteq> b ! k" if "j < 4" for j
      using that by (simp add: bit_not_iff bm)
    then show "a ! k \<noteq> b ! k \<longleftrightarrow> (\<exists>j<4. bit (NOT ?m) (4 * k + j))"
      by (metis zero_less_numeral)
  qed simp
  with full show "neon_window a b = (if take 16 a = take 16 b then None else Some (lcp a b))"
    by (simp add: neon_window_def Let_def)
qed simp

interpretation u64w: window_compare 8 u64_window
proof
  fix a b :: bytes
  assume len: "8 \<le> length a" "8 \<le> length b"
  let ?x = "horner_sum ucast 256 (take 8 a) XOR horner_sum ucast 256 (take 8 b) :: u64"
  have bm: "bit ?x n \<longleftrightarrow> n < 64 \<and> bit (a ! (n div 8)) (n mod 8) \<noteq> bit (b ! (n div 8)) (n mod 8)" for n
    using len by (cases "n < 64") (auto simp: bit_xor_iff bit_le_bytes)
  have byte: "a ! k \<noteq> b ! k \<longleftrightarrow> (\<exists>j<8. bit ?x (8 * k + j))" if "k < 8" for k
  proof -
    have "a ! k \<noteq> b ! k \<longleftrightarrow> (\<exists>j<8. bit (a ! k) j \<noteq> bit (b ! k) j)"
      by (auto simp: bit_eq_iff)
    also have "\<dots> \<longleftrightarrow> (\<exists>j<8. bit ?x (8 * k + j))"
      by (rule ex_cong1) (use that in \<open>auto simp: bm\<close>)
    finally show ?thesis .
  qed
  have zero: "?x = 0 \<longleftrightarrow> take 8 a = take 8 b"
  proof
    assume "take 8 a = take 8 b" then show "?x = 0" by simp
  next
    assume "?x = 0" then show "take 8 a = take 8 b"
      using byte take_eq_iff [OF len] by (metis bit_0_eq bot_apply bot_bool_def)
  qed
  have "trailing_zeros ?x div 8 = lcp a b" if "take 8 a \<noteq> take 8 b"
    by (rule lcp_by_mask [OF _ len byte that]) simp_all
  with zero show "u64_window a b = (if take 8 a = take 8 b then None else Some (lcp a b))"
    by (simp add: u64_window_def Let_def)
qed simp

lemma longest_common_prefix_tail_lcp:
  assumes "i \<le> min (length a) (length b)" and "take i a = take i b"
  shows "longest_common_prefix_tail a b i (min (length a) (length b)) = lcp a b"
  using u64w.lcp_scan_lcp [OF assms] lcp_scalar_lcp
  by (auto simp: longest_common_prefix_tail_def split: sum.splits)

lemma longest_common_prefix_lcp: "longest_common_prefix t a b = lcp a b"
proof (cases t)
  case (X86 avx2)
  let ?l = "min (length a) (length b)"
  have sse: "(case lcp_scan 16 sse2_window a b i ?l of Inl k \<Rightarrow> k | Inr j \<Rightarrow> longest_common_prefix_tail a b j ?l) = lcp a b"
    if "i \<le> ?l" "take i a = take i b" for i
    using sse2.lcp_scan_lcp [OF that] longest_common_prefix_tail_lcp by (auto split: sum.splits)
  have main: "(case r of Inl k \<Rightarrow> k
      | Inr i \<Rightarrow> (case lcp_scan 16 sse2_window a b i ?l of Inl k \<Rightarrow> k | Inr j \<Rightarrow> longest_common_prefix_tail a b j ?l)) = lcp a b"
    if "case r of Inl k \<Rightarrow> k = lcp a b | Inr j \<Rightarrow> j \<le> ?l \<and> take j a = take j b" for r
    using that sse by (cases r) simp_all
  show ?thesis
    unfolding X86 longest_common_prefix_def Let_def target.case
    by (rule main) (use avx2.lcp_scan_lcp [of 0 a b] in simp)
next
  case Arm
  then show ?thesis
    using neon.lcp_scan_lcp [of 0 a b] longest_common_prefix_tail_lcp
    by (auto simp: longest_common_prefix_def Let_def split: sum.splits)
next
  case Other
  then show ?thesis
    using longest_common_prefix_tail_lcp [of 0 a b] by (simp add: longest_common_prefix_def Let_def)
qed

section \<open>Properties of the vector routines\<close>

text \<open>C30. On every target, the vectorised search for a byte returns the first index at or
  after the start whose byte is the needle, for slices of any length.\<close>

theorem find_byte_is_first: "find_byte t xs needle start = first_from (\<lambda>x. x = needle) xs start"
  by (rule find_byte_first)

text \<open>On every target, the vectorised searches for a non-zero byte and for a non-zero
  32-bit slot number return the first such index at or after the start.\<close>

theorem find_next_nonzero_is_first:
  "find_next_nonzero_byte t xs start = first_from (\<lambda>x. x \<noteq> 0) xs start
   \<and> find_next_nonzero_u32 t ws start = first_from (\<lambda>x. x \<noteq> 0) ws start"
  by (simp add: find_next_nonzero_byte_first find_next_nonzero_u32_first)

text \<open>The lane-masked search of a sixteen-way node agrees on every target with the
  scalar scan of its first \<open>count\<close> keys, whatever the unused lanes hold.\<close>

theorem node16_find_byte_scalar_equiv:
  assumes "length keys = 16"
  shows "node16_find_byte t keys count byte = node16_find_byte_scalar keys count byte"
  using node16_find_byte_first [OF assms]
  by (simp add: node16_find_byte_scalar_def scalar_scan_first)

theorem node16_find_byte_scalar_equiv_witness:
  "length (replicate 16 (0 :: u8)) = 16
   \<and> node16_find_byte Arm (replicate 16 0) 3 0 = node16_find_byte_scalar (replicate 16 0) 3 0"
  using node16_find_byte_scalar_equiv [of "replicate 16 0" Arm 3 0] by simp

text \<open>C31. On every target the vectorised longest common prefix is the length of the longest
  common prefix: the slices agree below it, and differ at it unless one of them ends.\<close>

theorem longest_common_prefix_correct:
  "longest_common_prefix t a b = lcp a b"
  by (rule longest_common_prefix_lcp)

end
