(* ===== verification/Search_Key.thy ===== *)
theory Search_Key
  imports Simd
begin

text \<open>
  The search key of \<^verbatim>\<open>src/engine/walker/key.rs\<close>: a user key with a virtual terminator byte
  that is compared during descent without being materialised.  \<open>view\<close> is the key as the
  tree stores it; every operation is shown to work on that byte string.
\<close>

text \<open>The target the walker is compiled for; by the results of \<open>Simd\<close> it does not matter.\<close>

definition host :: target where "host = X86 True"

record search_key =
  sk_bytes :: bytes
  virtual_terminator :: bool

definition sk_user :: "bytes \<Rightarrow> search_key" where
  "sk_user bs = \<lparr>sk_bytes = bs, virtual_terminator = True\<rparr>"

definition sk_exact :: "bytes \<Rightarrow> search_key" where
  "sk_exact bs = \<lparr>sk_bytes = bs, virtual_terminator = False\<rparr>"

definition sk_len :: "search_key \<Rightarrow> nat" where
  "sk_len k = length (sk_bytes k) + (if virtual_terminator k then 1 else 0)"

definition user_prefix :: "search_key \<Rightarrow> nat \<Rightarrow> bytes option" where
  "user_prefix k len = (if len \<le> length (sk_bytes k) then Some (take len (sk_bytes k)) else None)"

definition remaining_len :: "search_key \<Rightarrow> nat \<Rightarrow> nat" where
  "remaining_len k depth = sk_len k - depth"

definition byte_at :: "search_key \<Rightarrow> nat \<Rightarrow> u8 option" where
  "byte_at k idx =
     (if idx < length (sk_bytes k) then Some (sk_bytes k ! idx)
      else if virtual_terminator k \<and> idx = length (sk_bytes k) then Some 0
      else None)"

definition eq_slice :: "search_key \<Rightarrow> bytes \<Rightarrow> bool" where
  "eq_slice k other =
     (let n = length (sk_bytes k)
      in if \<not> virtual_terminator k
         then n = length other \<and> longest_common_prefix host (sk_bytes k) other = n
         else if length other \<noteq> n + 1 then False
         else longest_common_prefix host (sk_bytes k) (take n other) = n \<and> other ! n = 0)"

definition range_eq :: "search_key \<Rightarrow> nat \<Rightarrow> bytes \<Rightarrow> bool" where
  "range_eq k depth other =
     (if other = [] then depth \<le> sk_len k
      else if length other > remaining_len k depth then False
      else if \<not> virtual_terminator k \<or> depth + length other \<le> length (sk_bytes k)
      then longest_common_prefix host (take (length other) (drop depth (sk_bytes k))) other = length other
      else if depth < length (sk_bytes k)
      then let raw_len = length (sk_bytes k) - depth
           in longest_common_prefix host (drop depth (sk_bytes k)) (take raw_len other) = raw_len
              \<and> other ! raw_len = 0
      else other ! 0 = 0)"

definition common_prefix_with_slice :: "search_key \<Rightarrow> nat \<Rightarrow> bytes \<Rightarrow> nat" where
  "common_prefix_with_slice k depth other =
     (if depth \<ge> sk_len k \<or> other = [] then 0
      else if \<not> virtual_terminator k
      then longest_common_prefix host (drop depth (sk_bytes k)) other
      else if depth < length (sk_bytes k)
      then let raw_tail = drop depth (sk_bytes k);
               common = longest_common_prefix host raw_tail other
           in if common < length raw_tail \<or> common = length other then common
              else common + (if other ! common = 0 then 1 else 0)
      else if other ! 0 = 0 then 1 else 0)"

definition write_to_slice :: "search_key \<Rightarrow> bytes" where
  "write_to_slice k = (if virtual_terminator k then sk_bytes k @ [0] else sk_bytes k)"

section \<open>The key as the tree stores it\<close>

definition view :: "search_key \<Rightarrow> bytes" where
  "view k = sk_bytes k @ (if virtual_terminator k then [0] else [])"

lemma view_user [simp]: "view (sk_user bs) = bs @ [0]"
  by (simp add: view_def sk_user_def)

lemma sk_len_view [simp]: "sk_len k = length (view k)"
  by (simp add: sk_len_def view_def)

lemma write_to_slice_view [simp]: "write_to_slice k = view k"
  by (simp add: write_to_slice_def view_def)

lemma byte_at_view: "byte_at k i = (if i < length (view k) then Some (view k ! i) else None)"
  by (auto simp: byte_at_def view_def nth_append)

lemma lcp_self_prefix: "length a \<le> length b \<Longrightarrow> lcp a b = length a \<longleftrightarrow> take (length a) b = a"
  by (simp add: lcp_full)

lemma lcp_sym: "lcp a b = lcp b a"
  by (induction a b rule: lcp.induct) auto

lemma snoc_eq_iff:
  assumes "length ys = length xs + 1"
  shows "ys = xs @ [z] \<longleftrightarrow> take (length xs) ys = xs \<and> ys ! length xs = z"
proof
  assume "take (length xs) ys = xs \<and> ys ! length xs = z"
  with assms show "ys = xs @ [z]"
    using take_Suc_conv_app_nth [of "length xs" ys] by simp
qed simp

lemma eq_slice_view: "eq_slice k other \<longleftrightarrow> other = view k"
proof (cases "virtual_terminator k")
  case False
  have "length (sk_bytes k) = length other \<and> lcp (sk_bytes k) other = length (sk_bytes k) \<longleftrightarrow> other = sk_bytes k"
    by (auto simp: lcp_full)
  with False show ?thesis by (simp add: eq_slice_def view_def longest_common_prefix_lcp Let_def)
next
  case True
  show ?thesis
  proof (cases "length other = length (sk_bytes k) + 1")
    case False
    with True show ?thesis by (auto simp: eq_slice_def view_def Let_def)
  next
    case len: True
    then have "lcp (sk_bytes k) (take (length (sk_bytes k)) other) = length (sk_bytes k)
        \<longleftrightarrow> take (length (sk_bytes k)) other = sk_bytes k"
      by (simp add: lcp_full)
    with len True snoc_eq_iff [OF len, of 0] show ?thesis
      by (simp add: eq_slice_def view_def longest_common_prefix_lcp Let_def)
  qed
qed

lemma range_eq_view:
  "range_eq k depth other \<longleftrightarrow> depth \<le> length (view k) \<and> take (length other) (drop depth (view k)) = other"
proof (cases "other = [] \<or> length other > remaining_len k depth")
  case True
  moreover have "take (length other) (drop depth (view k)) \<noteq> other" if "length other > remaining_len k depth"
    using that by (metis length_drop length_take min.cobounded1 not_le remaining_len_def sk_len_view)
  ultimately show ?thesis by (auto simp: range_eq_def)
next
  case False
  let ?n = "length (sk_bytes k)"
  have len: "depth + length other \<le> length (view k)" "other \<noteq> []"
    using False by (cases other; auto simp: remaining_len_def)+
  show ?thesis
  proof (cases "\<not> virtual_terminator k \<or> depth + length other \<le> ?n")
    case True
    then have le: "depth + length other \<le> ?n" using len by (auto simp: view_def)
    then have "take (length other) (drop depth (view k)) = take (length other) (drop depth (sk_bytes k))"
      by (simp add: view_def)
    moreover have "lcp (take (length other) (drop depth (sk_bytes k))) other = length other
        \<longleftrightarrow> take (length other) (drop depth (sk_bytes k)) = other"
      using le lcp_full [of other "take (length other) (drop depth (sk_bytes k))"] by (auto simp: lcp_sym)
    ultimately show ?thesis
      using True False len by (simp add: range_eq_def longest_common_prefix_lcp)
  next
    case v: False
    then have d: "depth + length other = ?n + 1" "depth \<le> ?n" "virtual_terminator k"
      using len by (cases other; auto simp: view_def)+
    let ?r = "drop depth (sk_bytes k)"
    have all: "take (length other) (drop depth (view k)) = ?r @ [0]" using d by (simp add: view_def)
    have "length other = length ?r + 1" using d by simp
    note sn = snoc_eq_iff [OF this, of 0]
    have "range_eq k depth other \<longleftrightarrow> take (length ?r) other = ?r \<and> other ! length ?r = 0"
    proof (cases "depth < ?n")
      case True
      then have "lcp ?r (take (?n - depth) other) = ?n - depth \<longleftrightarrow> take (?n - depth) other = ?r"
        using d lcp_full [of ?r "take (?n - depth) other"] by auto
      with True False v d show ?thesis by (simp add: range_eq_def longest_common_prefix_lcp Let_def)
    next
      case eq: False
      with False v d show ?thesis by (simp add: range_eq_def)
    qed
    with sn all len show ?thesis by auto
  qed
qed

lemma lcp_snoc:
  "lcp (xs @ [z]) ys =
     (if lcp xs ys < length xs \<or> lcp xs ys = length ys then lcp xs ys
      else lcp xs ys + (if ys ! lcp xs ys = z then 1 else 0))"
proof (induction xs arbitrary: ys)
  case Nil
  then show ?case by (cases ys) auto
next
  case (Cons x xs)
  then show ?case by (cases ys) auto
qed

lemma common_prefix_view:
  "common_prefix_with_slice k depth other = lcp (drop depth (view k)) other"
proof (cases "depth \<ge> sk_len k \<or> other = []")
  case True
  then show ?thesis by (cases "drop depth (view k)") (auto simp: common_prefix_with_slice_def)
next
  case False
  have "lcp [0 :: u8] other = (if other ! 0 = 0 then 1 else 0)" using False by (cases other) auto
  then show ?thesis
    using False lcp_snoc [of "drop depth (sk_bytes k)" 0 other]
    by (auto simp: common_prefix_with_slice_def longest_common_prefix_lcp Let_def view_def)
qed

section \<open>Properties of the search key\<close>

text \<open>C29. A search key behaves as the byte string \<open>view k\<close> (the user bytes, then the
  terminator where there is one) without ever building it: its length, byte access, equality,
  range comparison, common prefix and copy are those of the string.\<close>

theorem search_key_is_view:
  "sk_len k = length (view k)
   \<and> byte_at k i = (if i < length (view k) then Some (view k ! i) else None)
   \<and> (eq_slice k other \<longleftrightarrow> other = view k)
   \<and> (range_eq k depth other \<longleftrightarrow> depth \<le> length (view k) \<and> take (length other) (drop depth (view k)) = other)
   \<and> common_prefix_with_slice k depth other = lcp (drop depth (view k)) other
   \<and> write_to_slice k = view k"
  by (simp add: byte_at_view eq_slice_view range_eq_view common_prefix_view)

end
