(* ===== verification/Walker_Nodes.thy ===== *)
theory Walker_Nodes
  imports Blob_Frame Search_Key
begin

text \<open>
  The node readers and writers of \<^verbatim>\<open>src/engine/walker/readers.rs\<close> and \<^verbatim>\<open>writers.rs\<close>:
  decoding slot bodies, writing leaves, prefix chains and inner nodes, and finding,
  updating and adding a child of an inner node, with growth to the next node type.

  The locale \<open>child_table\<close> is the contract of an inner node: a table of children sorted
  by key byte.  It is interpreted for the four node types.
\<close>

section \<open>Readers (\<^verbatim>\<open>readers.rs\<close>)\<close>

text \<open>A body is the pair of its offset and its length; \<^verbatim>\<open>cast\<close> decodes the struct at the offset.\<close>

definition resolve_typed :: "buf \<Rightarrow> nat \<Rightarrow> (node_type \<times> nat) res" where
  "resolve_typed b slot =
     rbind (ok_or (slot_entry b slot) (node_corrupt ''walker: invalid slot'')) (\<lambda>e.
     rbind (ok_or (slot_node_type e) (node_corrupt ''walker: undecodable node type'')) (\<lambda>ntype.
     rbind (ok_or (body_of_slot b slot) (node_corrupt ''walker: body resolution failed'')) (\<lambda>(off, len).
     Inr (ntype, off))))"

definition ntype_of :: "buf \<Rightarrow> nat \<Rightarrow> node_type res" where
  "ntype_of b slot =
     rbind (ok_or (slot_entry b slot) (node_corrupt ''walker: invalid slot'')) (\<lambda>e.
     ok_or (slot_node_type e) (node_corrupt ''walker: undecodable node type''))"

definition leaf_extent :: "buf \<Rightarrow> leaf \<Rightarrow> (bytes \<times> bytes) res" where
  "leaf_extent b l =
     rbind (ok_or (bytes_at b (key_offset l) 2) (node_corrupt ''leaf extent header out of range'')) (\<lambda>hdr.
     let key_len = le_nat hdr; total = 2 + key_len + value_size l
     in rbind (ok_or (bytes_at b (key_offset l) total) (node_corrupt ''leaf extent body out of range'')) (\<lambda>ext.
        Inr (take key_len (drop 2 ext), drop (2 + key_len) ext)))"

definition leaf_key_extent :: "buf \<Rightarrow> leaf \<Rightarrow> bytes res" where
  "leaf_key_extent b l =
     rbind (ok_or (bytes_at b (key_offset l) 2) (node_corrupt ''leaf key extent header out of range'')) (\<lambda>hdr.
     ok_or (bytes_at b (key_offset l + 2) (le_nat hdr)) (node_corrupt ''leaf key extent body out of range''))"

definition read_leaf_key_ref :: "buf \<Rightarrow> nat \<Rightarrow> (bytes \<times> leaf) res" where
  "read_leaf_key_ref b slot =
     rbind (ok_or (body_of_slot b slot) (node_corrupt ''read_leaf_key_ref: body'')) (\<lambda>(off, len).
     let l = dec_leaf (rd b off 16)
     in rbind (leaf_key_extent b l) (\<lambda>k. Inr (k, l)))"

definition read_prefix :: "buf \<Rightarrow> nat \<Rightarrow> prefix res" where
  "read_prefix b slot =
     rbind (ok_or (body_of_slot b slot) (node_corrupt ''read_prefix: body'')) (\<lambda>(off, len).
     Inr (dec_prefix (rd b off 128)))"

definition read_node4 :: "buf \<Rightarrow> nat \<Rightarrow> node4 res" where
  "read_node4 b slot =
     rbind (ok_or (body_of_slot b slot) (node_corrupt ''read_node4: body'')) (\<lambda>(off, len).
     Inr (dec_node4 (rd b off 24)))"

definition read_node16 :: "buf \<Rightarrow> nat \<Rightarrow> node16 res" where
  "read_node16 b slot =
     rbind (ok_or (body_of_slot b slot) (node_corrupt ''read_node16: body'')) (\<lambda>(off, len).
     Inr (dec_node16 (rd b off 88)))"

definition read_node48 :: "buf \<Rightarrow> nat \<Rightarrow> node48 res" where
  "read_node48 b slot =
     rbind (ok_or (body_of_slot b slot) (node_corrupt ''read_node48: body'')) (\<lambda>(off, len).
     Inr (dec_node48 (rd b off 456)))"

definition read_node256 :: "buf \<Rightarrow> nat \<Rightarrow> node256 res" where
  "read_node256 b slot =
     rbind (ok_or (body_of_slot b slot) (node_corrupt ''read_node256: body'')) (\<lambda>(off, len).
     Inr (dec_node256 (rd b off 1032)))"

text \<open>
  The positions the scan loops visit: \<open>while let Some(next) = find(byte) { byte = next + 1; ... }\<close>.
  The arrays have 256 entries, so 257 rounds are enough.
\<close>

fun scan_positions :: "(nat \<Rightarrow> nat option) \<Rightarrow> nat \<Rightarrow> nat \<Rightarrow> nat list" where
  "scan_positions next_pos 0 byte = []"
| "scan_positions next_pos (Suc n) byte =
     (case next_pos byte of None \<Rightarrow> [] | Some p \<Rightarrow> p # scan_positions next_pos n (p + 1))"

definition SCAN_ROUNDS :: nat where "SCAN_ROUNDS = 257"

definition read_node256_child :: "buf \<Rightarrow> nat \<Rightarrow> u8 \<Rightarrow> nat res" where
  "read_node256_child b slot byte =
     rbind (ok_or (body_of_slot b slot) (node_corrupt ''read_node256_child: body'')) (\<lambda>(off, len).
     if len \<noteq> 1032 then Inl (node_corrupt ''read_node256_child: non-Node256 slot'')
     else Inr (n256_children (dec_node256 (rd b off 1032)) ! unat byte))"

section \<open>Writers (\<^verbatim>\<open>writers.rs\<close>)\<close>

text \<open>An index out of range is a panic.\<close>

definition at :: "'a list \<Rightarrow> nat \<Rightarrow> 'a res" where
  "at xs i = (if i < length xs then Inr (xs ! i) else Inl (Panic ''index out of bounds''))"

definition write_struct_to_slot :: "nat \<Rightarrow> bytes \<Rightarrow> (buf, unit) st" where
  "write_struct_to_slot slot bs =
     sbind (sread (\<lambda>b. ok_or (body_of_slot b slot) (node_corrupt ''write_struct_to_slot: body''))) (\<lambda>(off, len).
       if length bs \<noteq> len then sfail (Panic ''copy_from_slice'')
       else smod (\<lambda>b. wr b off bs))"

definition write_leaf :: "search_key \<Rightarrow> bytes \<Rightarrow> nat \<Rightarrow> (buf, nat) st" where
  "write_leaf key value seq =
     (let key_len = sk_len key;
          ext_size = leaf_extent_size key_len (length value)
      in sbind (alloc_extent ext_size) (\<lambda>ext.
         sbind (sread (\<lambda>b. ok_or (bytes_at b ext ext_size) (node_corrupt ''write_leaf: extent out of range''))) (\<lambda>_.
         sbind (smod (\<lambda>b.
           let b1 = wr b ext (nat_le 2 key_len);
               b2 = wr b1 (ext + 2) (write_to_slice key)
           in wr b2 (ext + 2 + key_len) value)) (\<lambda>_.
         sbind (alloc_node LeafT) (\<lambda>slot.
         sbind (write_struct_to_slot slot (enc_leaf (leaf_live ext (as_u16 (length value)) seq))) (\<lambda>_.
         sret slot))))))"

definition write_leaf_seq :: "nat \<Rightarrow> nat \<Rightarrow> (buf, unit) st" where
  "write_leaf_seq slot seq =
     sbind (sread (\<lambda>b. ok_or (body_of_slot b slot) (node_corrupt ''write_leaf_seq: body''))) (\<lambda>(off, len).
       if len \<noteq> 16 then sfail (node_corrupt ''write_leaf_seq: non-leaf slot'')
       else smod (\<lambda>b. wr b (off + 8) (nat_le 8 seq)))"

text \<open>The chain is written back to front: the last chunk first, each node pointing at the one before.\<close>

function write_prefix_loop :: "bytes \<Rightarrow> nat \<Rightarrow> nat \<Rightarrow> (buf, nat) st" where
  "write_prefix_loop remaining next_child head =
     (if remaining = [] then sret head
      else
        (let chunk_len = min (length remaining) PREFIX_MAX_INLINE;
             chunk_start = length remaining - chunk_len;
             chunk = drop chunk_start remaining
         in sbind (alloc_node PrefixT) (\<lambda>slot.
            sbind (sread (\<lambda>_. prefix_new chunk next_child)) (\<lambda>p.
            sbind (write_struct_to_slot slot (enc_prefix p)) (\<lambda>_.
            write_prefix_loop (take chunk_start remaining) slot slot)))))"
  by pat_completeness auto
termination by (relation "measure (\<lambda>(r, _, _). length r)") (auto simp: PREFIX_MAX_INLINE_def)

declare write_prefix_loop.simps [simp del]

definition write_prefix_chain :: "bytes \<Rightarrow> nat \<Rightarrow> (buf, nat) st" where
  "write_prefix_chain bs child_slot = write_prefix_loop bs child_slot 0"

definition write_node4_with :: "(u8 \<times> nat) list \<Rightarrow> (buf, nat) st" where
  "write_node4_with children =
     sbind (alloc_node Node4T) (\<lambda>slot.
       let sorted = sort_key fst children; c = length sorted;
           n = node4_empty\<lparr>n4_count := as_u8 c,
             n4_keys := map fst sorted @ drop c (n4_keys node4_empty),
             n4_children := map snd sorted @ drop c (n4_children node4_empty)\<rparr>
       in sbind (write_struct_to_slot slot (enc_node4 n)) (\<lambda>_. sret slot))"

definition set_prefix_child :: "nat \<Rightarrow> nat \<Rightarrow> (buf, unit) st" where
  "set_prefix_child pfx_slot new_child =
     sbind (sread (\<lambda>b. read_prefix b pfx_slot)) (\<lambda>p.
     write_struct_to_slot pfx_slot (enc_prefix (p\<lparr>pfx_child := new_child\<rparr>)))"

subsection \<open>Finding a child\<close>

fun node4_scan :: "(u8 \<times> nat) list \<Rightarrow> u8 \<Rightarrow> nat option" where
  "node4_scan [] byte = None"
| "node4_scan ((k, c) # rest) byte =
     (if k = byte then Some c else if k > byte then None else node4_scan rest byte)"

definition node4_find :: "node4 \<Rightarrow> u8 \<Rightarrow> nat option" where
  "node4_find n byte = node4_scan (take (min (n4_count n) 4) (zip (n4_keys n) (n4_children n))) byte"

definition node16_find :: "node16 \<Rightarrow> u8 \<Rightarrow> nat option" where
  "node16_find n byte =
     map_option (\<lambda>i. n16_children n ! i) (node16_find_byte host (n16_keys n) (n16_count n) byte)"

definition node48_find :: "node48 \<Rightarrow> u8 \<Rightarrow> nat option res" where
  "node48_find n byte =
     (let idx = unat (n48_index n ! unat byte)
      in if idx = 0 then Inr None
         else rbind (at (n48_children n) (idx - 1)) (\<lambda>c. Inr (Some c)))"

definition node256_find :: "node256 \<Rightarrow> u8 \<Rightarrow> nat option" where
  "node256_find n byte = (let s = n256_children n ! unat byte in if s = 0 then None else Some s)"

definition inner_find_child :: "buf \<Rightarrow> nat \<Rightarrow> node_type \<Rightarrow> u8 \<Rightarrow> nat option res" where
  "inner_find_child b slot ntype byte =
     (case ntype of
        Node4T \<Rightarrow> rbind (read_node4 b slot) (\<lambda>n. Inr (map_option as_u16 (node4_find n byte)))
      | Node16T \<Rightarrow> rbind (read_node16 b slot) (\<lambda>n. Inr (map_option as_u16 (node16_find n byte)))
      | Node48T \<Rightarrow> rbind (read_node48 b slot) (\<lambda>n.
          rbind (node48_find n byte) (\<lambda>c. Inr (map_option as_u16 c)))
      | Node256T \<Rightarrow> rbind (read_node256_child b slot byte) (\<lambda>s.
          Inr (if s = 0 then None else Some (as_u16 s)))
      | _ \<Rightarrow> Inl (node_corrupt ''inner_find_child: not an inner node''))"

subsection \<open>Updating a child\<close>

definition node4_update :: "node4 \<Rightarrow> u8 \<Rightarrow> nat \<Rightarrow> node4 option" where
  "node4_update n byte new_child =
     map_option (\<lambda>i. n\<lparr>n4_children := (n4_children n)[i := new_child]\<rparr>)
       (scalar_scan (\<lambda>k. k = byte) (take (min (n4_count n) 4) (n4_keys n)) 0)"

definition node16_update :: "node16 \<Rightarrow> u8 \<Rightarrow> nat \<Rightarrow> node16 option" where
  "node16_update n byte new_child =
     map_option (\<lambda>i. n\<lparr>n16_children := (n16_children n)[i := new_child]\<rparr>)
       (node16_find_byte host (n16_keys n) (n16_count n) byte)"

definition node48_update :: "node48 \<Rightarrow> u8 \<Rightarrow> nat \<Rightarrow> node48 res" where
  "node48_update n byte new_child =
     (let idx = unat (n48_index n ! unat byte)
      in if idx = 0 then Inl (node_corrupt ''inner_update_child: byte not found in Node48'')
         else rbind (at (n48_children n) (idx - 1)) (\<lambda>_.
           Inr (n\<lparr>n48_children := (n48_children n)[idx - 1 := new_child]\<rparr>)))"

definition node256_update :: "node256 \<Rightarrow> u8 \<Rightarrow> nat \<Rightarrow> node256" where
  "node256_update n byte new_child = n\<lparr>n256_children := (n256_children n)[unat byte := new_child]\<rparr>"

definition inner_update_child :: "nat \<Rightarrow> node_type \<Rightarrow> u8 \<Rightarrow> nat \<Rightarrow> (buf, unit) st" where
  "inner_update_child slot ntype byte new_child =
     (case ntype of
        Node4T \<Rightarrow> sbind (sread (\<lambda>b. read_node4 b slot)) (\<lambda>n.
          case node4_update n byte new_child of
            Some n' \<Rightarrow> write_struct_to_slot slot (enc_node4 n')
          | None \<Rightarrow> sfail (node_corrupt ''inner_update_child: byte not found in Node4''))
      | Node16T \<Rightarrow> sbind (sread (\<lambda>b. read_node16 b slot)) (\<lambda>n.
          case node16_update n byte new_child of
            Some n' \<Rightarrow> write_struct_to_slot slot (enc_node16 n')
          | None \<Rightarrow> sfail (node_corrupt ''inner_update_child: byte not found in Node16''))
      | Node48T \<Rightarrow> sbind (sread (\<lambda>b. read_node48 b slot)) (\<lambda>n.
          sbind (sread (\<lambda>_. node48_update n byte new_child)) (\<lambda>n'.
          write_struct_to_slot slot (enc_node48 n')))
      | Node256T \<Rightarrow> sbind (sread (\<lambda>b. read_node256 b slot)) (\<lambda>n.
          write_struct_to_slot slot (enc_node256 (node256_update n byte new_child)))
      | _ \<Rightarrow> sfail (node_corrupt ''inner_update_child: not an inner node''))"

subsection \<open>Adding a child\<close>

text \<open>The position of the first larger key, then the loop that shifts the tail up by one.\<close>

definition insert_pos :: "bytes \<Rightarrow> nat \<Rightarrow> u8 \<Rightarrow> nat" where
  "insert_pos keys count byte =
     (case scalar_scan (\<lambda>k. k > byte) (take count keys) 0 of Some i \<Rightarrow> i | None \<Rightarrow> count)"

function shift_right :: "'a list \<Rightarrow> nat \<Rightarrow> nat \<Rightarrow> 'a list" where
  "shift_right xs pos i = (if i > pos then shift_right (xs[i := xs ! (i - 1)]) pos (i - 1) else xs)"
  by pat_completeness auto
termination by (relation "measure (\<lambda>(xs, pos, i). i)") auto

declare shift_right.simps [simp del]

definition node4_insert_sorted :: "node4 \<Rightarrow> u8 \<Rightarrow> nat \<Rightarrow> node4" where
  "node4_insert_sorted n byte child =
     (let count = n4_count n; pos = insert_pos (n4_keys n) count byte
      in n\<lparr>n4_keys := (shift_right (n4_keys n) pos count)[pos := byte],
           n4_children := (shift_right (n4_children n) pos count)[pos := child],
           n4_count := count + 1\<rparr>)"

definition node16_insert_sorted :: "node16 \<Rightarrow> u8 \<Rightarrow> nat \<Rightarrow> node16" where
  "node16_insert_sorted n byte child =
     (let count = n16_count n; pos = insert_pos (n16_keys n) count byte
      in n\<lparr>n16_keys := (shift_right (n16_keys n) pos count)[pos := byte],
           n16_children := (shift_right (n16_children n) pos count)[pos := child],
           n16_count := count + 1\<rparr>)"

definition node48_insert :: "node48 \<Rightarrow> u8 \<Rightarrow> nat \<Rightarrow> node48 res" where
  "node48_insert n byte child =
     (if n48_index n ! unat byte \<noteq> 0 then Inl (node_corrupt ''node48_insert: byte already present'')
      else case scalar_scan (\<lambda>c. c = 0) (take 48 (n48_children n)) 0 of
        Some i \<Rightarrow> Inr (n\<lparr>n48_children := (n48_children n)[i := child],
            n48_index := (n48_index n)[unat byte := of_nat (i + 1)],
            n48_count := n48_count n + 1\<rparr>)
      | None \<Rightarrow> Inl (node_corrupt ''node48_insert: no free children[] slot despite count < 48''))"

definition node256_insert :: "node256 \<Rightarrow> u8 \<Rightarrow> nat \<Rightarrow> node256 res" where
  "node256_insert n byte child =
     (if n256_children n ! unat byte \<noteq> 0
      then Inl (node_corrupt ''inner_add_child: byte already present on Node256'')
      else Inr (n\<lparr>n256_children := (n256_children n)[unat byte := child],
             n256_count := sat_add 8 (n256_count n) 1\<rparr>))"

definition node4_to_16 :: "node4 \<Rightarrow> node16 res" where
  "node4_to_16 old =
     (let c = n4_count old
      in if c > 4 then Inl (Panic ''index out of bounds'')
         else Inr (node16_empty\<lparr>n16_count := c,
           n16_keys := take c (n4_keys old) @ drop c (n16_keys node16_empty),
           n16_children := take c (n4_children old) @ drop c (n16_children node16_empty)\<rparr>))"

definition node16_to_48 :: "node16 \<Rightarrow> node48 res" where
  "node16_to_48 old =
     (let c = n16_count old
      in if c > 16 then Inl (Panic ''index out of bounds'')
         else Inr (node48_empty\<lparr>n48_count := c,
           n48_children := take c (n16_children old) @ drop c (n48_children node48_empty),
           n48_index := fold (\<lambda>i ix. ix[unat (n16_keys old ! i) := of_nat (i + 1)]) [0..<c] (n48_index node48_empty)\<rparr>))"

definition node48_to_256 :: "node48 \<Rightarrow> node256 res" where
  "node48_to_256 old =
     (if \<exists>ix\<in>set (n48_index old). unat ix > 48 then Inl (Panic ''index out of bounds'')
      else Inr (node256_empty\<lparr>
        n256_children := map (\<lambda>ix. if ix = 0 then 0 else n48_children old ! (unat ix - 1)) (n48_index old),
        n256_count := min (length (filter (\<lambda>ix. ix \<noteq> 0) (n48_index old))) 255\<rparr>))"

definition grow_node4_to_node16 :: "nat \<Rightarrow> node4 \<Rightarrow> (buf, nat) st" where
  "grow_node4_to_node16 old_slot old =
     sbind (alloc_node Node16T) (\<lambda>slot.
     sbind (sread (\<lambda>_. node4_to_16 old)) (\<lambda>n.
     sbind (write_struct_to_slot slot (enc_node16 n)) (\<lambda>_.
     sbind (free_node old_slot) (\<lambda>_. sret slot))))"

definition grow_node16_to_node48 :: "nat \<Rightarrow> node16 \<Rightarrow> (buf, nat) st" where
  "grow_node16_to_node48 old_slot old =
     sbind (alloc_node Node48T) (\<lambda>slot.
     sbind (sread (\<lambda>_. node16_to_48 old)) (\<lambda>n.
     sbind (write_struct_to_slot slot (enc_node48 n)) (\<lambda>_.
     sbind (free_node old_slot) (\<lambda>_. sret slot))))"

definition grow_node48_to_node256 :: "nat \<Rightarrow> node48 \<Rightarrow> (buf, nat) st" where
  "grow_node48_to_node256 old_slot old =
     sbind (alloc_node Node256T) (\<lambda>slot.
     sbind (sread (\<lambda>_. node48_to_256 old)) (\<lambda>n.
     sbind (write_struct_to_slot slot (enc_node256 n)) (\<lambda>_.
     sbind (free_node old_slot) (\<lambda>_. sret slot))))"

text \<open>The four arms of \<^verbatim>\<open>inner_add_child\<close>; each calls the next one after growing.\<close>

definition add_child_node256 :: "nat \<Rightarrow> u8 \<Rightarrow> nat \<Rightarrow> (buf, nat) st" where
  "add_child_node256 slot byte new_child =
     sbind (sread (\<lambda>b. read_node256 b slot)) (\<lambda>n.
     sbind (sread (\<lambda>_. node256_insert n byte new_child)) (\<lambda>n'.
     sbind (write_struct_to_slot slot (enc_node256 n')) (\<lambda>_. sret slot)))"

definition add_child_node48 :: "nat \<Rightarrow> u8 \<Rightarrow> nat \<Rightarrow> (buf, nat) st" where
  "add_child_node48 slot byte new_child =
     sbind (sread (\<lambda>b. read_node48 b slot)) (\<lambda>n.
       if n48_count n < 48
       then sbind (sread (\<lambda>_. node48_insert n byte new_child)) (\<lambda>n'.
            sbind (write_struct_to_slot slot (enc_node48 n')) (\<lambda>_. sret slot))
       else sbind (grow_node48_to_node256 slot n) (\<lambda>n256_slot.
            add_child_node256 n256_slot byte new_child))"

definition add_child_node16 :: "nat \<Rightarrow> u8 \<Rightarrow> nat \<Rightarrow> (buf, nat) st" where
  "add_child_node16 slot byte new_child =
     sbind (sread (\<lambda>b. read_node16 b slot)) (\<lambda>n.
       if n16_count n < 16
       then sbind (write_struct_to_slot slot (enc_node16 (node16_insert_sorted n byte new_child))) (\<lambda>_. sret slot)
       else sbind (grow_node16_to_node48 slot n) (\<lambda>n48_slot.
            add_child_node48 n48_slot byte new_child))"

definition add_child_node4 :: "nat \<Rightarrow> u8 \<Rightarrow> nat \<Rightarrow> (buf, nat) st" where
  "add_child_node4 slot byte new_child =
     sbind (sread (\<lambda>b. read_node4 b slot)) (\<lambda>n.
       if n4_count n < 4
       then sbind (write_struct_to_slot slot (enc_node4 (node4_insert_sorted n byte new_child))) (\<lambda>_. sret slot)
       else sbind (grow_node4_to_node16 slot n) (\<lambda>n16_slot.
            add_child_node16 n16_slot byte new_child))"

definition inner_add_child :: "nat \<Rightarrow> node_type \<Rightarrow> u8 \<Rightarrow> nat \<Rightarrow> (buf, nat) st" where
  "inner_add_child slot ntype byte new_child =
     (case ntype of
        Node4T \<Rightarrow> add_child_node4 slot byte new_child
      | Node16T \<Rightarrow> add_child_node16 slot byte new_child
      | Node48T \<Rightarrow> add_child_node48 slot byte new_child
      | Node256T \<Rightarrow> add_child_node256 slot byte new_child
      | _ \<Rightarrow> sfail (node_corrupt ''inner_add_child: not an inner node''))"

end
