(* ===== verification/Child_Table.thy ===== *)
theory Child_Table
  imports Prelude
begin

text \<open>
  Sorted tables of children: association lists from key bytes, as an inner node of the
  radix tree presents them, and the contract \<open>child_table\<close> that every inner node type
  fulfils.
\<close>

section \<open>Child tables\<close>

text \<open>Association lists sorted by key byte, and insertion into them.\<close>

definition keys_sorted :: "(u8 \<times> 'a) list \<Rightarrow> bool" where
  "keys_sorted xs \<longleftrightarrow> sorted_wrt (<) (map fst xs)"

fun kins :: "u8 \<Rightarrow> 'a \<Rightarrow> (u8 \<times> 'a) list \<Rightarrow> (u8 \<times> 'a) list" where
  "kins b c [] = [(b, c)]"
| "kins b c ((k, d) # rest) =
     (if k < b then (k, d) # kins b c rest
      else if k = b then (b, c) # rest
      else (b, c) # (k, d) # rest)"

lemma keys_sorted_Cons [simp]:
  "keys_sorted ((k, c) # xs) \<longleftrightarrow> (\<forall>(k', _) \<in> set xs. k < k') \<and> keys_sorted xs"
  by (auto simp: keys_sorted_def)

lemma keys_sorted_Nil [simp]: "keys_sorted []"
  by (simp add: keys_sorted_def)

lemma keys_sorted_distinct: "keys_sorted xs \<Longrightarrow> distinct (map fst xs)"
  unfolding keys_sorted_def by (metis strict_sorted_iff strict_sorted_equal sorted_wrt_iff_nth_less
      distinct_conv_nth less_irrefl linorder_neqE_nat)

lemma set_kins: "set (map fst (kins b c xs)) = insert b (set (map fst xs))"
  by (induction xs rule: kins.induct) auto

lemma keys_sorted_kins: "keys_sorted xs \<Longrightarrow> keys_sorted (kins b c xs)"
proof (induction b c xs rule: kins.induct)
  case (2 b c k d rest)
  have "k < k'" if "(k', c') \<in> set (kins b c rest)" "k < b" for k' c'
  proof -
    have "k' \<in> insert b (set (map fst rest))"
      using that(1) set_kins [of b c rest] by (metis fst_conv image_eqI list.set_map)
    then show ?thesis using 2(2) that(2) by auto
  qed
  with 2 show ?case by auto
qed simp

lemma map_of_kins: "keys_sorted xs \<Longrightarrow> map_of (kins b c xs) = (map_of xs)(b \<mapsto> c)"
proof (induction b c xs rule: kins.induct)
  case (2 b c k d rest)
  then show ?case by (auto simp: fun_eq_iff)
qed auto

lemma map_of_Cons_smaller:
  "keys_sorted ((k, c) # xs) \<Longrightarrow> k' < k \<Longrightarrow> map_of ((k, c) # xs) k' = None"
  by (auto simp: map_of_eq_None_iff)

lemma keys_sorted_ext:
  "keys_sorted xs \<Longrightarrow> keys_sorted ys \<Longrightarrow> map_of xs = map_of ys \<Longrightarrow> xs = ys"
proof (induction xs arbitrary: ys)
  case Nil
  then show ?case by (metis map_of.simps(1) map_of_eq_empty_iff)
next
  case (Cons x xs)
  obtain k c where x: "x = (k, c)" by force
  have "ys \<noteq> []" using Cons.prems(3) by (metis list.distinct(1) map_of.simps(1) map_of_eq_empty_iff)
  then obtain k' c' ys' where ys: "ys = (k', c') # ys'" by (cases ys) auto
  have e: "map_of ((k, c) # xs) j = map_of ((k', c') # ys') j" for j
    using Cons.prems(3) unfolding x ys by (rule fun_cong)
  have kk: "k = k'"
  proof (rule ccontr)
    assume "k \<noteq> k'"
    then consider "k' < k" | "k < k'" by fastforce
    then show False
    proof cases
      case 1
      then have "map_of ((k, c) # xs) k' = None" using Cons.prems(1) by (intro map_of_Cons_smaller) (simp add: x)
      then show False using e [of k'] by simp
    next
      case 2
      then have "map_of ((k', c') # ys') k = None" using Cons.prems(2) by (intro map_of_Cons_smaller) (simp add: ys)
      then show False using e [of k] by simp
    qed
  qed
  have "c = c'" using e [of k] kk by simp
  moreover have none: "map_of xs k = None" "map_of ys' k = None"
    using Cons.prems(1,2) kk by (auto simp: x ys map_of_eq_None_iff)
  have "map_of xs j = map_of ys' j" for j
    using e [of j] none kk by (cases "j = k") auto
  then have "xs = ys'" using Cons by (auto simp: x ys)
  ultimately show ?case using kk by (simp add: x ys)
qed

lemma kins_split:
  "keys_sorted (xs @ ys) \<Longrightarrow> \<forall>(k, _) \<in> set xs. k < b \<Longrightarrow> \<forall>(k, _) \<in> set ys. b < k
     \<Longrightarrow> kins b c (xs @ ys) = xs @ (b, c) # ys"
proof (induction xs)
  case Nil
  then show ?case by (cases ys) auto
next
  case (Cons x xs)
  then show ?case by (cases x) auto
qed

lemma kins_update:
  "keys_sorted xs \<Longrightarrow> i < length xs \<Longrightarrow> fst (xs ! i) = b \<Longrightarrow> kins b c xs = xs[i := (b, c)]"
proof (induction xs arbitrary: i)
  case (Cons x xs)
  obtain k d where x: "x = (k, d)" by force
  show ?case
  proof (cases i)
    case 0
    with Cons show ?thesis by (auto simp: x)
  next
    case (Suc j)
    then have "xs ! j \<in> set xs" "fst (xs ! j) = b" using Cons.prems by auto
    moreover obtain k' d' where "xs ! j = (k', d')" by force
    ultimately have "k < b" using Cons.prems(1) by (fastforce simp: x)
    with Suc Cons show ?thesis by (simp add: x)
  qed
qed simp

text \<open>Tables indexed by the key byte.\<close>

definition table_kids :: "(nat \<Rightarrow> 'a option) \<Rightarrow> (u8 \<times> 'a) list" where
  "table_kids f = List.map_filter (\<lambda>i. map_option (Pair (of_nat i)) (f i)) [0..<256]"

lemma map_filter_keys_sorted:
  "m \<le> 256 \<Longrightarrow> keys_sorted (List.map_filter (\<lambda>i. map_option (Pair (of_nat i :: u8)) (f i)) [n..<m])
     \<and> (\<forall>(k, _) \<in> set (List.map_filter (\<lambda>i. map_option (Pair (of_nat i :: u8)) (f i)) [n..<m]). n \<le> unat k)"
proof (induction "m - n" arbitrary: n)
  case (Suc d)
  let ?r = "List.map_filter (\<lambda>i. map_option (Pair (of_nat i :: u8)) (f i)) [Suc n..<m]"
  have "d = m - Suc n" using Suc.hyps(2) by simp
  then have IH: "keys_sorted ?r" "\<forall>(k, _) \<in> set ?r. Suc n \<le> unat k"
    using Suc.hyps(1) Suc.prems by blast+
  have n: "n < m" "n < 256" using Suc.hyps(2) Suc.prems by simp_all
  then have "\<forall>(k, _) \<in> set ?r. (of_nat n :: u8) < k"
    using IH(2) by (auto simp: word_less_nat_alt)
  with IH n show ?case
    by (auto simp: upt_conv_Cons map_filter_simps split: option.splits)
qed (simp add: map_filter_simps)

lemma keys_sorted_table [simp]: "keys_sorted (table_kids f)"
  using map_filter_keys_sorted [of 256 f 0] by (simp add: table_kids_def)

lemma map_of_map_filter:
  "m \<le> 256 \<Longrightarrow> map_of (List.map_filter (\<lambda>i. map_option (Pair (of_nat i :: u8)) (f i)) [n..<m]) k
     = (if n \<le> unat k \<and> unat k < m then f (unat k) else None)"
proof (induction "m - n" arbitrary: n)
  case (Suc d)
  have IH: "map_of (List.map_filter (\<lambda>i. map_option (Pair (of_nat i :: u8)) (f i)) [Suc n..<m]) k
     = (if Suc n \<le> unat k \<and> unat k < m then f (unat k) else None)"
    using Suc by simp
  have n: "n < m" "n < 256" using Suc by simp_all
  have "k = of_nat n \<longleftrightarrow> unat k = n" using n by (auto simp: word_unat_eq_iff)
  with IH n show ?case
    by (auto simp: upt_conv_Cons map_filter_simps split: option.splits)
qed (auto simp: map_filter_simps)

lemma map_of_table [simp]: "map_of (table_kids f) k = f (unat k)"
  using map_of_map_filter [of 256 f 0 k] u8_bound [of k] by (simp add: table_kids_def)

lemma table_kids_cong: "(\<And>i. i < 256 \<Longrightarrow> f i = g i) \<Longrightarrow> table_kids f = table_kids g"
  by (rule keys_sorted_ext) (auto simp: fun_eq_iff u8_bound)

lemma table_kids_upd: "kins k c (table_kids f) = table_kids (f(unat k \<mapsto> c))"
  by (rule keys_sorted_ext) (auto simp: keys_sorted_kins map_of_kins fun_eq_iff word_unat_eq_iff)


section \<open>The contract of an inner node\<close>

text \<open>
  \<open>kids n\<close> is the table a node \<open>n\<close> presents; children are non-zero slot numbers.  \<open>has_room\<close> tells
  whether a child can be added without growing.
\<close>

definition slot_ok :: "nat \<Rightarrow> bool" where
  "slot_ok c \<longleftrightarrow> 0 < c \<and> c < 4294967296"

definition slots_ok :: "(u8 \<times> nat) list \<Rightarrow> bool" where
  "slots_ok xs \<longleftrightarrow> (\<forall>(k, c) \<in> set xs. slot_ok c)"

lemma slots_kins: "slots_ok xs \<Longrightarrow> slot_ok c \<Longrightarrow> slots_ok (kins b c xs)"
  by (induction b c xs rule: kins.induct) (auto simp: slots_ok_def)

lemma slots_okD: "slots_ok xs \<Longrightarrow> map_of xs k = Some c \<Longrightarrow> slot_ok c"
  by (auto simp: slots_ok_def dest: map_of_SomeD)

locale child_table =
  fixes wf :: "'n \<Rightarrow> bool"
    and kids :: "'n \<Rightarrow> (u8 \<times> nat) list"
    and find :: "'n \<Rightarrow> u8 \<Rightarrow> nat option res"
    and update :: "'n \<Rightarrow> u8 \<Rightarrow> nat \<Rightarrow> 'n res"
    and add :: "'n \<Rightarrow> u8 \<Rightarrow> nat \<Rightarrow> 'n res"
    and has_room :: "'n \<Rightarrow> bool"
  assumes kids_sorted: "wf n \<Longrightarrow> keys_sorted (kids n)"
    and find_kids: "wf n \<Longrightarrow> find n k = Inr (map_of (kids n) k)"
    and update_kids: "wf n \<Longrightarrow> map_of (kids n) k \<noteq> None \<Longrightarrow> slot_ok c
      \<Longrightarrow> \<exists>n'. update n k c = Inr n' \<and> wf n' \<and> kids n' = kins k c (kids n)"
    and add_kids: "wf n \<Longrightarrow> map_of (kids n) k = None \<Longrightarrow> has_room n \<Longrightarrow> slot_ok c
      \<Longrightarrow> \<exists>n'. add n k c = Inr n' \<and> wf n' \<and> kids n' = kins k c (kids n)"
begin

lemma find_after_update:
  assumes "wf n" and "find n k = Inr (Some d)" and "slot_ok c"
  shows "\<exists>n'. update n k c = Inr n' \<and> wf n' \<and> (\<forall>j. find n' j = (if j = k then Inr (Some c) else find n j))"
proof -
  have "map_of (kids n) k \<noteq> None" using assms find_kids by simp
  then obtain n' where "update n k c = Inr n'" "wf n'" "kids n' = kins k c (kids n)"
    using update_kids assms by blast
  then show ?thesis using assms(1) by (auto simp: find_kids kids_sorted map_of_kins)
qed

lemma find_after_add:
  assumes "wf n" and "find n k = Inr None" and "has_room n" and "slot_ok c"
  shows "\<exists>n'. add n k c = Inr n' \<and> wf n' \<and> (\<forall>j. find n' j = (if j = k then Inr (Some c) else find n j))"
proof -
  have "map_of (kids n) k = None" using assms find_kids by simp
  then obtain n' where "add n k c = Inr n'" "wf n'" "kids n' = kins k c (kids n)"
    using add_kids assms by blast
  then show ?thesis using assms(1) by (auto simp: find_kids kids_sorted map_of_kins)
qed

end

end
