(* ===== verification/Inner_Nodes.thy ===== *)
theory Inner_Nodes
  imports Walker_Nodes Child_Table
begin

text \<open>
  The four inner node types as child tables: what table a node body presents, the
  invariant each body keeps, and the interpretation of \<open>child_table\<close> for the find, update
  and insert code of \<^verbatim>\<open>writers.rs\<close>.  Growing a full node keeps its table.
\<close>

section \<open>Parallel arrays of keys and children (Node4, Node16)\<close>

definition arr_kids :: "bytes \<Rightarrow> nat list \<Rightarrow> nat \<Rightarrow> (u8 \<times> nat) list" where
  "arr_kids ks cs c = zip (take c ks) (take c cs)"

lemma list_upd_nth: "(xs[i := v]) ! j = (if i = j \<and> i < length xs then v else xs ! j)"
  by (metis list_update_beyond not_le nth_list_update_eq nth_list_update_neq)

lemma length_shift_right [simp]: "length (shift_right xs pos i) = length xs"
  by (induction xs pos i rule: shift_right.induct) (subst shift_right.simps, simp)

lemma shift_right_nth:
  "i < length xs \<Longrightarrow> shift_right xs pos i ! j = (if pos < j \<and> j \<le> i then xs ! (j - 1) else xs ! j)"
proof (induction xs pos i rule: shift_right.induct)
  case (1 xs pos i)
  show ?case
  proof (cases "pos < i")
    case True
    then have "shift_right xs pos i ! j = shift_right (xs[i := xs ! (i - 1)]) pos (i - 1) ! j"
      by (subst shift_right.simps) simp
    with 1 True show ?thesis by (auto simp: nth_list_update)
  next
    case False
    then show ?thesis by (subst shift_right.simps) auto
  qed
qed

lemma take_shift_right:
  assumes "pos \<le> c" and "c < length xs"
  shows "take (Suc c) ((shift_right xs pos c)[pos := v]) = take pos xs @ v # drop pos (take c xs)"
proof (rule nth_equalityI)
  fix j assume "j < length (take (Suc c) ((shift_right xs pos c)[pos := v]))"
  then have j: "j \<le> c" using assms by simp
  consider "j < pos" | "j = pos" | "pos < j" by linarith
  then show "take (Suc c) ((shift_right xs pos c)[pos := v]) ! j = (take pos xs @ v # drop pos (take c xs)) ! j"
  proof cases
    case 1
    then show ?thesis using j assms by (simp add: nth_append shift_right_nth)
  next
    case 2
    then show ?thesis using j assms by (simp add: nth_append)
  next
    case 3
    then obtain m where "j = pos + Suc m" using less_iff_Suc_add by auto
    then show ?thesis using j assms by (simp add: nth_append shift_right_nth)
  qed
qed (use assms in simp)

lemma insert_pos_props:
  assumes "c \<le> length ks"
  shows "insert_pos ks c b \<le> c"
    and "\<And>j. j < insert_pos ks c b \<Longrightarrow> ks ! j \<le> b"
    and "insert_pos ks c b < c \<Longrightarrow> b < ks ! insert_pos ks c b"
proof -
  have *: "insert_pos ks c b \<le> c \<and> (\<forall>j < insert_pos ks c b. ks ! j \<le> b)
      \<and> (insert_pos ks c b < c \<longrightarrow> b < ks ! insert_pos ks c b)"
  proof (cases "first_from (\<lambda>k. k > b) (take c ks) 0")
    case None
    then have "\<not> b < ks ! j" if "j < c" for j
      using that assms by (auto simp: first_from_def find_None_iff)
    with None show ?thesis by (auto simp: insert_pos_def scalar_scan_first not_less)
  next
    case (Some i)
    then have "i < c" "b < ks ! i" "\<forall>k<i. \<not> b < ks ! k"
      using assms by (auto simp: first_from_iff)
    with Some show ?thesis by (auto simp: insert_pos_def scalar_scan_first not_less)
  qed
  then show "insert_pos ks c b \<le> c" "\<And>j. j < insert_pos ks c b \<Longrightarrow> ks ! j \<le> b"
    "insert_pos ks c b < c \<Longrightarrow> b < ks ! insert_pos ks c b" by blast+
qed

lemma arr_kids_split:
  assumes "pos \<le> c" and "length ks = length cs"
  shows "arr_kids ks cs c = arr_kids ks cs pos @ zip (drop pos (take c ks)) (drop pos (take c cs))"
proof -
  have "take c ks = take pos ks @ drop pos (take c ks)" "take c cs = take pos cs @ drop pos (take c cs)"
    by (metis append_take_drop_id assms(1) min.absorb1 take_take)+
  then show ?thesis unfolding arr_kids_def using assms(2) by (metis length_take zip_append)
qed

lemma arr_insert:
  assumes len: "length ks = length cs" "c < length ks" and sorted: "keys_sorted (arr_kids ks cs c)"
    and fresh: "map_of (arr_kids ks cs c) b = None"
  defines "pos \<equiv> insert_pos ks c b"
  shows "arr_kids ((shift_right ks pos c)[pos := b]) ((shift_right cs pos c)[pos := v]) (Suc c)
    = kins b v (arr_kids ks cs c)"
proof -
  have cl: "c \<le> length ks" using len by simp
  have pp: "pos \<le> c" "\<And>j. j < pos \<Longrightarrow> ks ! j \<le> b" "pos < c \<Longrightarrow> b < ks ! pos"
    unfolding pos_def by (fact insert_pos_props [OF cl])+
  let ?l = "arr_kids ks cs pos" and ?r = "zip (drop pos (take c ks)) (drop pos (take c cs))"
  have split: "arr_kids ks cs c = ?l @ ?r" using pp(1) len(1) by (rule arr_kids_split)
  have nb: "b \<notin> fst ` set (arr_kids ks cs c)" using fresh by (simp add: map_of_eq_None_iff)
  have "k < b" if k: "(k, d) \<in> set ?l" for k d
  proof -
    obtain j where "j < pos" "k = ks ! j" using k by (auto simp: arr_kids_def in_set_zip)
    then have "k \<le> b" using pp(2) by simp
    moreover have "k \<noteq> b" using k nb split by force
    ultimately show ?thesis by simp
  qed
  moreover have "b < k" if k: "(k, d) \<in> set ?r" for k d
  proof -
    have "?r \<noteq> []" using k by auto
    then have pc: "pos < c" using pp(1) by (cases "pos = c") auto
    obtain j where j: "j < length ?r" "?r ! j = (k, d)" using k by (meson in_set_conv_nth)
    have r0: "fst (?r ! 0) = ks ! pos" using pc len by simp
    show ?thesis
    proof (cases j)
      case 0
      with j r0 pp(3) [OF pc] show ?thesis by simp
    next
      case (Suc i)
      have "sorted_wrt (<) (map fst ?r)" using sorted split by (simp add: keys_sorted_def sorted_wrt_append)
      moreover have "0 < j" "j < length (map fst ?r)" using j(1) Suc by simp_all
      ultimately have "map fst ?r ! 0 < map fst ?r ! j" by (rule sorted_wrt_nth_less)
      moreover have "0 < length ?r" using j by linarith
      ultimately have "ks ! pos < k" using j r0 by simp
      then show ?thesis using pp(3) [OF pc] by simp
    qed
  qed
  ultimately have "kins b v (?l @ ?r) = ?l @ (b, v) # ?r"
    using sorted split by (intro kins_split) auto
  moreover have "arr_kids ((shift_right ks pos c)[pos := b]) ((shift_right cs pos c)[pos := v]) (Suc c)
      = ?l @ (b, v) # ?r"
    using len pp(1) by (simp add: arr_kids_def take_shift_right)
  ultimately show ?thesis using split by simp
qed

lemma arr_update:
  assumes "c \<le> length ks" "length ks = length cs" and sorted: "keys_sorted (arr_kids ks cs c)"
    and found: "first_from (\<lambda>k. k = b) (take c ks) 0 = Some i"
  shows "arr_kids ks (cs[i := v]) c = kins b v (arr_kids ks cs c)"
proof -
  have i: "i < c" "ks ! i = b" using found assms(1) by (auto simp: first_from_iff)
  then have "kins b v (arr_kids ks cs c) = (arr_kids ks cs c)[i := (b, v)]"
    using assms by (intro kins_update) (auto simp: arr_kids_def)
  also have "\<dots> = arr_kids ks (cs[i := v]) c"
    using i assms by (intro nth_equalityI) (auto simp: arr_kids_def nth_list_update)
  finally show ?thesis by simp
qed

lemma arr_find:
  assumes "c \<le> length ks" "length ks = length cs" and sorted: "keys_sorted (arr_kids ks cs c)"
  shows "map_option (\<lambda>i. cs ! i) (first_from (\<lambda>k. k = b) (take c ks) 0) = map_of (arr_kids ks cs c) b"
proof (cases "first_from (\<lambda>k. k = b) (take c ks) 0")
  case None
  then have "b \<notin> set (take c ks)" by (auto simp: first_from_def find_None_iff in_set_conv_nth)
  then have "map_of (arr_kids ks cs c) b = None"
    using assms by (simp add: arr_kids_def)
  with None show ?thesis by simp
next
  case (Some i)
  then have i: "i < c" "ks ! i = b" using assms(1) by (auto simp: first_from_iff)
  have "(b, cs ! i) \<in> set (arr_kids ks cs c)"
    unfolding arr_kids_def in_set_zip using i assms by (intro exI [of _ i]) simp
  then have "map_of (arr_kids ks cs c) b = Some (cs ! i)"
    using sorted by (intro map_of_is_SomeI keys_sorted_distinct)
  with Some show ?thesis by simp
qed

lemma set_arr_children: "length ks = length cs \<Longrightarrow> snd ` set (arr_kids ks cs c) = set (take c cs)"
  unfolding arr_kids_def by (metis length_take map_snd_zip set_map)

lemma node4_scan_map_of: "keys_sorted xs \<Longrightarrow> node4_scan xs b = map_of xs b"
proof (induction xs b rule: node4_scan.induct)
  case (2 k c rest byte)
  then show ?case using map_of_Cons_smaller [of k c rest byte] by auto
qed simp

section \<open>Node4\<close>

definition kids4 :: "node4 \<Rightarrow> (u8 \<times> nat) list" where
  "kids4 n = arr_kids (n4_keys n) (n4_children n) (n4_count n)"

definition inv4 :: "node4 \<Rightarrow> bool" where
  "inv4 n \<longleftrightarrow> wf_node4 n \<and> n4_count n \<le> 4 \<and> keys_sorted (kids4 n) \<and> slots_ok (kids4 n)"

lemma inv4_lengths:
  assumes "inv4 n"
  shows "length (n4_keys n) = 4" "length (n4_children n) = 4" "n4_count n \<le> 4"
    "keys_sorted (kids4 n)" "slots_ok (kids4 n)"
  using assms by (auto simp: inv4_def wf_node4_def)

lemma node4_find_kids:
  assumes "inv4 n"
  shows "node4_find n k = map_of (kids4 n) k"
proof -
  have "take (min (n4_count n) 4) (zip (n4_keys n) (n4_children n)) = kids4 n"
    using inv4_lengths [OF assms] by (simp add: kids4_def arr_kids_def take_zip min_absorb1)
  then show ?thesis using inv4_lengths [OF assms] by (simp add: node4_find_def node4_scan_map_of)
qed

lemma node4_update_kids:
  assumes n: "inv4 n" and k: "map_of (kids4 n) k \<noteq> None" and c: "slot_ok c"
  shows "\<exists>n'. node4_update n k c = Some n' \<and> inv4 n' \<and> kids4 n' = kins k c (kids4 n)"
proof -
  note len = inv4_lengths [OF n]
  let ?ff = "first_from (\<lambda>x. x = k) (take (n4_count n) (n4_keys n)) 0"
  obtain i where i: "?ff = Some i"
    using arr_find [of "n4_count n" "n4_keys n" "n4_children n" k] len k by (cases ?ff) (auto simp: kids4_def)
  let ?n = "n\<lparr>n4_children := (n4_children n)[i := c]\<rparr>"
  have kids: "kids4 ?n = kins k c (kids4 n)"
    using arr_update [OF _ _ _ i, of "n4_children n" c] len by (simp add: kids4_def)
  have "wf_node4 ?n"
    using n c by (auto simp: inv4_def wf_node4_def slot_ok_def dest: set_update_subset_insert [THEN subsetD])
  then have "inv4 ?n"
    using len c unfolding inv4_def kids by (simp add: keys_sorted_kins slots_kins)
  moreover have "node4_update n k c = Some ?n"
    using i len by (simp add: node4_update_def scalar_scan_first min_absorb1)
  ultimately show ?thesis using kids by blast
qed

lemma node4_insert_kids:
  assumes n: "inv4 n" and k: "map_of (kids4 n) k = None" and room: "n4_count n < 4" and c: "slot_ok c"
  shows "inv4 (node4_insert_sorted n k c)" and "kids4 (node4_insert_sorted n k c) = kins k c (kids4 n)"
proof -
  note len = inv4_lengths [OF n]
  let ?n = "node4_insert_sorted n k c"
  show kids: "kids4 ?n = kins k c (kids4 n)"
    using arr_insert [of "n4_keys n" "n4_children n" "n4_count n" k c] len room k
    by (simp add: kids4_def node4_insert_sorted_def Let_def)
  let ?cs = "(shift_right (n4_children n) (insert_pos (n4_keys n) (n4_count n) k) (n4_count n))"
  have "d < 4294967296" if "d \<in> set ?cs" for d
  proof -
    obtain j where j: "j < 4" "d = ?cs ! j" using \<open>d \<in> set ?cs\<close> len by (auto simp: in_set_conv_nth)
    then have "d \<in> set (n4_children n)" using len room by (auto simp: shift_right_nth)
    then show ?thesis using n by (simp add: inv4_def wf_node4_def)
  qed
  then have "wf_node4 ?n"
    using n c room by (auto simp: inv4_def wf_node4_def node4_insert_sorted_def Let_def slot_ok_def
        dest!: set_update_subset_insert [THEN subsetD])
  then show "inv4 ?n"
    using len c room unfolding inv4_def kids
    by (simp add: keys_sorted_kins slots_kins) (simp add: node4_insert_sorted_def Let_def)
qed

interpretation node4_table: child_table inv4 kids4
  "\<lambda>n k. Inr (node4_find n k)"
  "\<lambda>n k c. ok_or (node4_update n k c) (node_corrupt ''inner_update_child: byte not found in Node4'')"
  "\<lambda>n k c. Inr (node4_insert_sorted n k c)"
  "\<lambda>n. n4_count n < 4"
  by unfold_locales
    (auto simp: inv4_lengths node4_find_kids node4_insert_kids dest: node4_update_kids)

section \<open>Node16\<close>

definition kids16 :: "node16 \<Rightarrow> (u8 \<times> nat) list" where
  "kids16 n = arr_kids (n16_keys n) (n16_children n) (n16_count n)"

definition inv16 :: "node16 \<Rightarrow> bool" where
  "inv16 n \<longleftrightarrow> wf_node16 n \<and> n16_count n \<le> 16 \<and> keys_sorted (kids16 n) \<and> slots_ok (kids16 n)"

lemma inv16_lengths:
  assumes "inv16 n"
  shows "length (n16_keys n) = 16" "length (n16_children n) = 16" "n16_count n \<le> 16"
    "keys_sorted (kids16 n)" "slots_ok (kids16 n)"
  using assms by (auto simp: inv16_def wf_node16_def)

lemma node16_find_kids:
  assumes "inv16 n"
  shows "node16_find n k = map_of (kids16 n) k"
  using arr_find [of "n16_count n" "n16_keys n" "n16_children n" k] inv16_lengths [OF assms]
  by (simp add: node16_find_def node16_find_byte_first min_absorb1 kids16_def)

lemma node16_update_kids:
  assumes n: "inv16 n" and k: "map_of (kids16 n) k \<noteq> None" and c: "slot_ok c"
  shows "\<exists>n'. node16_update n k c = Some n' \<and> inv16 n' \<and> kids16 n' = kins k c (kids16 n)"
proof -
  note len = inv16_lengths [OF n]
  let ?ff = "first_from (\<lambda>x. x = k) (take (n16_count n) (n16_keys n)) 0"
  obtain i where i: "?ff = Some i"
    using arr_find [of "n16_count n" "n16_keys n" "n16_children n" k] len k by (cases ?ff) (auto simp: kids16_def)
  let ?n = "n\<lparr>n16_children := (n16_children n)[i := c]\<rparr>"
  have kids: "kids16 ?n = kins k c (kids16 n)"
    using arr_update [OF _ _ _ i, of "n16_children n" c] len by (simp add: kids16_def)
  have "wf_node16 ?n"
    using n c by (auto simp: inv16_def wf_node16_def slot_ok_def dest: set_update_subset_insert [THEN subsetD])
  then have "inv16 ?n"
    using len c unfolding inv16_def kids by (simp add: keys_sorted_kins slots_kins)
  moreover have "node16_update n k c = Some ?n"
    using i len by (simp add: node16_update_def node16_find_byte_first min_absorb1)
  ultimately show ?thesis using kids by blast
qed

lemma node16_insert_kids:
  assumes n: "inv16 n" and k: "map_of (kids16 n) k = None" and room: "n16_count n < 16" and c: "slot_ok c"
  shows "inv16 (node16_insert_sorted n k c)" and "kids16 (node16_insert_sorted n k c) = kins k c (kids16 n)"
proof -
  note len = inv16_lengths [OF n]
  let ?n = "node16_insert_sorted n k c"
  show kids: "kids16 ?n = kins k c (kids16 n)"
    using arr_insert [of "n16_keys n" "n16_children n" "n16_count n" k c] len room k
    by (simp add: kids16_def node16_insert_sorted_def Let_def)
  let ?cs = "(shift_right (n16_children n) (insert_pos (n16_keys n) (n16_count n) k) (n16_count n))"
  have "d < 4294967296" if "d \<in> set ?cs" for d
  proof -
    obtain j where j: "j < 16" "d = ?cs ! j" using \<open>d \<in> set ?cs\<close> len by (auto simp: in_set_conv_nth)
    then have "d \<in> set (n16_children n)" using len room by (auto simp: shift_right_nth)
    then show ?thesis using n by (simp add: inv16_def wf_node16_def)
  qed
  then have "wf_node16 ?n"
    using n c room by (auto simp: inv16_def wf_node16_def node16_insert_sorted_def Let_def slot_ok_def
        dest!: set_update_subset_insert [THEN subsetD])
  then show "inv16 ?n"
    using len c room unfolding inv16_def kids
    by (simp add: keys_sorted_kins slots_kins) (simp add: node16_insert_sorted_def Let_def)
qed

interpretation node16_table: child_table inv16 kids16
  "\<lambda>n k. Inr (node16_find n k)"
  "\<lambda>n k c. ok_or (node16_update n k c) (node_corrupt ''inner_update_child: byte not found in Node16'')"
  "\<lambda>n k c. Inr (node16_insert_sorted n k c)"
  "\<lambda>n. n16_count n < 16"
  by unfold_locales
    (auto simp: inv16_lengths node16_find_kids node16_insert_kids dest: node16_update_kids)

section \<open>Node48\<close>

definition slot48 :: "node48 \<Rightarrow> nat \<Rightarrow> nat option" where
  "slot48 n i = (let ix = unat (n48_index n ! i) in if ix = 0 then None else Some (n48_children n ! (ix - 1)))"

definition kids48 :: "node48 \<Rightarrow> (u8 \<times> nat) list" where
  "kids48 n = table_kids (slot48 n)"

text \<open>Every used index points at its own non-zero child, and the used children are counted.\<close>

definition inv48 :: "node48 \<Rightarrow> bool" where
  "inv48 n \<longleftrightarrow> wf_node48 n
     \<and> (\<forall>i<256. unat (n48_index n ! i) \<le> 48)
     \<and> (\<forall>i<256. \<forall>j<256. n48_index n ! i = n48_index n ! j \<longrightarrow> n48_index n ! i \<noteq> 0 \<longrightarrow> i = j)
     \<and> (\<forall>p<48. n48_children n ! p \<noteq> 0 \<longleftrightarrow> (\<exists>i<256. unat (n48_index n ! i) = Suc p))
     \<and> n48_count n = card {p. p < 48 \<and> n48_children n ! p \<noteq> 0}"

lemma inv48_lengths:
  assumes "inv48 n"
  shows "length (n48_index n) = 256" "length (n48_children n) = 48"
    "\<And>c. c \<in> set (n48_children n) \<Longrightarrow> c < 4294967296"
    "\<And>i. i < 256 \<Longrightarrow> unat (n48_index n ! i) \<le> 48"
    "n48_count n < 256"
  using assms by (auto simp: inv48_def wf_node48_def)

lemma slot48_ok:
  assumes n: "inv48 n" and i: "i < 256" and s: "slot48 n i = Some c"
  shows "slot_ok c"
proof -
  let ?ix = "unat (n48_index n ! i)"
  have ix: "?ix \<noteq> 0" "c = n48_children n ! (?ix - 1)" using s by (auto simp: slot48_def Let_def split: if_splits)
  have p: "?ix - 1 < 48" "?ix = Suc (?ix - 1)" using inv48_lengths(4) [OF n i] ix by auto
  then have "c \<noteq> 0" using n i ix(2) unfolding inv48_def by blast
  moreover have "c < 4294967296"
    using inv48_lengths(3) [OF n] p ix(2) inv48_lengths(2) [OF n] by simp
  ultimately show ?thesis by (simp add: slot_ok_def)
qed

lemma kids48_sorted: "keys_sorted (kids48 n)"
  by (simp add: kids48_def)

lemma slots48: "inv48 n \<Longrightarrow> slots_ok (kids48 n)"
proof -
  assume n: "inv48 n"
  have "slot_ok c" if "(k, c) \<in> set (kids48 n)" for k c
  proof -
    have "map_of (kids48 n) k = Some c"
      using that unfolding kids48_def by (intro map_of_is_SomeI keys_sorted_distinct) simp_all
    then have "slot48 n (unat k) = Some c" by (simp add: kids48_def)
    then show ?thesis using slot48_ok [OF n] u8_bound by blast
  qed
  then show ?thesis by (auto simp: slots_ok_def)
qed

lemma node48_find_kids:
  assumes "inv48 n"
  shows "node48_find n k = Inr (map_of (kids48 n) k)"
proof -
  have "unat (n48_index n ! unat k) - 1 < length (n48_children n)" if "unat (n48_index n ! unat k) \<noteq> 0"
    using inv48_lengths(2) [OF assms] inv48_lengths(4) [OF assms u8_bound, of k] that by simp
  then show ?thesis by (simp add: node48_find_def kids48_def slot48_def Let_def at_def)
qed

lemma node48_update_kids:
  assumes n: "inv48 n" and k: "map_of (kids48 n) k \<noteq> None" and c: "slot_ok c"
  shows "\<exists>n'. node48_update n k c = Inr n' \<and> inv48 n' \<and> kids48 n' = kins k c (kids48 n)"
proof -
  note len = inv48_lengths [OF n]
  let ?ix = "unat (n48_index n ! unat k)"
  let ?n = "n\<lparr>n48_children := (n48_children n)[?ix - 1 := c]\<rparr>"
  have ix: "?ix \<noteq> 0" using k by (auto simp: kids48_def slot48_def Let_def split: if_splits)
  have p: "?ix - 1 < 48" using len(4) [OF u8_bound, of k] ix by simp
  have uniq: "i = unat k" if "i < 256" "unat (n48_index n ! i) = ?ix" for i
  proof -
    have "n48_index n ! i = n48_index n ! unat k" using that(2) by (simp add: word_unat_eq_iff)
    moreover have "n48_index n ! i \<noteq> 0" using that(2) ix by auto
    ultimately show ?thesis using n that(1) u8_bound [of k] unfolding inv48_def by blast
  qed
  have old: "n48_children n ! (?ix - 1) \<noteq> 0"
    using slot48_ok [OF n u8_bound, of k] ix by (simp add: slot48_def slot_ok_def Let_def)
  have "slot48 ?n i = ((slot48 n)(unat k \<mapsto> c)) i" if "i < 256" for i
  proof (cases "i = unat k")
    case True
    then show ?thesis using ix p len by (simp add: slot48_def)
  next
    case False
    then have "unat (n48_index n ! i) \<noteq> ?ix" using uniq that by blast
    then show ?thesis using False ix by (auto simp: slot48_def Let_def list_upd_nth)
  qed
  then have kids: "kids48 ?n = kins k c (kids48 n)"
    unfolding kids48_def table_kids_upd by (intro table_kids_cong)
  have nz: "(n48_children n)[?ix - 1 := c] ! p \<noteq> 0 \<longleftrightarrow> n48_children n ! p \<noteq> 0" if "p < 48" for p
    using that old c p len(2) by (cases "p = ?ix - 1") (auto simp: slot_ok_def)
  then have cards: "{p. p < 48 \<and> (n48_children n)[?ix - 1 := c] ! p \<noteq> 0} = {p. p < 48 \<and> n48_children n ! p \<noteq> 0}"
    by blast
  have "wf_node48 ?n"
    using n c by (auto simp: inv48_def wf_node48_def slot_ok_def dest: set_update_subset_insert [THEN subsetD])
  then have "inv48 ?n"
    using n nz cards unfolding inv48_def by simp
  moreover have "node48_update n k c = Inr ?n"
    using ix p len(2) by (simp add: node48_update_def Let_def at_def)
  ultimately show ?thesis using kids by blast
qed

lemma node48_insert_kids:
  assumes n: "inv48 n" and k: "map_of (kids48 n) k = None" and room: "n48_count n < 48" and c: "slot_ok c"
  shows "\<exists>n'. node48_insert n k c = Inr n' \<and> inv48 n' \<and> kids48 n' = kins k c (kids48 n)"
proof -
  note len = inv48_lengths [OF n]
  let ?cs = "n48_children n" and ?ix = "n48_index n"
  have k0: "?ix ! unat k = 0"
    using k by (auto simp: kids48_def slot48_def Let_def word_unat_eq_iff split: if_splits)
  have "\<exists>p<48. ?cs ! p = 0"
  proof (rule ccontr)
    assume "\<not> (\<exists>p<48. ?cs ! p = 0)"
    then have "{p. p < 48 \<and> ?cs ! p \<noteq> 0} = {..<48}" by auto
    then show False using n room by (simp add: inv48_def)
  qed
  then obtain i where i: "first_from (\<lambda>c. c = 0) (take 48 ?cs) 0 = Some i"
    using len by (cases "first_from (\<lambda>c. c = 0) (take 48 ?cs) 0") (auto simp: first_from_def find_None_iff)
  then have i48: "i < 48" "?cs ! i = 0" using len by (auto simp: first_from_iff)
  have unused: "unat (?ix ! j) \<noteq> Suc i" if "j < 256" for j
    using n i48 that unfolding inv48_def by metis
  define v :: u8 where "v = of_nat (i + 1)"
  let ?n = "n\<lparr>n48_children := ?cs[i := c], n48_index := ?ix[unat k := v], n48_count := n48_count n + 1\<rparr>"
  have ui: "unat v = Suc i" unfolding v_def using i48 by (subst unat_of_nat_u8_less) simp_all
  have kb: "unat k < 256" by (rule u8_bound)
  have "slot48 ?n j = ((slot48 n)(unat k \<mapsto> c)) j" if j: "j < 256" for j
  proof (cases "j = unat k")
    case True
    then show ?thesis using ui i48 len kb by (simp add: slot48_def)
  next
    case False
    then show ?thesis using unused [OF j] i48 by (auto simp: slot48_def Let_def list_upd_nth)
  qed
  then have kids: "kids48 ?n = kins k c (kids48 n)"
    unfolding kids48_def table_kids_upd by (intro table_kids_cong)
  have "wf_node48 ?n"
    using n c room by (auto simp: inv48_def wf_node48_def slot_ok_def dest: set_update_subset_insert [THEN subsetD])
  moreover have "unat ((?ix[unat k := v]) ! j) \<le> 48" if "j < 256" for j
    using that len(1,4) ui i48 by (cases "j = unat k") auto
  moreover have "j = m" if "j < 256" "m < 256" "(?ix[unat k := v]) ! j = (?ix[unat k := v]) ! m"
      "(?ix[unat k := v]) ! j \<noteq> 0" for j m
  proof -
    have "unat ((?ix[unat k := v]) ! m) = unat ((?ix[unat k := v]) ! j)" using that by simp
    then show ?thesis
      using that unused [of j] unused [of m] ui len(1) kb n
      by (cases "j = unat k"; cases "m = unat k") (auto simp: inv48_def)
  qed
  moreover have "(?cs[i := c]) ! p \<noteq> 0 \<longleftrightarrow> (\<exists>j<256. unat ((?ix[unat k := v]) ! j) = Suc p)"
    if p: "p < 48" for p
  proof (cases "p = i")
    case True
    have "unat ((?ix[unat k := v]) ! unat k) = Suc p" using True ui len(1) kb by simp
    then show ?thesis using True c i48 len kb by (auto simp: slot_ok_def)
  next
    case False
    have "(\<exists>j<256. unat ((?ix[unat k := v]) ! j) = Suc p) \<longleftrightarrow> (\<exists>j<256. unat (?ix ! j) = Suc p)"
    proof (rule ex_cong1)
      fix j show "j < 256 \<and> unat ((?ix[unat k := v]) ! j) = Suc p \<longleftrightarrow> j < 256 \<and> unat (?ix ! j) = Suc p"
        using False ui k0 len(1) by (cases "j = unat k") auto
    qed
    then show ?thesis using False n p by (simp add: inv48_def)
  qed
  moreover have "n48_count n + 1 = card {p. p < 48 \<and> (?cs[i := c]) ! p \<noteq> 0}"
  proof -
    have "{p. p < 48 \<and> (?cs[i := c]) ! p \<noteq> 0} = insert i {p. p < 48 \<and> ?cs ! p \<noteq> 0}"
      using i48 c len(2) by (auto simp: list_upd_nth slot_ok_def)
    then show ?thesis using n i48 by (simp add: inv48_def)
  qed
  ultimately have "inv48 ?n" unfolding inv48_def by simp
  moreover have "node48_insert n k c = Inr ?n"
    using k0 i by (simp add: node48_insert_def scalar_scan_first v_def)
  ultimately show ?thesis using kids by blast
qed

interpretation node48_table: child_table inv48 kids48 node48_find node48_update node48_insert
  "\<lambda>n. n48_count n < 48"
  by unfold_locales (auto simp: node48_find_kids kids48_sorted intro: node48_insert_kids node48_update_kids)

section \<open>Node256\<close>

definition slot256 :: "node256 \<Rightarrow> nat \<Rightarrow> nat option" where
  "slot256 n i = (let c = n256_children n ! i in if c = 0 then None else Some c)"

definition kids256 :: "node256 \<Rightarrow> (u8 \<times> nat) list" where
  "kids256 n = table_kids (slot256 n)"

definition inv256 :: "node256 \<Rightarrow> bool" where
  "inv256 n \<longleftrightarrow> wf_node256 n"

lemma inv256_lengths:
  assumes "inv256 n"
  shows "length (n256_children n) = 256" "\<And>c. c \<in> set (n256_children n) \<Longrightarrow> c < 4294967296"
  using assms by (auto simp: inv256_def wf_node256_def)

lemma kids256_sorted: "keys_sorted (kids256 n)"
  by (simp add: kids256_def)

lemma slots256: "inv256 n \<Longrightarrow> slots_ok (kids256 n)"
proof -
  assume n: "inv256 n"
  have "slot_ok c" if "(k, c) \<in> set (kids256 n)" for k c
  proof -
    have "map_of (kids256 n) k = Some c"
      using that kids256_sorted by (intro map_of_is_SomeI keys_sorted_distinct)
    then have "c \<noteq> 0" "c = n256_children n ! unat k"
      by (auto simp: kids256_def slot256_def Let_def split: if_splits)
    moreover have "n256_children n ! unat k \<in> set (n256_children n)"
      using inv256_lengths(1) [OF n] u8_bound by simp
    ultimately show ?thesis using inv256_lengths(2) [OF n] by (simp add: slot_ok_def)
  qed
  then show ?thesis by (auto simp: slots_ok_def)
qed

lemma node256_find_kids: "node256_find n k = map_of (kids256 n) k"
  by (simp add: node256_find_def kids256_def slot256_def Let_def)

lemma slot256_upd:
  assumes "inv256 n"
  shows "c \<noteq> 0 \<Longrightarrow> kids256 (n\<lparr>n256_children := (n256_children n)[unat k := c]\<rparr>) = kins k c (kids256 n)"
    and "c \<noteq> 0 \<Longrightarrow> kids256 (n\<lparr>n256_children := (n256_children n)[unat k := c], n256_count := m\<rparr>) = kins k c (kids256 n)"
  unfolding kids256_def table_kids_upd using inv256_lengths(1) [OF assms] u8_bound [of k]
  by (auto intro!: table_kids_cong simp: slot256_def list_upd_nth)

lemma inv256_upd:
  assumes "inv256 n" and "slot_ok c"
  shows "inv256 (n\<lparr>n256_children := (n256_children n)[i := c]\<rparr>)"
    and "m < 256 \<Longrightarrow> inv256 (n\<lparr>n256_children := (n256_children n)[i := c], n256_count := m\<rparr>)"
  using assms by (auto simp: inv256_def wf_node256_def slot_ok_def dest: set_update_subset_insert [THEN subsetD])

lemma node256_insert_kids:
  assumes n: "inv256 n" and k: "map_of (kids256 n) k = None" and c: "slot_ok c"
  shows "\<exists>n'. node256_insert n k c = Inr n' \<and> inv256 n' \<and> kids256 n' = kins k c (kids256 n)"
proof -
  have "n256_children n ! unat k = 0" using k by (auto simp: kids256_def slot256_def Let_def split: if_splits)
  moreover have "sat_add 8 (n256_count n) 1 < 256" by (simp add: sat_add_def)
  ultimately show ?thesis
    using slot256_upd(2) [OF n] inv256_upd(2) [OF n c] c
    by (simp add: node256_insert_def slot_ok_def)
qed

interpretation node256_table: child_table inv256 kids256
  "\<lambda>n k. Inr (node256_find n k)" "\<lambda>n k c. Inr (node256_update n k c)" node256_insert "\<lambda>n. True"
  by unfold_locales
    (auto simp: kids256_sorted node256_find_kids node256_update_def slot256_upd inv256_upd slot_ok_def
      intro: node256_insert_kids)

section \<open>Growing keeps the table\<close>

lemma grow_4_16:
  assumes n: "inv4 n" and full: "\<not> n4_count n < 4"
  shows "\<exists>n'. node4_to_16 n = Inr n' \<and> inv16 n' \<and> kids16 n' = kids4 n \<and> n16_count n' < 16"
proof -
  note len = inv4_lengths [OF n]
  have c: "n4_count n = 4" using len full by simp
  let ?n = "node16_empty\<lparr>n16_count := 4, n16_keys := n4_keys n @ drop 4 (n16_keys node16_empty),
    n16_children := n4_children n @ drop 4 (n16_children node16_empty)\<rparr>"
  have run: "node4_to_16 n = Inr ?n" using len c by (simp add: node4_to_16_def)
  have kids: "kids16 ?n = kids4 n" using len c by (simp add: kids16_def kids4_def arr_kids_def)
  have "wf_node16 ?n" using n len
    by (auto simp: wf_node16_def node16_empty_def inv4_def wf_node4_def)
  then have "inv16 ?n" using len unfolding inv16_def kids by simp
  with run kids show ?thesis by (intro exI [of _ ?n]) simp
qed

lemma fold_index:
  fixes ks :: bytes
  assumes "c \<le> length ks" and "distinct (take c ks)"
  defines "r \<equiv> fold (\<lambda>i ix. ix[unat (ks ! i) := of_nat (i + 1)]) [0..<c] (replicate 256 0 :: bytes)"
  shows "length r = 256 \<and> (\<forall>i<c. r ! unat (ks ! i) = of_nat (i + 1))
    \<and> (\<forall>j<256. (\<forall>i<c. unat (ks ! i) \<noteq> j) \<longrightarrow> r ! j = 0)"
  using assms(1,2) unfolding r_def
proof (induction c)
  case (Suc c)
  let ?f = "\<lambda>i ix. ix[unat (ks ! i) := of_nat (i + 1)] :: bytes"
  let ?r = "fold ?f [0..<c] (replicate 256 0)"
  have d: "distinct (take c ks)" "\<And>i. i < c \<Longrightarrow> ks ! i \<noteq> ks ! c"
    using Suc.prems by (auto simp: take_Suc_conv_app_nth in_set_conv_nth)
  then have IH: "length ?r = 256" "\<forall>i<c. ?r ! unat (ks ! i) = of_nat (i + 1)"
    "\<forall>j<256. (\<forall>i<c. unat (ks ! i) \<noteq> j) \<longrightarrow> ?r ! j = 0"
    using Suc by auto
  have ne: "unat (ks ! c) \<noteq> unat (ks ! i)" if "i < c" for i using d(2) [OF that] by (simp add: word_unat_eq_iff)
  have step: "fold ?f [0..<Suc c] (replicate 256 0) = ?r[unat (ks ! c) := of_nat (c + 1)]" by simp
  have "(?r[unat (ks ! c) := of_nat (c + 1)]) ! unat (ks ! i) = of_nat (i + 1)" if "i < Suc c" for i
    using that IH(1,2) ne [of i] u8_bound [of "ks ! c"] by (cases "i = c") (auto simp: list_upd_nth simp del: of_nat_add)
  with IH show ?case
    unfolding step by (auto simp: less_Suc_eq list_upd_nth simp del: of_nat_add)
qed simp

lemma nth_pad: "length cs = n \<Longrightarrow> p < n + m \<Longrightarrow> (cs @ replicate m 0) ! p = (if p < n then cs ! p else 0)"
  by (auto simp: nth_append)

text \<open>The index of a node that is filled in key order: the key of child \<open>i\<close> has entry \<open>i + 1\<close>.\<close>

definition fresh_index :: "bytes \<Rightarrow> bytes" where
  "fresh_index ks = fold (\<lambda>i ix. ix[unat (ks ! i) := of_nat (i + 1)]) [0..<length ks] (replicate 256 0)"

lemma fresh_index_props:
  assumes "distinct ks" and "length ks \<le> 48"
  shows "length (fresh_index ks) = 256"
    and "i < length ks \<Longrightarrow> unat (fresh_index ks ! unat (ks ! i)) = Suc i"
    and "fresh_index ks ! j \<noteq> 0 \<Longrightarrow> j < 256 \<Longrightarrow> \<exists>i<length ks. j = unat (ks ! i)"
proof -
  have f: "length (fresh_index ks) = 256 \<and> (\<forall>i<length ks. fresh_index ks ! unat (ks ! i) = of_nat (i + 1))
      \<and> (\<forall>j<256. (\<forall>i<length ks. unat (ks ! i) \<noteq> j) \<longrightarrow> fresh_index ks ! j = 0)"
    unfolding fresh_index_def by (rule fold_index) (use assms in simp_all)
  then show "length (fresh_index ks) = 256" by blast
  show "unat (fresh_index ks ! unat (ks ! i)) = Suc i" if "i < length ks"
    using f that assms(2) unat_of_nat_u8_less [of "i + 1"] by (simp del: of_nat_add)
  show "\<exists>i<length ks. j = unat (ks ! i)" if "fresh_index ks ! j \<noteq> 0" and "j < 256"
    using f that by metis
qed

definition packed48 :: "(u8 \<times> nat) list \<Rightarrow> node48" where
  "packed48 xs = node48_empty\<lparr>n48_count := length xs,
     n48_children := map snd xs @ replicate (48 - length xs) 0, n48_index := fresh_index (map fst xs)\<rparr>"

lemma packed48_kids:
  assumes ks: "keys_sorted xs" and len: "length xs \<le> 48"
  shows "kids48 (packed48 xs) = xs"
proof (rule keys_sorted_ext [OF kids48_sorted ks], rule ext)
  fix k
  have dist: "distinct (map fst xs)" using ks by (rule keys_sorted_distinct)
  note r = fresh_index_props [OF dist, unfolded length_map, OF len]
  show "map_of (kids48 (packed48 xs)) k = map_of xs k"
  proof (cases "\<exists>i<length xs. fst (xs ! i) = k")
    case True
    then obtain i where i: "i < length xs" "fst (xs ! i) = k" by blast
    then have "(k, snd (xs ! i)) \<in> set xs" by (metis nth_mem prod.collapse)
    then have "map_of xs k = Some (snd (xs ! i))" using dist by (rule map_of_is_SomeI [rotated])
    moreover have "unat (fresh_index (map fst xs) ! unat k) = Suc i" using r(2) [of i] i by simp
    ultimately show ?thesis using i by (simp add: kids48_def slot48_def packed48_def nth_append)
  next
    case False
    then have none: "map_of xs k = None" by (force simp: map_of_eq_None_iff in_set_conv_nth)
    have "fresh_index (map fst xs) ! unat k = 0"
    proof (rule ccontr)
      assume "fresh_index (map fst xs) ! unat k \<noteq> 0"
      then obtain i where "i < length xs" "unat k = unat (map fst xs ! i)" using r(3) u8_bound by blast
      then have "fst (xs ! i) = k" by (simp add: word_unat_eq_iff)
      with \<open>i < length xs\<close> False show False by blast
    qed
    then show ?thesis using none by (simp add: kids48_def slot48_def packed48_def)
  qed
qed

lemma packed48_inv:
  assumes ks: "keys_sorted xs" and len: "length xs \<le> 48" and ok: "slots_ok xs"
  shows "inv48 (packed48 xs)"
  unfolding inv48_def
proof (intro conjI allI impI)
  let ?n = "packed48 xs" and ?r = "fresh_index (map fst xs)" and ?c = "length xs"
  have dist: "distinct (map fst xs)" using ks by (rule keys_sorted_distinct)
  note r = fresh_index_props [OF dist, unfolded length_map, OF len]
  have ur: "unat (?r ! unat (fst (xs ! i))) = Suc i" if "i < ?c" for i using r(2) [of i] that by simp
  have used: "\<exists>i<?c. j = unat (fst (xs ! i))" if "j < 256" "?r ! j \<noteq> 0" for j using r(3) [OF that(2,1)] by auto
  have sl: "slot_ok (snd (xs ! i))" if "i < ?c" for i using ok nth_mem [OF that] by (auto simp: slots_ok_def)
  have sel: "n48_index ?n = ?r" "n48_children ?n = map snd xs @ replicate (48 - ?c) 0" "n48_count ?n = ?c"
    by (simp_all add: packed48_def)
  show "wf_node48 ?n"
    using r(1) len ok by (auto simp: wf_node48_def packed48_def node48_empty_def slots_ok_def slot_ok_def)
  show "unat (n48_index ?n ! j) \<le> 48" if "j < 256" for j
  proof (cases "?r ! j = 0")
    case True
    then show ?thesis by (simp add: sel)
  next
    case False
    with \<open>j < 256\<close> obtain i where "i < ?c" "j = unat (fst (xs ! i))" using used by blast
    then show ?thesis using ur [of i] len by (simp add: sel)
  qed
  show "i = j" if h: "i < 256" "j < 256" "n48_index ?n ! i = n48_index ?n ! j" "n48_index ?n ! i \<noteq> 0" for i j
  proof -
    obtain a where a: "a < ?c" "i = unat (fst (xs ! a))" using used [OF h(1)] h(4) unfolding sel by blast
    obtain d where d: "d < ?c" "j = unat (fst (xs ! d))" using used [OF h(2)] h(3,4) unfolding sel by auto
    have "Suc a = unat (?r ! i)" unfolding a(2) by (rule ur [OF a(1), symmetric])
    also have "?r ! i = ?r ! j" using h(3) by (simp only: sel)
    also have "unat (?r ! j) = Suc d" unfolding d(2) by (rule ur [OF d(1)])
    finally show ?thesis using a(2) d(2) by simp
  qed
  have nz: "(map snd xs @ replicate (48 - ?c) 0) ! p \<noteq> 0 \<longleftrightarrow> p < ?c" if "p < 48" for p
    using nth_pad [of "map snd xs" ?c p "48 - ?c"] that sl [of p] len by (auto simp: slot_ok_def)
  show "n48_children ?n ! p \<noteq> 0 \<longleftrightarrow> (\<exists>i<256. unat (n48_index ?n ! i) = Suc p)" if p: "p < 48" for p
  proof -
    have "p < ?c" if i: "i < 256" "unat (?r ! i) = Suc p" for i
    proof -
      have "?r ! i \<noteq> 0" using i(2) by auto
      then obtain a where "a < ?c" "i = unat (fst (xs ! a))" using used i(1) by blast
      then show ?thesis using ur [of a] i(2) by simp
    qed
    moreover have "\<exists>i<256. unat (?r ! i) = Suc p" if "p < ?c" using ur [OF that] u8_bound by blast
    ultimately show ?thesis unfolding sel using nz [OF p] by blast
  qed
  have "p < 48 \<and> n48_children ?n ! p \<noteq> 0 \<longleftrightarrow> p < ?c" for p
    unfolding sel using nz [of p] less_le_trans [OF _ len, of p] by iprover
  then have used: "{p. p < 48 \<and> n48_children ?n ! p \<noteq> 0} = {..<?c}"
    by (simp only: lessThan_def)
  show "n48_count ?n = card {p. p < 48 \<and> n48_children ?n ! p \<noteq> 0}" unfolding used sel(3) by simp
qed

lemma grow_16_48:
  assumes n: "inv16 n" and full: "\<not> n16_count n < 16"
  shows "\<exists>n'. node16_to_48 n = Inr n' \<and> inv48 n' \<and> kids48 n' = kids16 n \<and> n48_count n' < 48"
proof -
  note len = inv16_lengths [OF n]
  have c: "n16_count n = 16" using len full by simp
  have kz: "map fst (kids16 n) = n16_keys n" "map snd (kids16 n) = n16_children n" "length (kids16 n) = 16"
    using len c by (simp_all add: kids16_def arr_kids_def)
  have "node16_to_48 n = Inr (packed48 (kids16 n))"
    using len c by (simp add: node16_to_48_def packed48_def kz fresh_index_def node48_empty_def)
  then show ?thesis
    using packed48_inv [OF len(4) _ len(5)] packed48_kids [OF len(4)] kz(3) by (simp add: packed48_def)
qed

lemma grow_48_256:
  assumes n: "inv48 n"
  shows "\<exists>n'. node48_to_256 n = Inr n' \<and> inv256 n' \<and> kids256 n' = kids48 n"
proof -
  note len = inv48_lengths [OF n]
  let ?f = "\<lambda>ix. if ix = 0 then 0 else n48_children n ! (unat ix - 1)"
  let ?n = "node256_empty\<lparr>n256_children := map ?f (n48_index n),
    n256_count := min (length (filter (\<lambda>ix. ix \<noteq> 0) (n48_index n))) 255\<rparr>"
  have run: "node48_to_256 n = Inr ?n"
    using len by (auto simp: node48_to_256_def in_set_conv_nth not_less)
  have "slot256 ?n i = slot48 n i" if i: "i < 256" for i
  proof (cases "n48_index n ! i = 0")
    case True
    then show ?thesis using i len by (simp add: slot256_def slot48_def)
  next
    case False
    then have ne: "unat (n48_index n ! i) \<noteq> 0" by (simp add: word_unat_eq_iff)
    then have "slot_ok (n48_children n ! (unat (n48_index n ! i) - 1))"
      by (intro slot48_ok [OF n i]) (simp add: slot48_def)
    with False ne show ?thesis using i len by (simp add: slot256_def slot48_def slot_ok_def)
  qed
  then have kids: "kids256 ?n = kids48 n" unfolding kids256_def kids48_def by (rule table_kids_cong)
  have "?f ix < 4294967296" if ix: "ix \<in> set (n48_index n)" for ix
  proof (cases "ix = 0")
    case False
    obtain i where "i < length (n48_index n)" "n48_index n ! i = ix"
      using ix by (meson in_set_conv_nth)
    then have "unat ix \<le> 48" using len(1) len(4) [of i] by simp
    moreover have "unat ix \<noteq> 0" using False by (simp add: word_unat_eq_iff)
    ultimately have "n48_children n ! (unat ix - 1) \<in> set (n48_children n)" using len(2) by simp
    then show ?thesis using False len(3) by simp
  qed simp
  then have "\<forall>c\<in>set (map ?f (n48_index n)). c < 4294967296" unfolding set_map by blast
  moreover have "min m 255 < (256 :: nat)" for m by simp
  ultimately have "inv256 ?n"
    unfolding inv256_def wf_node256_def node256_empty_def by (simp only: node256.simps length_map len(1)) simp
  with run kids show ?thesis by blast
qed

text \<open>Nodes filled with a sorted list of children.\<close>

definition packed4 :: "(u8 \<times> nat) list \<Rightarrow> node4" where
  "packed4 xs = node4_empty\<lparr>n4_count := length xs, n4_keys := map fst xs @ replicate (4 - length xs) 0,
     n4_children := map snd xs @ replicate (4 - length xs) 0\<rparr>"

definition packed16 :: "(u8 \<times> nat) list \<Rightarrow> node16" where
  "packed16 xs = node16_empty\<lparr>n16_count := length xs, n16_keys := map fst xs @ replicate (16 - length xs) 0,
     n16_children := map snd xs @ replicate (16 - length xs) 0\<rparr>"

definition fill256 :: "(u8 \<times> nat) list \<Rightarrow> nat list \<Rightarrow> nat list" where
  "fill256 xs = fold (\<lambda>(b, c) cs. cs[unat b := c]) xs"

definition packed256 :: "(u8 \<times> nat) list \<Rightarrow> node256" where
  "packed256 xs = node256_empty\<lparr>n256_count := as_u8 (length xs),
     n256_children := fill256 xs (replicate 256 0)\<rparr>"

lemma packed4_inv:
  assumes "keys_sorted xs" and "slots_ok xs" and "length xs \<le> 4"
  shows "kids4 (packed4 xs) = xs" and "inv4 (packed4 xs)"
proof -
  show k: "kids4 (packed4 xs) = xs" by (simp add: kids4_def arr_kids_def packed4_def zip_map_fst_snd)
  show "inv4 (packed4 xs)"
    unfolding inv4_def k using assms by (auto simp: packed4_def wf_node4_def node4_empty_def slots_ok_def slot_ok_def)
qed

lemma packed16_inv:
  assumes "keys_sorted xs" and "slots_ok xs" and "length xs \<le> 16"
  shows "kids16 (packed16 xs) = xs" and "inv16 (packed16 xs)"
proof -
  show k: "kids16 (packed16 xs) = xs" by (simp add: kids16_def arr_kids_def packed16_def zip_map_fst_snd)
  show "inv16 (packed16 xs)"
    unfolding inv16_def k using assms by (auto simp: packed16_def wf_node16_def node16_empty_def slots_ok_def slot_ok_def)
qed

lemma fill256_simps [simp]:
  "fill256 [] cs = cs" "fill256 ((b, c) # xs) cs = fill256 xs (cs[unat b := c])"
  by (simp_all add: fill256_def)

lemma length_fill256 [simp]: "length (fill256 xs cs) = length cs"
  by (induction xs arbitrary: cs) auto

lemma set_fill256: "set (fill256 xs cs) \<subseteq> set cs \<union> snd ` set xs"
proof (induction xs arbitrary: cs)
  case (Cons x xs)
  obtain b c where x: "x = (b, c)" by force
  have "set (fill256 xs (cs[unat b := c])) \<subseteq> set (cs[unat b := c]) \<union> snd ` set xs" by (rule Cons)
  then show ?case using set_update_subset_insert [of cs "unat b" c] by (auto simp: x)
qed simp

lemma fill256_nth:
  "distinct (map fst xs) \<Longrightarrow> length cs = 256 \<Longrightarrow>
    fill256 xs cs ! unat k = (case map_of xs k of None \<Rightarrow> cs ! unat k | Some c \<Rightarrow> c)"
proof (induction xs arbitrary: cs)
  case (Cons x xs)
  obtain b c where x: "x = (b, c)" by force
  have "map_of xs b = None" using Cons.prems x by (auto simp: map_of_eq_None_iff)
  moreover have "fill256 xs (cs[unat b := c]) ! unat k
      = (case map_of xs k of None \<Rightarrow> cs[unat b := c] ! unat k | Some c \<Rightarrow> c)"
    using Cons by (simp add: x)
  ultimately show ?case
    using Cons.prems(2) u8_bound [of b] by (cases "k = b") (simp_all add: x list_upd_nth word_unat_eq_iff split: option.split)
qed simp

lemma packed256_inv:
  assumes "keys_sorted xs" and "slots_ok xs"
  shows "kids256 (packed256 xs) = xs" and "inv256 (packed256 xs)"
proof -
  have d: "distinct (map fst xs)" using assms(1) by (rule keys_sorted_distinct)
  note c = fill256_nth [OF d, of "replicate 256 0"]
  show "kids256 (packed256 xs) = xs"
  proof (rule keys_sorted_ext [OF kids256_sorted assms(1)], rule ext)
    fix k
    have "map_of xs k \<noteq> Some 0"
    proof
      assume "map_of xs k = Some 0"
      then have "(k, 0) \<in> set xs" by (rule map_of_SomeD)
      then show False using assms(2) by (auto simp: slots_ok_def slot_ok_def)
    qed
    then show "map_of (kids256 (packed256 xs)) k = map_of xs k"
      using c [of k] u8_bound [of k]
      by (auto simp: kids256_def slot256_def packed256_def split: option.splits)
  qed
  have "c < 4294967296" if "c \<in> set (fill256 xs (replicate 256 0))" for c
  proof -
    have "c = 0 \<or> c \<in> snd ` set xs" using set_fill256 [of xs "replicate 256 0"] that by auto
    then show ?thesis using assms(2) by (auto simp: slots_ok_def slot_ok_def)
  qed
  moreover have "as_u8 (length xs) < 256" by (simp add: as_u8_def)
  ultimately show "inv256 (packed256 xs)"
    by (auto simp: inv256_def wf_node256_def packed256_def node256_empty_def)
qed

end
