(* ===== verification/Art.thy ===== *)
theory Art
  imports Child_Table Layout Nodes
begin

text \<open>
  The abstract radix tree a blob frame stores, and what looking up a key in it means.
  A key is searched from a depth: the bytes before the depth have been consumed by the
  path from the root (possibly in parent blobs).  A lookup ends with a live record, with
  nothing, or at a crossing into another blob.
\<close>

section \<open>Trees and lookup\<close>

datatype lookup_result = Found bytes nat | NotFoundR | Crossing blob_guid nat

datatype art =
    AEmpty
  | ALeaf bytes bytes nat bool
  | APrefix bytes art
  | AInner node_type "(u8 \<times> art) list"
  | ABlob bytes blob_guid

text \<open>\<open>ALeaf k v s dead\<close> is a leaf with key \<open>k\<close>, value \<open>v\<close> and sequence \<open>s\<close>; \<open>dead\<close> is its tombstone.\<close>

definition range_at :: "bytes \<Rightarrow> nat \<Rightarrow> bytes \<Rightarrow> bool" where
  "range_at k d p \<longleftrightarrow> d \<le> length k \<and> take (length p) (drop d k) = p"

primrec alook :: "art \<Rightarrow> bytes \<Rightarrow> nat \<Rightarrow> lookup_result" where
  "alook AEmpty = (\<lambda>k d. NotFoundR)"
| "alook (ALeaf k' v s dead) = (\<lambda>k d. if \<not> dead \<and> k' = k then Found v s else NotFoundR)"
| "alook (APrefix p t) = (\<lambda>k d. if range_at k d p then alook t k (d + length p) else NotFoundR)"
| "alook (AInner nt ts) = (\<lambda>k d.
     if d < length k
     then case map_of (map (map_prod id alook) ts) (k ! d) of None \<Rightarrow> NotFoundR | Some f \<Rightarrow> f k (d + 1)
     else NotFoundR)"
| "alook (ABlob p g) = (\<lambda>k d. if range_at k d p then Crossing g (d + length p) else NotFoundR)"

lemma map_of_map_prod: "map_of (map (map_prod id f) xs) k = map_option f (map_of xs k)"
  by (induction xs) auto

lemma alook_AInner:
  "alook (AInner nt ts) k d =
     (if d < length k then case map_of ts (k ! d) of None \<Rightarrow> NotFoundR | Some t \<Rightarrow> alook t k (d + 1) else NotFoundR)"
  by (simp add: map_of_map_prod split: option.splits)

declare alook.simps(4) [simp del]

primrec height :: "art \<Rightarrow> nat" where
  "height AEmpty = 0"
| "height (ALeaf k v s dead) = 0"
| "height (APrefix p t) = Suc (height t)"
| "height (AInner nt ts) = Suc (foldr (max \<circ> snd) (map (map_prod id height) ts) 0)"
| "height (ABlob p g) = 0"

lemma foldr_max_ge: "(k, x) \<in> set xs \<Longrightarrow> x \<le> foldr (max \<circ> snd) xs (0 :: nat)"
  by (induction xs) auto

lemma height_child: "map_of ts b = Some t \<Longrightarrow> height t < height (AInner nt ts)"
  using foldr_max_ge [of b "height t" "map (map_prod id height) ts"]
  by (force dest: map_of_SomeD simp: less_Suc_eq_le)

section \<open>Well-formed trees\<close>

text \<open>
  \<open>wf_art path t\<close>: every key below \<open>t\<close> extends \<open>path\<close>, prefixes fit their nodes, and inner
  nodes have sorted children.
\<close>

primrec wf_art :: "art \<Rightarrow> bytes \<Rightarrow> bool" where
  "wf_art AEmpty = (\<lambda>path. True)"
| "wf_art (ALeaf k v s dead) = (\<lambda>path. take (length path) k = path \<and> length k < 65536
     \<and> length v < 65536 \<and> s < 2 ^ 64)"
| "wf_art (APrefix p t) = (\<lambda>path. p \<noteq> [] \<and> length p \<le> PREFIX_MAX_INLINE \<and> wf_art t (path @ p))"
| "wf_art (AInner nt ts) = (\<lambda>path. keys_sorted ts
     \<and> (\<forall>(b, f) \<in> set (map (map_prod id wf_art) ts). f (path @ [b])))"
| "wf_art (ABlob p g) = (\<lambda>path. length p \<le> BLOB_MAX_INLINE \<and> length g = 16)"

lemma wf_art_AInner:
  "wf_art (AInner nt ts) path \<longleftrightarrow> keys_sorted ts \<and> (\<forall>(b, t) \<in> set ts. wf_art t (path @ [b]))"
  by (auto simp: image_iff)

declare wf_art.simps(4) [simp del]

lemma wf_art_child: "wf_art (AInner nt ts) path \<Longrightarrow> map_of ts b = Some t \<Longrightarrow> wf_art t (path @ [b])"
  by (auto simp: wf_art_AInner dest: map_of_SomeD)

text \<open>
  \<open>zero_free t\<close>: the terminator byte occurs on a path only as the last byte of a key, as it
  does when every key is a zero-free user key followed by the terminator.  Below a zero byte
  there is a leaf, or a crossing without a prefix.  A prefix may end with the terminator:
  compaction makes such prefixes.
\<close>

definition user_key :: "bytes \<Rightarrow> bool" where
  "user_key k \<longleftrightarrow> (\<exists>u. 0 \<notin> set u \<and> k = u @ [0])"

fun end_node :: "art \<Rightarrow> bool" where
  "end_node (ALeaf k v s dead) = True"
| "end_node (ABlob p g) = (p = [])"
| "end_node AEmpty = True"
| "end_node _ = False"

definition ends_path :: "bytes \<Rightarrow> art \<Rightarrow> bool" where
  "ends_path p t \<longleftrightarrow> 0 \<notin> set (butlast p) \<and> (0 \<in> set p \<longrightarrow> end_node t)"

primrec zero_free :: "art \<Rightarrow> bool" where
  "zero_free AEmpty = True"
| "zero_free (ALeaf k v s dead) = user_key k"
| "zero_free (APrefix p t) = (ends_path p t \<and> zero_free t)"
| "zero_free (AInner nt ts) =
     ((\<forall>(b, t) \<in> set ts. b = 0 \<longrightarrow> end_node t) \<and> (\<forall>(b, z) \<in> set (map (map_prod id zero_free) ts). z))"
| "zero_free (ABlob p g) = (0 \<notin> set p)"

lemma zero_free_AInner:
  "zero_free (AInner nt ts) \<longleftrightarrow> (\<forall>(b, t) \<in> set ts. (b = 0 \<longrightarrow> end_node t) \<and> zero_free t)"
  by (auto simp: image_iff)

declare zero_free.simps(4) [simp del]

lemma zero_free_child: "zero_free (AInner nt ts) \<Longrightarrow> map_of ts b = Some t \<Longrightarrow> zero_free t"
  by (auto simp: zero_free_AInner dest: map_of_SomeD)

lemma ends_path_append:
  "q \<noteq> [] \<Longrightarrow> ends_path (p @ q) t \<longleftrightarrow> 0 \<notin> set p \<and> ends_path q t"
  by (auto simp: ends_path_def butlast_append)

lemma ends_path_Nil [simp]: "ends_path [] t"
  by (simp add: ends_path_def)

lemma ends_path_one [simp]: "ends_path [b] t \<longleftrightarrow> (b = 0 \<longrightarrow> end_node t)"
  by (auto simp: ends_path_def)

lemma ends_path_zero_free: "0 \<notin> set p \<Longrightarrow> ends_path p t"
  by (auto simp: ends_path_def dest: in_set_butlastD)

text \<open>
  \<open>wf_art\<close> makes lookups local: a key found below \<open>t\<close> extends its path.
\<close>

definition on_path :: "bytes \<Rightarrow> bytes \<Rightarrow> bool" where
  "on_path path k \<longleftrightarrow> take (length path) k = path"

lemma on_path_length: "on_path path k \<Longrightarrow> length path \<le> length k"
  unfolding on_path_def by (metis length_take min.cobounded1)

lemma on_path_append:
  "on_path (path @ p) k \<longleftrightarrow> on_path path k \<and> range_at k (length path) p"
proof
  assume "on_path (path @ p) k"
  then show "on_path path k \<and> range_at k (length path) p"
    using on_path_length [of "path @ p" k] by (auto simp: on_path_def range_at_def take_add)
next
  assume "on_path path k \<and> range_at k (length path) p"
  then show "on_path (path @ p) k" by (auto simp: on_path_def range_at_def take_add)
qed

lemma on_path_snoc:
  "on_path (path @ [b]) k \<longleftrightarrow> on_path path k \<and> length path < length k \<and> k ! length path = b"
proof -
  have "range_at k (length path) [b] \<longleftrightarrow> length path < length k \<and> k ! length path = b"
    unfolding range_at_def
    by (cases "length path < length k") (auto simp: take_Suc_conv_app_nth hd_drop_conv_nth take_Suc)
  then show ?thesis by (simp add: on_path_append)
qed

lemma on_path_Nil [simp]: "on_path [] k"
  by (simp add: on_path_def)

lemma on_path_self [simp]: "on_path k k"
  by (simp add: on_path_def)

end
