(* ===== verification/Art_Heap.thy ===== *)
theory Art_Heap
  imports Inner_Nodes Art
begin

text \<open>
  How a radix tree lies in a blob frame.  \<open>holds b fl F\<close> says that the addresses \<open>F\<close> belong
  to the client and not to the allocator; \<open>eff b fl F b' fl' F'\<close> that a piece of code went
  from a state where the client holds \<open>F\<close> to one where it holds \<open>F'\<close>, touching only these
  addresses and the allocator's.  The allocator's operations are restated as such effects.
\<close>

section \<open>Effects of frame operations\<close>

definition holds :: "buf \<Rightarrow> (node_type \<Rightarrow> nat list) \<Rightarrow> nat set \<Rightarrow> bool" where
  "holds b fl F \<longleftrightarrow> alloc_inv b fl \<and> F \<inter> owned b fl = {}"

definition eff :: "buf \<Rightarrow> (node_type \<Rightarrow> nat list) \<Rightarrow> nat set \<Rightarrow> buf \<Rightarrow> (node_type \<Rightarrow> nat list) \<Rightarrow> nat set \<Rightarrow> bool" where
  "eff b fl F b' fl' F' \<longleftrightarrow> holds b' fl' F' \<and> F' \<union> owned b' fl' \<subseteq> F \<union> owned b fl
     \<and> (\<forall>a. a \<notin> F \<union> owned b fl \<longrightarrow> b' a = b a)
     \<and> num_slots b \<le> num_slots b' \<and> root_slot b' = root_slot b
     \<and> compact_times b' = compact_times b \<and> header_guid b' = header_guid b"

lemma eff_holds: "eff b fl F b' fl' F' \<Longrightarrow> holds b' fl' F'"
  by (simp add: eff_def)

lemma eff_frame: "eff b fl F b' fl' F' \<Longrightarrow> a \<notin> F \<Longrightarrow> a \<notin> owned b fl \<Longrightarrow> b' a = b a"
  by (simp add: eff_def)

lemma eff_num_slots: "eff b fl F b' fl' F' \<Longrightarrow> num_slots b \<le> num_slots b'"
  by (simp add: eff_def)

lemma eff_root: "eff b fl F b' fl' F' \<Longrightarrow> root_slot b' = root_slot b"
  by (simp add: eff_def)

lemma eff_refl: "holds b fl F \<Longrightarrow> eff b fl F b fl F"
  by (simp add: eff_def)

lemma eff_trans:
  assumes 1: "eff b fl F b1 fl1 F1" and 2: "eff b1 fl1 F1 b2 fl2 F2"
  shows "eff b fl F b2 fl2 F2"
proof -
  have "F2 \<union> owned b2 fl2 \<subseteq> F \<union> owned b fl" using 1 2 by (meson eff_def order_trans)
  moreover have "b2 a = b a" if "a \<notin> F \<union> owned b fl" for a
  proof -
    have "a \<notin> F1 \<union> owned b1 fl1" using 1 that by (auto simp: eff_def)
    then show ?thesis using 1 2 that by (simp add: eff_def)
  qed
  ultimately show ?thesis using 1 2 by (simp add: eff_def)
qed

lemma eff_drop:
  assumes "eff b fl F b' fl' F'" and "G \<subseteq> F'"
  shows "eff b fl F b' fl' G"
  using assms unfolding eff_def holds_def by blast

lemma eff_add:
  assumes e: "eff b fl F b' fl' F'" and G: "G \<inter> F = {}" "G \<inter> owned b fl = {}"
  shows "eff b fl (F \<union> G) b' fl' (F' \<union> G)"
proof -
  have "owned b' fl' \<subseteq> F \<union> owned b fl" using e by (simp add: eff_def)
  then have "G \<inter> owned b' fl' = {}" using G by blast
  with e show ?thesis unfolding eff_def holds_def by blast
qed

lemma eff_sep:
  assumes "eff b fl F b' fl' F'" and "G \<inter> F = {}" "G \<inter> owned b fl = {}"
  shows "G \<inter> F' = {}" and "G \<inter> owned b' fl' = {}" and "\<And>a. a \<in> G \<Longrightarrow> b' a = b a"
  using assms unfolding eff_def by blast+

lemma holds_sub: "holds b fl F \<Longrightarrow> G \<subseteq> F \<Longrightarrow> holds b fl G"
  unfolding holds_def by blast

text \<open>Bytes outside the allocator's memory do not matter to it.\<close>

lemma alloc_inv_local:
  assumes inv: "alloc_inv b fl" and eq: "\<And>a. a \<in> owned b fl \<Longrightarrow> b' a = b a"
  shows "alloc_inv b' fl" and "owned b' fl = owned b fl" and "num_slots b' = num_slots b"
    and "root_slot b' = root_slot b" and "header_guid b' = header_guid b"
    and "compact_times b' = compact_times b" and "tombstone_leaf_cnt b' = tombstone_leaf_cnt b"
proof -
  have h: "b' a = b a" if "a < HEADER_SIZE" for a
    using that by (intro eq) (simp add: owned_def fixed_owned_def)
  note hc = header_cong [of b' b, OF h]
  show "num_slots b' = num_slots b" "root_slot b' = root_slot b" "header_guid b' = header_guid b"
    "tombstone_leaf_cnt b' = tombstone_leaf_cnt b"
    by (simp_all add: hc)
  show "compact_times b' = compact_times b"
    unfolding compact_times_def get_u32_def by (rule arg_cong [where f = le_nat], rule rd_cong) (simp add: h HEADER_SIZE_def)
  have mem: "entry b' t = entry b t" if "t \<in> set (fl u)" for t u
  proof (rule entry_cong)
    fix a assume "a \<in> region (entry_addr t) 4"
    then have "a \<in> free_foot b u t" by (simp add: nfoot_def)
    then show "b' a = b a" using that by (intro eq) (auto simp: owned_def)
  qed
  have ch: "chain b t (free_list_head b' (ntype_idx t)) (fl t)" if "t \<noteq> Invalid" for t
    using inv that hc(7) by (simp add: alloc_inv_def)
  have dist: "distinct (fl u)" for u using inv by (simp add: alloc_inv_def)
  show "alloc_inv b' fl"
    using alloc_inv_mono(1) [OF inv subset_refl dist mem ch] inv hc by (simp add: alloc_inv_def)
  have "(\<Union>u. \<Union>t\<in>set (fl u). free_foot b' u t) = (\<Union>u. \<Union>t\<in>set (fl u). free_foot b u t)"
    by (intro SUP_cong refl) (simp add: mem)
  then show "owned b' fl = owned b fl" by (simp add: owned_def fixed_owned_def hc)
qed

lemma eff_local:
  assumes h: "holds b fl F" and eq: "\<And>a. a \<notin> F \<Longrightarrow> b' a = b a"
  shows "eff b fl F b' fl F"
proof -
  have o: "b' a = b a" if "a \<in> owned b fl" for a
    using that h by (intro eq) (auto simp: holds_def)
  have "alloc_inv b fl" using h by (simp add: holds_def)
  note l = alloc_inv_local [of b fl b', OF this o]
  show ?thesis using h eq by (simp add: eff_def holds_def l)
qed

lemma eff_wr:
  assumes "holds b fl F" and "region off (length bs) \<subseteq> F"
  shows "eff b fl F (wr b off bs) fl F"
  using assms by (intro eff_local) (auto intro: wr_other)

lemma eff_aux:
  assumes "holds b fl F" and "aux_update b b'" and "root_slot b' = root_slot b"
    and "compact_times b' = compact_times b" and "header_guid b' = header_guid b"
  shows "eff b fl F b' fl F"
proof -
  have "b' a = b a" if "a \<notin> owned b fl" for a
    using assms(2) that by (simp add: aux_update_def owned_def fixed_owned_def)
  then show ?thesis
    using assms aux_update_inv [OF assms(2)] by (simp add: eff_def holds_def) (simp add: aux_update_def)
qed

lemma eff_handover:
  assumes "holds b fl F" and "handover b fl b' fl' N"
  shows "eff b fl F b' fl' (F \<union> N)" and "N \<inter> F = {}"
proof -
  show "N \<inter> F = {}" using assms by (auto simp: handover_def holds_def)
  show "eff b fl F b' fl' (F \<union> N)" using assms unfolding eff_def holds_def handover_def by blast
qed

lemma eff_reclaim:
  assumes "holds b fl F" and "N \<subseteq> F" and "reclaim b fl b' fl' N"
  shows "eff b fl F b' fl' (F - N)"
  using assms unfolding eff_def holds_def reclaim_def by auto

text \<open>The allocator operations as effects.\<close>

lemma alloc_node_eff:
  assumes "holds b fl F" and "nt \<noteq> Invalid"
  obtains (fail) e where "alloc_node nt b = (Inl (Alloc e), b)"
    | (ok) s off b' fl' where "alloc_node nt b = (Inr s, b')" and "node_at b' s nt off"
        and "eff b fl F b' fl' (F \<union> nfoot s nt off)" and "nfoot s nt off \<inter> F = {}"
proof -
  have "alloc_inv b fl" using assms by (simp add: holds_def)
  then show thesis using assms(2)
  proof (rule alloc_node_spec)
    fix e assume "alloc_node nt b = (Inl (Alloc e), b)"
    then show thesis by (rule fail)
  next
    fix s off b' fl' assume "alloc_node nt b = (Inr s, b')" "node_at b' s nt off"
      "handover b fl b' fl' (nfoot s nt off)"
    then show thesis using eff_handover [OF assms(1)] by (intro ok)
  qed
qed

lemma alloc_extent_eff:
  assumes "holds b fl F" and "0 < n" and "n < 2 ^ 31"
  obtains (fail) e where "alloc_extent n b = (Inl (Alloc e), b)"
    | (ok) off b' where "alloc_extent n b = (Inr off, b')" and "off + align8 n \<le> PAGE_SIZE"
        and "DATA_AREA_START \<le> off"
        and "eff b fl F b' fl (F \<union> region off (align8 n))" and "region off (align8 n) \<inter> F = {}"
proof -
  have "alloc_inv b fl" using assms by (simp add: holds_def)
  then show thesis using assms(2,3)
  proof (rule alloc_extent_spec)
    fix e assume "alloc_extent n b = (Inl (Alloc e), b)"
    then show thesis by (rule fail)
  next
    fix off b' assume "alloc_extent n b = (Inr off, b')" "DATA_AREA_START \<le> off"
      "off + align8 n \<le> PAGE_SIZE" "handover b fl b' fl (region off (align8 n))"
    then show thesis using eff_handover [OF assms(1)] by (intro ok)
  qed
qed

lemma free_node_eff:
  assumes "holds b fl F" and "node_at b s nt off" and "nfoot s nt off \<subseteq> F"
  obtains b' fl' where "free_node s b = (Inr (), b')" and "eff b fl F b' fl' (F - nfoot s nt off)"
proof -
  have "nfoot s nt off \<inter> owned b fl = {}" "alloc_inv b fl" using assms by (auto simp: holds_def)
  then obtain b' where "free_node s b = (Inr (), b')" "reclaim b fl b' (fl(nt := s # fl nt)) (nfoot s nt off)"
    using free_node_spec [OF _ assms(2)] by blast
  then show thesis using eff_reclaim [OF assms(1,3)] that by blast
qed

end
