(* ===== verification/Tree_Heap.thy ===== *)
theory Tree_Heap
  imports Art_Heap
begin

text \<open>
  The abstract tree of \<^verbatim>\<open>Art\<close> laid out in a blob frame: \<^verbatim>\<open>tree b s t F\<close> says that
  slot s of frame b is the root of the tree t, every node and leaf extent of it lying in the
  footprint F, all of them disjoint.  The frame rule and the behaviour of the writers that build
  and update nodes follow.
\<close>

section \<open>Nodes in memory\<close>

definition inode :: "buf \<Rightarrow> nat \<Rightarrow> node_type \<Rightarrow> (u8 \<times> nat) list \<Rightarrow> bool" where
  "inode b off nt ks =
     (case nt of
        Node4T \<Rightarrow> (let n = dec_node4 (rd b off 24) in inv4 n \<and> kids4 n = ks)
      | Node16T \<Rightarrow> (let n = dec_node16 (rd b off 88) in inv16 n \<and> kids16 n = ks)
      | Node48T \<Rightarrow> (let n = dec_node48 (rd b off 456) in inv48 n \<and> kids48 n = ks)
      | Node256T \<Rightarrow> (let n = dec_node256 (rd b off 1032) in inv256 n \<and> kids256 n = ks)
      | _ \<Rightarrow> False)"

text \<open>The extent of a leaf: key length, key bytes, value bytes.\<close>

definition leaf_at :: "buf \<Rightarrow> leaf \<Rightarrow> bytes \<Rightarrow> bytes \<Rightarrow> bool" where
  "leaf_at b l k v \<longleftrightarrow> rd b (key_offset l) (2 + length k + length v) = nat_le 2 (length k) @ k @ v
     \<and> value_size l = length v \<and> length k < 65536 \<and> length v < 65536
     \<and> DATA_AREA_START \<le> key_offset l
     \<and> key_offset l + leaf_extent_size (length k) (length v) \<le> PAGE_SIZE"

definition leaf_ext :: "leaf \<Rightarrow> bytes \<Rightarrow> bytes \<Rightarrow> nat set" where
  "leaf_ext l k v = region (key_offset l) (leaf_extent_size (length k) (length v))"

inductive tree :: "buf \<Rightarrow> nat \<Rightarrow> art \<Rightarrow> nat set \<Rightarrow> bool"
  and forest :: "buf \<Rightarrow> (u8 \<times> nat) list \<Rightarrow> (u8 \<times> art) list \<Rightarrow> nat set \<Rightarrow> bool"
  for b :: buf
  where
    tree_empty: "node_at b s EmptyRoot off \<Longrightarrow> tree b s AEmpty (nfoot s EmptyRoot off)"
  | tree_leaf: "node_at b s LeafT off \<Longrightarrow> l = dec_leaf (rd b off 16) \<Longrightarrow> leaf_at b l k v
      \<Longrightarrow> nfoot s LeafT off \<inter> leaf_ext l k v = {}
      \<Longrightarrow> tree b s (ALeaf k v (leaf_seq l) (tombstone l \<noteq> 0)) (nfoot s LeafT off \<union> leaf_ext l k v)"
  | tree_prefix: "node_at b s PrefixT off \<Longrightarrow> p = dec_prefix (rd b off 128)
      \<Longrightarrow> prefix_len p \<le> PREFIX_MAX_INLINE \<Longrightarrow> tree b (pfx_child p) t F
      \<Longrightarrow> nfoot s PrefixT off \<inter> F = {}
      \<Longrightarrow> tree b s (APrefix (take (prefix_len p) (pfx_bytes p)) t) (nfoot s PrefixT off \<union> F)"
  | tree_inner: "node_at b s nt off \<Longrightarrow> inode b off nt ks \<Longrightarrow> forest b ks ts F
      \<Longrightarrow> nfoot s nt off \<inter> F = {} \<Longrightarrow> tree b s (AInner nt ts) (nfoot s nt off \<union> F)"
  | tree_blob: "node_at b s BlobT off \<Longrightarrow> n = dec_blob_node (rd b off 128)
      \<Longrightarrow> bn_prefix_len n \<le> BLOB_MAX_INLINE
      \<Longrightarrow> tree b s (ABlob (take (bn_prefix_len n) (bn_bytes n)) (child_blob_guid n)) (nfoot s BlobT off)"
  | forest_Nil: "forest b [] [] {}"
  | forest_Cons: "tree b c t F1 \<Longrightarrow> forest b ks ts F2 \<Longrightarrow> F1 \<inter> F2 = {}
      \<Longrightarrow> forest b ((k, c) # ks) ((k, t) # ts) (F1 \<union> F2)"

inductive_cases tree_AEmptyE: "tree b s AEmpty F"
inductive_cases tree_ALeafE: "tree b s (ALeaf k v sq dead) F"
inductive_cases tree_APrefixE: "tree b s (APrefix p t) F"
inductive_cases tree_AInnerE: "tree b s (AInner nt ts) F"
inductive_cases tree_ABlobE: "tree b s (ABlob p g) F"
inductive_cases forest_NilE: "forest b [] ts F"
inductive_cases forest_ConsE: "forest b ((k, c) # ks) ts F"

lemma inode_nt: "inode b off nt ks \<Longrightarrow> nt \<in> {Node4T, Node16T, Node48T, Node256T}"
  by (auto simp: inode_def split: node_type.splits)

lemma inode_table:
  assumes "inode b off nt ks"
  shows "keys_sorted ks" and "slots_ok ks"
  using assms
  by (auto simp: inode_def Let_def inv4_def inv16_def kids48_sorted slots48 kids256_sorted slots256
      split: node_type.splits)

lemma inode_cong:
  assumes "inode b off nt ks" and "\<And>a. a \<in> region off (node_bytes nt) \<Longrightarrow> b' a = b a"
  shows "inode b' off nt ks"
proof -
  have "rd b' off (node_bytes nt) = rd b off (node_bytes nt)" by (rule rd_cong) (rule assms(2))
  then show ?thesis using assms(1) by (cases nt) (simp_all add: inode_def)
qed

lemma leaf_extent_covers: "length k < 65536 \<Longrightarrow> length v < 65536 \<Longrightarrow>
    2 + length k + length v \<le> leaf_extent_size (length k) (length v)"
  by (rule leaf_extent_size_bounds) simp_all

lemma leaf_at_cong:
  assumes "leaf_at b l k v" and "\<And>a. a \<in> leaf_ext l k v \<Longrightarrow> b' a = b a"
  shows "leaf_at b' l k v"
proof -
  have "2 + length k + length v \<le> leaf_extent_size (length k) (length v)"
    using assms(1) by (intro leaf_extent_covers) (simp_all add: leaf_at_def)
  then have "rd b' (key_offset l) (2 + length k + length v) = rd b (key_offset l) (2 + length k + length v)"
    by (intro rd_cong assms(2)) (simp add: leaf_ext_def)
  with assms(1) show ?thesis by (simp add: leaf_at_def)
qed

lemma tree_frame:
  shows "tree b s t F \<Longrightarrow> \<forall>a \<in> F. b' a = b a \<Longrightarrow> num_slots b \<le> num_slots b' \<Longrightarrow> tree b' s t F"
    and "forest b ks ts F \<Longrightarrow> \<forall>a \<in> F. b' a = b a \<Longrightarrow> num_slots b \<le> num_slots b' \<Longrightarrow> forest b' ks ts F"
proof (induction rule: tree_forest.inducts)
  case (tree_empty s off)
  have "node_at b' s EmptyRoot off" by (rule node_at_cong [OF tree_empty(1)]) (use tree_empty in auto)
  then show ?case by (rule tree_forest.tree_empty)
next
  case (tree_leaf s off l k v)
  have "rd b' off 16 = rd b off 16"
    by (rule rd_cong) (simp add: tree_leaf.prems(1) nfoot_def)
  then have 1: "l = dec_leaf (rd b' off 16)" by (simp add: tree_leaf(2))
  have 2: "leaf_at b' l k v" by (rule leaf_at_cong [OF tree_leaf(3)]) (use tree_leaf(5) in blast)
  have 3: "node_at b' s LeafT off" by (rule node_at_cong [OF tree_leaf(1)]) (use tree_leaf(5,6) in auto)
  show ?case by (rule tree_forest.tree_leaf [OF 3 1 2 tree_leaf(4)])
next
  case (tree_prefix s off p t F)
  have "rd b' off 128 = rd b off 128"
    by (rule rd_cong) (simp add: tree_prefix.prems(1) nfoot_def)
  then have 1: "p = dec_prefix (rd b' off 128)" by (simp add: tree_prefix(2))
  have 2: "node_at b' s PrefixT off" by (rule node_at_cong [OF tree_prefix(1)]) (use tree_prefix.prems in auto)
  have 3: "tree b' (pfx_child p) t F" using tree_prefix.prems by (intro tree_prefix.IH) auto
  show ?case by (rule tree_forest.tree_prefix [OF 2 1 _ 3]) (use tree_prefix in blast)+
next
  case (tree_inner s nt off ks ts F)
  have 1: "inode b' off nt ks"
    by (rule inode_cong [OF tree_inner(2)]) (use tree_inner.prems(1) in \<open>auto simp: nfoot_def\<close>)
  have 2: "node_at b' s nt off" by (rule node_at_cong [OF tree_inner(1)]) (use tree_inner.prems in auto)
  have 3: "forest b' ks ts F" using tree_inner.prems by (intro tree_inner.IH) auto
  show ?case by (rule tree_forest.tree_inner [OF 2 1 3]) (use tree_inner in blast)
next
  case (tree_blob s off n)
  have "rd b' off 128 = rd b off 128"
    by (rule rd_cong) (simp add: tree_blob.prems(1) nfoot_def)
  then have 1: "n = dec_blob_node (rd b' off 128)" by (simp add: tree_blob(2))
  have 2: "node_at b' s BlobT off" by (rule node_at_cong [OF tree_blob(1)]) (use tree_blob.prems in auto)
  show ?case by (rule tree_forest.tree_blob [OF 2 1 tree_blob(3)])
next
  case forest_Nil
  then show ?case by (simp add: tree_forest.forest_Nil)
next
  case (forest_Cons c t F1 ks ts F2 k)
  have "tree b' c t F1" "forest b' ks ts F2"
    using forest_Cons.prems by (auto intro!: forest_Cons.IH)
  then show ?case by (rule tree_forest.forest_Cons) (use forest_Cons in blast)
qed

lemma tree_slot: "tree b s t F \<Longrightarrow> 1 \<le> s \<and> s \<le> MAX_SLOTS \<and> s \<le> num_slots b"
  by (cases rule: tree.cases, assumption) (auto simp: node_at_def)

lemma tree_slot_ok: "tree b s t F \<Longrightarrow> slot_ok s \<and> s < 65536"
  using tree_slot [of b s t F] by (auto simp: slot_ok_def layout_consts)

lemma forest_slots: "forest b ks ts F \<Longrightarrow> map_of ks k = Some c \<Longrightarrow> c < 65536"
  by (induction ks arbitrary: ts F) (auto elim!: forest_ConsE split: if_splits dest: tree_slot_ok)

end
