(* ===== verification/Tree_Writers.thy ===== *)
theory Tree_Writers
  imports Tree_Heap
begin

text \<open>
  What the node writers of \<^verbatim>\<open>writers.rs\<close> do to trees in a frame.  Every lemma is about the
  footprint of the nodes it touches only; the rest of the frame is added by \<^verbatim>\<open>eff_add\<close>.
  A writer fails only when the allocator does, and then the client's memory is as before.
\<close>

section \<open>Bodies of nodes\<close>

lemma tree_eff:
  assumes "tree b s t G" and "eff b fl F b' fl' F'" and "G \<inter> F = {}" and "G \<inter> owned b fl = {}"
  shows "tree b' s t G"
  using tree_frame(1) [OF assms(1), of b'] eff_sep(3) [OF assms(2-4)] eff_num_slots [OF assms(2)] by blast

lemma forest_eff:
  assumes "forest b ks ts G" and "eff b fl F b' fl' F'" and "G \<inter> F = {}" and "G \<inter> owned b fl = {}"
  shows "forest b' ks ts G"
  using tree_frame(2) [OF assms(1), of b'] eff_sep(3) [OF assms(2-4)] eff_num_slots [OF assms(2)] by blast

lemma node_at_eff:
  assumes "node_at b s nt off" and "eff b fl F b' fl' F'"
    and "nfoot s nt off \<inter> F = {}" and "nfoot s nt off \<inter> owned b fl = {}"
  shows "node_at b' s nt off"
  by (rule node_at_cong [OF assms(1) eff_num_slots [OF assms(2)] eff_sep(3) [OF assms(2-4)]])

lemma entry_body_disjoint: "s \<le> MAX_SLOTS \<Longrightarrow> DATA_AREA_START \<le> off \<Longrightarrow> 1 \<le> s \<Longrightarrow>
    region (entry_addr s) 4 \<inter> region off n = {}"
  by (auto simp: entry_addr_def layout_consts)

lemma node_at_wr_body:
  assumes n: "node_at b s nt off" and len: "length bs = node_bytes nt"
  shows "node_at (wr b off bs) s nt off"
proof -
  have d: "region (entry_addr s) 4 \<inter> region off (length bs) = {}"
    using n by (intro entry_body_disjoint) (simp_all add: node_at_def)
  have e: "entry (wr b off bs) s = entry b s"
    by (rule entry_cong, rule wr_other) (use d in blast)
  have h: "num_slots (wr b off bs) = num_slots b"
    using n by (intro header_wr) (simp add: node_at_def layout_consts)
  show ?thesis using n e h by (simp add: node_at_def)
qed

lemma write_struct_spec:
  assumes n: "node_at b s nt off" and len: "length bs = node_bytes nt" and h: "holds b fl (nfoot s nt off)"
  shows "write_struct_to_slot s bs b = (Inr (), wr b off bs)"
    and "eff b fl (nfoot s nt off) (wr b off bs) fl (nfoot s nt off)"
    and "node_at (wr b off bs) s nt off"
proof -
  show "write_struct_to_slot s bs b = (Inr (), wr b off bs)"
    using len by (simp add: write_struct_to_slot_def body_of_slot_node_at [OF n] smod_def)
  show "eff b fl (nfoot s nt off) (wr b off bs) fl (nfoot s nt off)"
    using h by (rule eff_wr) (simp add: nfoot_def len)
  show "node_at (wr b off bs) s nt off" using n len by (rule node_at_wr_body)
qed

lemma inode_wr:
  "inv4 n4 \<Longrightarrow> inode (wr b off (enc_node4 n4)) off Node4T (kids4 n4)"
  "inv16 n16 \<Longrightarrow> inode (wr b off (enc_node16 n16)) off Node16T (kids16 n16)"
  "inv48 n48 \<Longrightarrow> inode (wr b off (enc_node48 n48)) off Node48T (kids48 n48)"
  "inv256 n256 \<Longrightarrow> inode (wr b off (enc_node256 n256)) off Node256T (kids256 n256)"
  by (simp_all add: inode_def inv4_def inv16_def inv48_def inv256_def
      node4.read_after_write node16.read_after_write node48.read_after_write node256.read_after_write)

lemma enc_node_length:
  "inv4 n4 \<Longrightarrow> length (enc_node4 n4) = node_bytes Node4T"
  "inv16 n16 \<Longrightarrow> length (enc_node16 n16) = node_bytes Node16T"
  "inv48 n48 \<Longrightarrow> length (enc_node48 n48) = node_bytes Node48T"
  "inv256 n256 \<Longrightarrow> length (enc_node256 n256) = node_bytes Node256T"
  by (simp_all add: inv4_def inv16_def inv48_def inv256_def
      node4.length_enc node16.length_enc node48.length_enc node256.length_enc)

lemma read_node_node_at:
  "node_at b s Node4T off \<Longrightarrow> read_node4 b s = Inr (dec_node4 (rd b off 24))"
  "node_at b s Node16T off \<Longrightarrow> read_node16 b s = Inr (dec_node16 (rd b off 88))"
  "node_at b s Node48T off \<Longrightarrow> read_node48 b s = Inr (dec_node48 (rd b off 456))"
  "node_at b s Node256T off \<Longrightarrow> read_node256 b s = Inr (dec_node256 (rd b off 1032))"
  by (simp_all add: read_node4_def read_node16_def read_node48_def read_node256_def body_of_slot_node_at)

section \<open>Finding and updating a child\<close>

lemma inode_cases:
  assumes "inode b off nt ks"
  obtains (node4) n where "nt = Node4T" "n = dec_node4 (rd b off 24)" "inv4 n" "ks = kids4 n"
    | (node16) n where "nt = Node16T" "n = dec_node16 (rd b off 88)" "inv16 n" "ks = kids16 n"
    | (node48) n where "nt = Node48T" "n = dec_node48 (rd b off 456)" "inv48 n" "ks = kids48 n"
    | (node256) n where "nt = Node256T" "n = dec_node256 (rd b off 1032)" "inv256 n" "ks = kids256 n"
  using assms by (cases nt) (auto simp: inode_def Let_def)

lemma inner_find_child_spec:
  assumes n: "node_at b s nt off" and i: "inode b off nt ks" and lt: "\<And>c. map_of ks k = Some c \<Longrightarrow> c < 65536"
  shows "inner_find_child b s nt k = Inr (map_of ks k)"
proof -
  have u: "map_option as_u16 (map_of ks k) = map_of ks k"
    using lt by (cases "map_of ks k") (simp_all add: as_u16_def)
  from i show ?thesis
  proof (cases rule: inode_cases)
    case (node4 m)
    then show ?thesis using n u by (simp add: inner_find_child_def read_node_node_at node4_find_kids)
  next
    case (node16 m)
    then show ?thesis using n u by (simp add: inner_find_child_def read_node_node_at node16_find_kids)
  next
    case (node48 m)
    then show ?thesis using n u by (simp add: inner_find_child_def read_node_node_at node48_find_kids)
  next
    case (node256 m)
    have "read_node256_child b s k = Inr (n256_children m ! unat k)"
      using n node256 by (simp add: read_node256_child_def body_of_slot_node_at)
    moreover have "map_of ks k = (if n256_children m ! unat k = 0 then None else Some (n256_children m ! unat k))"
      using node256 node256_find_kids [of m k] by (auto simp: node256_find_def Let_def split: if_splits)
    ultimately show ?thesis using u node256 by (auto simp: inner_find_child_def split: if_splits)
  qed
qed

lemma inner_update_child_spec:
  assumes n: "node_at b s nt off" and i: "inode b off nt ks" and k: "map_of ks k \<noteq> None"
    and c: "slot_ok c" and h: "holds b fl (nfoot s nt off)"
  obtains b' where "inner_update_child s nt k c b = (Inr (), b')" and "node_at b' s nt off"
    and "inode b' off nt (kins k c ks)" and "eff b fl (nfoot s nt off) b' fl (nfoot s nt off)"
  using i
proof (cases rule: inode_cases)
  case (node4 m)
  then obtain m' where m': "node4_update m k c = Some m'" "inv4 m'" "kids4 m' = kins k c ks"
    using node4_update_kids k c by blast
  note w = write_struct_spec [OF n [unfolded node4(1)] enc_node_length(1) [OF m'(2)] h [unfolded node4(1)]]
  show thesis
    using node4 n m' w inode_wr(1) [OF m'(2), of b off]
    by (intro that [of "wr b off (enc_node4 m')"]) (simp_all add: inner_update_child_def read_node_node_at)
next
  case (node16 m)
  then obtain m' where m': "node16_update m k c = Some m'" "inv16 m'" "kids16 m' = kins k c ks"
    using node16_update_kids k c by blast
  note w = write_struct_spec [OF n [unfolded node16(1)] enc_node_length(2) [OF m'(2)] h [unfolded node16(1)]]
  show thesis
    using node16 n m' w inode_wr(2) [OF m'(2), of b off]
    by (intro that [of "wr b off (enc_node16 m')"]) (simp_all add: inner_update_child_def read_node_node_at)
next
  case (node48 m)
  then obtain m' where m': "node48_update m k c = Inr m'" "inv48 m'" "kids48 m' = kins k c ks"
    using node48_update_kids k c by blast
  note w = write_struct_spec [OF n [unfolded node48(1)] enc_node_length(3) [OF m'(2)] h [unfolded node48(1)]]
  show thesis
    using node48 n m' w inode_wr(3) [OF m'(2), of b off]
    by (intro that [of "wr b off (enc_node48 m')"]) (simp_all add: inner_update_child_def read_node_node_at)
next
  case (node256 m)
  let ?m = "node256_update m k c"
  have m': "inv256 ?m" "kids256 ?m = kins k c ks"
    using node256 c by (simp_all add: node256_update_def inv256_upd slot256_upd slot_ok_def)
  note w = write_struct_spec [OF n [unfolded node256(1)] enc_node_length(4) [OF m'(1)] h [unfolded node256(1)]]
  show thesis
    using node256 n m' w inode_wr(4) [OF m'(1), of b off]
    by (intro that [of "wr b off (enc_node256 ?m)"]) (simp_all add: inner_update_child_def read_node_node_at)
qed

section \<open>Adding a child\<close>

text \<open>What the three grow functions share: allocate the larger node, fill it, free the old one.\<close>

definition regrow :: "nat \<Rightarrow> node_type \<Rightarrow> bytes \<Rightarrow> (buf, nat) st" where
  "regrow old_slot nt bs =
     sbind (alloc_node nt) (\<lambda>slot. sbind (write_struct_to_slot slot bs) (\<lambda>_.
     sbind (free_node old_slot) (\<lambda>_. sret slot)))"

lemma regrow_spec:
  assumes n: "node_at b s nt off" and h: "holds b fl (nfoot s nt off)"
    and nt': "nt' \<noteq> Invalid" and len: "length bs = node_bytes nt'"
  obtains (fail) e where "regrow s nt' bs b = (Inl (Alloc e), b)"
    | (ok) s' off' b' fl' where "regrow s nt' bs b = (Inr s', b')" and "node_at b' s' nt' off'"
        and "rd b' off' (node_bytes nt') = bs" and "eff b fl (nfoot s nt off) b' fl' (nfoot s' nt' off')"
proof -
  have h0: "holds b fl {}" using h by (rule holds_sub) simp
  from h0 nt' show thesis
  proof (cases rule: alloc_node_eff)
    case (fail e)
    then show ?thesis using that(1) by (simp add: regrow_def sbind_Inl)
  next
    case (ok s' off' b1 fl1)
    let ?N = "nfoot s nt off" and ?N' = "nfoot s' nt' off'"
    have e1: "eff b fl {} b1 fl1 ?N'" using ok by simp
    have sep: "?N \<inter> ?N' = {}" "?N \<inter> owned b1 fl1 = {}" "node_at b1 s nt off"
      using eff_sep [OF e1, of ?N] h n node_at_eff [OF n e1] by (simp_all add: holds_def)
    note w = write_struct_spec [OF ok(2) len eff_holds [OF e1]]
    let ?b2 = "wr b1 off' bs"
    have e2: "eff b fl ?N ?b2 fl1 (?N' \<union> ?N)"
      using eff_add [OF eff_trans [OF e1 w(2)], of ?N] h by (simp add: holds_def)
    have n2: "node_at ?b2 s nt off" using node_at_eff [OF sep(3) w(2)] sep by simp
    obtain b3 fl3 where f: "free_node s ?b2 = (Inr (), b3)" "eff ?b2 fl1 ?N b3 fl3 {}"
      using free_node_eff [OF holds_sub [OF eff_holds [OF e2]] n2 subset_refl] by auto
    have h2: "holds ?b2 fl1 ?N'" using eff_holds [OF w(2)] .
    have sep': "?N' \<inter> ?N = {}" "?N' \<inter> owned ?b2 fl1 = {}" using sep h2 by (auto simp: holds_def)
    have e3: "eff b fl ?N b3 fl3 ?N'"
      using eff_trans [OF e2] eff_add [OF f(2) sep'] by (simp add: Un_commute)
    have n3: "node_at b3 s' nt' off'" by (rule node_at_eff [OF w(3) f(2) sep'])
    have "rd b3 off' (node_bytes nt') = rd ?b2 off' (node_bytes nt')"
      by (rule rd_cong, rule eff_sep(3) [OF f(2) sep']) (simp add: nfoot_def)
    then have "rd b3 off' (node_bytes nt') = bs" using len by simp
    moreover have "regrow s nt' bs b = (Inr s', b3)" using ok(1) w(1) f(1) by (simp add: regrow_def sbind_Inr sret_def)
    ultimately show ?thesis using that(2) n3 e3 by blast
  qed
qed

lemma grow_regrow:
  "node4_to_16 n4 = Inr m16 \<Longrightarrow> grow_node4_to_node16 s n4 = regrow s Node16T (enc_node16 m16)"
  "node16_to_48 n16 = Inr m48 \<Longrightarrow> grow_node16_to_node48 s n16 = regrow s Node48T (enc_node48 m48)"
  "node48_to_256 n48 = Inr m256 \<Longrightarrow> grow_node48_to_node256 s n48 = regrow s Node256T (enc_node256 m256)"
  by (simp_all add: grow_node4_to_node16_def grow_node16_to_node48_def grow_node48_to_node256_def regrow_def)

text \<open>The result of adding a child, whatever node type the inner node had.\<close>

definition added :: "buf \<Rightarrow> (node_type \<Rightarrow> nat list) \<Rightarrow> nat set \<Rightarrow> (u8 \<times> nat) list \<Rightarrow> error + nat \<Rightarrow> buf \<Rightarrow> bool" where
  "added b fl N ks r b' \<longleftrightarrow>
     (case r of
        Inl e \<Rightarrow> (\<exists>a. e = Alloc a) \<and> b' = b
      | Inr s' \<Rightarrow> \<exists>nt' off' fl'. node_at b' s' nt' off' \<and> inode b' off' nt' ks \<and> eff b fl N b' fl' (nfoot s' nt' off'))"

lemma added_write:
  assumes "node_at b s nt off" and "holds b fl (nfoot s nt off)" and "length bs = node_bytes nt"
    and "inode (wr b off bs) off nt ks"
    and "m = sbind (write_struct_to_slot s bs) (\<lambda>_. sret s) b"
  shows "case m of (r, b') \<Rightarrow> added b fl (nfoot s nt off) ks r b'"
  using write_struct_spec [OF assms(1,3,2)] assms(4,5)
  unfolding added_def by (simp add: sret_def sbind_Inr) blast

lemma added_grow:
  assumes n: "node_at b s nt off" and h: "holds b fl (nfoot s nt off)" and nt': "nt' \<noteq> Invalid"
    and len: "length bs = node_bytes nt'" and m: "m = sbind (regrow s nt' bs) next b"
    and nxt: "\<And>s' off' b1 fl1. node_at b1 s' nt' off' \<Longrightarrow> rd b1 off' (node_bytes nt') = bs
      \<Longrightarrow> holds b1 fl1 (nfoot s' nt' off') \<Longrightarrow>
      (\<exists>s''. fst (next s' b1) = Inr s'') \<and> (case next s' b1 of (r, b') \<Rightarrow> added b1 fl1 (nfoot s' nt' off') ks r b')"
  shows "case m of (r, b') \<Rightarrow> added b fl (nfoot s nt off) ks r b'"
  using n h nt' len
proof (cases rule: regrow_spec)
  case (fail e)
  then show ?thesis using m by (simp add: added_def sbind_Inl)
next
  case (ok s' off' b1 fl1)
  obtain s'' b' where r: "next s' b1 = (Inr s'', b')" "added b1 fl1 (nfoot s' nt' off') ks (Inr s'') b'"
    using nxt [OF ok(2,3) eff_holds [OF ok(4)]] by (cases "next s' b1") auto
  then obtain nt2 off2 fl2 where "node_at b' s'' nt2 off2" "inode b' off2 nt2 ks"
      "eff b1 fl1 (nfoot s' nt' off') b' fl2 (nfoot s'' nt2 off2)"
    by (auto simp: added_def)
  then have "added b fl (nfoot s nt off) ks (Inr s'') b'"
    using eff_trans [OF ok(4)] unfolding added_def by simp blast
  then show ?thesis using m ok(1) r(1) by (simp add: sbind_Inr)
qed

lemma add_child_node256_spec:
  assumes n: "node_at b s Node256T off" and h: "holds b fl (nfoot s Node256T off)"
    and m: "m = dec_node256 (rd b off 1032)" "inv256 m" "map_of (kids256 m) k = None" and c: "slot_ok c"
  shows "(\<exists>s'. fst (add_child_node256 s k c b) = Inr s')
    \<and> (case add_child_node256 s k c b of (r, b') \<Rightarrow> added b fl (nfoot s Node256T off) (kins k c (kids256 m)) r b')"
proof -
  obtain m' where m': "node256_insert m k c = Inr m'" "inv256 m'" "kids256 m' = kins k c (kids256 m)"
    using node256_insert_kids [OF m(2,3) c] by blast
  note w = write_struct_spec [OF n enc_node_length(4) [OF m'(2)] h]
  have e: "add_child_node256 s k c b = sbind (write_struct_to_slot s (enc_node256 m')) (\<lambda>_. sret s) b"
    using n m m'(1) by (simp add: add_child_node256_def read_node_node_at)
  then have "fst (add_child_node256 s k c b) = Inr s" using w(1) by (simp add: sret_def sbind_Inr)
  moreover have "case add_child_node256 s k c b of (r, b') \<Rightarrow> added b fl (nfoot s Node256T off) (kins k c (kids256 m)) r b'"
    using added_write [OF n h enc_node_length(4) [OF m'(2)] inode_wr(4) [OF m'(2)] e] m'(3) by simp
  ultimately show ?thesis by blast
qed

lemma add_child_node48_room:
  assumes n: "node_at b s Node48T off" and h: "holds b fl (nfoot s Node48T off)"
    and m: "m = dec_node48 (rd b off 456)" "inv48 m" "map_of (kids48 m) k = None" and c: "slot_ok c"
    and room: "n48_count m < 48"
  shows "(\<exists>s'. fst (add_child_node48 s k c b) = Inr s')
    \<and> (case add_child_node48 s k c b of (r, b') \<Rightarrow> added b fl (nfoot s Node48T off) (kins k c (kids48 m)) r b')"
proof -
  obtain m' where m': "node48_insert m k c = Inr m'" "inv48 m'" "kids48 m' = kins k c (kids48 m)"
    using node48_insert_kids [OF m(2,3) room c] by blast
  note w = write_struct_spec [OF n enc_node_length(3) [OF m'(2)] h]
  have e: "add_child_node48 s k c b = sbind (write_struct_to_slot s (enc_node48 m')) (\<lambda>_. sret s) b"
    using n m m'(1) room by (simp add: add_child_node48_def read_node_node_at)
  then have "fst (add_child_node48 s k c b) = Inr s" using w(1) by (simp add: sret_def sbind_Inr)
  moreover have "case add_child_node48 s k c b of (r, b') \<Rightarrow> added b fl (nfoot s Node48T off) (kins k c (kids48 m)) r b'"
    using added_write [OF n h enc_node_length(3) [OF m'(2)] inode_wr(3) [OF m'(2)] e] m'(3) by simp
  ultimately show ?thesis by blast
qed

lemma add_child_node16_room:
  assumes n: "node_at b s Node16T off" and h: "holds b fl (nfoot s Node16T off)"
    and m: "m = dec_node16 (rd b off 88)" "inv16 m" "map_of (kids16 m) k = None" and c: "slot_ok c"
    and room: "n16_count m < 16"
  shows "(\<exists>s'. fst (add_child_node16 s k c b) = Inr s')
    \<and> (case add_child_node16 s k c b of (r, b') \<Rightarrow> added b fl (nfoot s Node16T off) (kins k c (kids16 m)) r b')"
proof -
  let ?m = "node16_insert_sorted m k c"
  have m': "inv16 ?m" "kids16 ?m = kins k c (kids16 m)"
    using node16_insert_kids [OF m(2,3) room c] by blast+
  note w = write_struct_spec [OF n enc_node_length(2) [OF m'(1)] h]
  have e: "add_child_node16 s k c b = sbind (write_struct_to_slot s (enc_node16 ?m)) (\<lambda>_. sret s) b"
    using n m room by (simp add: add_child_node16_def read_node_node_at)
  then have "fst (add_child_node16 s k c b) = Inr s" using w(1) by (simp add: sret_def sbind_Inr)
  moreover have "case add_child_node16 s k c b of (r, b') \<Rightarrow> added b fl (nfoot s Node16T off) (kins k c (kids16 m)) r b'"
    using added_write [OF n h enc_node_length(2) [OF m'(1)] inode_wr(2) [OF m'(1)] e] m'(2) by simp
  ultimately show ?thesis by blast
qed

text \<open>
  Adding a child for a new key byte gives a node, of the same type or the next larger one,
  whose table has the new child; when the larger node cannot be allocated the frame is unchanged.
\<close>

lemma inner_add_child_spec:
  assumes n: "node_at b s nt off" and i: "inode b off nt ks" and k: "map_of ks k = None"
    and c: "slot_ok c" and h: "holds b fl (nfoot s nt off)"
  shows "case inner_add_child s nt k c b of (r, b') \<Rightarrow> added b fl (nfoot s nt off) (kins k c ks) r b'"
  using i
proof (cases rule: inode_cases)
  case (node4 m)
  note n' = n [unfolded node4(1)] and h' = h [unfolded node4(1)]
  show ?thesis
  proof (cases "n4_count m < 4")
    case True
    let ?m = "node4_insert_sorted m k c"
    have m': "inv4 ?m" "kids4 ?m = kins k c ks"
      using node4_insert_kids [OF node4(3) _ True c] node4 k by auto
    have e: "inner_add_child s nt k c b = sbind (write_struct_to_slot s (enc_node4 ?m)) (\<lambda>_. sret s) b"
      using n' node4 True by (simp add: inner_add_child_def add_child_node4_def read_node_node_at)
    show ?thesis
      using added_write [OF n' h' enc_node_length(1) [OF m'(1)] inode_wr(1) [OF m'(1)] e] m'(2) node4(1) by simp
  next
    case False
    then obtain g where g: "node4_to_16 m = Inr g" "inv16 g" "kids16 g = kids4 m" "n16_count g < 16"
      using grow_4_16 node4(3) by blast
    have e: "inner_add_child s nt k c b =
        sbind (regrow s Node16T (enc_node16 g)) (\<lambda>s'. add_child_node16 s' k c) b"
      using n' node4 False g(1) by (simp add: inner_add_child_def add_child_node4_def read_node_node_at grow_regrow)
    have nxt: "(\<exists>s''. fst (add_child_node16 s' k c b1) = Inr s'') \<and> (case add_child_node16 s' k c b1 of
        (r, b') \<Rightarrow> added b1 fl1 (nfoot s' Node16T off') (kins k c ks) r b')"
      if "node_at b1 s' Node16T off'" "rd b1 off' (node_bytes Node16T) = enc_node16 g"
        "holds b1 fl1 (nfoot s' Node16T off')" for s' off' b1 fl1
    proof -
      have "g = dec_node16 (rd b1 off' 88)" using that(2) g(2) by (simp add: node16.dec_enc inv16_def)
      then show ?thesis
        using add_child_node16_room [OF that(1,3) _ g(2) _ c g(4), of k] g(3) node4 k by simp
    qed
    show ?thesis
      using added_grow [OF n' h' _ enc_node_length(2) [OF g(2)] e nxt]
        node4(1) by simp
  qed
next
  case (node16 m)
  note n' = n [unfolded node16(1)] and h' = h [unfolded node16(1)]
  have e0: "inner_add_child s nt k c = add_child_node16 s k c" using node16(1) by (simp add: inner_add_child_def)
  show ?thesis
  proof (cases "n16_count m < 16")
    case True
    then show ?thesis
      using add_child_node16_room [OF n' h' node16(2,3) _ c True, of k] node16 k e0 by simp
  next
    case False
    then obtain g where g: "node16_to_48 m = Inr g" "inv48 g" "kids48 g = kids16 m" "n48_count g < 48"
      using grow_16_48 node16(3) by blast
    have e: "inner_add_child s nt k c b =
        sbind (regrow s Node48T (enc_node48 g)) (\<lambda>s'. add_child_node48 s' k c) b"
      using n' node16 False g(1) by (simp add: inner_add_child_def add_child_node16_def read_node_node_at grow_regrow)
    have nxt: "(\<exists>s''. fst (add_child_node48 s' k c b1) = Inr s'') \<and> (case add_child_node48 s' k c b1 of
        (r, b') \<Rightarrow> added b1 fl1 (nfoot s' Node48T off') (kins k c ks) r b')"
      if "node_at b1 s' Node48T off'" "rd b1 off' (node_bytes Node48T) = enc_node48 g"
        "holds b1 fl1 (nfoot s' Node48T off')" for s' off' b1 fl1
    proof -
      have "g = dec_node48 (rd b1 off' 456)" using that(2) g(2) by (simp add: node48.dec_enc inv48_def)
      then show ?thesis
        using add_child_node48_room [OF that(1,3) _ g(2) _ c g(4), of k] g(3) node16 k by simp
    qed
    show ?thesis
      using added_grow [OF n' h' _ enc_node_length(3) [OF g(2)] e nxt]
        node16(1) by simp
  qed
next
  case (node48 m)
  note n' = n [unfolded node48(1)] and h' = h [unfolded node48(1)]
  have e0: "inner_add_child s nt k c = add_child_node48 s k c" using node48(1) by (simp add: inner_add_child_def)
  show ?thesis
  proof (cases "n48_count m < 48")
    case True
    then show ?thesis
      using add_child_node48_room [OF n' h' node48(2,3) _ c True, of k] node48 k e0 by simp
  next
    case False
    then obtain g where g: "node48_to_256 m = Inr g" "inv256 g" "kids256 g = kids48 m"
      using grow_48_256 node48(3) by blast
    have e: "inner_add_child s nt k c b =
        sbind (regrow s Node256T (enc_node256 g)) (\<lambda>s'. add_child_node256 s' k c) b"
      using n' node48 False g(1) by (simp add: inner_add_child_def add_child_node48_def read_node_node_at grow_regrow)
    have nxt: "(\<exists>s''. fst (add_child_node256 s' k c b1) = Inr s'') \<and> (case add_child_node256 s' k c b1 of
        (r, b') \<Rightarrow> added b1 fl1 (nfoot s' Node256T off') (kins k c ks) r b')"
      if "node_at b1 s' Node256T off'" "rd b1 off' (node_bytes Node256T) = enc_node256 g"
        "holds b1 fl1 (nfoot s' Node256T off')" for s' off' b1 fl1
    proof -
      have "g = dec_node256 (rd b1 off' 1032)" using that(2) g(2) by (simp add: node256.dec_enc inv256_def)
      then show ?thesis
        using add_child_node256_spec [OF that(1,3) _ g(2) _ c, of k] g(3) node48 k by simp
    qed
    show ?thesis
      using added_grow [OF n' h' _ enc_node_length(4) [OF g(2)] e nxt]
        node48(1) by simp
  qed
next
  case (node256 m)
  show ?thesis
    using add_child_node256_spec [OF n [unfolded node256(1)] h [unfolded node256(1)] node256(2,3) _ c, of k] node256 k
    by (simp add: inner_add_child_def)
qed

section \<open>Properties of the inner-node writers\<close>

text \<open>A frame with one empty four-way node, for the instances below.\<close>

lemma some_node4:
  "\<exists>b fl s off. node_at b s Node4T off \<and> inode b off Node4T [] \<and> holds b fl (nfoot s Node4T off)"
proof -
  define z where "z = set_space_used DATA_AREA_START frame_zero"
  let ?fl = "\<lambda>_ :: node_type. [] :: nat list"
  have z: "num_slots z = 0" "space_used z = 45056" and zh: "i < 8 \<Longrightarrow> free_list_head z i = 0" for i
    by (simp_all add: z_def header_zero layout_consts)
  have inv: "alloc_inv z ?fl" by (simp add: alloc_inv_def z zh layout_consts)
  have "fst (alloc_node Node4T z) = Inr 1"
    by (simp add: alloc_node_def sbind_def alloc_node_inner_def zh bump_node_def z layout_consts
        SPILLOVER_RESERVATION_def Let_def split: prod.splits sum.splits)
  then obtain s off b fl where b: "node_at b s Node4T off" "handover z ?fl b fl (nfoot s Node4T off)"
    by (rule_tac alloc_node_spec [OF inv, of Node4T]) auto
  then have h: "holds b fl (nfoot s Node4T off)" by (auto simp: holds_def handover_def)
  have e: "inv4 node4_empty" "kids4 node4_empty = []"
    by (simp_all add: inv4_def kids4_def node4_empty_def arr_kids_def wf_node4_def slots_ok_def)
  let ?b = "wr b off (enc_node4 node4_empty)"
  have "node_at ?b s Node4T off" "holds ?b fl (nfoot s Node4T off)"
    using write_struct_spec [OF b(1) enc_node_length(1) [OF e(1)] h] by (auto dest: eff_holds)
  then show ?thesis using inode_wr(1) [OF e(1), of b off] e(2) by auto
qed

text \<open>C28. Adding a child under a new byte to an inner node of any width leaves a node (the
  same one, or a wider copy when it was full) whose children are the old ones and the new one
  in key order, freeing the outgrown node; when there is no room for the wider node the frame
  is left as it was.\<close>

theorem inner_add_child_correct:
  assumes "node_at b s nt off" and "inode b off nt ks" and "map_of ks k = None"
    and "slot_ok c" and "holds b fl (nfoot s nt off)"
  shows "case inner_add_child s nt k c b of
      (Inl e, b') \<Rightarrow> (\<exists>a. e = Alloc a) \<and> b' = b
    | (Inr s', b') \<Rightarrow> \<exists>nt' off' fl'. node_at b' s' nt' off' \<and> inode b' off' nt' (kins k c ks)
        \<and> eff b fl (nfoot s nt off) b' fl' (nfoot s' nt' off')"
proof (cases "inner_add_child s nt k c b")
  case (Pair r b')
  then show ?thesis using inner_add_child_spec [OF assms] by (cases r) (simp_all add: added_def)
qed

theorem inner_add_child_correct_witness:
  "\<exists>b fl s off. node_at b s Node4T off \<and> inode b off Node4T [] \<and> map_of ([] :: (u8 \<times> nat) list) 97 = None
     \<and> slot_ok 7 \<and> holds b fl (nfoot s Node4T off)
     \<and> (case inner_add_child s Node4T 97 7 b of
      (Inl e, b') \<Rightarrow> (\<exists>a. e = Alloc a) \<and> b' = b
    | (Inr s', b') \<Rightarrow> \<exists>nt' off' fl'. node_at b' s' nt' off' \<and> inode b' off' nt' (kins 97 7 [])
        \<and> eff b fl (nfoot s Node4T off) b' fl' (nfoot s' nt' off'))"
proof -
  obtain b fl s off where b: "node_at b s Node4T off" "inode b off Node4T []" "holds b fl (nfoot s Node4T off)"
    using some_node4 by blast
  have c: "map_of ([] :: (u8 \<times> nat) list) 97 = None" "slot_ok 7" by (simp_all add: slot_ok_def)
  show ?thesis by (intro exI conjI) (rule b c inner_add_child_correct [OF b(1,2) c b(3)])+
qed

end
