(* ===== verification/Tree_Ops.thy ===== *)
theory Tree_Ops
  imports Tree_Writers
begin

text \<open>
  The writers that make new trees: leaves, two-way branches and prefix chains, and the
  replacement of one child of an inner node.
\<close>

section \<open>Children of an inner node\<close>

lemma forest_keys: "forest b ks ts F \<Longrightarrow> map fst ks = map fst ts"
  by (induction ks arbitrary: ts F) (auto elim: forest_NilE elim!: forest_ConsE)

lemma forest_None: "forest b ks ts F \<Longrightarrow> map_of ks k = None \<longleftrightarrow> map_of ts k = None"
  by (drule forest_keys) (metis list.set_map map_of_eq_None_iff)

lemma forest_sorted: "forest b ks ts F \<Longrightarrow> keys_sorted ks \<longleftrightarrow> keys_sorted ts"
  by (drule forest_keys) (simp add: keys_sorted_def)

text \<open>A child can be taken out of a forest and replaced.\<close>

lemma forest_replace:
  assumes "forest b ks ts F" and "keys_sorted ks" and "map_of ks k = Some c"
  obtains t Fc G where "map_of ts k = Some t" and "tree b c t Fc" and "F = Fc \<union> G" and "Fc \<inter> G = {}"
    and "\<And>b' c' t' Fc'. num_slots b \<le> num_slots b' \<Longrightarrow> \<forall>a \<in> G. b' a = b a \<Longrightarrow> tree b' c' t' Fc'
      \<Longrightarrow> Fc' \<inter> G = {} \<Longrightarrow> forest b' (kins k c' ks) (kins k t' ts) (Fc' \<union> G)"
  using assms
proof (induction ks arbitrary: ts F thesis)
  case (Cons x ks)
  obtain j d where x: "x = (j, d)" by force
  from Cons.prems(2) x obtain t1 ts1 F1 F2 where ts: "ts = (j, t1) # ts1" "F = F1 \<union> F2"
      and f: "tree b d t1 F1" "forest b ks ts1 F2" "F1 \<inter> F2 = {}"
    by (auto elim: forest_ConsE)
  show ?case
  proof (cases "j = k")
    case True
    with Cons.prems(4) x have c: "c = d" by simp
    show ?thesis
    proof (rule Cons.prems(1) [of t1 F1 F2])
      fix b' c' t' Fc' assume a: "num_slots b \<le> num_slots b'" "\<forall>a\<in>F2. b' a = b a" "tree b' c' t' Fc'" "Fc' \<inter> F2 = {}"
      have "forest b' ks ts1 F2" by (rule tree_frame(2) [OF f(2) a(2,1)])
      with a(3,4) show "forest b' (kins k c' (x # ks)) (kins k t' ts) (Fc' \<union> F2)"
        unfolding x ts True by (simp add: forest_Cons)
    qed (use ts f True c in auto)
  next
    case False
    have jk: "j < k" using Cons.prems(3,4) False x by (auto dest: map_of_SomeD)
    from Cons.prems(3,4) x False have ks: "keys_sorted ks" "map_of ks k = Some c" by auto
    obtain t Fc G where IH: "map_of ts1 k = Some t" "tree b c t Fc" "F2 = Fc \<union> G" "Fc \<inter> G = {}"
      and rep: "\<And>b' c' t' Fc'. num_slots b \<le> num_slots b' \<Longrightarrow> \<forall>a \<in> G. b' a = b a \<Longrightarrow> tree b' c' t' Fc'
        \<Longrightarrow> Fc' \<inter> G = {} \<Longrightarrow> forest b' (kins k c' ks) (kins k t' ts1) (Fc' \<union> G)"
      using Cons.IH [OF _ f(2) ks] by blast
    show ?thesis
    proof (rule Cons.prems(1) [of t Fc "F1 \<union> G"])
      fix b' c' t' Fc' assume a: "num_slots b \<le> num_slots b'" "\<forall>a\<in>F1 \<union> G. b' a = b a" "tree b' c' t' Fc'" "Fc' \<inter> (F1 \<union> G) = {}"
      have "tree b' d t1 F1" using a(1,2) by (intro tree_frame(1) [OF f(1)]) auto
      moreover have "forest b' (kins k c' ks) (kins k t' ts1) (Fc' \<union> G)"
        using a by (intro rep) auto
      ultimately have "forest b' ((j, d) # kins k c' ks) ((j, t1) # kins k t' ts1) (F1 \<union> (Fc' \<union> G))"
        by (rule forest_Cons) (use a f(3) IH(3) in blast)
      then show "forest b' (kins k c' (x # ks)) (kins k t' ts) (Fc' \<union> (F1 \<union> G))"
        using jk unfolding x ts by (simp add: Un_left_commute)
    qed (use ts f False IH in auto)
  qed
qed simp

lemma forest_insert:
  assumes "forest b ks ts F" and "map_of ks k = None" and "tree b c t Fc" and "Fc \<inter> F = {}"
  shows "forest b (kins k c ks) (kins k t ts) (Fc \<union> F)"
  using assms
proof (induction ks arbitrary: ts F)
  case Nil
  then show ?case using forest_Cons [OF assms(3) forest_Nil, of k] by (auto elim: forest_NilE)
next
  case (Cons x ks)
  obtain j d where x: "x = (j, d)" by force
  from Cons.prems(1) x obtain t1 ts1 F1 F2 where ts: "ts = (j, t1) # ts1" "F = F1 \<union> F2"
      and f: "tree b d t1 F1" "forest b ks ts1 F2" "F1 \<inter> F2 = {}"
    by (auto elim: forest_ConsE)
  have jk: "j \<noteq> k" "map_of ks k = None" using Cons.prems(2) x by (auto split: if_splits)
  show ?case
  proof (cases "j < k")
    case True
    have "forest b (kins k c ks) (kins k t ts1) (Fc \<union> F2)"
      using Cons.IH [OF f(2) jk(2) assms(3)] Cons.prems(4) ts(2) by blast
    then have "forest b ((j, d) # kins k c ks) ((j, t1) # kins k t ts1) (F1 \<union> (Fc \<union> F2))"
      by (rule forest_Cons [OF f(1)]) (use f(3) Cons.prems(4) ts(2) in blast)
    then show ?thesis using True unfolding x ts by (simp add: Un_left_commute)
  next
    case False
    have "forest b ((k, c) # x # ks) ((k, t) # ts) (Fc \<union> F)"
      by (rule forest_Cons [OF assms(3) Cons.prems(1) Cons.prems(4)])
    with False jk show ?thesis unfolding x ts by simp
  qed
qed

section \<open>Leaves\<close>

lemma leaf_tree:
  assumes n: "node_at b s LeafT off" and body: "rd b off 16 = enc_leaf l" and wf: "wf_leaf l"
    and ext: "leaf_at b l k v" and d: "nfoot s LeafT off \<inter> leaf_ext l k v = {}"
  shows "tree b s (ALeaf k v (leaf_seq l) (tombstone l \<noteq> 0)) (nfoot s LeafT off \<union> leaf_ext l k v)"
  using tree_leaf [OF n _ ext d] body wf by (simp add: leaf.dec_enc)

lemma key_value_written:
  assumes "length k < 65536"
  shows "rd (wr (wr (wr b off (nat_le 2 (length k))) (off + 2) k) (off + 2 + length k) v) off (2 + length k + length v)
    = nat_le 2 (length k) @ k @ v"
proof -
  let ?b = "wr (wr (wr b off (nat_le 2 (length k))) (off + 2) k) (off + 2 + length k) v"
  have "rd ?b off 2 = nat_le 2 (length k)" by (simp add: rd_wr_disjoint)
  moreover have "rd ?b (off + 2) (length k) = k" by (simp add: rd_wr_disjoint)
  moreover have "rd ?b (off + 2 + length k) (length v) = v" by simp
  ultimately show ?thesis
    using rd_append [of ?b off "2 + length k" "length v"] rd_append [of ?b off 2 "length k"]
    by (simp only: append_assoc add.assoc)
qed

lemma write_leaf_spec:
  assumes inv: "holds b fl {}" and k: "length (view key) < 65536" and v: "length v < 65536" and sq: "seq < 2 ^ 64"
  obtains (fail) e b' where "write_leaf key v seq b = (Inl (Alloc e), b')" and "eff b fl {} b' fl {}"
    | (ok) s b' fl' F where "write_leaf key v seq b = (Inr s, b')"
        and "tree b' s (ALeaf (view key) v seq False) F" and "eff b fl {} b' fl' F"
proof -
  let ?k = "view key"
  let ?n = "leaf_extent_size (length ?k) (length v)"
  have n: "8 dvd ?n" "2 + length ?k + length v \<le> ?n" "?n < 2 + length ?k + length v + 8"
    using leaf_extent_size_bounds [of "length ?k" "length v"] k v by simp_all
  have al: "align8 ?n = ?n" using align8_eq [of ?n] n k v by (auto elim!: dvdE)
  have pos: "0 < ?n" "?n < 2 ^ 31" using n k v by simp_all
  from inv pos show thesis
  proof (cases rule: alloc_extent_eff)
    case (fail e)
    then show ?thesis using that(1) [of e b] inv by (simp add: write_leaf_def Let_def sbind_Inl eff_refl)
  next
    case (ok off b1)
    let ?E = "region off ?n"
    have e1: "eff b fl {} b1 fl ?E" using ok(4) al by simp
    define b2 where "b2 = wr (wr (wr b1 off (nat_le 2 (length ?k))) (off + 2) ?k) (off + 2 + length ?k) v"
    have out: "b2 a = b1 a" if "a \<notin> ?E" for a
      using that n(2) unfolding b2_def by (auto simp: wr_def)
    have e2: "eff b1 fl ?E b2 fl ?E" using eff_holds [OF e1] out by (rule eff_local)
    note e12 = eff_trans [OF e1 e2]
    have kv: "rd b2 off (2 + length ?k + length v) = nat_le 2 (length ?k) @ ?k @ v"
      unfolding b2_def using k by (rule key_value_written)
    have h2: "holds b2 fl {}" using eff_holds [OF e12] by (rule holds_sub) simp
    have by1: "bytes_at b1 off ?n \<noteq> None" using ok(2,3) al by (simp add: bytes_at_def)
    then have run: "write_leaf key v seq b = sbind (alloc_node LeafT) (\<lambda>slot.
        sbind (write_struct_to_slot slot (enc_leaf (leaf_live off (as_u16 (length v)) seq))) (\<lambda>_. sret slot)) b2"
      using ok(1) by (auto simp: write_leaf_def Let_def sbind_Inr b2_def smod_def)
    have "LeafT \<noteq> Invalid" by simp
    with h2 show ?thesis
    proof (cases rule: alloc_node_eff)
      case (fail e)
      have "eff b fl {} b2 fl {}" using eff_drop [OF e12, of "{}"] by simp
      then show ?thesis using that(1) [of e b2] fail run by (simp add: sbind_Inl)
    next
      case (ok s noff b3 fl3)
      let ?l = "leaf_live off (length v) seq" and ?N = "nfoot s LeafT noff"
      have e3: "eff b2 fl {} b3 fl3 ?N" using ok by simp
      have off32: "off < 4294967296" using \<open>off + align8 ?n \<le> PAGE_SIZE\<close> by (simp add: layout_consts)
      have wf: "wf_leaf ?l" using v sq off32 by (simp add: wf_leaf_def leaf_live_def)
      have u: "as_u16 (length v) = length v" using v by (simp add: as_u16_def)
      note w = write_struct_spec [OF ok(2) _ eff_holds [OF e3], of "enc_leaf ?l"]
      have len: "length (enc_leaf ?l) = node_bytes LeafT" using wf by (simp add: leaf.length_enc)
      let ?b4 = "wr b3 noff (enc_leaf ?l)"
      have e34: "eff b2 fl {} ?b4 fl3 ?N" using eff_trans [OF e3 w(2) [OF len]] .
      have sepE: "?E \<inter> {} = {}" "?E \<inter> owned b2 fl = {}" using eff_holds [OF e12] by (simp_all add: holds_def)
      have E4: "?E \<inter> ?N = {}" "\<And>a. a \<in> ?E \<Longrightarrow> ?b4 a = b2 a" using eff_sep [OF e34 sepE] by blast+
      have "leaf_at b2 ?l ?k v"
        using kv k v ok(2) \<open>DATA_AREA_START \<le> off\<close> \<open>off + align8 ?n \<le> PAGE_SIZE\<close> al
        by (simp add: leaf_at_def leaf_live_def)
      then have at4: "leaf_at ?b4 ?l ?k v"
        using E4(2) by (rule leaf_at_cong) (simp add: leaf_ext_def leaf_live_def)
      have "tree ?b4 s (ALeaf ?k v seq False) (?N \<union> ?E)"
        using leaf_tree [OF w(3) [OF len] _ wf at4] len E4(1) by (auto simp: leaf_ext_def leaf_live_def)
      moreover have "eff b fl {} ?b4 fl3 (?N \<union> ?E)"
        using eff_trans [OF e12] eff_add [OF e34 sepE] by simp
      moreover have "write_leaf key v seq b = (Inr s, ?b4)"
        using run ok(1) w(1) [OF len] u by (simp add: sbind_Inr sret_def)
      ultimately show ?thesis using that(2) by blast
    qed
  qed
qed

section \<open>Branches and prefixes\<close>

definition new_node :: "node_type \<Rightarrow> bytes \<Rightarrow> (buf, nat) st" where
  "new_node nt bs = sbind (alloc_node nt) (\<lambda>slot. sbind (write_struct_to_slot slot bs) (\<lambda>_. sret slot))"

lemma new_node_spec:
  assumes h: "holds b fl {}" and nt: "nt \<noteq> Invalid" and len: "length bs = node_bytes nt"
  obtains (fail) e where "new_node nt bs b = (Inl (Alloc e), b)"
    | (ok) s off b' fl' where "new_node nt bs b = (Inr s, b')" and "node_at b' s nt off"
        and "rd b' off (node_bytes nt) = bs" and "eff b fl {} b' fl' (nfoot s nt off)"
  using h nt
proof (cases rule: alloc_node_eff)
  case (fail e)
  then show ?thesis using that(1) by (simp add: new_node_def sbind_Inl)
next
  case (ok s off b1 fl1)
  have e1: "eff b fl {} b1 fl1 (nfoot s nt off)" using ok by simp
  note w = write_struct_spec [OF ok(2) len eff_holds [OF e1]]
  have "new_node nt bs b = (Inr s, wr b1 off bs)" using ok(1) w(1) by (simp add: new_node_def sbind_Inr sret_def)
  then show ?thesis using that(2) w(3) eff_trans [OF e1 w(2)] len by simp
qed

text \<open>The two-way branch made by a split.\<close>

definition branch4 :: "u8 \<Rightarrow> nat \<Rightarrow> u8 \<Rightarrow> nat \<Rightarrow> node4" where
  "branch4 x c y d = (let cs = kins y d [(x, c)] in
     node4_empty\<lparr>n4_count := 2, n4_keys := map fst cs @ [0, 0], n4_children := map snd cs @ [0, 0]\<rparr>)"

lemma branch4_inv:
  assumes "x \<noteq> y" and "slot_ok c" and "slot_ok d"
  shows "inv4 (branch4 x c y d)" and "kids4 (branch4 x c y d) = kins y d [(x, c)]"
  using assms
  by (auto simp: branch4_def inv4_def wf_node4_def node4_empty_def kids4_def arr_kids_def slots_ok_def
      slot_ok_def keys_sorted_def take_Cons' zip_Cons1)

lemma write_node4_with_two:
  assumes "x \<noteq> y"
  shows "write_node4_with [(x, c), (y, d)] = new_node Node4T (enc_node4 (branch4 x c y d))"
proof -
  have "sort_key fst [(x, c), (y, d)] = kins y d [(x, c)]" using assms by auto
  moreover have "as_u8 (Suc (Suc 0)) = Suc (Suc 0)" by (simp add: as_u8_def)
  ultimately show ?thesis
    using assms by (simp add: write_node4_with_def new_node_def branch4_def node4_empty_def numeral_2_eq_2)
qed

lemma write_branch_spec:
  assumes h: "holds b fl {}" and xy: "x \<noteq> y" and c: "slot_ok c" and d: "slot_ok d"
  obtains (fail) e where "write_node4_with [(x, c), (y, d)] b = (Inl (Alloc e), b)"
    | (ok) s off b' fl' where "write_node4_with [(x, c), (y, d)] b = (Inr s, b')" and "node_at b' s Node4T off"
        and "inode b' off Node4T (kins y d [(x, c)])" and "eff b fl {} b' fl' (nfoot s Node4T off)"
proof -
  note i = branch4_inv [OF xy c d] and eq = write_node4_with_two [OF xy]
  have "Node4T \<noteq> Invalid" by simp
  from h this enc_node_length(1) [OF i(1)] show thesis
  proof (cases rule: new_node_spec)
    case (fail e)
    then show ?thesis using that(1) eq by simp
  next
    case (ok s off b' fl')
    have "inode b' off Node4T (kins y d [(x, c)])"
      using ok(3) i by (simp add: inode_def node4.dec_enc inv4_def)
    with ok eq show ?thesis using that(2) by simp
  qed
qed

text \<open>A prefix node, and the chain that \<^verbatim>\<open>write_prefix_chain\<close> builds, chunk by chunk from the end.\<close>

lemma prefix_new_ok:
  assumes "length p \<le> PREFIX_MAX_INLINE" and "c < 65536"
  obtains n where "prefix_new p c = Inr n" and "wf_prefix n" and "prefix_len n = length p"
    and "take (prefix_len n) (pfx_bytes n) = p" and "pfx_child n = c"
  using assms by (auto simp: prefix_new_def wf_prefix_def as_u16_def PREFIX_MAX_INLINE_def)

lemma prefix_tree:
  assumes n: "node_at b s PrefixT off" and body: "rd b off 128 = enc_prefix p" and wf: "wf_prefix p"
    and len: "prefix_len p \<le> PREFIX_MAX_INLINE" and t: "tree b (pfx_child p) t F" and d: "nfoot s PrefixT off \<inter> F = {}"
  shows "tree b s (APrefix (take (prefix_len p) (pfx_bytes p)) t) (nfoot s PrefixT off \<union> F)"
  using tree_prefix [OF n _ len t d] body wf by (simp add: prefix.dec_enc)

function pchain :: "bytes \<Rightarrow> art \<Rightarrow> art" where
  "pchain bs t =
     (if bs = [] then t
      else (let start = length bs - min (length bs) PREFIX_MAX_INLINE
            in pchain (take start bs) (APrefix (drop start bs) t)))"
  by pat_completeness auto
termination by (relation "measure (\<lambda>(bs, t). length bs)") (auto simp: PREFIX_MAX_INLINE_def)

declare pchain.simps [simp del]

lemma pchain_Nil [simp]: "pchain [] t = t"
  by (subst pchain.simps) simp

lemma pchain_step:
  assumes "bs \<noteq> []"
  obtains u w where "bs = u @ w" and "w \<noteq> []" and "length w \<le> PREFIX_MAX_INLINE"
    and "\<And>t. pchain bs t = pchain u (APrefix w t)"
proof -
  define n where "n = length bs - min (length bs) PREFIX_MAX_INLINE"
  have "n < length bs" "length bs - n \<le> PREFIX_MAX_INLINE" using assms by (auto simp: n_def PREFIX_MAX_INLINE_def)
  moreover have "pchain bs t = pchain (take n bs) (APrefix (drop n bs) t)" for t
    using assms by (subst pchain.simps) (simp add: Let_def n_def)
  ultimately show thesis by (intro that [of "take n bs" "drop n bs"]) simp_all
qed

lemma range_at_append: "range_at k d (p @ q) \<longleftrightarrow> range_at k d p \<and> range_at k (d + length p) q"
proof
  assume r: "range_at k d (p @ q)"
  then have e: "take (length p) (drop d k) @ take (length q) (drop (d + length p) k) = p @ q"
    by (simp add: range_at_def take_add add.commute)
  have "length (take (length p) (drop d k)) = length p"
  proof -
    have "length (p @ q) \<le> length (drop d k)" using r by (metis length_take min.cobounded1 range_at_def)
    then show ?thesis by simp
  qed
  with e have s: "take (length p) (drop d k) = p" "take (length q) (drop (d + length p) k) = q" by auto
  moreover have "d + length p \<le> length k" using s(1) r by (metis add_le_cancel_left length_drop length_take
        le_add_diff_inverse min.cobounded1 range_at_def)
  ultimately show "range_at k d p \<and> range_at k (d + length p) q" using r by (simp add: range_at_def)
next
  assume "range_at k d p \<and> range_at k (d + length p) q"
  then show "range_at k d (p @ q)" by (simp add: range_at_def take_add add.commute)
qed

lemma alook_pchain: "alook (pchain bs t) k d = (if bs = [] \<or> range_at k d bs then alook t k (d + length bs) else NotFoundR)"
proof (induction bs arbitrary: t rule: length_induct)
  case (1 bs)
  show ?case
  proof (cases "bs = []")
    case False
    then obtain u w where s: "bs = u @ w" "w \<noteq> []" "\<And>t. pchain bs t = pchain u (APrefix w t)"
      by (rule pchain_step) blast
    have "alook (pchain u (APrefix w t)) k d =
        (if u = [] \<or> range_at k d u then alook (APrefix w t) k (d + length u) else NotFoundR)"
      using 1 s(1,2) by simp
    moreover have "range_at k (d + length u) w \<Longrightarrow> u = [] \<Longrightarrow> range_at k d u"
      by (simp add: range_at_def)
    ultimately show ?thesis using False s(1,3) by (auto simp: range_at_append add.assoc)
  qed simp
qed

lemma wf_pchain: "wf_art t (path @ bs) \<Longrightarrow> wf_art (pchain bs t) path"
proof (induction bs arbitrary: t rule: length_induct)
  case (1 bs)
  show ?case
  proof (cases "bs = []")
    case False
    then obtain u w where s: "bs = u @ w" "w \<noteq> []" "length w \<le> PREFIX_MAX_INLINE"
      "\<And>t. pchain bs t = pchain u (APrefix w t)"
      by (rule pchain_step) blast
    have "wf_art (APrefix w t) (path @ u)" using 1(2) s by simp
    then show ?thesis using 1(1) s by simp
  qed (use 1 in simp)
qed

lemma zero_free_pchain: "zero_free (pchain bs t) \<longleftrightarrow> ends_path bs t \<and> zero_free t"
proof (induction bs arbitrary: t rule: length_induct)
  case (1 bs)
  show ?case
  proof (cases "bs = []")
    case False
    then obtain u w where s: "bs = u @ w" "w \<noteq> []" "\<And>t. pchain bs t = pchain u (APrefix w t)"
      by (rule pchain_step) blast
    have "zero_free (pchain u (APrefix w t)) \<longleftrightarrow> ends_path u (APrefix w t) \<and> ends_path w t \<and> zero_free t"
      using 1 s(1,2) by simp
    also have "ends_path u (APrefix w t) \<longleftrightarrow> 0 \<notin> set u"
      by (auto simp: ends_path_def dest: in_set_butlastD)
    finally show ?thesis using s by (simp add: ends_path_append)
  qed simp
qed

lemma sbind_assoc: "sbind (sbind m f) g = sbind m (\<lambda>x. sbind (f x) g)"
  by (rule ext) (simp add: sbind_def split: prod.splits sum.splits)

lemma sbind_sret_left: "sbind (sret x) f = f x"
  by (simp add: sbind_def sret_def)

lemma write_prefix_loop_step:
  assumes "bs = u @ w" "w \<noteq> []" "length w = min (length bs) PREFIX_MAX_INLINE" "prefix_new w c = Inr p"
  shows "write_prefix_loop bs c c0 =
    sbind (new_node PrefixT (enc_prefix p)) (\<lambda>slot. write_prefix_loop u slot slot)"
proof -
  have l: "length bs - min (length bs) PREFIX_MAX_INLINE = length u" using assms by simp
  have ne: "bs \<noteq> []" and t: "take (length u) bs = u" "drop (length u) bs = w" using assms by simp_all
  show ?thesis
    by (subst write_prefix_loop.simps)
      (simp only: l ne t Let_def if_False assms(4) sbind_sread_const new_node_def sbind_assoc sbind_sret_left)
qed

text \<open>
  A context: memory \<open>N\<close> that makes a tree with root slot \<open>s\<close> out of any tree with root slot \<open>c\<close>.
\<close>

definition ctx :: "buf \<Rightarrow> nat \<Rightarrow> nat \<Rightarrow> nat set \<Rightarrow> (art \<Rightarrow> art) \<Rightarrow> bool" where
  "ctx b s c N f \<longleftrightarrow> (\<forall>b2 t F. (\<forall>a \<in> N. b2 a = b a) \<longrightarrow> num_slots b \<le> num_slots b2 \<longrightarrow> tree b2 c t F \<longrightarrow> N \<inter> F = {}
     \<longrightarrow> tree b2 s (f t) (N \<union> F))"

lemma ctxI:
  assumes "\<And>b2 t F. \<lbrakk>\<forall>a \<in> N. b2 a = b a; num_slots b \<le> num_slots b2; tree b2 c t F; N \<inter> F = {}\<rbrakk> \<Longrightarrow> tree b2 s (f t) (N \<union> F)"
  shows "ctx b s c N f"
  unfolding ctx_def using assms by blast

lemma ctx_plug: "ctx b s c N f \<Longrightarrow> tree b c t F \<Longrightarrow> N \<inter> F = {} \<Longrightarrow> tree b s (f t) (N \<union> F)"
  by (simp add: ctx_def)

lemma ctx_frame:
  assumes "ctx b s c N f" and "\<forall>a \<in> N. b' a = b a" and "num_slots b \<le> num_slots b'"
  shows "ctx b' s c N f"
proof (rule ctxI)
  fix b2 t F assume a: "\<forall>a \<in> N. b2 a = b' a" "num_slots b' \<le> num_slots b2" "tree b2 c t F" "N \<inter> F = {}"
  then have "\<forall>a \<in> N. b2 a = b a" "num_slots b \<le> num_slots b2" using assms(2,3) by auto
  with a(3,4) assms(1) show "tree b2 s (f t) (N \<union> F)" by (simp add: ctx_def)
qed

lemma ctx_eff:
  assumes "ctx b s c N f" and "eff b fl F b' fl' F'" and "N \<inter> F = {}" and "N \<inter> owned b fl = {}"
  shows "ctx b' s c N f"
  by (rule ctx_frame [OF assms(1) _ eff_num_slots [OF assms(2)]]) (use eff_sep(3) [OF assms(2-4)] in blast)

lemma ctx_comp:
  assumes f: "ctx b s c N f" and g: "ctx b c d M g" and dis: "N \<inter> M = {}"
  shows "ctx b s d (N \<union> M) (\<lambda>t. f (g t))"
proof (rule ctxI)
  fix b2 t F assume a: "\<forall>a \<in> N \<union> M. b2 a = b a" "num_slots b \<le> num_slots b2" "tree b2 d t F" "(N \<union> M) \<inter> F = {}"
  have c2: "ctx b2 s c N f" "ctx b2 c d M g" using a(1,2) ctx_frame f g by blast+
  have "tree b2 c (g t) (M \<union> F)" by (rule ctx_plug [OF c2(2) a(3)]) (use a(4) in blast)
  then have "tree b2 s (f (g t)) (N \<union> (M \<union> F))" by (rule ctx_plug [OF c2(1)]) (use a(4) dis in blast)
  then show "tree b2 s (f (g t)) (N \<union> M \<union> F)" by (simp add: Un_assoc)
qed

lemma prefix_ctx:
  assumes n: "node_at b s PrefixT off" and body: "rd b off 128 = enc_prefix p" and wf: "wf_prefix p"
    and len: "prefix_len p \<le> PREFIX_MAX_INLINE"
  shows "ctx b s (pfx_child p) (nfoot s PrefixT off) (APrefix (take (prefix_len p) (pfx_bytes p)))"
proof (rule ctxI)
  fix b2 t F assume a: "\<forall>a \<in> nfoot s PrefixT off. b2 a = b a" "num_slots b \<le> num_slots b2"
    "tree b2 (pfx_child p) t F" "nfoot s PrefixT off \<inter> F = {}"
  have n2: "node_at b2 s PrefixT off" using a by (intro node_at_cong [OF n]) auto
  have "rd b2 off 128 = rd b off 128" by (rule rd_cong) (use a(1) in \<open>auto simp: nfoot_def\<close>)
  then have "rd b2 off 128 = enc_prefix p" using body by simp
  then show "tree b2 s (APrefix (take (prefix_len p) (pfx_bytes p)) t) (nfoot s PrefixT off \<union> F)"
    by (rule prefix_tree [OF n2 _ wf len a(3,4)])
qed

text \<open>The outcome of code that wraps the node at slot \<open>c\<close>.\<close>

definition wrapped :: "buf \<Rightarrow> (node_type \<Rightarrow> nat list) \<Rightarrow> nat \<Rightarrow> (art \<Rightarrow> art) \<Rightarrow> error + nat \<Rightarrow> buf \<Rightarrow> bool" where
  "wrapped b fl c f r b' \<longleftrightarrow>
     (case r of
        Inl e \<Rightarrow> (\<exists>a. e = Alloc a) \<and> (\<exists>fl'. eff b fl {} b' fl' {})
      | Inr s \<Rightarrow> \<exists>fl' N. eff b fl {} b' fl' N \<and> ctx b' s c N f \<and> slot_ok s \<and> s < 65536)"

lemma wrapped_fail: "eff b fl {} b' fl' F \<Longrightarrow> wrapped b fl c f (Inl (Alloc e)) b'"
  using eff_drop [of b fl "{}" b' fl' F "{}"] by (auto simp: wrapped_def)

lemma wrapped_ok: "eff b fl {} b' fl' N \<Longrightarrow> ctx b' s c N f \<Longrightarrow> slot_ok s \<Longrightarrow> s < 65536 \<Longrightarrow> wrapped b fl c f (Inr s) b'"
  by (auto simp: wrapped_def)

lemma wrapped_after:
  assumes e: "eff b fl {} b1 fl1 N1" and g: "ctx b1 c d N1 g" and w: "wrapped b1 fl1 c f r b'"
  shows "wrapped b fl d (\<lambda>t. f (g t)) r b'"
proof -
  have N1: "N1 \<inter> {} = {}" "N1 \<inter> owned b1 fl1 = {}" using eff_holds [OF e] by (simp_all add: holds_def)
  show ?thesis
  proof (cases r)
    case (Inl x)
    with w obtain fl' a where x: "x = Alloc a" "eff b1 fl1 {} b' fl' {}" by (auto simp: wrapped_def)
    have "eff b fl {} b' fl' ({} \<union> N1)" using eff_trans [OF e] eff_add [OF x(2) N1] by simp
    then show ?thesis using wrapped_fail Inl x(1) by blast
  next
    case (Inr s)
    with w obtain fl' N where x: "eff b1 fl1 {} b' fl' N" "ctx b' s c N f" "slot_ok s" "s < 65536"
      by (auto simp: wrapped_def)
    have "eff b fl {} b' fl' (N \<union> N1)" using eff_trans [OF e] eff_add [OF x(1) N1] by simp
    moreover have "N \<inter> N1 = {}" using eff_sep(1) [OF x(1) N1] by blast
    then have "ctx b' s d (N \<union> N1) (\<lambda>t. f (g t))" by (rule ctx_comp [OF x(2) ctx_eff [OF g x(1) N1]])
    ultimately show ?thesis using wrapped_ok x Inr by blast
  qed
qed

lemma node_at_slot_ok: "node_at b s nt off \<Longrightarrow> slot_ok s \<and> s < 65536"
  by (auto simp: node_at_def slot_ok_def layout_consts)

lemma write_prefix_loop_spec:
  assumes "holds b fl {}" and "slot_ok c" and "c < 65536"
  shows "case write_prefix_loop bs c c b of (r, b') \<Rightarrow> wrapped b fl c (pchain bs) r b'"
  using assms
proof (induction bs arbitrary: b fl c rule: length_induct)
  case (1 bs)
  note h0 = 1(2)
  show ?case
  proof (cases "bs = []")
    case True
    have "write_prefix_loop bs c c b = (Inr c, b)"
      unfolding True by (subst write_prefix_loop.simps) (simp add: sret_def)
    moreover have "ctx b c c {} (pchain bs)" using True by (intro ctxI) simp
    ultimately show ?thesis using wrapped_ok [OF eff_refl [OF h0]] 1(3,4) by simp
  next
    case False
    define n where "n = length bs - min (length bs) PREFIX_MAX_INLINE"
    have n: "n < length bs" "length bs - n = min (length bs) PREFIX_MAX_INLINE"
      using False by (auto simp: n_def PREFIX_MAX_INLINE_def)
    define u where "u = take n bs"
    define w where "w = drop n bs"
    have s: "bs = u @ w" "w \<noteq> []" "length w = min (length bs) PREFIX_MAX_INLINE" "length u < length bs"
      using n by (simp_all add: u_def w_def)
    have ch: "pchain bs = (\<lambda>t. pchain u (APrefix w t))"
      using False by (intro ext) (subst pchain.simps, simp add: Let_def n_def u_def w_def)
    have "length w \<le> PREFIX_MAX_INLINE" using s(3) by simp
    then obtain p where p: "prefix_new w c = Inr p" "wf_prefix p" "prefix_len p = length w"
        "take (prefix_len p) (pfx_bytes p) = w" "pfx_child p = c"
      using 1(4) by (rule prefix_new_ok)
    note step = write_prefix_loop_step [OF s(1-3) p(1)]
    have "PrefixT \<noteq> Invalid" "length (enc_prefix p) = node_bytes PrefixT"
      using p(2) by (simp_all add: prefix.length_enc)
    with h0 show ?thesis
    proof (cases rule: new_node_spec)
      case (fail e)
      then have "write_prefix_loop bs c c b = (Inl (Alloc e), b)" unfolding step by (simp add: sbind_Inl)
      then show ?thesis using wrapped_fail [OF eff_refl [OF h0]] by simp
    next
      case (ok sl off b1 fl1)
      have len: "prefix_len p \<le> PREFIX_MAX_INLINE" using p(3) s(3) by simp
      have body: "rd b1 off 128 = enc_prefix p" using ok(3) by simp
      have cx: "ctx b1 sl c (nfoot sl PrefixT off) (APrefix w)"
        using prefix_ctx [OF ok(2) body p(2) len] p(4,5) by simp
      have h1: "holds b1 fl1 {}" using eff_holds [OF ok(4)] by (rule holds_sub) simp
      have IH: "case write_prefix_loop u sl sl b1 of (r, b') \<Rightarrow> wrapped b1 fl1 sl (pchain u) r b'"
        by (rule 1(1) [rule_format, OF s(4) h1]) (use node_at_slot_ok [OF ok(2)] in simp_all)
      have "write_prefix_loop bs c c b = write_prefix_loop u sl sl b1"
        unfolding step using ok(1) by (simp add: sbind_Inr)
      then show ?thesis using wrapped_after [OF ok(4) cx] IH ch by (auto split: prod.splits)
    qed
  qed
qed

lemma write_prefix_chain_spec:
  assumes "holds b fl {}" and "slot_ok c" and "c < 65536" and "bs \<noteq> []"
  shows "case write_prefix_chain bs c b of (r, b') \<Rightarrow> wrapped b fl c (pchain bs) r b'"
proof -
  have "write_prefix_chain bs c b = write_prefix_loop bs c c b"
    using assms(4) by (simp add: write_prefix_chain_def) (subst (1 2) write_prefix_loop.simps, simp)
  then show ?thesis using write_prefix_loop_spec [OF assms(1-3), of bs] by simp
qed

lemma chain_or_not_spec:
  assumes "holds b fl {}" and "slot_ok c" and "c < 65536"
  shows "case (if bs = [] then sret c else write_prefix_chain bs c) b of (r, b') \<Rightarrow> wrapped b fl c (pchain bs) r b'"
proof (cases "bs = []")
  case True
  have "ctx b c c {} (pchain bs)" using True by (intro ctxI) simp
  then show ?thesis using wrapped_ok [OF eff_refl [OF assms(1)]] assms True by (simp add: sret_def)
next
  case False
  then show ?thesis using write_prefix_chain_spec [OF assms False] by simp
qed

text \<open>A branch with a new leaf on one side, as a context for the other side.\<close>

lemma branch_ctx:
  assumes n: "node_at b s Node4T off" and i: "inode b off Node4T (kins y l [(x, c)])" and xy: "x \<noteq> y"
    and l: "tree b l u Fl" and d: "nfoot s Node4T off \<inter> Fl = {}"
  shows "ctx b s c (nfoot s Node4T off \<union> Fl) (\<lambda>t. AInner Node4T (kins y u [(x, t)]))"
proof (rule ctxI)
  let ?N = "nfoot s Node4T off"
  fix b2 t F assume a: "\<forall>a \<in> ?N \<union> Fl. b2 a = b a" "num_slots b \<le> num_slots b2" "tree b2 c t F" "(?N \<union> Fl) \<inter> F = {}"
  have n2: "node_at b2 s Node4T off" using a by (intro node_at_cong [OF n]) auto
  have i2: "inode b2 off Node4T (kins y l [(x, c)])" using a(1) by (intro inode_cong [OF i]) (auto simp: nfoot_def)
  have l2: "tree b2 l u Fl" using a(1,2) by (intro tree_frame(1) [OF l]) auto
  have "forest b2 [(x, c)] [(x, t)] F" using forest_Cons [OF a(3) forest_Nil, of x] by simp
  then have "forest b2 (kins y l [(x, c)]) (kins y u [(x, t)]) (Fl \<union> F)"
    using xy a(4) by (intro forest_insert [OF _ _ l2]) auto
  then have "tree b2 s (AInner Node4T (kins y u [(x, t)])) (?N \<union> (Fl \<union> F))"
    by (rule tree_inner [OF n2 i2]) (use d a(4) in blast)
  then show "tree b2 s (AInner Node4T (kins y u [(x, t)])) (?N \<union> Fl \<union> F)" by (simp add: Un_assoc)
qed

lemma set_prefix_child_spec:
  assumes n: "node_at b s PrefixT off" and p: "p = dec_prefix (rd b off 128)" and c: "c < 65536"
    and h: "holds b fl (nfoot s PrefixT off)"
  obtains b' where "set_prefix_child s c b = (Inr (), b')" and "node_at b' s PrefixT off"
    and "dec_prefix (rd b' off 128) = p\<lparr>pfx_child := c\<rparr>"
    and "eff b fl (nfoot s PrefixT off) b' fl (nfoot s PrefixT off)"
proof -
  let ?p = "p\<lparr>pfx_child := c\<rparr>"
  have "wf_prefix p" using p by (simp add: prefix.wf_dec)
  then have wf: "wf_prefix ?p" using c by (simp add: wf_prefix_def)
  have len: "length (enc_prefix ?p) = node_bytes PrefixT" using wf by (simp add: prefix.length_enc)
  note w = write_struct_spec [OF n len h]
  have "set_prefix_child s c b = (Inr (), wr b off (enc_prefix ?p))"
    using w(1) n p by (simp add: set_prefix_child_def read_prefix_def body_of_slot_node_at)
  moreover have "dec_prefix (rd (wr b off (enc_prefix ?p)) off 128) = ?p"
    using wf by (rule prefix.read_after_write)
  ultimately show thesis using that w by blast
qed

end
