(* ===== verification/Lookup.thy ===== *)
theory Lookup
  imports Tree_Ops
begin

text \<open>
  The single-blob lookup of \<^verbatim>\<open>src/engine/walker/lookup.rs\<close> and its refinement of the abstract
  lookup.  The recursion of the descent is bounded by fuel, which stands for the call stack:
  running out of it is the value \<open>StackOverflow\<close>, and a tree of height below the fuel never does.
\<close>

section \<open>Descent\<close>

text \<open>Each handler gets the recursive call as its argument \<open>descend\<close>.\<close>

definition blob_descend :: "buf \<Rightarrow> nat \<Rightarrow> search_key \<Rightarrow> nat \<Rightarrow> lookup_result res" where
  "blob_descend b off key depth =
     (let n = dec_blob_node (rd b off 128); plen = bn_prefix_len n
      in if plen > BLOB_MAX_INLINE
         then Inl (node_corrupt ''walker::blob_descend: prefix_len exceeds inline buffer'')
         else if \<not> range_eq key depth (take plen (bn_bytes n)) then Inr NotFoundR
         else Inr (Crossing (child_blob_guid n) (depth + plen)))"

definition leaf_check :: "buf \<Rightarrow> nat \<Rightarrow> search_key \<Rightarrow> lookup_result res" where
  "leaf_check b off key =
     (let l = dec_leaf (rd b off 16)
      in if tombstone l \<noteq> 0 then Inr NotFoundR
         else rbind (leaf_extent b l) (\<lambda>(leaf_key, value).
           if \<not> eq_slice key leaf_key then Inr NotFoundR else Inr (Found value (leaf_seq l))))"

definition prefix_descend :: "(nat \<Rightarrow> nat \<Rightarrow> lookup_result res) \<Rightarrow> buf \<Rightarrow> nat \<Rightarrow> search_key \<Rightarrow> nat \<Rightarrow> lookup_result res" where
  "prefix_descend descend b off key depth =
     (let p = dec_prefix (rd b off 128); plen = prefix_len p
      in if plen > length (pfx_bytes p)
         then Inl (node_corrupt ''walker::prefix_descend: prefix_len exceeds inline buffer'')
         else if \<not> range_eq key depth (take plen (pfx_bytes p)) then Inr NotFoundR
         else descend (as_u16 (pfx_child p)) (depth + plen))"

definition node4_descend :: "(nat \<Rightarrow> nat \<Rightarrow> lookup_result res) \<Rightarrow> buf \<Rightarrow> nat \<Rightarrow> search_key \<Rightarrow> nat \<Rightarrow> lookup_result res" where
  "node4_descend descend b off key depth =
     (let n = dec_node4 (rd b off 24)
      in case byte_at key depth of
           None \<Rightarrow> Inr NotFoundR
         | Some byte \<Rightarrow>
             (case node4_scan (take (min (n4_count n) 4) (zip (n4_keys n) (n4_children n))) byte of
                Some c \<Rightarrow> descend (as_u16 c) (depth + 1)
              | None \<Rightarrow> Inr NotFoundR))"

definition node16_descend :: "(nat \<Rightarrow> nat \<Rightarrow> lookup_result res) \<Rightarrow> buf \<Rightarrow> nat \<Rightarrow> search_key \<Rightarrow> nat \<Rightarrow> lookup_result res" where
  "node16_descend descend b off key depth =
     (let n = dec_node16 (rd b off 88)
      in case byte_at key depth of
           None \<Rightarrow> Inr NotFoundR
         | Some byte \<Rightarrow>
             (case node16_find_byte host (n16_keys n) (n16_count n) byte of
                Some i \<Rightarrow> descend (as_u16 (n16_children n ! i)) (depth + 1)
              | None \<Rightarrow> Inr NotFoundR))"

definition node48_descend :: "(nat \<Rightarrow> nat \<Rightarrow> lookup_result res) \<Rightarrow> buf \<Rightarrow> nat \<Rightarrow> search_key \<Rightarrow> nat \<Rightarrow> lookup_result res" where
  "node48_descend descend b off key depth =
     (let n = dec_node48 (rd b off 456)
      in case byte_at key depth of
           None \<Rightarrow> Inr NotFoundR
         | Some byte \<Rightarrow>
             (let idx = unat (n48_index n ! unat byte); ci = idx - 1
              in if idx = 0 then Inr NotFoundR
                 else if ci \<ge> 48 then Inl (node_corrupt ''walker::node48_descend: child index out of range'')
                 else descend (as_u16 (n48_children n ! ci)) (depth + 1)))"

definition node256_descend :: "(nat \<Rightarrow> nat \<Rightarrow> lookup_result res) \<Rightarrow> buf \<Rightarrow> nat \<Rightarrow> search_key \<Rightarrow> nat \<Rightarrow> lookup_result res" where
  "node256_descend descend b off key depth =
     (let n = dec_node256 (rd b off 1032)
      in case byte_at key depth of
           None \<Rightarrow> Inr NotFoundR
         | Some byte \<Rightarrow>
             (let slot = n256_children n ! unat byte
              in if slot = 0 then Inr NotFoundR else descend (as_u16 slot) (depth + 1)))"

fun descend :: "nat \<Rightarrow> buf \<Rightarrow> nat \<Rightarrow> search_key \<Rightarrow> nat \<Rightarrow> lookup_result res" where
  "descend 0 b slot key depth = Inl StackOverflow"
| "descend (Suc fuel) b slot key depth =
     rbind (resolve_typed b slot) (\<lambda>(ntype, off).
       let next = \<lambda>s d. descend fuel b s key d
       in case ntype of
            Invalid \<Rightarrow> Inl (node_corrupt ''walker::descend: hit NodeType::Invalid'')
          | EmptyRoot \<Rightarrow> Inr NotFoundR
          | LeafT \<Rightarrow> leaf_check b off key
          | PrefixT \<Rightarrow> prefix_descend next b off key depth
          | Node4T \<Rightarrow> node4_descend next b off key depth
          | Node16T \<Rightarrow> node16_descend next b off key depth
          | Node48T \<Rightarrow> node48_descend next b off key depth
          | Node256T \<Rightarrow> node256_descend next b off key depth
          | BlobT \<Rightarrow> blob_descend b off key depth)"

definition lookup_at :: "nat \<Rightarrow> buf \<Rightarrow> nat \<Rightarrow> search_key \<Rightarrow> nat \<Rightarrow> lookup_result res" where
  "lookup_at fuel b start_slot key depth = descend fuel b start_slot key depth"

definition lookup :: "nat \<Rightarrow> buf \<Rightarrow> nat \<Rightarrow> bytes \<Rightarrow> lookup_result res" where
  "lookup fuel b start_slot key = descend fuel b start_slot (sk_exact key) 0"

section \<open>Refinement of the abstract lookup\<close>

lemma resolve_typed_node_at: "node_at b s nt off \<Longrightarrow> resolve_typed b s = Inr (nt, off)"
  by (simp add: resolve_typed_def slot_entry_node_at body_of_slot_node_at)

lemma ntype_of_node_at: "node_at b s nt off \<Longrightarrow> ntype_of b s = Inr nt"
  by (simp add: ntype_of_def slot_entry_node_at)

lemma leaf_at_parts:
  assumes "leaf_at b l k v"
  shows "bytes_at b (key_offset l) 2 = Some (nat_le 2 (length k))"
    and "bytes_at b (key_offset l + 2) (length k) = Some k"
    and "bytes_at b (key_offset l) (2 + length k + length v) = Some (nat_le 2 (length k) @ k @ v)"
    and "le_nat (nat_le 2 (length k)) = length k"
proof -
  let ?o = "key_offset l" and ?n = "2 + length k + length v"
  have r: "rd b ?o ?n = nat_le 2 (length k) @ k @ v" and lt: "length k < 65536" "length v < 65536"
    and hi: "?o + leaf_extent_size (length k) (length v) \<le> PAGE_SIZE" "DATA_AREA_START \<le> ?o"
    using assms by (auto simp: leaf_at_def)
  have n: "?o + ?n \<le> PAGE_SIZE" using hi leaf_extent_covers [OF lt] by linarith
  have parts: "rd b ?o 2 = nat_le 2 (length k)" "rd b (?o + 2) (length k) = k"
  proof -
    have "rd b ?o 2 = take 2 (rd b ?o ?n)" by (simp add: take_rd)
    then show "rd b ?o 2 = nat_le 2 (length k)" unfolding r by simp
    have "rd b (?o + 2) (length k) = take (length k) (drop 2 (rd b ?o ?n))" by (simp add: take_rd drop_rd)
    then show "rd b (?o + 2) (length k) = k" unfolding r by simp
  qed
  show "bytes_at b ?o 2 = Some (nat_le 2 (length k))" using parts n by (simp add: bytes_at_def)
  show "bytes_at b (?o + 2) (length k) = Some k" using parts n by (simp add: bytes_at_def)
  show "bytes_at b ?o ?n = Some (nat_le 2 (length k) @ k @ v)" using r n by (simp add: bytes_at_def)
  show "le_nat (nat_le 2 (length k)) = length k" using lt by simp
qed

lemma leaf_extent_leaf_at:
  assumes "leaf_at b l k v"
  shows "leaf_extent b l = Inr (k, v)" and "leaf_key_extent b l = Inr k"
  using leaf_at_parts [OF assms] assms
  by (simp_all add: leaf_extent_def leaf_key_extent_def Let_def leaf_at_def)

lemma inner_descend:
  assumes n: "node_at b s nt off" and i: "inode b off nt ks" and lt: "\<And>k c. map_of ks k = Some c \<Longrightarrow> c < 65536"
  shows "descend (Suc fuel) b s key depth =
    (case byte_at key depth of None \<Rightarrow> Inr NotFoundR
     | Some k \<Rightarrow> (case map_of ks k of None \<Rightarrow> Inr NotFoundR | Some c \<Rightarrow> descend fuel b c key (depth + 1)))"
proof -
  have u: "as_u16 c = c" if "map_of ks k = Some c" for k c using lt [OF that] by (simp add: as_u16_def)
  from i show ?thesis
  proof (cases rule: inode_cases)
    case (node4 m)
    show ?thesis
      using n node4 u node4_find_kids [OF node4(3)]
      by (auto simp: resolve_typed_node_at node4_descend_def node4_find_def Let_def split: option.splits)
  next
    case (node16 m)
    have k: "map_of ks k = map_option (\<lambda>i. n16_children m ! i) (node16_find_byte host (n16_keys m) (n16_count m) k)" for k
      using node16 node16_find_kids [OF node16(3)] by (simp add: node16_find_def)
    have u16: "as_u16 (n16_children m ! i) = n16_children m ! i"
      if "node16_find_byte host (n16_keys m) (n16_count m) k = Some i" for k i
      using u [of k] k [of k] that by simp
    show ?thesis
      using n node16(1,2) u16 by (auto simp: resolve_typed_node_at node16_descend_def k Let_def split: option.splits)
  next
    case (node48 m)
    have k: "map_of ks k = (let idx = unat (n48_index m ! unat k) in
        if idx = 0 then None else Some (n48_children m ! (idx - 1)))" for k
      unfolding node48(4) by (simp add: kids48_def slot48_def)
    show ?thesis
    proof (cases "byte_at key depth")
      case None
      then show ?thesis using n node48(1,2) by (simp add: resolve_typed_node_at node48_descend_def)
    next
      case (Some x)
      have "unat (n48_index m ! unat x) \<le> 48" by (rule inv48_lengths(4) [OF node48(3) u8_bound])
      then show ?thesis
        using Some n node48(1,2) k [of x] u [of x]
        by (cases "unat (n48_index m ! unat x) = 0") (auto simp: resolve_typed_node_at node48_descend_def Let_def)
    qed
  next
    case (node256 m)
    have k: "map_of ks k = (if n256_children m ! unat k = 0 then None else Some (n256_children m ! unat k))" for k
      unfolding node256(4) by (simp add: kids256_def slot256_def Let_def)
    show ?thesis
    proof (cases "byte_at key depth")
      case None
      then show ?thesis using n node256(1,2) by (simp add: resolve_typed_node_at node256_descend_def)
    next
      case (Some x)
      then show ?thesis
        using n node256(1,2) k [of x] u [of x]
        by (cases "n256_children m ! unat x = 0") (auto simp: resolve_typed_node_at node256_descend_def Let_def)
    qed
  qed
qed

lemma descend_refines:
  assumes "tree b s t F" and "height t < fuel"
  shows "descend fuel b s key depth = Inr (alook t (view key) depth)"
  using assms
proof (induction fuel arbitrary: s t F depth)
  case (Suc fuel)
  note hf = Suc.prems(2)
  from Suc.prems(1) show ?case
  proof (cases rule: tree.cases)
    case (tree_empty off)
    then show ?thesis by (simp add: resolve_typed_node_at)
  next
    case (tree_leaf off l k v)
    then show ?thesis
      by (auto simp: resolve_typed_node_at leaf_check_def Let_def leaf_extent_leaf_at eq_slice_view)
  next
    case (tree_prefix off p t' F')
    have c: "as_u16 (pfx_child p) = pfx_child p" using tree_slot_ok [OF tree_prefix(6)] by (simp add: as_u16_def)
    have "length (pfx_bytes p) = 112"
      using prefix.wf_dec [of "rd b off 128"] tree_prefix(4) by (simp add: wf_prefix_def)
    then have len: "\<not> prefix_len p > length (pfx_bytes p)" "length (take (prefix_len p) (pfx_bytes p)) = prefix_len p"
      using tree_prefix(5) by (simp_all add: PREFIX_MAX_INLINE_def)
    have IH: "descend fuel b (pfx_child p) key d = Inr (alook t' (view key) d)" for d
      using Suc.IH [OF tree_prefix(6)] hf tree_prefix(1) by simp
    show ?thesis
      using tree_prefix(1,3,4) len c IH
      by (simp add: resolve_typed_node_at prefix_descend_def Let_def range_eq_view range_at_def)
  next
    case (tree_inner nt off ks ts F')
    have lt: "\<And>k c. map_of ks k = Some c \<Longrightarrow> c < 65536" using forest_slots [OF tree_inner(5)] .
    have sorted: "keys_sorted ks" using inode_table(1) [OF tree_inner(4)] .
    have IH: "(case map_of ks k of None \<Rightarrow> Inr NotFoundR | Some c \<Rightarrow> descend fuel b c key d)
        = Inr (case map_of ts k of None \<Rightarrow> NotFoundR | Some t' \<Rightarrow> alook t' (view key) d)" for k d
    proof (cases "map_of ks k")
      case None
      then have "map_of ts k = None" using forest_None [OF tree_inner(5)] by blast
      with None show ?thesis by simp
    next
      case (Some c)
      obtain t' Fc where t': "map_of ts k = Some t'" "tree b c t' Fc"
        using forest_replace [OF tree_inner(5) sorted Some] by metis
      then have "height t' < fuel" using height_child [OF t'(1), of nt] hf tree_inner(1) by simp
      then show ?thesis using Suc.IH [OF t'(2)] Some t'(1) by simp
    qed
    have "descend (Suc fuel) b s key depth = (case byte_at key depth of None \<Rightarrow> Inr NotFoundR
       | Some k \<Rightarrow> (case map_of ks k of None \<Rightarrow> Inr NotFoundR | Some c \<Rightarrow> descend fuel b c key (depth + 1)))"
      by (rule inner_descend [OF tree_inner(3,4) lt])
    then show ?thesis unfolding IH unfolding tree_inner(1) alook_AInner by (simp add: byte_at_view)
  next
    case (tree_blob off n)
    have "length (bn_bytes n) = 104"
      using blob_node.wf_dec [of "rd b off 128"] tree_blob(4) by (simp add: wf_blob_node_def)
    then have "length (take (bn_prefix_len n) (bn_bytes n)) = bn_prefix_len n"
      using tree_blob(5) by (simp add: BLOB_MAX_INLINE_def)
    then show ?thesis
      using tree_blob by (simp add: resolve_typed_node_at blob_descend_def Let_def range_eq_view range_at_def)
  qed
qed simp

end
