(* ===== verification/Insert.thy ===== *)
theory Insert
  imports Lookup
begin

text \<open>
  The in-blob insert of \<^verbatim>\<open>src/engine/walker/insert.rs\<close>: one definition per node kind,
  dispatched by \<open>insert_at_step\<close>, whose recursion is bounded by fuel as in \<^verbatim>\<open>Lookup\<close>.
  A step either is done, telling the parent which slot to point at, or reaches a crossing
  into another blob.
\<close>

section \<open>Types (\<^verbatim>\<open>types.rs\<close>)\<close>

datatype insert_condition = Always | IfAbsent | IfVersion nat

record insert_return =
  slot_after :: nat
  ins_mutated :: bool

datatype insert_step = Done insert_return | InsCrossing blob_guid nat

fun is_if_version :: "insert_condition \<Rightarrow> bool" where
  "is_if_version (IfVersion _) = True"
| "is_if_version _ = False"

definition keep :: "nat \<Rightarrow> insert_return" where
  "keep slot = \<lparr>slot_after = slot, ins_mutated = False\<rparr>"

definition changed :: "nat \<Rightarrow> insert_return" where
  "changed slot = \<lparr>slot_after = slot, ins_mutated = True\<rparr>"

record leaf_split_plan =
  common_prefix :: bytes
  byte_existing :: u8
  byte_new :: u8

section \<open>Empty root\<close>

definition insert_into_empty_root ::
  "nat \<Rightarrow> search_key \<Rightarrow> bytes \<Rightarrow> nat \<Rightarrow> insert_condition \<Rightarrow> (buf, insert_return) st" where
  "insert_into_empty_root empty_slot key value seq condition =
     (if is_if_version condition then sret (keep empty_slot)
      else sbind (write_leaf key value seq) (\<lambda>new_slot.
           sbind (free_node empty_slot) (\<lambda>_.
           sret (changed new_slot))))"

section \<open>Leaves\<close>

definition dec_tombstones :: "buf \<Rightarrow> buf" where
  "dec_tombstones b = set_tombstone_leaf_cnt (tombstone_leaf_cnt b - 1) b"

text \<open>The guard on the same key: \<open>True\<close> when the update goes ahead.\<close>

definition same_key_guard :: "leaf \<Rightarrow> insert_condition \<Rightarrow> bool" where
  "same_key_guard l condition =
     (if tombstone l = 0
      then (case condition of Always \<Rightarrow> True | IfVersion expected \<Rightarrow> leaf_seq l = expected | IfAbsent \<Rightarrow> False)
      else \<not> is_if_version condition)"

text \<open>Overwriting a value in place: the same size, or a value that fits the old extent.\<close>

definition overwrite_same_size :: "nat \<Rightarrow> leaf \<Rightarrow> search_key \<Rightarrow> bytes \<Rightarrow> nat \<Rightarrow> (buf, insert_return) st" where
  "overwrite_same_size leaf_slot l new_key new_value seq =
     (let value_offset = key_offset l + 2 + sk_len new_key
      in sbind (sread (\<lambda>b. ok_or (bytes_at b value_offset (value_size l))
             (node_corrupt ''insert_into_leaf: same-size value range out of bounds''))) (\<lambda>_.
         sbind (smod (\<lambda>b. wr b value_offset new_value)) (\<lambda>_.
         sbind (write_leaf_seq leaf_slot seq) (\<lambda>_.
         sret (changed leaf_slot)))))"

definition overwrite_fitting :: "nat \<Rightarrow> leaf \<Rightarrow> search_key \<Rightarrow> bytes \<Rightarrow> nat \<Rightarrow> (buf, insert_return) st" where
  "overwrite_fitting leaf_slot l new_key new_value seq =
     (let key_off = key_offset l; key_len = sk_len new_key;
          old_extent_size = leaf_extent_size key_len (value_size l);
          value_offset = key_off + 2 + key_len;
          value_room = old_extent_size - 2 - key_len
      in sbind (sread (\<lambda>b. ok_or (bytes_at b value_offset value_room)
             (node_corrupt ''insert_into_leaf: extent value range out of bounds''))) (\<lambda>_.
         sbind (smod (\<lambda>b. wr b value_offset (new_value @ replicate (value_room - length new_value) 0))) (\<lambda>_.
         sbind (write_struct_to_slot leaf_slot (enc_leaf (leaf_live key_off (as_u16 (length new_value)) seq))) (\<lambda>_.
         sbind (smod (\<lambda>b. if tombstone l \<noteq> 0 then dec_tombstones b else b)) (\<lambda>_.
         sret (changed leaf_slot))))))"

definition replace_leaf :: "nat \<Rightarrow> leaf \<Rightarrow> search_key \<Rightarrow> bytes \<Rightarrow> nat \<Rightarrow> (buf, insert_return) st" where
  "replace_leaf leaf_slot l new_key new_value seq =
     sbind (write_leaf new_key new_value seq) (\<lambda>new_slot.
     sbind (free_node leaf_slot) (\<lambda>_.
     sbind (smod (\<lambda>b. if tombstone l \<noteq> 0 then dec_tombstones b else b)) (\<lambda>_.
     sret (changed new_slot))))"

definition update_same_key ::
  "nat \<Rightarrow> leaf \<Rightarrow> search_key \<Rightarrow> bytes \<Rightarrow> nat \<Rightarrow> insert_condition \<Rightarrow> (buf, insert_return) st" where
  "update_same_key leaf_slot l new_key new_value seq condition =
     (if \<not> same_key_guard l condition then sret (keep leaf_slot)
      else if tombstone l = 0 \<and> length new_value = value_size l
      then overwrite_same_size leaf_slot l new_key new_value seq
      else if leaf_extent_size (sk_len new_key) (length new_value) \<le> leaf_extent_size (sk_len new_key) (value_size l)
      then overwrite_fitting leaf_slot l new_key new_value seq
      else replace_leaf leaf_slot l new_key new_value seq)"

definition plan_split :: "bytes \<Rightarrow> search_key \<Rightarrow> nat \<Rightarrow> leaf_split_plan res" where
  "plan_split existing_key new_key depth =
     (if depth > length existing_key then Inl (Panic ''slice index starts past the end'')
      else
        (let suffix_a = drop depth existing_key;
             common_len = common_prefix_with_slice new_key depth suffix_a
         in if common_len = length suffix_a \<or> common_len = remaining_len new_key depth
            then Inl (NotYetImplemented ''walker::insert_into_leaf: one key is a strict prefix of the other'')
            else rbind (at suffix_a common_len) (\<lambda>be.
                 rbind (ok_or (byte_at new_key (depth + common_len)) (Panic ''new key has divergence byte'')) (\<lambda>bn.
                 Inr \<lparr>common_prefix = take common_len suffix_a, byte_existing = be, byte_new = bn\<rparr>))))"

definition write_leaf_split ::
  "nat \<Rightarrow> search_key \<Rightarrow> bytes \<Rightarrow> nat \<Rightarrow> leaf_split_plan \<Rightarrow> (buf, nat) st" where
  "write_leaf_split leaf_slot new_key new_value seq split =
     sbind (write_leaf new_key new_value seq) (\<lambda>new_leaf.
     sbind (write_node4_with [(byte_existing split, leaf_slot), (byte_new split, new_leaf)]) (\<lambda>n4.
       if common_prefix split = [] then sret n4
       else write_prefix_chain (common_prefix split) n4))"

definition insert_into_leaf ::
  "nat \<Rightarrow> search_key \<Rightarrow> bytes \<Rightarrow> nat \<Rightarrow> nat \<Rightarrow> insert_condition \<Rightarrow> (buf, insert_return) st" where
  "insert_into_leaf leaf_slot new_key new_value depth seq condition =
     sbind (sread (\<lambda>b. read_leaf_key_ref b leaf_slot)) (\<lambda>(existing_key, existing_leaf).
       if eq_slice new_key existing_key
       then update_same_key leaf_slot existing_leaf new_key new_value seq condition
       else sbind (sread (\<lambda>_. plan_split existing_key new_key depth)) (\<lambda>split.
         if is_if_version condition then sret (keep leaf_slot)
         else sbind (write_leaf_split leaf_slot new_key new_value seq split) (\<lambda>final_slot.
              sret (changed final_slot))))"

section \<open>Blob crossings\<close>

definition blob_node_insert_step ::
  "nat \<Rightarrow> search_key \<Rightarrow> bytes \<Rightarrow> nat \<Rightarrow> nat \<Rightarrow> insert_condition \<Rightarrow> bool \<Rightarrow> (buf, insert_step) st" where
  "blob_node_insert_step slot key value depth seq condition allow_crossing =
     sbind (sread (\<lambda>b. ok_or (body_of_slot b slot)
        (node_corrupt ''blob_node_insert_step: BlobNode body resolution failed''))) (\<lambda>(off, len).
     sbind (sget (\<lambda>b. dec_blob_node (rd b off 128))) (\<lambda>bn.
       let plen = bn_prefix_len bn; prefix = take plen (bn_bytes bn);
           common = common_prefix_with_slice key depth prefix
       in if plen > BLOB_MAX_INLINE
          then sfail (node_corrupt ''blob_node_insert_step: BlobNode prefix_len exceeds inline buffer'')
          else if common = plen
          then (if \<not> allow_crossing
                then sfail (NotYetImplemented ''walker::insert_at: BlobNode crossing requires BufferManager'')
                else sret (InsCrossing (child_blob_guid bn) (depth + plen)))
          else
            (case byte_at key (depth + common) of
               None \<Rightarrow> sfail (NotYetImplemented ''blob_node_insert_step: key terminates inside BlobNode prefix'')
             | Some new_div_byte \<Rightarrow>
                 if is_if_version condition then sret (Done (keep slot))
                 else
                   sbind (write_leaf key value seq) (\<lambda>new_leaf.
                   sbind (write_node4_with [(prefix ! common, slot), (new_div_byte, new_leaf)]) (\<lambda>n4.
                   sbind (if common = 0 then sret n4 else write_prefix_chain (take common prefix) n4) (\<lambda>final_slot.
                   sbind (sread (\<lambda>_. blob_node_new (drop (common + 1) prefix) (child_blob_guid bn))) (\<lambda>adjusted.
                   sbind (write_struct_to_slot slot (enc_blob_node adjusted)) (\<lambda>_.
                   sret (Done (changed final_slot)))))))))) "

section \<open>Prefixes and inner nodes\<close>

text \<open>The handlers get the recursive call as an argument.\<close>

definition insert_into_prefix_step ::
  "(nat \<Rightarrow> nat \<Rightarrow> (buf, insert_step) st)
   \<Rightarrow> nat \<Rightarrow> search_key \<Rightarrow> bytes \<Rightarrow> nat \<Rightarrow> nat \<Rightarrow> insert_condition \<Rightarrow> (buf, insert_step) st" where
  "insert_into_prefix_step recurse pfx_slot key value depth seq condition =
     sbind (sread (\<lambda>b. read_prefix b pfx_slot)) (\<lambda>p.
       let plen = prefix_len p; prefix_bytes = take plen (pfx_bytes p);
           child_slot = as_u16 (pfx_child p);
           common = common_prefix_with_slice key depth prefix_bytes
       in if plen > length (pfx_bytes p) then sfail (Panic ''slice index past the end'')
          else if common = plen
          then sbind (recurse child_slot (depth + plen)) (\<lambda>r.
            case r of
              InsCrossing g d \<Rightarrow> sret (InsCrossing g d)
            | Done r \<Rightarrow>
                sbind (if slot_after r \<noteq> child_slot then set_prefix_child pfx_slot (slot_after r) else sret ()) (\<lambda>_.
                sret (Done \<lparr>slot_after = pfx_slot, ins_mutated = ins_mutated r\<rparr>)))
          else if depth + common \<ge> sk_len key
          then sfail (NotYetImplemented ''walker::insert_into_prefix: key terminates inside a prefix'')
          else
            sbind (sread (\<lambda>_. ok_or (byte_at key (depth + common)) (Panic ''new key has prefix divergence byte''))) (\<lambda>new_div_byte.
              if is_if_version condition then sret (Done (keep pfx_slot))
              else
                (let tail_bytes = drop (common + 1) prefix_bytes
                 in sbind (if tail_bytes = [] then sret child_slot else write_prefix_chain tail_bytes child_slot) (\<lambda>existing_branch_slot.
                    sbind (write_leaf key value seq) (\<lambda>new_leaf.
                    sbind (write_node4_with [(prefix_bytes ! common, existing_branch_slot), (new_div_byte, new_leaf)]) (\<lambda>n4.
                    sbind (if common = 0 then sret n4 else write_prefix_chain (take common prefix_bytes) n4) (\<lambda>final_slot.
                    sbind (free_node pfx_slot) (\<lambda>_.
                    sret (Done (changed final_slot)))))))))) "

definition insert_into_inner_step ::
  "(nat \<Rightarrow> nat \<Rightarrow> (buf, insert_step) st)
   \<Rightarrow> nat \<Rightarrow> node_type \<Rightarrow> search_key \<Rightarrow> bytes \<Rightarrow> nat \<Rightarrow> nat \<Rightarrow> insert_condition \<Rightarrow> (buf, insert_step) st" where
  "insert_into_inner_step recurse inner_slot ntype key value depth seq condition =
     (case byte_at key depth of
        None \<Rightarrow> sfail (NotYetImplemented ''walker::insert_into_inner: key terminates at an inner node'')
      | Some byte \<Rightarrow>
          sbind (sread (\<lambda>b. inner_find_child b inner_slot ntype byte)) (\<lambda>found.
            case found of
              Some child_slot \<Rightarrow>
                sbind (recurse child_slot (depth + 1)) (\<lambda>r.
                  case r of
                    InsCrossing g d \<Rightarrow> sret (InsCrossing g d)
                  | Done r \<Rightarrow>
                      sbind (if slot_after r \<noteq> child_slot
                             then inner_update_child inner_slot ntype byte (slot_after r) else sret ()) (\<lambda>_.
                      sret (Done \<lparr>slot_after = inner_slot, ins_mutated = ins_mutated r\<rparr>)))
            | None \<Rightarrow>
                if is_if_version condition then sret (Done (keep inner_slot))
                else
                  sbind (write_leaf key value seq) (\<lambda>new_leaf.
                  sbind (inner_add_child inner_slot ntype byte new_leaf) (\<lambda>possibly_grown.
                  sret (Done (changed possibly_grown))))))"

section \<open>Dispatch\<close>

fun insert_at_step ::
  "nat \<Rightarrow> nat \<Rightarrow> search_key \<Rightarrow> bytes \<Rightarrow> nat \<Rightarrow> nat \<Rightarrow> insert_condition \<Rightarrow> bool \<Rightarrow> (buf, insert_step) st" where
  "insert_at_step 0 slot key value depth seq condition allow_crossing = sfail StackOverflow"
| "insert_at_step (Suc fuel) slot key value depth seq condition allow_crossing =
     (let recurse = \<lambda>s d. insert_at_step fuel s key value d seq condition allow_crossing;
          finish = \<lambda>m. sbind m (\<lambda>r. sret (Done r))
      in sbind (sread (\<lambda>b. ntype_of b slot)) (\<lambda>ntype.
         case ntype of
           Invalid \<Rightarrow> sfail (node_corrupt ''walker::insert_at: hit NodeType::Invalid'')
         | EmptyRoot \<Rightarrow> finish (insert_into_empty_root slot key value seq condition)
         | LeafT \<Rightarrow> finish (insert_into_leaf slot key value depth seq condition)
         | PrefixT \<Rightarrow> insert_into_prefix_step recurse slot key value depth seq condition
         | BlobT \<Rightarrow> blob_node_insert_step slot key value depth seq condition allow_crossing
         | _ \<Rightarrow> insert_into_inner_step recurse slot ntype key value depth seq condition))"

definition insert_at :: "nat \<Rightarrow> nat \<Rightarrow> search_key \<Rightarrow> bytes \<Rightarrow> nat \<Rightarrow> nat \<Rightarrow> (buf, insert_return) st" where
  "insert_at fuel slot key value depth seq =
     sbind (insert_at_step fuel slot key value depth seq Always False) (\<lambda>r.
       case r of
         Done r \<Rightarrow> sret r
       | InsCrossing _ _ \<Rightarrow> sfail (NotYetImplemented ''walker::insert_at: BlobNode crossing requires BufferManager''))"

end
