(* ===== verification/Erase.thy ===== *)
theory Erase
  imports Insert
begin

text \<open>
  The in-blob erase of \<^verbatim>\<open>src/engine/walker/erase.rs\<close>.  A leaf is soft-deleted: its tombstone is
  set and nothing moves.  The code that rewires parents (the \<open>Replaced\<close> and \<open>SubtreeGone\<close>
  signals, the removal of a child with its collapse and shrink steps) is modelled with it.
\<close>

section \<open>Types\<close>

datatype erase_condition = EAlways | EIfVersion nat

datatype erase_signal = Unchanged | SubtreeGone | Replaced nat

record erase_return =
  signal :: erase_signal
  era_mutated :: bool

datatype erase_step = EDone erase_return | EraCrossing blob_guid nat

definition untouched :: erase_return where
  "untouched = \<lparr>signal = Unchanged, era_mutated = False\<rparr>"

section \<open>Shrinking inner nodes (\<^verbatim>\<open>writers.rs\<close>)\<close>

definition SHRINK_NODE16_TO_NODE4_AT :: nat where "SHRINK_NODE16_TO_NODE4_AT = 3"
definition SHRINK_NODE48_TO_NODE16_AT :: nat where "SHRINK_NODE48_TO_NODE16_AT = 12"
definition SHRINK_NODE256_TO_NODE48_AT :: nat where "SHRINK_NODE256_TO_NODE48_AT = 37"

definition node16_to_4 :: "node16 \<Rightarrow> node4 res" where
  "node16_to_4 old =
     (let c = n16_count old
      in if c > 4 then Inl (Panic ''index out of bounds'')
         else Inr (node4_empty\<lparr>n4_count := c,
           n4_keys := take c (n16_keys old) @ drop c (n4_keys node4_empty),
           n4_children := take c (n16_children old) @ drop c (n4_children node4_empty)\<rparr>))"

definition shrink_node16_to_node4 :: "nat \<Rightarrow> node16 \<Rightarrow> (buf, nat) st" where
  "shrink_node16_to_node4 old_slot old =
     sbind (alloc_node Node4T) (\<lambda>slot.
     sbind (sread (\<lambda>_. node16_to_4 old)) (\<lambda>n.
     sbind (write_struct_to_slot slot (enc_node4 n)) (\<lambda>_.
     sbind (free_node old_slot) (\<lambda>_. sret slot))))"

definition node48_to_16 :: "node48 \<Rightarrow> node16 res" where
  "node48_to_16 old =
     (let ps = scan_positions (find_next_nonzero_byte host (n48_index old)) SCAN_ROUNDS 0;
          cs = map (\<lambda>p. unat (n48_index old ! p) - 1) ps
      in if length ps > 16 \<or> (\<exists>i\<in>set cs. i \<ge> 48) then Inl (Panic ''index out of bounds'')
         else Inr (node16_empty\<lparr>n16_count := n48_count old,
           n16_keys := map of_nat ps @ drop (length ps) (n16_keys node16_empty),
           n16_children := map (\<lambda>i. n48_children old ! i) cs @ drop (length ps) (n16_children node16_empty)\<rparr>))"

definition shrink_node48_to_node16 :: "nat \<Rightarrow> node48 \<Rightarrow> (buf, nat) st" where
  "shrink_node48_to_node16 old_slot old =
     sbind (alloc_node Node16T) (\<lambda>slot.
     sbind (sread (\<lambda>_. node48_to_16 old)) (\<lambda>n.
     sbind (write_struct_to_slot slot (enc_node16 n)) (\<lambda>_.
     sbind (free_node old_slot) (\<lambda>_. sret slot))))"

definition node256_to_48 :: "node256 \<Rightarrow> node48 res" where
  "node256_to_48 old =
     (let ps = scan_positions (find_next_nonzero_u32 host (map of_nat (n256_children old))) SCAN_ROUNDS 0
      in if length ps > 48 then Inl (Panic ''index out of bounds'')
         else Inr (node48_empty\<lparr>n48_count := n256_count old,
           n48_children := map (\<lambda>p. n256_children old ! p) ps @ drop (length ps) (n48_children node48_empty),
           n48_index := fold (\<lambda>(p, i) ix. ix[p := of_nat (i + 1)]) (zip ps [0..<length ps]) (n48_index node48_empty)\<rparr>))"

definition shrink_node256_to_node48 :: "nat \<Rightarrow> node256 \<Rightarrow> (buf, nat) st" where
  "shrink_node256_to_node48 old_slot old =
     sbind (alloc_node Node48T) (\<lambda>slot.
     sbind (sread (\<lambda>_. node256_to_48 old)) (\<lambda>n.
     sbind (write_struct_to_slot slot (enc_node48 n)) (\<lambda>_.
     sbind (free_node old_slot) (\<lambda>_. sret slot))))"

definition finish_inner_with_sorted :: "nat \<Rightarrow> nat \<Rightarrow> bytes \<Rightarrow> u8 \<Rightarrow> nat \<Rightarrow> (buf, erase_signal) st" where
  "finish_inner_with_sorted slot new_count body surviving_byte surviving_child =
     (if new_count = 0 then sbind (free_node slot) (\<lambda>_. sret SubtreeGone)
      else if new_count = 1
      then sbind (free_node slot) (\<lambda>_.
           sbind (write_prefix_chain [surviving_byte] (as_u16 surviving_child)) (\<lambda>new_slot.
           sret (Replaced new_slot)))
      else sbind (write_struct_to_slot slot body) (\<lambda>_. sret Unchanged))"

section \<open>Removing a child\<close>

text \<open>\<open>for j in i..count - 1 { a[j] = a[j + 1] }\<close>, then the last entry is cleared.\<close>

definition close_gap :: "'a list \<Rightarrow> nat \<Rightarrow> nat \<Rightarrow> 'a \<Rightarrow> 'a list" where
  "close_gap xs i count z = (fold (\<lambda>j ys. ys[j := ys ! (j + 1)]) [i..<count - 1] xs)[count - 1 := z]"

definition node4_remove :: "node4 \<Rightarrow> u8 \<Rightarrow> node4 res" where
  "node4_remove n byte =
     (let count = min (n4_count n) 4
      in rbind (ok_or (scalar_scan (\<lambda>k. k = byte) (take count (n4_keys n)) 0)
            (node_corrupt ''inner_remove_child_and_collapse: byte not present (Node4)'')) (\<lambda>i.
         Inr (n\<lparr>n4_keys := close_gap (n4_keys n) i count 0, n4_children := close_gap (n4_children n) i count 0,
                n4_count := n4_count n - 1\<rparr>)))"

definition node16_remove :: "node16 \<Rightarrow> u8 \<Rightarrow> node16 res" where
  "node16_remove n byte =
     (let count = min (n16_count n) 16
      in rbind (ok_or (node16_find_byte host (n16_keys n) (n16_count n) byte)
            (node_corrupt ''inner_remove_child_and_collapse: byte not present (Node16)'')) (\<lambda>i.
         Inr (n\<lparr>n16_keys := close_gap (n16_keys n) i count 0, n16_children := close_gap (n16_children n) i count 0,
                n16_count := n16_count n - 1\<rparr>)))"

definition node48_remove :: "node48 \<Rightarrow> u8 \<Rightarrow> node48 res" where
  "node48_remove n byte =
     (let ci = unat (n48_index n ! unat byte)
      in if ci = 0 then Inl (node_corrupt ''inner_remove_child_and_collapse: byte not present (Node48)'')
         else rbind (at (n48_children n) (ci - 1)) (\<lambda>_.
           if n48_count n = 0 then Inl (Panic ''subtract with overflow'')
           else Inr (n\<lparr>n48_children := (n48_children n)[ci - 1 := 0], n48_index := (n48_index n)[unat byte := 0],
                      n48_count := n48_count n - 1\<rparr>)))"

definition node256_remove :: "node256 \<Rightarrow> u8 \<Rightarrow> node256 res" where
  "node256_remove n byte =
     (if n256_children n ! unat byte = 0
      then Inl (node_corrupt ''inner_remove_child_and_collapse: byte not present (Node256)'')
      else Inr (n\<lparr>n256_children := (n256_children n)[unat byte := 0], n256_count := n256_count n - 1\<rparr>))"

definition remove_node4 :: "nat \<Rightarrow> u8 \<Rightarrow> (buf, erase_signal) st" where
  "remove_node4 slot byte =
     sbind (sread (\<lambda>b. read_node4 b slot)) (\<lambda>n0.
     sbind (sread (\<lambda>_. node4_remove n0 byte)) (\<lambda>n.
     finish_inner_with_sorted slot (n4_count n) (enc_node4 n) (n4_keys n ! 0) (n4_children n ! 0)))"

definition remove_node16 :: "nat \<Rightarrow> u8 \<Rightarrow> (buf, erase_signal) st" where
  "remove_node16 slot byte =
     sbind (sread (\<lambda>b. read_node16 b slot)) (\<lambda>n0.
     sbind (sread (\<lambda>_. node16_remove n0 byte)) (\<lambda>n.
       if n16_count n \<ge> 2 \<and> n16_count n \<le> SHRINK_NODE16_TO_NODE4_AT
       then sbind (shrink_node16_to_node4 slot n) (\<lambda>shrunk. sret (Replaced shrunk))
       else finish_inner_with_sorted slot (n16_count n) (enc_node16 n) (n16_keys n ! 0) (n16_children n ! 0)))"

definition remove_node48 :: "nat \<Rightarrow> u8 \<Rightarrow> (buf, erase_signal) st" where
  "remove_node48 slot byte =
     sbind (sread (\<lambda>b. read_node48 b slot)) (\<lambda>n0.
     sbind (sread (\<lambda>_. node48_remove n0 byte)) (\<lambda>n.
       if n48_count n = 0 then sbind (free_node slot) (\<lambda>_. sret SubtreeGone)
       else if n48_count n = 1
       then sbind (sread (\<lambda>_.
              rbind (ok_or (find_next_nonzero_byte host (n48_index n) 0)
                (node_corrupt ''inner_remove_child_and_collapse: empty Node48'')) (\<lambda>p.
              rbind (at (n48_children n) (unat (n48_index n ! p) - 1)) (\<lambda>c. Inr (p, c))))) (\<lambda>(p, c).
            sbind (free_node slot) (\<lambda>_.
            sbind (write_prefix_chain [of_nat p] (as_u16 c)) (\<lambda>new_slot. sret (Replaced new_slot))))
       else if n48_count n \<le> SHRINK_NODE48_TO_NODE16_AT
       then sbind (shrink_node48_to_node16 slot n) (\<lambda>shrunk. sret (Replaced shrunk))
       else sbind (write_struct_to_slot slot (enc_node48 n)) (\<lambda>_. sret Unchanged)))"

definition remove_node256 :: "nat \<Rightarrow> u8 \<Rightarrow> (buf, erase_signal) st" where
  "remove_node256 slot byte =
     sbind (sread (\<lambda>b. read_node256 b slot)) (\<lambda>n0.
     sbind (sread (\<lambda>_. node256_remove n0 byte)) (\<lambda>n.
       if n256_count n = 0 then sbind (free_node slot) (\<lambda>_. sret SubtreeGone)
       else if n256_count n = 1
       then sbind (sread (\<lambda>_.
              rbind (ok_or (find_next_nonzero_u32 host (map of_nat (n256_children n)) 0)
                (node_corrupt ''inner_remove_child_and_collapse: empty Node256'')) (\<lambda>p.
              Inr (p, n256_children n ! p)))) (\<lambda>(p, c).
            sbind (free_node slot) (\<lambda>_.
            sbind (write_prefix_chain [of_nat p] (as_u16 c)) (\<lambda>new_slot. sret (Replaced new_slot))))
       else if n256_count n \<le> SHRINK_NODE256_TO_NODE48_AT
       then sbind (shrink_node256_to_node48 slot n) (\<lambda>shrunk. sret (Replaced shrunk))
       else sbind (write_struct_to_slot slot (enc_node256 n)) (\<lambda>_. sret Unchanged)))"

definition inner_remove_child_and_collapse :: "nat \<Rightarrow> node_type \<Rightarrow> u8 \<Rightarrow> (buf, erase_signal) st" where
  "inner_remove_child_and_collapse slot ntype byte =
     (case ntype of
        Node4T \<Rightarrow> remove_node4 slot byte
      | Node16T \<Rightarrow> remove_node16 slot byte
      | Node48T \<Rightarrow> remove_node48 slot byte
      | Node256T \<Rightarrow> remove_node256 slot byte
      | _ \<Rightarrow> sfail (node_corrupt ''inner_remove_child_and_collapse: not an inner node''))"

section \<open>Erase\<close>

definition erase_at_leaf :: "nat \<Rightarrow> search_key \<Rightarrow> erase_condition \<Rightarrow> (buf, erase_return) st" where
  "erase_at_leaf leaf_slot key condition =
     sbind (sread (\<lambda>b. read_leaf_key_ref b leaf_slot)) (\<lambda>(existing_key, l).
       if \<not> eq_slice key existing_key then sret untouched
       else if tombstone l \<noteq> 0 then sret untouched
       else if (case condition of EIfVersion expected \<Rightarrow> leaf_seq l \<noteq> expected | EAlways \<Rightarrow> False) then sret untouched
       else
         sbind (write_struct_to_slot leaf_slot (enc_leaf (l\<lparr>tombstone := 1\<rparr>))) (\<lambda>_.
         sbind (smod (\<lambda>b. set_tombstone_leaf_cnt (sat_add 32 (tombstone_leaf_cnt b) 1) b)) (\<lambda>_.
         sret \<lparr>signal = Unchanged, era_mutated = True\<rparr>)))"

definition blob_node_erase_step :: "nat \<Rightarrow> search_key \<Rightarrow> nat \<Rightarrow> (buf, erase_step) st" where
  "blob_node_erase_step slot key depth =
     sbind (sread (\<lambda>b. ok_or (body_of_slot b slot)
        (node_corrupt ''blob_node_erase_step: BlobNode body resolution failed''))) (\<lambda>(off, len).
     sbind (sget (\<lambda>b. dec_blob_node (rd b off 128))) (\<lambda>bn.
       let plen = bn_prefix_len bn
       in if plen > BLOB_MAX_INLINE
          then sfail (node_corrupt ''blob_node_erase_step: BlobNode prefix_len exceeds inline buffer'')
          else if \<not> range_eq key depth (take plen (bn_bytes bn)) then sret (EDone untouched)
          else sret (EraCrossing (child_blob_guid bn) (depth + plen))))"

definition erase_at_prefix_step ::
  "(nat \<Rightarrow> nat \<Rightarrow> (buf, erase_step) st) \<Rightarrow> nat \<Rightarrow> search_key \<Rightarrow> nat \<Rightarrow> (buf, erase_step) st" where
  "erase_at_prefix_step recurse pfx_slot key depth =
     sbind (sread (\<lambda>b. read_prefix b pfx_slot)) (\<lambda>p.
       let plen = prefix_len p; prefix_bytes = take plen (pfx_bytes p); child_slot = as_u16 (pfx_child p)
       in if plen > length (pfx_bytes p) then sfail (Panic ''slice index past the end'')
          else if \<not> range_eq key depth prefix_bytes then sret (EDone untouched)
          else sbind (recurse child_slot (depth + plen)) (\<lambda>r.
            case r of
              EraCrossing g d \<Rightarrow> sret (EraCrossing g d)
            | EDone r \<Rightarrow>
                (case signal r of
                   Unchanged \<Rightarrow> sret (EDone \<lparr>signal = Unchanged, era_mutated = era_mutated r\<rparr>)
                 | Replaced new_child \<Rightarrow>
                     sbind (set_prefix_child pfx_slot new_child) (\<lambda>_.
                     sret (EDone \<lparr>signal = Unchanged, era_mutated = era_mutated r\<rparr>))
                 | SubtreeGone \<Rightarrow>
                     sbind (free_node pfx_slot) (\<lambda>_.
                     sret (EDone \<lparr>signal = SubtreeGone, era_mutated = era_mutated r\<rparr>)))))"

definition erase_at_inner_step ::
  "(nat \<Rightarrow> nat \<Rightarrow> (buf, erase_step) st) \<Rightarrow> nat \<Rightarrow> node_type \<Rightarrow> search_key \<Rightarrow> nat \<Rightarrow> (buf, erase_step) st" where
  "erase_at_inner_step recurse inner_slot ntype key depth =
     (case byte_at key depth of
        None \<Rightarrow> sret (EDone untouched)
      | Some byte \<Rightarrow>
          sbind (sread (\<lambda>b. inner_find_child b inner_slot ntype byte)) (\<lambda>found.
            case found of
              None \<Rightarrow> sret (EDone untouched)
            | Some child \<Rightarrow>
                sbind (recurse child (depth + 1)) (\<lambda>r.
                  case r of
                    EraCrossing g d \<Rightarrow> sret (EraCrossing g d)
                  | EDone r \<Rightarrow>
                      (case signal r of
                         Unchanged \<Rightarrow> sret (EDone \<lparr>signal = Unchanged, era_mutated = era_mutated r\<rparr>)
                       | Replaced new_child \<Rightarrow>
                           sbind (inner_update_child inner_slot ntype byte new_child) (\<lambda>_.
                           sret (EDone \<lparr>signal = Unchanged, era_mutated = era_mutated r\<rparr>))
                       | SubtreeGone \<Rightarrow>
                           sbind (inner_remove_child_and_collapse inner_slot ntype byte) (\<lambda>sig.
                           sret (EDone \<lparr>signal = sig, era_mutated = era_mutated r\<rparr>))))))"

fun erase_at_step ::
  "nat \<Rightarrow> nat \<Rightarrow> search_key \<Rightarrow> nat \<Rightarrow> erase_condition \<Rightarrow> bool \<Rightarrow> (buf, erase_step) st" where
  "erase_at_step 0 slot key depth condition allow_crossing = sfail StackOverflow"
| "erase_at_step (Suc fuel) slot key depth condition allow_crossing =
     (let recurse = \<lambda>s d. erase_at_step fuel s key d condition allow_crossing
      in sbind (sread (\<lambda>b. ntype_of b slot)) (\<lambda>ntype.
         case ntype of
           Invalid \<Rightarrow> sfail (node_corrupt ''walker::erase_at: hit NodeType::Invalid'')
         | EmptyRoot \<Rightarrow> sret (EDone untouched)
         | LeafT \<Rightarrow> sbind (erase_at_leaf slot key condition) (\<lambda>r. sret (EDone r))
         | PrefixT \<Rightarrow> erase_at_prefix_step recurse slot key depth
         | BlobT \<Rightarrow>
             if allow_crossing then blob_node_erase_step slot key depth
             else sfail (NotYetImplemented ''walker::erase_at: BlobNode crossing requires BufferManager'')
         | _ \<Rightarrow> erase_at_inner_step recurse slot ntype key depth))"

definition erase_at :: "nat \<Rightarrow> nat \<Rightarrow> bytes \<Rightarrow> nat \<Rightarrow> (buf, erase_return) st" where
  "erase_at fuel slot key depth =
     sbind (erase_at_step fuel slot (sk_exact key) depth EAlways False) (\<lambda>r.
       case r of
         EDone r \<Rightarrow> sret r
       | EraCrossing _ _ \<Rightarrow> sfail (NotYetImplemented ''walker::erase_at: BlobNode crossing requires BufferManager''))"

definition resolve_new_root_after_erase :: "nat \<Rightarrow> erase_signal \<Rightarrow> (buf, nat) st" where
  "resolve_new_root_after_erase root sig =
     (case sig of
        Unchanged \<Rightarrow> sret root
      | Replaced s \<Rightarrow> sret s
      | SubtreeGone \<Rightarrow> alloc_node EmptyRoot)"

end
