(* ===== verification/Art_Insert.thy ===== *)
theory Art_Insert
  imports Tree_Ops
begin

text \<open>
  Insertion into an abstract tree, as a relation between the tree before and after, and what
  it means for lookups: the inserted key is found with its value, every other key is found as
  before.  The relation leaves open the type of a node that gets a new child.
\<close>

section \<open>Splitting an edge\<close>

text \<open>The bytes a node consumes before it branches, and what is left of it below a cut after byte \<open>c\<close>.\<close>

primrec label :: "art \<Rightarrow> nat \<Rightarrow> bytes" where
  "label AEmpty d = []"
| "label (ALeaf k v s dead) d = drop d k"
| "label (APrefix p t) d = p"
| "label (AInner nt ts) d = []"
| "label (ABlob p g) d = p"

primrec cut :: "art \<Rightarrow> nat \<Rightarrow> art" where
  "cut AEmpty c = AEmpty"
| "cut (ALeaf k v s dead) c = ALeaf k v s dead"
| "cut (APrefix p t) c = pchain (drop (Suc c) p) t"
| "cut (AInner nt ts) c = AInner nt ts"
| "cut (ABlob p g) c = ABlob (drop (Suc c) p) g"

definition fork :: "bytes \<Rightarrow> u8 \<Rightarrow> art \<Rightarrow> u8 \<Rightarrow> art \<Rightarrow> art" where
  "fork cp x told y tnew = pchain cp (AInner Node4T (kins y tnew [(x, told)]))"

lemma range_at_on_path: "on_path path k \<Longrightarrow> range_at k (length path) p \<longleftrightarrow> on_path (path @ p) k"
  by (simp add: on_path_append)

lemma on_path_appendD: "on_path (path @ p) k \<Longrightarrow> on_path path k"
  by (simp add: on_path_append)

lemma on_path_take: "on_path (take n k) k"
  by (cases "n \<le> length k") (simp_all add: on_path_def)

lemma take_path: "take (length path) k = path \<Longrightarrow> path @ take n (drop (length path) k) = take (length path + n) k"
  by (simp add: take_add)

lemma range_at_Nil: "on_path path k \<Longrightarrow> range_at k (length path) []"
  by (simp add: range_at_def on_path_length)

lemma alook_label:
  assumes wf: "wf_art t path" and c: "c < length (label t (length path))" and k: "on_path path k"
  shows "alook t k (length path) =
    (if on_path (path @ take (Suc c) (label t (length path))) k
     then alook (cut t c) k (length path + Suc c) else NotFoundR)"
proof (cases t)
  case (ALeaf k0 v q dead)
  have "on_path (path @ take (Suc c) (drop (length path) k0)) k0"
    using take_path [of path k0] wf ALeaf by (simp add: on_path_take)
  then show ?thesis using ALeaf by auto
next
  case (APrefix p t')
  obtain a r where a: "p = a @ r" "length a = Suc c"
    using c APrefix by (metis append_take_drop_id label.simps(3) length_take min.absorb2 Suc_leI)
  have e: "label t (length path) = a @ r" "take (Suc c) (a @ r) = a" "cut t c = pchain r t'"
    using APrefix a by simp_all
  have r: "range_at k (length path + Suc c) r" if "r = []" "on_path (path @ a) k"
    using range_at_Nil [OF that(2)] a(2) that(1) by simp
  have t: "alook t k (length path) = (if range_at k (length path) (a @ r) then alook t' k (length path + length (a @ r)) else NotFoundR)"
    using APrefix a(1) by simp
  show ?thesis
    unfolding t e alook_pchain range_at_append range_at_on_path [OF k] a(2) using r a(2) by (auto simp: add.assoc)
next
  case (ABlob p g)
  obtain a r where a: "p = a @ r" "length a = Suc c"
    using c ABlob by (metis append_take_drop_id label.simps(5) length_take min.absorb2 Suc_leI)
  have e: "label t (length path) = a @ r" "take (Suc c) (a @ r) = a" "cut t c = ABlob r g"
    using ABlob a by simp_all
  have t: "alook t k (length path) = (if range_at k (length path) (a @ r) then Crossing g (length path + length (a @ r)) else NotFoundR)"
    using ABlob a(1) by simp
  show ?thesis
    unfolding t e range_at_append range_at_on_path [OF k] a(2) using a(2) by (auto simp: add.assoc)
qed (use c in auto)

lemma wf_cut:
  assumes wf: "wf_art t path" and c: "c < length (label t (length path))"
  shows "wf_art (cut t c) (path @ take (Suc c) (label t (length path)))"
proof (cases t)
  case (ALeaf k0 v q dead)
  have "on_path (path @ take (Suc c) (drop (length path) k0)) k0"
    using take_path [of path k0] wf ALeaf by (simp add: on_path_take)
  then show ?thesis using wf ALeaf by (simp add: on_path_def)
next
  case (APrefix p t')
  then show ?thesis using wf by (simp add: wf_pchain)
next
  case (ABlob p g)
  then show ?thesis using wf by auto
qed (use c in auto)

lemma alook_fork:
  assumes xy: "x \<noteq> y" and k: "on_path path k"
  shows "alook (fork cp x told y tnew) k (length path) =
    (if on_path (path @ cp @ [y]) k then alook tnew k (length path + Suc (length cp))
     else if on_path (path @ cp @ [x]) k then alook told k (length path + Suc (length cp))
     else NotFoundR)"
proof -
  let ?d = "length path + length cp"
  have sub: "on_path (path @ cp @ [z]) k \<longleftrightarrow> on_path (path @ cp) k \<and> ?d < length k \<and> k ! ?d = z" for z
    using on_path_snoc [of "path @ cp" z k] by simp
  have r: "cp = [] \<or> range_at k (length path) cp \<longleftrightarrow> on_path (path @ cp) k"
    using k by (auto simp: on_path_append range_at_Nil)
  have ks: "keys_sorted [(x, told)]" by simp
  have m: "map_of (kins y tnew [(x, told)]) z = (if z = y then Some tnew else if z = x then Some told else None)" for z
    using map_of_kins [OF ks, of y tnew] by simp
  show ?thesis
    unfolding fork_def alook_pchain r alook_AInner m sub using xy by auto
qed

section \<open>The relation\<close>

inductive ins_rel :: "art \<Rightarrow> bytes \<Rightarrow> bytes \<Rightarrow> nat \<Rightarrow> nat \<Rightarrow> art \<Rightarrow> bool" where
  ins_empty: "ins_rel AEmpty k v q d (ALeaf k v q False)"
| ins_same: "ins_rel (ALeaf k v0 q0 dead) k v q d (ALeaf k v q False)"
| ins_split: "c = lcp (drop d k) (label t d) \<Longrightarrow> d + c < length k \<Longrightarrow> c < length (label t d)
    \<Longrightarrow> ins_rel t k v q d (fork (take c (label t d)) (label t d ! c) (cut t c) (k ! (d + c)) (ALeaf k v q False))"
| ins_prefix: "range_at k d p \<Longrightarrow> ins_rel t k v q (d + length p) t' \<Longrightarrow> ins_rel (APrefix p t) k v q d (APrefix p t')"
| ins_inner: "d < length k \<Longrightarrow> map_of ts (k ! d) = Some t \<Longrightarrow> ins_rel t k v q (d + 1) t'
    \<Longrightarrow> ins_rel (AInner nt ts) k v q d (AInner nt (kins (k ! d) t' ts))"
| ins_add: "d < length k \<Longrightarrow> map_of ts (k ! d) = None
    \<Longrightarrow> ins_rel (AInner nt ts) k v q d (AInner nt' (kins (k ! d) (ALeaf k v q False) ts))"

lemma set_kins_sub: "set (kins k c xs) \<subseteq> insert (k, c) (set xs)"
  by (induction k c xs rule: kins.induct) auto

lemma wf_art_kins:
  assumes "wf_art (AInner nt ts) path" and "wf_art t (path @ [k])"
  shows "wf_art (AInner nt' (kins k t ts)) path"
proof -
  have "wf_art u (path @ [j])" if "(j, u) \<in> set (kins k t ts)" for j u
    using subsetD [OF set_kins_sub that] assms by (auto simp: wf_art_AInner)
  then show ?thesis using assms(1) by (auto simp: wf_art_AInner keys_sorted_kins)
qed

text \<open>Facts about a split point that both parts of the correctness proof use.\<close>

lemma split_paths:
  assumes k: "on_path path k" and d: "d = length path" and c: "c = lcp (drop d k) l"
    and kc: "d + c < length k" and lc: "c < length l"
  shows "l ! c \<noteq> k ! (d + c)" and "on_path (path @ take c l @ [k ! (d + c)]) k"
    and "take c l @ [l ! c] = take (Suc c) l"
proof -
  show "l ! c \<noteq> k ! (d + c)" using lcp_diff [of "drop d k" l] c kc lc d by force
  have "take c l = take c (drop d k)" using lcp_take [of c "drop d k" l] c by simp
  then have "range_at k d (take c l)" using kc by (simp add: range_at_def)
  then have "on_path (path @ take c l) k" using k d by (simp add: on_path_append)
  then show "on_path (path @ take c l @ [k ! (d + c)]) k"
    using on_path_snoc [of "path @ take c l" "k ! (d + c)" k] kc lc d by simp
  show "take c l @ [l ! c] = take (Suc c) l" using lc by (simp add: take_Suc_conv_app_nth)
qed

theorem ins_rel_wf:
  assumes "ins_rel t k v q d t'" and "wf_art t path" and "on_path path k" and "d = length path"
    and "length k < 65536" and "length v < 65536" and "q < 2 ^ 64"
  shows "wf_art t' path"
  using assms
proof (induction arbitrary: path rule: ins_rel.induct)
  case (ins_empty k v q d)
  then show ?case by (simp add: on_path_def)
next
  case (ins_same k v0 q0 dead v q d)
  then show ?case by simp
next
  case (ins_split c d k t v q)
  let ?l = "label t d"
  note s = split_paths [OF ins_split.prems(2,3) ins_split.hyps]
  have old: "wf_art (cut t c) (path @ take c ?l @ [?l ! c])"
    using wf_cut [of t path c] ins_split.prems(1,3) ins_split.hyps(3) s(3) by simp
  have new: "wf_art (ALeaf k v q False) (path @ take c ?l @ [k ! (d + c)])"
    using s(2) ins_split.prems by (simp add: on_path_def)
  have one: "wf_art (AInner Node4T [(?l ! c, cut t c)]) (path @ take c ?l)"
    using old by (simp add: wf_art_AInner)
  show ?case
    unfolding fork_def using wf_art_kins [OF one] new by (intro wf_pchain) simp
next
  case (ins_prefix k d p t v q t')
  then show ?case by (simp add: on_path_append)
next
  case (ins_inner d k ts t v q t' nt)
  have "wf_art t (path @ [k ! d])" using wf_art_child ins_inner by blast
  moreover have "on_path (path @ [k ! d]) k" using ins_inner by (simp add: on_path_snoc)
  ultimately have "wf_art t' (path @ [k ! d])" using ins_inner by simp
  then show ?case using ins_inner.prems(1) by (rule wf_art_kins [rotated])
next
  case (ins_add d k ts nt v q nt')
  have "wf_art (ALeaf k v q False) (path @ [k ! d])"
    using ins_add on_path_snoc [of path "k ! d" k] by (simp add: on_path_def)
  then show ?case using ins_add.prems(1) by (rule wf_art_kins [rotated])
qed

theorem ins_rel_lookup:
  assumes "ins_rel t k v q d t'" and "wf_art t path" and "on_path path k" and "d = length path" and "on_path path k'"
  shows "alook t' k' d = (if k' = k then Found v q else alook t k' d)"
  using assms
proof (induction arbitrary: path rule: ins_rel.induct)
  case (ins_split c d k t v q)
  let ?l = "label t d"
  note s = split_paths [OF ins_split.prems(2,3) ins_split.hyps]
  have old: "alook t k' d = (if on_path (path @ take c ?l @ [?l ! c]) k'
      then alook (cut t c) k' (d + Suc c) else NotFoundR)"
    using alook_label [OF ins_split.prems(1) _ ins_split.prems(4), of c] ins_split.prems(3) ins_split.hyps(3) s(3) by simp
  have new: "alook (fork (take c ?l) (?l ! c) (cut t c) (k ! (d + c)) (ALeaf k v q False)) k' d =
     (if on_path (path @ take c ?l @ [k ! (d + c)]) k' then (if k' = k then Found v q else NotFoundR)
      else if on_path (path @ take c ?l @ [?l ! c]) k' then alook (cut t c) k' (d + Suc c) else NotFoundR)"
    using alook_fork [OF s(1) ins_split.prems(4), of "take c ?l" "cut t c"] ins_split.prems(3) ins_split.hyps(3)
    by simp
  have "\<not> (on_path (path @ take c ?l @ [k ! (d + c)]) k' \<and> on_path (path @ take c ?l @ [?l ! c]) k')"
    using s(1) on_path_snoc [of "path @ take c ?l"] by auto
  then show ?case unfolding new old using s(2) by auto
next
  case (ins_prefix k d p t v q t')
  then have "range_at k' d p \<Longrightarrow> alook t' k' (d + length p) = (if k' = k then Found v q else alook t k' (d + length p))"
    using ins_prefix.IH [of "path @ p"] by (simp add: on_path_append)
  then show ?case using ins_prefix.hyps by auto
next
  case (ins_inner d k ts t v q t' nt)
  have sorted: "keys_sorted ts" using ins_inner.prems(1) by (simp add: wf_art_AInner)
  have wf: "wf_art t (path @ [k ! d])" using wf_art_child ins_inner by blast
  have IH: "alook t' k' (d + 1) = (if k' = k then Found v q else alook t k' (d + 1))"
    if "d < length k'" "k' ! d = k ! d"
    using ins_inner.IH [of "path @ [k ! d]"] ins_inner.prems ins_inner.hyps wf that by (simp add: on_path_snoc)
  show ?case
    using IH ins_inner.hyps by (auto simp: alook_AInner map_of_kins [OF sorted])
next
  case (ins_add d k ts nt v q nt')
  have sorted: "keys_sorted ts" using ins_add.prems(1) by (simp add: wf_art_AInner)
  show ?case using ins_add.hyps by (auto simp: alook_AInner map_of_kins [OF sorted])
qed auto

section \<open>User keys\<close>

text \<open>
  \<open>key_stuck t k d\<close>: the insert of \<open>k\<close> meets one of the cases the code refuses, a key that ends
  inside another key's path.  It cannot happen among user keys, which end with their only zero.
\<close>

inductive key_stuck :: "art \<Rightarrow> bytes \<Rightarrow> nat \<Rightarrow> bool" where
  stuck_leaf: "k0 \<noteq> k \<Longrightarrow> c = lcp (drop d k) (drop d k0) \<Longrightarrow> c = length (drop d k0) \<or> c = length (drop d k)
    \<Longrightarrow> key_stuck (ALeaf k0 v q dead) k d"
| stuck_prefix: "c = lcp (drop d k) p \<Longrightarrow> c \<noteq> length p \<Longrightarrow> length k \<le> d + c \<Longrightarrow> key_stuck (APrefix p t) k d"
| stuck_blob: "c = lcp (drop d k) p \<Longrightarrow> c \<noteq> length p \<Longrightarrow> length k \<le> d + c \<Longrightarrow> key_stuck (ABlob p g) k d"
| stuck_below: "range_at k d p \<Longrightarrow> key_stuck t k (d + length p) \<Longrightarrow> key_stuck (APrefix p t) k d"
| stuck_end: "length k \<le> d \<Longrightarrow> key_stuck (AInner nt ts) k d"
| stuck_child: "d < length k \<Longrightarrow> map_of ts (k ! d) = Some t \<Longrightarrow> key_stuck t k (d + 1) \<Longrightarrow> key_stuck (AInner nt ts) k d"

definition user_tree :: "art \<Rightarrow> bytes \<Rightarrow> bool" where
  "user_tree t path \<longleftrightarrow> zero_free t \<and> (0 \<in> set path \<longrightarrow> end_node t)"

lemma user_key_last:
  assumes "user_key k"
  shows "k \<noteq> []" and "last k = 0" and "0 \<notin> set (butlast k)"
  using assms by (auto simp: user_key_def)

text \<open>A user key that has a zero in a path along it is that path.\<close>

lemma user_key_path:
  assumes k: "user_key k" and p: "on_path path k" and z: "0 \<in> set path"
  shows "k = path"
proof (rule ccontr)
  assume "k \<noteq> path"
  then have "length path < length k"
    using p on_path_length [OF p] by (metis on_path_def le_neq_implies_less take_all order_refl)
  then have "path = take (length path) (butlast k)"
    using p by (simp add: on_path_def take_butlast)
  then have "0 \<in> set (butlast k)" using z by (metis in_set_takeD)
  then show False using user_key_last(3) [OF k] by blast
qed

lemma user_key_whole:
  assumes k: "user_key k" and k': "user_key k'" and p: "on_path k k'"
  shows "k' = k"
  using user_key_path [OF k' p] user_key_last [OF k] by (metis last_in_set)

lemma user_tree_prefix: "user_tree (APrefix p t) path \<Longrightarrow> user_tree t (path @ p)"
  by (auto simp: user_tree_def ends_path_def)

lemma user_tree_child:
  assumes "user_tree (AInner nt ts) path" and "map_of ts j = Some t"
  shows "user_tree t (path @ [j])"
proof -
  have "(j, t) \<in> set ts" using assms(2) by (rule map_of_SomeD)
  then show ?thesis using assms(1) by (auto simp: user_tree_def zero_free_AInner)
qed

lemma ends_inside:
  assumes k: "user_key k" and p: "on_path path k" and c: "length k \<le> length path + lcp (drop (length path) k) l"
  shows "0 \<in> set (take (lcp (drop (length path) k) l) l) \<or> 0 \<in> set path"
proof -
  let ?s = "drop (length path) k"
  have eq: "lcp ?s l = length ?s" using c lcp_le(1) [of ?s l] by simp
  then have "take (length ?s) l = ?s" using lcp_full [of ?s l] by simp
  then have "set ?s \<subseteq> set (take (lcp ?s l) l)" by (simp add: eq)
  moreover have "k = path @ ?s" using p by (metis append_take_drop_id on_path_def)
  then have "0 \<in> set path \<union> set ?s" using user_key_last [OF k] by (metis last_in_set set_append)
  ultimately show ?thesis by blast
qed

theorem user_keys_not_stuck:
  assumes "key_stuck t k d" and "wf_art t path" and "user_tree t path" and "user_key k" and "on_path path k" and "d = length path"
  shows False
  using assms
proof (induction arbitrary: path rule: key_stuck.induct)
  case (stuck_leaf k0 k c d v q dead)
  have on0: "on_path path k0" and u0: "user_key k0"
    using stuck_leaf.prems by (simp_all add: on_path_def user_tree_def)
  have k: "k = path @ drop d k" "k0 = path @ drop d k0"
    using stuck_leaf.prems on0 by (metis append_take_drop_id on_path_def)+
  from stuck_leaf.hyps(3) show ?case
  proof
    assume "c = length (drop d k0)"
    then have "take (length (drop d k0)) (drop d k) = drop d k0"
      using lcp_full [of "drop d k0" "drop d k"] stuck_leaf.hyps(2) by (simp add: lcp_sym)
    then have "on_path (path @ drop d k0) k" using stuck_leaf.prems
      by (simp add: on_path_append range_at_def on_path_length)
    then show False using user_key_whole [OF u0 stuck_leaf.prems(3)] k(2) stuck_leaf.hyps(1) by simp
  next
    assume "c = length (drop d k)"
    then have "take (length (drop d k)) (drop d k0) = drop d k"
      using lcp_full [of "drop d k" "drop d k0"] stuck_leaf.hyps(2) by simp
    then have "on_path (path @ drop d k) k0" using stuck_leaf.prems on0
      by (simp add: on_path_append range_at_def on_path_length)
    then show False using user_key_whole [OF stuck_leaf.prems(3) u0] k(1) stuck_leaf.hyps(1) by simp
  qed
next
  case (stuck_prefix c d k p t)
  have "c < length p" using stuck_prefix.hyps lcp_le(2) [of "drop d k" p] by simp
  then have "take c p = take c (butlast p)" by (simp add: take_butlast)
  then have "0 \<in> set (butlast p) \<or> 0 \<in> set path"
    using ends_inside [of k path p] stuck_prefix by (auto dest: in_set_takeD)
  then show ?case using stuck_prefix.prems(2) by (auto simp: user_tree_def ends_path_def)
next
  case (stuck_blob c d k p g)
  then show ?case using ends_inside [of k path p] by (auto simp: user_tree_def dest: in_set_takeD)
next
  case (stuck_below k d p t)
  then show ?case using stuck_below.IH [of "path @ p"] user_tree_prefix by (simp add: on_path_append)
next
  case (stuck_end k d nt ts)
  then have "0 \<in> set path" using ends_inside [of k path "[]"] by simp
  then show ?case using stuck_end by (simp add: user_tree_def)
next
  case (stuck_child d k ts t nt)
  then show ?case
    using stuck_child.IH [of "path @ [k ! d]"] user_tree_child wf_art_child by (simp add: on_path_snoc)
qed

lemma user_tree_kins:
  assumes "user_tree (AInner nt ts) path" and "user_tree t (path @ [k])"
  shows "user_tree (AInner nt' (kins k t ts)) path"
proof -
  have "(j = 0 \<longrightarrow> end_node u) \<and> zero_free u" if "(j, u) \<in> set (kins k t ts)" for j u
    using subsetD [OF set_kins_sub that] assms by (auto simp: user_tree_def zero_free_AInner)
  then show ?thesis using assms(1) by (auto simp: user_tree_def zero_free_AInner)
qed

theorem ins_rel_user_tree:
  assumes "ins_rel t k v q d t'" and "wf_art t path" and "user_tree t path" and "user_key k" and "on_path path k" and "d = length path"
  shows "user_tree t' path"
  using assms
proof (induction arbitrary: path rule: ins_rel.induct)
  case (ins_split c d k t v q)
  let ?l = "label t d"
  note s = split_paths [OF ins_split.prems(4,5) ins_split.hyps]
  have zp: "0 \<notin> set (path @ take c ?l)"
  proof
    assume "0 \<in> set (path @ take c ?l)"
    moreover have "on_path (path @ take c ?l) k" using s(2) on_path_appendD [of "path @ take c ?l"] by simp
    ultimately have "k = path @ take c ?l" using ins_split.prems(3) user_key_path by blast
    then have "length k = d + c" using ins_split.hyps(3) ins_split.prems(5) by simp
    then show False using ins_split.hyps(2) by simp
  qed
  have old: "user_tree (cut t c) (path @ take c ?l @ [?l ! c])"
  proof (cases t)
    case (ALeaf k0 v0 q0 dead)
    then show ?thesis using ins_split.prems(2) by (simp add: user_tree_def)
  next
    case (APrefix p t')
    then have c: "c < length p" using ins_split.hyps(3) by simp
    have ep: "ends_path p t'" and zf: "zero_free t'" using ins_split.prems(2) APrefix by (simp_all add: user_tree_def)
    have split: "p = take c p @ [p ! c] @ drop (Suc c) p" using c by (simp add: id_take_nth_drop)
    have "ends_path ([p ! c] @ drop (Suc c) p) t'"
      using ep ends_path_append [of "[p ! c] @ drop (Suc c) p" "take c p" t'] split by simp
    then have "ends_path (drop (Suc c) p) t'" and "p ! c = 0 \<Longrightarrow> drop (Suc c) p = [] \<and> end_node t'"
      using ends_path_append [of "drop (Suc c) p" "[p ! c]" t'] by (cases "drop (Suc c) p = []"; auto)+
    then show ?thesis
      using APrefix zf zp by (auto simp: user_tree_def zero_free_pchain)
  next
    case (ABlob p g)
    then have "0 \<notin> set p" using ins_split.prems(2) by (simp add: user_tree_def)
    then have "p ! c \<noteq> 0" "0 \<notin> set (drop (Suc c) p)"
      using ins_split.hyps(3) ABlob by (metis label.simps(5) nth_mem, metis in_set_dropD)
    then show ?thesis
      using ins_split.prems(2) ABlob zp by (simp add: user_tree_def)
  qed (use ins_split.hyps(3) in auto)
  have one: "user_tree (AInner Node4T [(?l ! c, cut t c)]) (path @ take c ?l)"
    using old zp by (auto simp: user_tree_def zero_free_AInner)
  have "user_tree (AInner Node4T (kins (k ! (d + c)) (ALeaf k v q False) [(?l ! c, cut t c)])) (path @ take c ?l)"
    by (rule user_tree_kins [OF one]) (use ins_split.prems(3) in \<open>simp add: user_tree_def\<close>)
  then show ?case
    using zp by (simp add: fork_def user_tree_def zero_free_pchain ends_path_zero_free)
next
  case (ins_prefix k d p t v q t')
  then show ?case
    using ins_prefix.IH [of "path @ p"] user_tree_prefix [OF ins_prefix.prems(2)]
    by (auto simp: on_path_append user_tree_def ends_path_def)
next
  case (ins_inner d k ts t v q t' nt)
  have "user_tree t' (path @ [k ! d])"
    using ins_inner.IH [of "path @ [k ! d]"] ins_inner.prems ins_inner.hyps user_tree_child wf_art_child
    by (simp add: on_path_snoc)
  then show ?case using ins_inner.prems(2) by (rule user_tree_kins [rotated])
next
  case (ins_add d k ts nt v q nt')
  have "user_tree (ALeaf k v q False) (path @ [k ! d])" using ins_add by (simp add: user_tree_def)
  then show ?case using ins_add.prems(2) by (rule user_tree_kins [rotated])
qed (auto simp: user_tree_def)

end
