(* ===== verification/Insert_Refine.thy ===== *)
theory Insert_Refine
  imports Insert Art_Insert
begin

text \<open>
  The insert of \<^verbatim>\<open>Insert\<close> refines the abstract insertion of \<^verbatim>\<open>Art_Insert\<close>: when it is done,
  the frame holds a tree related by \<open>ins_rel\<close>; when it fails, it is for lack of space or on a
  stuck key, and the frame still holds the old tree.
\<close>

section \<open>What an insert may do\<close>

fun proceeds :: "insert_condition \<Rightarrow> lookup_result \<Rightarrow> bool" where
  "proceeds Always r = True"
| "proceeds IfAbsent r = (case r of Found _ _ \<Rightarrow> False | _ \<Rightarrow> True)"
| "proceeds (IfVersion e) r = (case r of Found _ q \<Rightarrow> q = e | _ \<Rightarrow> False)"

definition kept :: "buf \<Rightarrow> (node_type \<Rightarrow> nat list) \<Rightarrow> nat set \<Rightarrow> nat \<Rightarrow> art \<Rightarrow> buf \<Rightarrow> bool" where
  "kept b fl F s t b' \<longleftrightarrow> (\<exists>fl'. eff b fl F b' fl' F \<and> tree b' s t F)"

definition stored :: "buf \<Rightarrow> (node_type \<Rightarrow> nat list) \<Rightarrow> nat set \<Rightarrow> nat \<Rightarrow> (art \<Rightarrow> bool) \<Rightarrow> buf \<Rightarrow> bool" where
  "stored b fl F s P b' \<longleftrightarrow> (\<exists>fl' F' t'. eff b fl F b' fl' F' \<and> tree b' s t' F' \<and> P t')"

definition ins_spec ::
  "buf \<Rightarrow> (node_type \<Rightarrow> nat list) \<Rightarrow> nat set \<Rightarrow> nat \<Rightarrow> art \<Rightarrow> bytes \<Rightarrow> bytes \<Rightarrow> nat \<Rightarrow> nat \<Rightarrow> insert_condition \<Rightarrow> bool
   \<Rightarrow> insert_step res \<Rightarrow> buf \<Rightarrow> bool" where
  "ins_spec b fl F s t k v q d cond allow r b' \<longleftrightarrow>
     (case r of
        Inl e \<Rightarrow> kept b fl F s t b' \<and>
          (case e of
             Alloc _ \<Rightarrow> True
           | NotYetImplemented _ \<Rightarrow> key_stuck t k d \<or> (\<not> allow \<and> (\<exists>g d'. alook t k d = Crossing g d'))
           | _ \<Rightarrow> False)
      | Inr (InsCrossing g d') \<Rightarrow> allow \<and> b' = b \<and> alook t k d = Crossing g d'
      | Inr (Done x) \<Rightarrow> (\<forall>g d'. alook t k d \<noteq> Crossing g d') \<and> ins_mutated x = proceeds cond (alook t k d)
          \<and> (if ins_mutated x then stored b fl F (slot_after x) (ins_rel t k v q d) b'
             else b' = b \<and> slot_after x = s))"

lemma ins_spec_done:
  assumes "\<And>g d'. alook t k d \<noteq> Crossing g d'" and "proceeds cond (alook t k d)"
    and "eff b fl F b' fl' F'" and "tree b' s' t' F'" and "ins_rel t k v q d t'"
  shows "ins_spec b fl F s t k v q d cond allow (Inr (Done (changed s'))) b'"
  using assms unfolding ins_spec_def stored_def changed_def by auto

lemma ins_spec_keep:
  assumes "\<And>g d'. alook t k d \<noteq> Crossing g d'" and "\<not> proceeds cond (alook t k d)"
  shows "ins_spec b fl F s t k v q d cond allow (Inr (Done (keep s))) b"
  using assms by (simp add: ins_spec_def keep_def)

lemma kept_eff:
  assumes "tree b s t F" and "holds b fl F" and "eff b fl {} b' fl' N"
  shows "kept b fl F s t b'"
proof -
  have s: "F \<inter> {} = {}" "F \<inter> owned b fl = {}" using assms(2) by (simp_all add: holds_def)
  have "eff b fl F b' fl' (N \<union> F)" using eff_add [OF assms(3) s] by simp
  then have "eff b fl F b' fl' F" by (rule eff_drop) simp
  then show ?thesis using tree_eff [OF assms(1,3) s] by (auto simp: kept_def)
qed

lemma ins_spec_alloc:
  assumes "tree b s t F" and "holds b fl F" and "eff b fl {} b' fl' N"
  shows "ins_spec b fl F s t k v q d cond allow (Inl (Alloc e)) b'"
  using kept_eff [OF assms] by (simp add: ins_spec_def)

lemma kept_refl: "tree b s t F \<Longrightarrow> holds b fl F \<Longrightarrow> kept b fl F s t b"
  using eff_refl by (auto simp: kept_def)

lemma ins_spec_stuck:
  assumes "tree b s t F" and "holds b fl F" and "key_stuck t k d"
  shows "ins_spec b fl F s t k v q d cond allow (Inl (NotYetImplemented m)) b"
  using kept_refl [OF assms(1,2)] assms(3) by (simp add: ins_spec_def)

lemma proceeds_absent: "\<not> is_if_version cond \<Longrightarrow> proceeds cond NotFoundR"
  by (cases cond) auto

lemma not_proceeds_absent: "is_if_version cond \<Longrightarrow> \<not> proceeds cond NotFoundR"
  by (cases cond) auto

lemma run_sret: "sret x s = (Inr x, s)"
  by (simp add: sret_def)

section \<open>Building a fork\<close>

definition write_fork :: "u8 \<Rightarrow> nat \<Rightarrow> u8 \<Rightarrow> search_key \<Rightarrow> bytes \<Rightarrow> nat \<Rightarrow> bytes \<Rightarrow> (buf, nat) st" where
  "write_fork x c y key v q cp =
     sbind (write_leaf key v q) (\<lambda>l.
     sbind (write_node4_with [(x, c), (y, l)]) (\<lambda>n4.
       if cp = [] then sret n4 else write_prefix_chain cp n4))"

lemma write_fork_spec:
  assumes h: "holds b fl {}" and k: "length (view key) < 65536" and v: "length v < 65536" and q: "q < 2 ^ 64"
    and c: "slot_ok c" and xy: "x \<noteq> y"
  shows "case write_fork x c y key v q cp b of
    (r, b') \<Rightarrow> wrapped b fl c (\<lambda>t. fork cp x t y (ALeaf (view key) v q False)) r b'"
  using h k v q
proof (cases rule: write_leaf_spec)
  case (fail e b1)
  then show ?thesis using wrapped_fail by (simp add: write_fork_def sbind_Inl)
next
  case (ok l b1 fl1 Fl)
  have h1: "holds b1 fl1 {}" using eff_holds [OF ok(3)] by (rule holds_sub) simp
  have l: "slot_ok l" using tree_slot_ok [OF ok(2)] by simp
  have Fl: "Fl \<inter> {} = {}" "Fl \<inter> owned b1 fl1 = {}" using eff_holds [OF ok(3)] by (simp_all add: holds_def)
  note leaf = ok
  from h1 xy c l show ?thesis
  proof (cases rule: write_branch_spec)
    case (fail e)
    then show ?thesis using wrapped_fail [OF leaf(3)] leaf(1) by (simp add: write_fork_def sbind_Inl sbind_Inr)
  next
    case (ok n4 off b2 fl2)
    let ?N = "nfoot n4 Node4T off"
    have e2: "eff b fl {} b2 fl2 (?N \<union> Fl)" using eff_trans [OF leaf(3)] eff_add [OF ok(4) Fl] by simp
    have d: "?N \<inter> Fl = {}" using eff_sep(1) [OF ok(4) Fl] by blast
    have t2: "tree b2 l (ALeaf (view key) v q False) Fl" by (rule tree_eff [OF leaf(2) ok(4) Fl])
    note cx = branch_ctx [OF ok(2,3) xy t2 d]
    have h2: "holds b2 fl2 {}" using eff_holds [OF e2] by (rule holds_sub) simp
    obtain r b' where run: "write_fork x c y key v q cp b = (r, b')" by force
    have "write_fork x c y key v q cp b = (if cp = [] then sret n4 else write_prefix_chain cp n4) b2"
      using leaf(1) ok(1) by (simp add: write_fork_def sbind_Inr)
    then have "wrapped b2 fl2 n4 (pchain cp) r b'"
      using chain_or_not_spec [OF h2, of n4 cp] node_at_slot_ok [OF ok(2)] run by (metis case_prod_conv)
    then show ?thesis
      unfolding run prod.case fork_def by (rule wrapped_after [OF e2 cx])
  qed
qed

section \<open>Empty root\<close>

text \<open>A fresh leaf in place of an old node.\<close>

lemma write_leaf_free:
  assumes n: "node_at b s nt off" and sub: "nfoot s nt off \<subseteq> F" and h: "holds b fl F"
    and k: "length (view key) < 65536" and v: "length v < 65536" and q: "q < 2 ^ 64"
  obtains (fail) e b1 where "write_leaf key v q b = (Inl (Alloc e), b1)" and "eff b fl {} b1 fl {}"
    | (ok) l b1 b2 fl2 Fl where "write_leaf key v q b = (Inr l, b1)" and "free_node s b1 = (Inr (), b2)"
        and "eff b fl F b2 fl2 Fl" and "tree b2 l (ALeaf (view key) v q False) Fl"
proof -
  have h0: "holds b fl {}" using h by (rule holds_sub) simp
  from h0 k v q show thesis
  proof (cases rule: write_leaf_spec)
    case (fail e b1)
    then show ?thesis by (rule that(1))
  next
    case (ok l b1 fl1 Fl)
    let ?N = "nfoot s nt off"
    have sF: "F \<inter> {} = {}" "F \<inter> owned b fl = {}" using h by (simp_all add: holds_def)
    have e1: "eff b fl F b1 fl1 (Fl \<union> F)" using eff_add [OF ok(3) sF] by simp
    have n1: "node_at b1 s nt off" using sF sub by (intro node_at_eff [OF n ok(3)]) auto
    have hN: "holds b1 fl1 ?N" using eff_holds [OF e1] by (rule holds_sub) (use sub in blast)
    obtain b2 fl2 where f: "free_node s b1 = (Inr (), b2)" "eff b1 fl1 ?N b2 fl2 {}"
      using free_node_eff [OF hN n1 subset_refl] by auto
    have sl: "Fl \<inter> ?N = {}" "Fl \<inter> owned b1 fl1 = {}"
      using eff_sep(1) [OF ok(3) sF] eff_holds [OF ok(3)] sub by (auto simp: holds_def)
    have e1': "eff b fl F b1 fl1 (?N \<union> Fl)" using e1 by (rule eff_drop) (use sub in blast)
    have e2: "eff b fl F b2 fl2 Fl" using eff_trans [OF e1'] eff_add [OF f(2) sl] by simp
    show ?thesis using ok(1) f(1) e2 tree_eff [OF ok(2) f(2) sl] by (rule that(2))
  qed
qed

lemma insert_into_empty_root_spec:
  assumes t: "tree b s AEmpty F" and h: "holds b fl F"
    and k: "length (view key) < 65536" and v: "length v < 65536" and q: "q < 2 ^ 64"
  shows "case sbind (insert_into_empty_root s key v q cond) (\<lambda>r. sret (Done r)) b of
    (r, b') \<Rightarrow> ins_spec b fl F s AEmpty (view key) v q d cond allow r b'"
proof (cases "is_if_version cond")
  case True
  then show ?thesis
    using not_proceeds_absent by (simp add: insert_into_empty_root_def ins_spec_keep)
next
  case False
  from t obtain off where n: "node_at b s EmptyRoot off" "F = nfoot s EmptyRoot off" by (rule tree_AEmptyE)
  have "nfoot s EmptyRoot off \<subseteq> F" using n(2) by simp
  from n(1) this h k v q show ?thesis
  proof (cases rule: write_leaf_free)
    case (fail e b1)
    then show ?thesis
      using False ins_spec_alloc [OF t h fail(2)] by (simp add: insert_into_empty_root_def sbind_Inl)
  next
    case (ok l b1 b2 fl2 Fl)
    have "ins_spec b fl F s AEmpty (view key) v q d cond allow (Inr (Done (changed l))) b2"
      by (rule ins_spec_done [OF _ _ ok(3,4) ins_empty]) (use False proceeds_absent in auto)
    then show ?thesis
      using False ok(1,2) by (simp add: insert_into_empty_root_def sbind_Inr)
  qed
qed

section \<open>Leaves\<close>

lemma regions_apart:
  assumes "region a m \<inter> region c n = {}" and "0 < m" and "0 < n"
  shows "a + m \<le> c \<or> c + n \<le> a"
proof (rule ccontr)
  assume "\<not> (a + m \<le> c \<or> c + n \<le> a)"
  then have "max a c \<in> region a m \<inter> region c n" using assms(2,3) by auto
  with assms(1) show False by blast
qed

lemma node_at_wr_away:
  assumes n: "node_at b s nt off" and lo: "DATA_AREA_START \<le> o'"
  shows "node_at (wr b o' bs) s nt off"
proof -
  have s: "s \<le> MAX_SLOTS" "1 \<le> s" using n by (simp_all add: node_at_def)
  have "entry (wr b o' bs) s = entry b s"
  proof (rule entry_cong, rule wr_other)
    fix a assume "a \<in> region (entry_addr s) 4"
    then have "a < DATA_AREA_START" using s by (auto simp: entry_addr_def layout_consts)
    then show "a \<notin> region o' (length bs)" using lo by simp
  qed
  moreover have "num_slots (wr b o' bs) = num_slots b" using lo by (intro header_wr) (simp add: layout_consts)
  ultimately show ?thesis using n by (simp add: node_at_def)
qed

lemma leaf_rewrite:
  assumes n: "node_at b s LeafT off" and h: "holds b fl (nfoot s LeafT off \<union> E)"
    and dis: "nfoot s LeafT off \<inter> E = {}" and E: "\<And>a. a \<in> E \<Longrightarrow> DATA_AREA_START \<le> a"
    and out: "\<And>a. a \<notin> region off 16 \<union> E \<Longrightarrow> b' a = b a"
    and body: "dec_leaf (rd b' off 16) = l" and ext: "leaf_at b' l k v" and sub: "leaf_ext l k v \<subseteq> E"
  shows "tree b' s (ALeaf k v (leaf_seq l) (tombstone l \<noteq> 0)) (nfoot s LeafT off \<union> leaf_ext l k v)"
    and "eff b fl (nfoot s LeafT off \<union> E) b' fl (nfoot s LeafT off \<union> leaf_ext l k v)"
proof -
  let ?N = "nfoot s LeafT off"
  have e: "eff b fl (?N \<union> E) b' fl (?N \<union> E)"
    using h by (rule eff_local) (rule out, auto simp: nfoot_def)
  then show "eff b fl (?N \<union> E) b' fl (?N \<union> leaf_ext l k v)"
    by (rule eff_drop) (use sub in blast)
  have s: "s \<le> MAX_SLOTS" "1 \<le> s" "DATA_AREA_START \<le> off" using n by (simp_all add: node_at_def)
  have "entry b' s = entry b s"
  proof (rule entry_cong, rule out)
    fix a assume a: "a \<in> region (entry_addr s) 4"
    then have "a < DATA_AREA_START" using s by (auto simp: entry_addr_def layout_consts)
    then show "a \<notin> region off 16 \<union> E" using s(3) E by force
  qed
  then have n': "node_at b' s LeafT off" using n eff_num_slots [OF e] by (simp add: node_at_def)
  have "?N \<inter> leaf_ext l k v = {}" using dis sub by blast
  then show "tree b' s (ALeaf k v (leaf_seq l) (tombstone l \<noteq> 0)) (?N \<union> leaf_ext l k v)"
    by (rule tree_leaf [OF n' body [symmetric] ext])
qed

lemma leaf_seq_patch:
  assumes "q < 2 ^ 64"
  shows "dec_leaf (rd (wr b (off + 8) (nat_le 8 q)) off 16) = (dec_leaf (rd b off 16))\<lparr>leaf_seq := q\<rparr>"
proof -
  have "rd (wr b (off + 8) (nat_le 8 q)) off (8 + 8) = rd b off 8 @ nat_le 8 q"
    unfolding rd_append by (simp add: rd_wr_disjoint)
  then have e: "rd (wr b (off + 8) (nat_le 8 q)) off 16 = rd b off 8 @ nat_le 8 q" by simp
  have t: "rd b off 8 = take 8 (rd b off 16)" by (simp add: take_rd)
  show ?thesis
    unfolding e t dec_leaf_def using assms by (simp add: take_rd drop_rd drop_take)
qed

lemma write_leaf_seq_run:
  "node_at b s LeafT off \<Longrightarrow> write_leaf_seq s q b = (Inr (), wr b (off + 8) (nat_le 8 q))"
  by (simp add: write_leaf_seq_def body_of_slot_node_at)

text \<open>The address range of a leaf's extent.\<close>

lemma leaf_at_range:
  assumes "leaf_at b l k v"
  shows "\<And>a. a \<in> leaf_ext l k v \<Longrightarrow> DATA_AREA_START \<le> a"
    and "2 + length k + length v \<le> leaf_extent_size (length k) (length v)"
    and "key_offset l + leaf_extent_size (length k) (length v) \<le> PAGE_SIZE"
  using assms leaf_extent_covers by (auto simp: leaf_at_def leaf_ext_def)

lemma rd_key_value:
  assumes "rd b o' (2 + length k) = nat_le 2 (length k) @ k" and "rd b (o' + 2 + length k) (length v) = v"
  shows "rd b o' (2 + length k + length v) = nat_le 2 (length k) @ k @ v"
  using assms unfolding rd_append [of b o' "2 + length k"] by (simp add: add.assoc)

lemma leaf_at_key: "leaf_at b l k v \<Longrightarrow> rd b (key_offset l) (2 + length k) = nat_le 2 (length k) @ k"
proof -
  assume "leaf_at b l k v"
  then have r: "rd b (key_offset l) (2 + length k + length v) = nat_le 2 (length k) @ k @ v"
    by (simp add: leaf_at_def)
  have "rd b (key_offset l) (2 + length k) = take (2 + length k) (rd b (key_offset l) (2 + length k + length v))"
    by (simp add: take_rd)
  then show ?thesis unfolding r by simp
qed

lemma overwrite_same_size_spec:
  assumes n: "node_at b s LeafT off" and l: "l = dec_leaf (rd b off 16)" and at: "leaf_at b l k v0"
    and dis: "nfoot s LeafT off \<inter> leaf_ext l k v0 = {}" and h: "holds b fl (nfoot s LeafT off \<union> leaf_ext l k v0)"
    and k: "k = view key" and v: "length v = length v0" and q: "q < 2 ^ 64" and live: "tombstone l = 0"
  obtains b' F' where "overwrite_same_size s l key v q b = (Inr (changed s), b')"
    and "eff b fl (nfoot s LeafT off \<union> leaf_ext l k v0) b' fl F'" and "tree b' s (ALeaf k v q False) F'"
proof -
  let ?o = "key_offset l" and ?vo = "key_offset l + 2 + length k"
  let ?b1 = "wr b ?vo v"
  let ?b' = "wr ?b1 (off + 8) (nat_le 8 q)"
  note r = leaf_at_range [OF at]
  have vs: "value_size l = length v0" using at by (simp add: leaf_at_def)
  have o: "off + 16 \<le> ?o \<or> ?o + leaf_extent_size (length k) (length v0) \<le> off"
  proof (rule regions_apart)
    show "region off 16 \<inter> region ?o (leaf_extent_size (length k) (length v0)) = {}"
      using dis unfolding nfoot_def leaf_ext_def by (simp add: Int_Un_distrib2)
  qed (use r(2) in simp_all)
  have b1: "bytes_at b ?vo (value_size l) \<noteq> None" using r(2,3) vs by (simp add: bytes_at_def)
  have run: "overwrite_same_size s l key v q b = (Inr (changed s), ?b')"
  proof -
    have "node_at ?b1 s LeafT off" using at by (intro node_at_wr_away [OF n]) (simp add: leaf_at_def)
    note sq = write_leaf_seq_run [OF this, of q]
    show ?thesis using b1 v k sq by (auto simp: overwrite_same_size_def Let_def sbind_Inr)
  qed
  let ?l = "l\<lparr>leaf_seq := q\<rparr>"
  have "dec_leaf (rd ?b' off 16) = (dec_leaf (rd ?b1 off 16))\<lparr>leaf_seq := q\<rparr>" using q by (rule leaf_seq_patch)
  also have "rd ?b1 off 16 = rd b off 16" using o r(2) v by (intro rd_wr_disjoint) auto
  finally have body: "dec_leaf (rd ?b' off 16) = ?l" using l by simp
  have "rd ?b' ?o (2 + length k) = rd b ?o (2 + length k)"
  proof -
    have "rd ?b' ?o (2 + length k) = rd ?b1 ?o (2 + length k)" using o r(2) by (intro rd_wr_disjoint) auto
    also have "\<dots> = rd b ?o (2 + length k)" by (intro rd_wr_disjoint) auto
    finally show ?thesis .
  qed
  moreover have "rd ?b' ?vo (length v) = v"
  proof -
    have "rd ?b' ?vo (length v) = rd ?b1 ?vo (length v)" using o r(2) v by (intro rd_wr_disjoint) auto
    then show ?thesis by simp
  qed
  ultimately have "rd ?b' ?o (2 + length k + length v) = nat_le 2 (length k) @ k @ v"
    using leaf_at_key [OF at] by (intro rd_key_value) simp_all
  then have at': "leaf_at ?b' ?l k v" using at v by (simp add: leaf_at_def)
  have ext: "leaf_ext ?l k v = leaf_ext l k v0" using v by (simp add: leaf_ext_def)
  have "?b' a = b a" if "a \<notin> region off 16 \<union> leaf_ext l k v0" for a
    using that r(2) v by (auto simp: wr_def leaf_ext_def)
  note w = leaf_rewrite [OF n h dis r(1) this body at']
  show thesis
    by (rule that [OF run]) (use w ext live in simp_all)
qed

lemma overwrite_fitting_body:
  assumes n: "node_at b s LeafT off" and at: "leaf_at b l k v0"
    and dis: "nfoot s LeafT off \<inter> leaf_ext l k v0 = {}" and h: "holds b fl (nfoot s LeafT off \<union> leaf_ext l k v0)"
    and v: "length v < 65536" and q: "q < 2 ^ 64"
    and fit: "leaf_extent_size (length k) (length v) \<le> leaf_extent_size (length k) (length v0)"
  defines "room \<equiv> leaf_extent_size (length k) (length v0) - 2 - length k"
  defines "b1 \<equiv> wr b (key_offset l + 2 + length k) (v @ replicate (room - length v) 0)"
  defines "l' \<equiv> leaf_live (key_offset l) (length v) q"
  shows "bytes_at b (key_offset l + 2 + length k) room \<noteq> None"
    and "write_struct_to_slot s (enc_leaf l') b1 = (Inr (), wr b1 off (enc_leaf l'))"
    and "tree (wr b1 off (enc_leaf l')) s (ALeaf k v q False) (nfoot s LeafT off \<union> leaf_ext l' k v)"
    and "eff b fl (nfoot s LeafT off \<union> leaf_ext l k v0) (wr b1 off (enc_leaf l')) fl (nfoot s LeafT off \<union> leaf_ext l' k v)"
proof -
  let ?o = "key_offset l" and ?e0 = "leaf_extent_size (length k) (length v0)"
  let ?b' = "wr b1 off (enc_leaf l')"
  note r = leaf_at_range [OF at]
  have k: "length k < 65536" using at by (simp add: leaf_at_def)
  have ve: "2 + length k + length v \<le> leaf_extent_size (length k) (length v)" using leaf_extent_covers [OF k v] .
  have rm: "?o + 2 + length k + room = ?o + ?e0" "length v \<le> room" using r(2) ve fit by (simp_all add: room_def)
  have lenw: "length (v @ replicate (room - length v) 0) = room" using rm(2) by simp
  show "bytes_at b (?o + 2 + length k) room \<noteq> None" using r(3) rm(1) by (simp add: bytes_at_def)
  have o: "off + 16 \<le> ?o \<or> ?o + ?e0 \<le> off"
  proof (rule regions_apart)
    show "region off 16 \<inter> region ?o ?e0 = {}"
      using dis unfolding nfoot_def leaf_ext_def by (simp add: Int_Un_distrib2)
  qed (use r(2) in simp_all)
  have ko: "?o < 4294967296" using r(3) by (simp add: layout_consts)
  have wf: "wf_leaf l'" using v q ko by (simp add: l'_def wf_leaf_def leaf_live_def)
  have len: "length (enc_leaf l') = 16" using wf by (rule leaf.length_enc)
  have n1: "node_at b1 s LeafT off" unfolding b1_def using at by (intro node_at_wr_away [OF n]) (simp add: leaf_at_def)
  show "write_struct_to_slot s (enc_leaf l') b1 = (Inr (), ?b')"
    using len by (simp add: write_struct_to_slot_def body_of_slot_node_at [OF n1])
  have body: "dec_leaf (rd ?b' off 16) = l'" using wf by (rule leaf.read_after_write)
  have "rd ?b' ?o (2 + length k) = rd b1 ?o (2 + length k)" using o r(2) len by (intro rd_wr_disjoint) auto
  also have "\<dots> = rd b ?o (2 + length k)" unfolding b1_def by (intro rd_wr_disjoint) auto
  finally have key: "rd ?b' ?o (2 + length k) = nat_le 2 (length k) @ k" using leaf_at_key [OF at] by simp
  have "rd ?b' (?o + 2 + length k) (length v) = rd b1 (?o + 2 + length k) (length v)"
    using o rm len by (intro rd_wr_disjoint) auto
  also have "\<dots> = take (length v) (rd b1 (?o + 2 + length k) room)" using rm(2) by (simp add: take_rd)
  also have "rd b1 (?o + 2 + length k) room = v @ replicate (room - length v) 0"
    unfolding b1_def using lenw by (rule rd_wr_same)
  finally have val: "rd ?b' (?o + 2 + length k) (length v) = v" by simp
  have at': "leaf_at ?b' l' k v"
    using rd_key_value [OF key val] at v fit r(3) by (simp add: leaf_at_def l'_def leaf_live_def)
  have sub: "leaf_ext l' k v \<subseteq> leaf_ext l k v0" using fit by (auto simp: leaf_ext_def l'_def leaf_live_def)
  have out: "?b' a = b a" if "a \<notin> region off 16 \<union> leaf_ext l k v0" for a
  proof -
    have "a \<notin> region (?o + 2 + length k) room" using that rm(1) by (auto simp: leaf_ext_def)
    then have "b1 a = b a" unfolding b1_def using lenw by (intro wr_other) simp
    then show ?thesis using that len wr_other [of a off "enc_leaf l'" b1] by simp
  qed
  note w = leaf_rewrite [OF n h dis r(1) out body at' sub]
  show "eff b fl (nfoot s LeafT off \<union> leaf_ext l k v0) ?b' fl (nfoot s LeafT off \<union> leaf_ext l' k v)" using w(2) .
  show "tree ?b' s (ALeaf k v q False) (nfoot s LeafT off \<union> leaf_ext l' k v)"
    using w(1) by (simp add: l'_def leaf_live_def)
qed

text \<open>Updating a counter in the header touches no tree.\<close>

lemma tree_aux:
  assumes t: "tree b s t F" and h: "holds b fl F" and u: "aux_update b b'"
    and r: "root_slot b' = root_slot b" "compact_times b' = compact_times b" "header_guid b' = header_guid b"
  shows "tree b' s t F" and "eff b fl F b' fl F"
proof -
  show "eff b fl F b' fl F" using h u r by (rule eff_aux)
  have "\<forall>a \<in> F. b' a = b a"
  proof
    fix a assume "a \<in> F"
    then have "a \<notin> {0..<HEADER_SIZE}" using h by (auto simp: holds_def owned_def fixed_owned_def)
    then show "b' a = b a" using u by (simp add: aux_update_def)
  qed
  then show "tree b' s t F" using tree_frame(1) [OF t] u by (simp add: aux_update_def)
qed

lemma dec_tombstones_spec:
  assumes "tree b s t F" and "holds b fl F" and "b' = (if c then dec_tombstones b else b)"
  shows "tree b' s t F" and "eff b fl F b' fl F"
  using assms tree_aux [OF assms(1,2), of "dec_tombstones b"] eff_refl
  by (auto simp: dec_tombstones_def)

lemma overwrite_fitting_spec:
  assumes n: "node_at b s LeafT off" and at: "leaf_at b l k v0"
    and dis: "nfoot s LeafT off \<inter> leaf_ext l k v0 = {}" and h: "holds b fl (nfoot s LeafT off \<union> leaf_ext l k v0)"
    and k: "k = view key" and v: "length v < 65536" and q: "q < 2 ^ 64"
    and fit: "leaf_extent_size (length k) (length v) \<le> leaf_extent_size (length k) (length v0)"
  obtains b' F' where "overwrite_fitting s l key v q b = (Inr (changed s), b')"
    and "eff b fl (nfoot s LeafT off \<union> leaf_ext l k v0) b' fl F'" and "tree b' s (ALeaf k v q False) F'"
proof -
  note w = overwrite_fitting_body [OF n at dis h v q fit]
  have vs: "value_size l = length v0" using at by (simp add: leaf_at_def)
  have u: "as_u16 (length v) = length v" using v by (simp add: as_u16_def)
  define b2 where "b2 = wr (wr b (key_offset l + 2 + length k)
    (v @ replicate (leaf_extent_size (length k) (length v0) - 2 - length k - length v) 0)) off
    (enc_leaf (leaf_live (key_offset l) (length v) q))"
  let ?F = "nfoot s LeafT off \<union> leaf_ext (leaf_live (key_offset l) (length v) q) k v"
  have t2: "tree b2 s (ALeaf k v q False) ?F" and e2: "eff b fl (nfoot s LeafT off \<union> leaf_ext l k v0) b2 fl ?F"
    using w(3,4) unfolding b2_def by simp_all
  define b3 where "b3 = (if tombstone l \<noteq> 0 then dec_tombstones b2 else b2)"
  note d = dec_tombstones_spec [OF t2 eff_holds [OF e2] b3_def]
  have "overwrite_fitting s l key v q b = (Inr (changed s), b3)"
    using w(1,2) k vs u unfolding b3_def b2_def overwrite_fitting_def Let_def
    by (auto simp: sbind_Inr)
  then show thesis using that d(1) eff_trans [OF e2 d(2)] by blast
qed

text \<open>The same key: the condition is checked against the leaf, then the leaf is updated.\<close>

lemma same_key_guard_proceeds:
  "same_key_guard l cond \<longleftrightarrow> proceeds cond (alook (ALeaf k v0 (leaf_seq l) (tombstone l \<noteq> 0)) k d)"
  by (cases cond) (auto simp: same_key_guard_def)

lemma update_same_key_spec:
  assumes t: "tree b s (ALeaf (view key) v0 q0 dead) F" and h: "holds b fl F"
    and n: "node_at b s LeafT off" and l: "l = dec_leaf (rd b off 16)"
    and k: "length (view key) < 65536" and v: "length v < 65536" and q: "q < 2 ^ 64"
  shows "case update_same_key s l key v q cond b of
    (r, b') \<Rightarrow> ins_spec b fl F s (ALeaf (view key) v0 q0 dead) (view key) v q d cond allow (map_sum id Done r) b'"
    (is "case _ of (r, b') \<Rightarrow> ins_spec b fl F s ?t ?k v q d cond allow (map_sum id Done r) b'")
proof -
  obtain l' off' where t': "node_at b s LeafT off'" "l' = dec_leaf (rd b off' 16)" "leaf_at b l' ?k v0"
      "nfoot s LeafT off' \<inter> leaf_ext l' ?k v0 = {}" "q0 = leaf_seq l'" "dead = (tombstone l' \<noteq> 0)"
      "F = nfoot s LeafT off' \<union> leaf_ext l' ?k v0"
    using t by (rule tree_ALeafE) blast
  have "off' = off" using node_at_unique [OF n t'(1)] by simp
  then have at: "leaf_at b l ?k v0" and dis: "nfoot s LeafT off \<inter> leaf_ext l ?k v0 = {}"
    and q0: "q0 = leaf_seq l" and dead: "dead = (tombstone l \<noteq> 0)" and F: "F = nfoot s LeafT off \<union> leaf_ext l ?k v0"
    using t' l by auto
  have vs: "value_size l = length v0" using at by (simp add: leaf_at_def)
  have nc: "alook ?t ?k d \<noteq> Crossing g d'" for g d' by simp
  have g: "same_key_guard l cond \<longleftrightarrow> proceeds cond (alook ?t ?k d)"
    unfolding q0 dead by (rule same_key_guard_proceeds)
  have fin: "ins_spec b fl F s ?t ?k v q d cond allow (Inr (Done (changed s'))) b'"
    if "same_key_guard l cond" "eff b fl F b' fl' F'" "tree b' s' (ALeaf ?k v q False) F'" for s' b' fl' F'
    using ins_spec_done [OF nc _ that(2,3) ins_same] that(1) g by simp
  consider "\<not> same_key_guard l cond"
    | "same_key_guard l cond" "tombstone l = 0 \<and> length v = value_size l"
    | "same_key_guard l cond" "\<not> (tombstone l = 0 \<and> length v = value_size l)"
        "leaf_extent_size (length ?k) (length v) \<le> leaf_extent_size (length ?k) (length v0)"
    | "same_key_guard l cond" "\<not> (tombstone l = 0 \<and> length v = value_size l)"
        "\<not> leaf_extent_size (length ?k) (length v) \<le> leaf_extent_size (length ?k) (length v0)"
    by blast
  then show ?thesis
  proof cases
    case 1
    then show ?thesis using ins_spec_keep [OF nc] g by (simp add: update_same_key_def)
  next
    case 2
    then have lv: "length v = length v0" "tombstone l = 0" using vs by simp_all
    obtain b' F' where w: "overwrite_same_size s l key v q b = (Inr (changed s), b')" "eff b fl F b' fl F'"
        "tree b' s (ALeaf ?k v q False) F'"
      using overwrite_same_size_spec [OF n l at dis h [unfolded F] refl lv(1) q lv(2)] F by metis
    then show ?thesis using 2 fin [OF 2(1) w(2,3)] by (simp add: update_same_key_def)
  next
    case 3
    obtain b' F' where w: "overwrite_fitting s l key v q b = (Inr (changed s), b')" "eff b fl F b' fl F'"
        "tree b' s (ALeaf ?k v q False) F'"
      using overwrite_fitting_spec [OF n at dis h [unfolded F] refl v q 3(3)] F by metis
    then show ?thesis using 3 fin [OF 3(1) w(2,3)] vs by (auto simp: update_same_key_def)
  next
    case 4
    have run: "update_same_key s l key v q cond b = replace_leaf s l key v q b"
      using 4 vs by (auto simp: update_same_key_def)
    have "nfoot s LeafT off \<subseteq> F" using F by blast
    from n this h k v q show ?thesis
    proof (cases rule: write_leaf_free)
      case (fail e b1)
      then show ?thesis
        using run ins_spec_alloc [OF t h fail(2)] by (simp add: replace_leaf_def sbind_Inl)
    next
      case (ok l' b1 b2 fl2 Fl)
      define b3 where "b3 = (if tombstone l \<noteq> 0 then dec_tombstones b2 else b2)"
      note d = dec_tombstones_spec [OF ok(4) eff_holds [OF ok(3)] b3_def]
      have "replace_leaf s l key v q b = (Inr (changed l'), b3)"
        using ok(1,2) by (simp add: replace_leaf_def sbind_Inr b3_def)
      then show ?thesis using run fin [OF 4(1) eff_trans [OF ok(3) d(2)] d(1)] by simp
    qed
  qed
qed

lemma wrapped_tree:
  assumes w: "wrapped b fl c f (Inr s') b'" and t: "tree b c t F" and h: "holds b fl F"
  obtains fl' N where "eff b fl F b' fl' (N \<union> F)" and "tree b' s' (f t) (N \<union> F)" and "N \<inter> F = {}"
proof -
  from w obtain fl' N where x: "eff b fl {} b' fl' N" "ctx b' s' c N f" by (auto simp: wrapped_def)
  have sF: "F \<inter> {} = {}" "F \<inter> owned b fl = {}" using h by (simp_all add: holds_def)
  have "N \<inter> F = {}" using eff_sep(1) [OF x(1) sF] by blast
  moreover have "tree b' s' (f t) (N \<union> F)"
    by (rule ctx_plug [OF x(2) tree_eff [OF t x(1) sF]]) fact
  moreover have "eff b fl F b' fl' (N \<union> F)" using eff_add [OF x(1) sF] by simp
  ultimately show thesis using that by blast
qed

lemma wrapped_error:
  assumes "wrapped b fl c f (Inl e) b'" and "tree b s t F" and "holds b fl F"
  shows "ins_spec b fl F s t k v q d cond allow (Inl e) b'"
  using assms ins_spec_alloc unfolding wrapped_def by auto

lemma write_leaf_split_fork:
  "write_leaf_split s key v q \<lparr>common_prefix = cp, byte_existing = x, byte_new = y\<rparr> = write_fork x s y key v q cp"
  by (simp only: write_leaf_split_def write_fork_def leaf_split_plan.select_convs)

lemma insert_into_leaf_spec:
  assumes t: "tree b s (ALeaf k0 v0 q0 dead) F" (is "tree b s ?t F") and h: "holds b fl F"
    and on0: "on_path path k0" and on: "on_path path (view key)" and d: "d = length path"
    and k: "length (view key) < 65536" and v: "length v < 65536" and q: "q < 2 ^ 64"
  shows "case sbind (insert_into_leaf s key v d q cond) (\<lambda>r. sret (Done r)) b of
    (r, b') \<Rightarrow> ins_spec b fl F s ?t (view key) v q d cond allow r b'"
proof -
  let ?k = "view key"
  obtain l off where n: "node_at b s LeafT off" "l = dec_leaf (rd b off 16)" "leaf_at b l k0 v0"
    using t by (rule tree_ALeafE) blast
  have rd: "read_leaf_key_ref b s = Inr (k0, l)"
    using n by (simp add: read_leaf_key_ref_def body_of_slot_node_at leaf_extent_leaf_at Let_def)
  show ?thesis
  proof (cases "k0 = ?k")
    case True
    have "insert_into_leaf s key v d q cond b = update_same_key s l key v q cond b"
      using rd True by (simp add: insert_into_leaf_def eq_slice_view)
    moreover obtain r b' where r: "update_same_key s l key v q cond b = (r, b')" by force
    moreover have "ins_spec b fl F s ?t ?k v q d cond allow (map_sum id Done r) b'"
      using update_same_key_spec [OF t [unfolded True] h n(1,2) k v q, where cond = cond and d = d and allow = allow] r True by simp
    ultimately show ?thesis by (cases r) (simp_all add: sbind_Inl sbind_Inr)
  next
    case False
    let ?l = "label ?t d" and ?c = "lcp (drop d ?k) (label ?t d)"
    have dl: "d \<le> length k0" "d \<le> length ?k" using on_path_length on0 on d by auto
    have nf: "alook ?t ?k d = NotFoundR" using False by simp
    have run: "insert_into_leaf s key v d q cond b = sbind (sread (\<lambda>_. plan_split k0 key d)) (\<lambda>split.
         if is_if_version cond then sret (keep s)
         else sbind (write_leaf_split s key v q split) (\<lambda>final_slot. sret (changed final_slot))) b"
      using rd False by (simp add: insert_into_leaf_def eq_slice_view)
    show ?thesis
    proof (cases "?c = length ?l \<or> ?c = length ?k - d")
      case True
      have "plan_split k0 key d = Inl (NotYetImplemented ''walker::insert_into_leaf: one key is a strict prefix of the other'')"
        using True dl by (auto simp: plan_split_def Let_def common_prefix_view remaining_len_def)
      moreover have "key_stuck ?t ?k d" using True False by (intro stuck_leaf) auto
      ultimately show ?thesis using run ins_spec_stuck [OF t h] by (simp add: sbind_Inl)
    next
      case nonstuck: False
      have c: "d + ?c < length ?k" "?c < length ?l"
        using nonstuck lcp_le [of "drop d ?k" ?l] dl by auto
      note sp = split_paths [OF on d refl c]
      have plan: "plan_split k0 key d = Inr \<lparr>common_prefix = take ?c ?l, byte_existing = ?l ! ?c, byte_new = ?k ! (d + ?c)\<rparr>"
        using nonstuck dl c by (auto simp: plan_split_def Let_def common_prefix_view remaining_len_def at_def byte_at_view)
      show ?thesis
      proof (cases "is_if_version cond")
        case True
        then show ?thesis
          using run plan ins_spec_keep [of ?t ?k d cond] not_proceeds_absent nf by (simp add: sbind_Inr)
      next
        case False
        have h0: "holds b fl {}" using h by (rule holds_sub) simp
        obtain r b' where r: "write_fork (?l ! ?c) s (?k ! (d + ?c)) key v q (take ?c ?l) b = (r, b')" by force
        have w: "wrapped b fl s (\<lambda>t. fork (take ?c ?l) (?l ! ?c) t (?k ! (d + ?c)) (ALeaf ?k v q False)) r b'"
          using write_fork_spec [OF h0 k v q _ sp(1), of s "take ?c ?l"] tree_slot_ok [OF t] r by simp
        have run2: "insert_into_leaf s key v d q cond b = sbind (write_fork (?l ! ?c) s (?k ! (d + ?c)) key v q (take ?c ?l))
            (\<lambda>final_slot. sret (changed final_slot)) b"
          using run plan False write_leaf_split_fork [of s key v q "take ?c ?l" "?l ! ?c" "?k ! (d + ?c)"] by simp
        show ?thesis
        proof (cases r)
          case (Inl e)
          then show ?thesis using run2 r wrapped_error [OF w [unfolded Inl] t h] by (simp add: sbind_Inl)
        next
          case (Inr s')
          obtain fl' N where x: "eff b fl F b' fl' (N \<union> F)"
              "tree b' s' (fork (take ?c ?l) (?l ! ?c) ?t (?k ! (d + ?c)) (ALeaf ?k v q False)) (N \<union> F)"
            using wrapped_tree [OF w [unfolded Inr] t h] by blast
          have "ins_rel ?t ?k v q d (fork (take ?c ?l) (?l ! ?c) (cut ?t ?c) (?k ! (d + ?c)) (ALeaf ?k v q False))"
            by (rule ins_split [OF refl c])
          then have "ins_spec b fl F s ?t ?k v q d cond allow (Inr (Done (changed s'))) b'"
            using ins_spec_done [OF _ _ x] nf proceeds_absent [OF False] by simp
          then show ?thesis using run2 r Inr by (simp add: sbind_Inr)
        qed
      qed
    qed
  qed
qed

end
