(* ===== verification/Insert_Correct.thy ===== *)
theory Insert_Correct
  imports Insert_Refine
begin

text \<open>
  The recursive cases of the insert, and the whole in-blob insert.  A node above the point of
  change is a context for its child; the result for the child is lifted through it.
\<close>

section \<open>Lifting a result through a node\<close>

lemma ins_spec_lift:
  assumes cx: "ctx b s c M f" and t: "tree b c t1 F1" and dis: "M \<inter> F1 = {}" and h: "holds b fl (M \<union> F1)"
    and child: "ins_spec b fl F1 c t1 k v q d1 cond allow r b1"
    and al: "alook (f t1) k d = alook t1 k d1"
    and ir: "\<And>t'. ins_rel t1 k v q d1 t' \<Longrightarrow> ins_rel (f t1) k v q d (f t')"
    and st: "key_stuck t1 k d1 \<Longrightarrow> key_stuck (f t1) k d"
    and rp: "\<And>c' b1 fl1. \<lbrakk>slot_ok c'; c' < 65536; holds b1 fl1 M; \<forall>a \<in> M. b1 a = b a; num_slots b \<le> num_slots b1\<rbrakk>
      \<Longrightarrow> \<exists>b2. repoint c' b1 = (Inr (), b2) \<and> eff b1 fl1 M b2 fl1 M \<and> ctx b2 s c' M f"
  shows "case (case r of
        Inl e \<Rightarrow> (Inl e, b1)
      | Inr (InsCrossing g d') \<Rightarrow> (Inr (InsCrossing g d'), b1)
      | Inr (Done x) \<Rightarrow> sbind (if slot_after x \<noteq> c then repoint (slot_after x) else sret ())
          (\<lambda>_. sret (Done \<lparr>slot_after = s, ins_mutated = ins_mutated x\<rparr>)) b1)
    of (r', b') \<Rightarrow> ins_spec b fl (M \<union> F1) s (f t1) k v q d cond allow r' b'"
proof -
  have sM: "M \<inter> F1 = {}" "M \<inter> owned b fl = {}" using dis h by (auto simp: holds_def)
  have lift: "eff b fl (M \<union> F1) b' fl' (M \<union> F')" if "eff b fl F1 b' fl' F'" for b' fl' F'
    using eff_add [OF that sM] by (simp add: Un_commute)
  show ?thesis
  proof (cases r)
    case (Inl e)
    with child obtain fl' where x: "eff b fl F1 b1 fl' F1" "tree b1 c t1 F1" by (auto simp: ins_spec_def kept_def)
    have "tree b1 s (f t1) (M \<union> F1)" by (rule ctx_plug [OF ctx_eff [OF cx x(1) sM] x(2) dis])
    then have "kept b fl (M \<union> F1) s (f t1) b1" using lift [OF x(1)] by (auto simp: kept_def)
    then show ?thesis using child st al Inl by (auto simp: ins_spec_def split: error.splits)
  next
    case (Inr z)
    show ?thesis
    proof (cases z)
      case (InsCrossing g d')
      then show ?thesis using child Inr al by (simp add: ins_spec_def)
    next
      case (Done x)
      show ?thesis
      proof (cases "ins_mutated x")
        case False
        then show ?thesis using child Inr Done al by (simp add: ins_spec_def)
      next
        case True
        with child Inr Done obtain fl1 F' t' where x: "eff b fl F1 b1 fl1 F'" "tree b1 (slot_after x) t' F'"
          "ins_rel t1 k v q d1 t'" by (auto simp: ins_spec_def stored_def)
        have dis': "M \<inter> F' = {}" by (rule eff_sep(1) [OF x(1) sM])
        have own: "M \<inter> owned b1 fl1 = {}" by (rule eff_sep(2) [OF x(1) sM])
        have hM: "holds b1 fl1 M" using eff_holds [OF lift [OF x(1)]] by (rule holds_sub) simp
        have c1: "ctx b1 s c M f" by (rule ctx_eff [OF cx x(1) sM])
        have ok: "slot_ok (slot_after x)" "slot_after x < 65536" using tree_slot_ok [OF x(2)] by simp_all
        have same: "\<forall>a \<in> M. b1 a = b a" using eff_sep(3) [OF x(1) sM] by blast
        obtain b2 where b2: "(if slot_after x \<noteq> c then repoint (slot_after x) else sret ()) b1 = (Inr (), b2)"
            "eff b1 fl1 M b2 fl1 M" "ctx b2 s (slot_after x) M f"
        proof (cases "slot_after x = c")
          case True
          then show ?thesis using that [of b1] eff_refl [OF hM] c1 by simp
        next
          case False
          then show ?thesis using that rp [OF ok hM same eff_num_slots [OF x(1)]] by auto
        qed
        have sF': "F' \<inter> M = {}" "F' \<inter> owned b1 fl1 = {}"
          using dis' eff_holds [OF x(1)] by (auto simp: holds_def)
        have t2: "tree b2 s (f t') (M \<union> F')"
          by (rule ctx_plug [OF b2(3) tree_eff [OF x(2) b2(2) sF'] dis'])
        have e2: "eff b fl (M \<union> F1) b2 fl1 (M \<union> F')"
          using eff_trans [OF lift [OF x(1)] eff_add [OF b2(2) sF']] .
        have "stored b fl (M \<union> F1) s (ins_rel (f t1) k v q d) b2"
          unfolding stored_def using e2 t2 ir [OF x(3)] by blast
        then show ?thesis using b2(1) child Inr Done True al by (auto simp: ins_spec_def sbind_Inr)
      qed
    qed
  qed
qed

section \<open>Prefix nodes\<close>

lemma lcp_range: "d \<le> length k \<Longrightarrow> lcp (drop d k) p = length p \<longleftrightarrow> range_at k d p"
  using lcp_full [of p "drop d k"] by (auto simp: lcp_sym range_at_def)

lemma prefix_repoint:
  assumes n: "node_at b s PrefixT off" and p: "p = dec_prefix (rd b off 128)" and len: "prefix_len p \<le> PREFIX_MAX_INLINE"
    and c: "c' < 65536" and h: "holds b1 fl1 (nfoot s PrefixT off)"
    and same: "\<forall>a \<in> nfoot s PrefixT off. b1 a = b a" and ns: "num_slots b \<le> num_slots b1"
  shows "\<exists>b2. set_prefix_child s c' b1 = (Inr (), b2) \<and> eff b1 fl1 (nfoot s PrefixT off) b2 fl1 (nfoot s PrefixT off)
    \<and> ctx b2 s c' (nfoot s PrefixT off) (APrefix (take (prefix_len p) (pfx_bytes p)))"
proof -
  have n1: "node_at b1 s PrefixT off" using same ns by (intro node_at_cong [OF n]) auto
  have "rd b1 off 128 = rd b off 128" by (rule rd_cong) (use same in \<open>auto simp: nfoot_def\<close>)
  then have p1: "p = dec_prefix (rd b1 off 128)" using p by simp
  obtain b2 where b2: "set_prefix_child s c' b1 = (Inr (), b2)" "node_at b2 s PrefixT off"
      "dec_prefix (rd b2 off 128) = p\<lparr>pfx_child := c'\<rparr>" "eff b1 fl1 (nfoot s PrefixT off) b2 fl1 (nfoot s PrefixT off)"
    using n1 p1 c h by (rule set_prefix_child_spec)
  have "rd b2 off 128 = enc_prefix (p\<lparr>pfx_child := c'\<rparr>)"
    using b2(3) prefix.enc_dec [of "rd b2 off 128"] by simp
  moreover have "wf_prefix (p\<lparr>pfx_child := c'\<rparr>)"
    using b2(3) prefix.wf_dec [of "rd b2 off 128"] by simp
  ultimately have "ctx b2 s c' (nfoot s PrefixT off) (APrefix (take (prefix_len p) (pfx_bytes p)))"
    using prefix_ctx [OF b2(2), of "p\<lparr>pfx_child := c'\<rparr>"] len by simp
  then show ?thesis using b2 by blast
qed

lemma insert_prefix_down:
  assumes t: "tree b s (APrefix p t1) F" and h: "holds b fl F" and d: "d \<le> length (view key)"
    and rng: "range_at (view key) d p"
    and child: "\<And>c F1. tree b c t1 F1 \<Longrightarrow> holds b fl F1 \<Longrightarrow> case rec c (d + length p) b of
      (r, b') \<Rightarrow> ins_spec b fl F1 c t1 (view key) v q (d + length p) cond allow r b'"
  shows "case insert_into_prefix_step rec s key v d q cond b of
    (r, b') \<Rightarrow> ins_spec b fl F s (APrefix p t1) (view key) v q d cond allow r b'"
proof -
  let ?k = "view key"
  obtain off n F1 where n: "node_at b s PrefixT off" "n = dec_prefix (rd b off 128)" "prefix_len n \<le> PREFIX_MAX_INLINE"
      "tree b (pfx_child n) t1 F1" "nfoot s PrefixT off \<inter> F1 = {}" "p = take (prefix_len n) (pfx_bytes n)"
      "F = nfoot s PrefixT off \<union> F1"
    using t by (rule tree_APrefixE) blast
  let ?M = "nfoot s PrefixT off"
  have wf: "wf_prefix n" "rd b off 128 = enc_prefix n" using n(2) by (simp_all add: prefix.wf_dec prefix.enc_dec)
  have lp: "length p = prefix_len n" "\<not> prefix_len n > length (pfx_bytes n)"
    using n(3,6) wf(1) by (simp_all add: wf_prefix_def PREFIX_MAX_INLINE_def)
  have cs: "as_u16 (pfx_child n) = pfx_child n" using tree_slot_ok [OF n(4)] by (simp add: as_u16_def)
  obtain r b1 where r: "rec (pfx_child n) (d + length p) b = (r, b1)" by force
  have hF1: "holds b fl F1" using h by (rule holds_sub) (use n(7) in blast)
  have ch: "ins_spec b fl F1 (pfx_child n) t1 ?k v q (d + length p) cond allow r b1"
    using child [OF n(4) hF1] r by simp
  have cx: "ctx b s (pfx_child n) ?M (APrefix p)" using prefix_ctx [OF n(1) wf(2,1) n(3)] n(6) by simp
  have cm: "common_prefix_with_slice key d p = length p" using lcp_range [OF d, of p] rng by (simp add: common_prefix_view)
  have "insert_into_prefix_step rec s key v d q cond b = (case r of
        Inl e \<Rightarrow> (Inl e, b1)
      | Inr (InsCrossing g d') \<Rightarrow> (Inr (InsCrossing g d'), b1)
      | Inr (Done x) \<Rightarrow> sbind (if slot_after x \<noteq> pfx_child n then set_prefix_child s (slot_after x) else sret ())
          (\<lambda>_. sret (Done \<lparr>slot_after = s, ins_mutated = ins_mutated x\<rparr>)) b1)"
    using n(1,2) lp cs cm r n(6) unfolding insert_into_prefix_step_def
    by (auto simp: read_prefix_def body_of_slot_node_at Let_def sbind_def split: sum.splits insert_step.splits)
  moreover have "case (case r of
        Inl e \<Rightarrow> (Inl e, b1)
      | Inr (InsCrossing g d') \<Rightarrow> (Inr (InsCrossing g d'), b1)
      | Inr (Done x) \<Rightarrow> sbind (if slot_after x \<noteq> pfx_child n then set_prefix_child s (slot_after x) else sret ())
          (\<lambda>_. sret (Done \<lparr>slot_after = s, ins_mutated = ins_mutated x\<rparr>)) b1)
    of (r', b') \<Rightarrow> ins_spec b fl (?M \<union> F1) s (APrefix p t1) ?k v q d cond allow r' b'"
  proof (rule ins_spec_lift [OF cx n(4,5) h [unfolded n(7)] ch])
    show "alook (APrefix p t1) ?k d = alook t1 ?k (d + length p)" using rng by simp
  next
    fix t' assume "ins_rel t1 ?k v q (d + length p) t'"
    then show "ins_rel (APrefix p t1) ?k v q d (APrefix p t')" using rng by (intro ins_prefix)
  next
    assume "key_stuck t1 ?k (d + length p)"
    then show "key_stuck (APrefix p t1) ?k d" using rng by (intro stuck_below)
  next
    fix c' b1' fl1 assume "slot_ok c'" "c' < 65536" "holds b1' fl1 ?M" "\<forall>a \<in> ?M. b1' a = b a" "num_slots b \<le> num_slots b1'"
    then show "\<exists>b2. set_prefix_child s c' b1' = (Inr (), b2) \<and> eff b1' fl1 ?M b2 fl1 ?M \<and> ctx b2 s c' ?M (APrefix p)"
      using prefix_repoint [OF n(1-3)] n(6) by simp
  qed
  ultimately show ?thesis using n(7) by simp
qed

text \<open>Splitting a prefix: a chain for the rest of the prefix, then a fork, then the old node is freed.\<close>

lemma tail_fork_spec:
  assumes h: "holds b fl {}" and k: "length (view key) < 65536" and v: "length v < 65536" and q: "q < 2 ^ 64"
    and c: "slot_ok c" "c < 65536" and xy: "x \<noteq> y"
  shows "case sbind (if rest = [] then sret c else write_prefix_chain rest c) (\<lambda>ex. write_fork x ex y key v q cp) b of
    (r, b') \<Rightarrow> wrapped b fl c (\<lambda>t. fork cp x (pchain rest t) y (ALeaf (view key) v q False)) r b'"
proof -
  obtain r1 b1 where r1: "(if rest = [] then sret c else write_prefix_chain rest c) b = (r1, b1)" by force
  have w1: "wrapped b fl c (pchain rest) r1 b1"
    using chain_or_not_spec [OF h c, of rest] r1 by (metis case_prod_conv)
  show ?thesis
  proof (cases r1)
    case (Inl e)
    with w1 show ?thesis using r1 by (auto simp: sbind_Inl wrapped_def)
  next
    case (Inr ex)
    with w1 obtain fl1 N1 where x: "eff b fl {} b1 fl1 N1" "ctx b1 ex c N1 (pchain rest)" "slot_ok ex"
      by (auto simp: wrapped_def)
    have h1: "holds b1 fl1 {}" using eff_holds [OF x(1)] by (rule holds_sub) simp
    obtain r2 b2 where r2: "write_fork x ex y key v q cp b1 = (r2, b2)" by force
    have "wrapped b1 fl1 ex (\<lambda>t. fork cp x t y (ALeaf (view key) v q False)) r2 b2"
      using write_fork_spec [OF h1 k v q x(3) xy, of cp] r2 by simp
    from wrapped_after [OF x(1,2) this] show ?thesis using r1 r2 Inr by (simp add: sbind_Inr)
  qed
qed

lemma insert_prefix_split:
  assumes t: "tree b s (APrefix p t1) F" (is "tree b s ?t F") and h: "holds b fl F"
    and on: "on_path path (view key)" and d: "d = length path"
    and ne: "\<not> range_at (view key) d p"
    and k: "length (view key) < 65536" and v: "length v < 65536" and q: "q < 2 ^ 64"
  shows "case insert_into_prefix_step rec s key v d q cond b of
    (r, b') \<Rightarrow> ins_spec b fl F s ?t (view key) v q d cond allow r b'"
proof -
  let ?k = "view key"
  have dl: "d \<le> length ?k" using on_path_length [OF on] d by simp
  obtain off n F1 where n: "node_at b s PrefixT off" "n = dec_prefix (rd b off 128)" "prefix_len n \<le> PREFIX_MAX_INLINE"
      "tree b (pfx_child n) t1 F1" "nfoot s PrefixT off \<inter> F1 = {}" "p = take (prefix_len n) (pfx_bytes n)"
      "F = nfoot s PrefixT off \<union> F1"
    using t by (rule tree_APrefixE) blast
  let ?M = "nfoot s PrefixT off" and ?c = "lcp (drop d ?k) p" and ?ch = "pfx_child n"
  have wf: "wf_prefix n" using n(2) by (simp add: prefix.wf_dec)
  have lp: "length p = prefix_len n" "\<not> prefix_len n > length (pfx_bytes n)"
    using n(3,6) wf by (simp_all add: wf_prefix_def PREFIX_MAX_INLINE_def)
  have cs: "slot_ok ?ch" "?ch < 65536" "as_u16 ?ch = ?ch" using tree_slot_ok [OF n(4)] by (simp_all add: as_u16_def)
  have cm: "common_prefix_with_slice key d p = ?c" "?c \<noteq> length p" "?c < length p"
    using lcp_range [OF dl, of p] ne lcp_le(2) [of "drop d ?k" p] by (auto simp: common_prefix_view le_less)
  have nf: "alook ?t ?k d = NotFoundR" using ne by simp
  have run: "insert_into_prefix_step rec s key v d q cond b =
      (if d + ?c \<ge> length ?k
       then (Inl (NotYetImplemented ''walker::insert_into_prefix: key terminates inside a prefix''), b)
       else if is_if_version cond then (Inr (Done (keep s)), b)
       else sbind (sbind (if drop (?c + 1) p = [] then sret ?ch else write_prefix_chain (drop (?c + 1) p) ?ch)
              (\<lambda>ex. write_fork (p ! ?c) ex (?k ! (d + ?c)) key v q (take ?c p)))
            (\<lambda>fs. sbind (free_node s) (\<lambda>_. sret (Done (changed fs)))) b)"
  proof -
    have e: "take ?c p = [] \<longleftrightarrow> ?c = 0" using cm(3) by auto
    have r: "read_prefix b s = Inr n" using n(1,2) by (simp add: read_prefix_def body_of_slot_node_at)
    show ?thesis
      using lp cs cm r n(6) [symmetric] unfolding insert_into_prefix_step_def write_fork_def Let_def e
      by (simp add: byte_at_view sbind_assoc del: take_take cong: if_cong)
  qed
  consider "d + ?c \<ge> length ?k" | "d + ?c < length ?k" "is_if_version cond" | "d + ?c < length ?k" "\<not> is_if_version cond"
    by fastforce
  then show ?thesis
  proof cases
    case 1
    then have "key_stuck ?t ?k d" using cm(2) by (intro stuck_prefix) auto
    then show ?thesis using run 1 ins_spec_stuck [OF t h] by simp
  next
    case 2
    then show ?thesis using run ins_spec_keep [of ?t ?k d cond] not_proceeds_absent nf by simp
  next
    case 3
    let ?rest = "drop (?c + 1) p"
    let ?m = "sbind (if ?rest = [] then sret ?ch else write_prefix_chain ?rest ?ch)
      (\<lambda>ex. write_fork (p ! ?c) ex (?k ! (d + ?c)) key v q (take ?c p))"
    have lc: "?c < length (label ?t d)" using cm(3) by simp
    have xy: "p ! ?c \<noteq> ?k ! (d + ?c)" using split_paths(1) [OF on d refl 3(1) cm(3)] .
    have h0: "holds b fl {}" using h by (rule holds_sub) simp
    obtain r b1 where r: "?m b = (r, b1)" by force
    have w: "wrapped b fl ?ch (\<lambda>t. fork (take ?c p) (p ! ?c) (pchain ?rest t) (?k ! (d + ?c)) (ALeaf ?k v q False)) r b1"
      using tail_fork_spec [OF h0 k v q cs(1,2) xy, where rest = ?rest and cp = "take ?c p"] unfolding r by simp
    show ?thesis
    proof (cases r)
      case (Inl e)
      then show ?thesis using run 3 r wrapped_error [OF w [unfolded Inl] t h] by (simp add: sbind_Inl)
    next
      case (Inr s')
      have hF1: "holds b fl F1" using h by (rule holds_sub) (use n(7) in blast)
      obtain fl1 N where x: "eff b fl F1 b1 fl1 (N \<union> F1)" "N \<inter> F1 = {}"
          "tree b1 s' (fork (take ?c p) (p ! ?c) (pchain ?rest t1) (?k ! (d + ?c)) (ALeaf ?k v q False)) (N \<union> F1)"
        using wrapped_tree [OF w [unfolded Inr] n(4) hF1] by blast
      have sM: "?M \<inter> F1 = {}" "?M \<inter> owned b fl = {}" using n(5,7) h by (auto simp: holds_def)
      have e1: "eff b fl F b1 fl1 (?M \<union> (N \<union> F1))"
        using eff_add [OF x(1) sM] n(7) by (simp add: Un_commute)
      have n1: "node_at b1 s PrefixT off" by (rule node_at_eff [OF n(1) x(1) sM])
      have hM: "holds b1 fl1 ?M" using eff_holds [OF e1] by (rule holds_sub) simp
      obtain b2 fl2 where f: "free_node s b1 = (Inr (), b2)" "eff b1 fl1 ?M b2 fl2 {}"
        using free_node_eff [OF hM n1 subset_refl] by auto
      have sN: "(N \<union> F1) \<inter> ?M = {}" "(N \<union> F1) \<inter> owned b1 fl1 = {}"
        using eff_sep(1) [OF x(1) sM] eff_holds [OF x(1)] by (auto simp: holds_def)
      have e2: "eff b fl F b2 fl2 (N \<union> F1)" using eff_trans [OF e1] eff_add [OF f(2) sN] by simp
      have t2: "tree b2 s' (fork (take ?c p) (p ! ?c) (cut ?t ?c) (?k ! (d + ?c)) (ALeaf ?k v q False)) (N \<union> F1)"
        using tree_eff [OF x(3) f(2) sN] by simp
      have "ins_rel ?t ?k v q d (fork (take ?c p) (p ! ?c) (cut ?t ?c) (?k ! (d + ?c)) (ALeaf ?k v q False))"
        using ins_split [of ?c d ?k ?t v q] 3(1) lc by simp
      then have "ins_spec b fl F s ?t ?k v q d cond allow (Inr (Done (changed s'))) b2"
        using ins_spec_done [OF _ _ e2 t2] nf proceeds_absent [OF 3(2)] by simp
      then show ?thesis using run 3 r Inr f(1) by (simp add: sbind_Inr)
    qed
  qed
qed

section \<open>Blob crossings\<close>

lemma blob_node_new_ok:
  assumes "length p \<le> BLOB_MAX_INLINE" and "length g = 16"
  obtains n where "blob_node_new p g = Inr n" and "wf_blob_node n" and "bn_prefix_len n = length p"
    and "take (bn_prefix_len n) (bn_bytes n) = p" and "child_blob_guid n = g"
  using assms by (auto simp: blob_node_new_def wf_blob_node_def as_u16_def BLOB_MAX_INLINE_def)

lemma blob_step_run:
  assumes n: "node_at b s BlobT off" and bn: "bn = dec_blob_node (rd b off 128)"
    and len: "bn_prefix_len bn \<le> BLOB_MAX_INLINE" and p: "p = take (bn_prefix_len bn) (bn_bytes bn)"
    and c: "c = lcp (drop d (view key)) p"
  shows "blob_node_insert_step s key v d q cond allow b =
      (if c = length p
       then (if \<not> allow then (Inl (NotYetImplemented ''walker::insert_at: BlobNode crossing requires BufferManager''), b)
             else (Inr (InsCrossing (child_blob_guid bn) (d + length p)), b))
       else if d + c \<ge> length (view key)
       then (Inl (NotYetImplemented ''blob_node_insert_step: key terminates inside BlobNode prefix''), b)
       else if is_if_version cond then (Inr (Done (keep s)), b)
       else sbind (write_fork (p ! c) s (view key ! (d + c)) key v q (take c p))
            (\<lambda>fs. sbind (sread (\<lambda>_. blob_node_new (drop (c + 1) p) (child_blob_guid bn))) (\<lambda>adjusted.
                  sbind (write_struct_to_slot s (enc_blob_node adjusted)) (\<lambda>_. sret (Done (changed fs))))) b)"
proof -
  have "wf_blob_node bn" using bn by (simp add: blob_node.wf_dec)
  then have lp: "length p = bn_prefix_len bn" "\<not> bn_prefix_len bn > BLOB_MAX_INLINE"
    using len p by (simp_all add: wf_blob_node_def BLOB_MAX_INLINE_def)
  have e: "take c p = [] \<longleftrightarrow> c = 0" if "c \<noteq> length p"
    using that lcp_le(2) [of "drop d (view key)" p] c by auto
  have r: "body_of_slot b s = Some (off, 128)" using body_of_slot_node_at [OF n] by simp
  show ?thesis
    using lp e r p [symmetric] bn [symmetric] c [symmetric] unfolding blob_node_insert_step_def write_fork_def Let_def
    by (auto simp: common_prefix_view byte_at_view sbind_assoc simp del: take_take cong: if_cong)
qed

lemma blob_node_insert_spec:
  assumes t: "tree b s (ABlob p g) F" (is "tree b s ?t F") and h: "holds b fl F"
    and on: "on_path path (view key)" and d: "d = length path"
    and k: "length (view key) < 65536" and v: "length v < 65536" and q: "q < 2 ^ 64"
  shows "case blob_node_insert_step s key v d q cond allow b of
    (r, b') \<Rightarrow> ins_spec b fl F s ?t (view key) v q d cond allow r b'"
proof -
  let ?k = "view key" and ?c = "lcp (drop d (view key)) p"
  have dl: "d \<le> length ?k" using on_path_length [OF on] d by simp
  obtain off bn where n: "node_at b s BlobT off" "bn = dec_blob_node (rd b off 128)" "bn_prefix_len bn \<le> BLOB_MAX_INLINE"
      "p = take (bn_prefix_len bn) (bn_bytes bn)" "g = child_blob_guid bn" "F = nfoot s BlobT off"
    using t by (rule tree_ABlobE) blast
  note run = blob_step_run [OF n(1-4) refl, of key v d q cond allow]
  have g: "length g = 16" "length p \<le> BLOB_MAX_INLINE"
    using blob_node.wf_dec [of "rd b off 128"] n by (simp_all add: wf_blob_node_def BLOB_MAX_INLINE_def)
  have rng: "?c = length p \<longleftrightarrow> range_at ?k d p" by (rule lcp_range [OF dl])
  consider "?c = length p" | "?c \<noteq> length p" "d + ?c \<ge> length ?k"
    | "?c \<noteq> length p" "d + ?c < length ?k" "is_if_version cond"
    | "?c \<noteq> length p" "d + ?c < length ?k" "\<not> is_if_version cond"
    by fastforce
  then show ?thesis
  proof cases
    case 1
    then show ?thesis using run rng kept_refl [OF t h] n(5) by (auto simp: ins_spec_def)
  next
    case 2
    then have "key_stuck ?t ?k d" by (intro stuck_blob) auto
    then show ?thesis using run 2 ins_spec_stuck [OF t h] by simp
  next
    case 3
    then show ?thesis using run ins_spec_keep [of ?t ?k d cond] not_proceeds_absent rng by simp
  next
    case 4
    have c: "?c < length p" using 4(1) lcp_le(2) [of "drop d ?k" p] by simp
    have nf: "alook ?t ?k d = NotFoundR" using 4(1) rng by simp
    have xy: "p ! ?c \<noteq> ?k ! (d + ?c)" using split_paths(1) [OF on d refl 4(2) c] .
    have h0: "holds b fl {}" using h by (rule holds_sub) simp
    obtain r b1 where r: "write_fork (p ! ?c) s (?k ! (d + ?c)) key v q (take ?c p) b = (r, b1)" by force
    have w: "wrapped b fl s (\<lambda>t. fork (take ?c p) (p ! ?c) t (?k ! (d + ?c)) (ALeaf ?k v q False)) r b1"
      using write_fork_spec [OF h0 k v q _ xy, of s "take ?c p"] tree_slot_ok [OF t] unfolding r by simp
    show ?thesis
    proof (cases r)
      case (Inl e)
      then show ?thesis using run 4 r wrapped_error [OF w [unfolded Inl] t h] by (simp add: sbind_Inl)
    next
      case (Inr s')
      with w obtain fl1 N where x: "eff b fl {} b1 fl1 N"
          "ctx b1 s' s N (\<lambda>t. fork (take ?c p) (p ! ?c) t (?k ! (d + ?c)) (ALeaf ?k v q False))"
        by (auto simp: wrapped_def)
      have sF: "F \<inter> {} = {}" "F \<inter> owned b fl = {}" using h by (simp_all add: holds_def)
      have e1: "eff b fl F b1 fl1 (F \<union> N)" using eff_add [OF x(1) sF] by (simp add: Un_commute)
      have NF: "N \<inter> F = {}" "N \<inter> owned b1 fl1 = {}" using eff_sep(1) [OF x(1) sF] eff_holds [OF x(1)] by (auto simp: holds_def)
      have n1: "node_at b1 s BlobT off" using node_at_eff [OF n(1) x(1)] sF n(6) by simp
      have h1: "holds b1 fl1 (nfoot s BlobT off)" using eff_holds [OF e1] n(6) by (auto intro: holds_sub)
      have "length (drop (?c + 1) p) \<le> BLOB_MAX_INLINE" using g(2) by simp
      then obtain a where a: "blob_node_new (drop (?c + 1) p) g = Inr a" "wf_blob_node a"
          "bn_prefix_len a = length (drop (?c + 1) p)" "take (bn_prefix_len a) (bn_bytes a) = drop (?c + 1) p" "child_blob_guid a = g"
        using g(1) by (rule blob_node_new_ok)
      have len: "length (enc_blob_node a) = node_bytes BlobT" using a(2) by (simp add: blob_node.length_enc)
      note ws = write_struct_spec [OF n1 len h1]
      let ?b2 = "wr b1 off (enc_blob_node a)"
      have body: "a = dec_blob_node (rd ?b2 off 128)" using blob_node.read_after_write [OF a(2)] by simp
      have al: "bn_prefix_len a \<le> BLOB_MAX_INLINE" using a(3) g(2) by simp
      have "tree ?b2 s (ABlob (drop (?c + 1) p) g) F"
        using tree_blob [OF ws(3) body al] a(4,5) n(6) by simp
      then have t2: "tree ?b2 s (cut ?t ?c) F" by simp
      have cx: "ctx ?b2 s' s N (\<lambda>t. fork (take ?c p) (p ! ?c) t (?k ! (d + ?c)) (ALeaf ?k v q False))"
        using ctx_eff [OF x(2) ws(2)] NF n(6) by simp
      have e2: "eff b fl F ?b2 fl1 (F \<union> N)" using eff_trans [OF e1] eff_add [OF ws(2)] NF n(6) by simp
      have "eff b fl F ?b2 fl1 (N \<union> F)" using e2 by (simp add: Un_commute)
      moreover have "tree ?b2 s' (fork (take ?c p) (p ! ?c) (cut ?t ?c) (?k ! (d + ?c)) (ALeaf ?k v q False)) (N \<union> F)"
        by (rule ctx_plug [OF cx t2 NF(1)])
      moreover have "ins_rel ?t ?k v q d (fork (take ?c p) (p ! ?c) (cut ?t ?c) (?k ! (d + ?c)) (ALeaf ?k v q False))"
        using ins_split [of ?c d ?k ?t v q] 4(2) c by simp
      ultimately have "ins_spec b fl F s ?t ?k v q d cond allow (Inr (Done (changed s'))) ?b2"
        using ins_spec_done nf proceeds_absent [OF 4(3)] by simp
      then show ?thesis using run 4 r Inr a(1) ws(1) n(5) by (simp add: sbind_Inr)
    qed
  qed
qed

section \<open>Inner nodes\<close>

definition forest_ctx :: "buf \<Rightarrow> u8 \<Rightarrow> (u8 \<times> nat) list \<Rightarrow> (u8 \<times> art) list \<Rightarrow> nat set \<Rightarrow> bool" where
  "forest_ctx b k ks ts G \<longleftrightarrow> (\<forall>b2 c t F. num_slots b \<le> num_slots b2 \<longrightarrow> (\<forall>a \<in> G. b2 a = b a) \<longrightarrow> tree b2 c t F \<longrightarrow> F \<inter> G = {}
     \<longrightarrow> forest b2 (kins k c ks) (kins k t ts) (F \<union> G))"

lemma kins_same: "keys_sorted xs \<Longrightarrow> map_of xs k = Some c \<Longrightarrow> kins k c xs = xs"
  by (rule keys_sorted_ext) (auto simp: keys_sorted_kins map_of_kins)

lemma kins_twice: "keys_sorted xs \<Longrightarrow> kins k c' (kins k c xs) = kins k c' xs"
  by (rule keys_sorted_ext) (auto simp: keys_sorted_kins map_of_kins)

lemma inner_ctx:
  assumes n: "node_at b s nt off" and i: "inode b off nt (kins k c ks)" and fc: "forest_ctx b0 k ks ts G"
    and G: "\<forall>a \<in> G. b a = b0 a" "num_slots b0 \<le> num_slots b" and dis: "nfoot s nt off \<inter> G = {}"
  shows "ctx b s c (nfoot s nt off \<union> G) (\<lambda>t. AInner nt (kins k t ts))"
proof (rule ctxI)
  let ?N = "nfoot s nt off"
  fix b2 t F assume a: "\<forall>a \<in> ?N \<union> G. b2 a = b a" "num_slots b \<le> num_slots b2" "tree b2 c t F" "(?N \<union> G) \<inter> F = {}"
  have n2: "node_at b2 s nt off" using a by (intro node_at_cong [OF n]) auto
  have i2: "inode b2 off nt (kins k c ks)" using a(1) by (intro inode_cong [OF i]) (auto simp: nfoot_def)
  have "\<forall>x \<in> G. b2 x = b0 x" "num_slots b0 \<le> num_slots b2" "F \<inter> G = {}" using a G by auto
  then have "forest b2 (kins k c ks) (kins k t ts) (F \<union> G)" using fc a(3) by (simp add: forest_ctx_def)
  then have "tree b2 s (AInner nt (kins k t ts)) (?N \<union> (F \<union> G))"
    by (rule tree_inner [OF n2 i2]) (use dis a(4) in blast)
  then show "tree b2 s (AInner nt (kins k t ts)) (?N \<union> G \<union> F)" by (simp add: Un_ac)
qed

lemma inner_split:
  assumes "tree b s (AInner nt ts) F" and "map_of ts k = Some t1"
  obtains off ks c F1 G where "node_at b s nt off" and "inode b off nt ks" and "map_of ks k = Some c"
    and "tree b c t1 F1" and "forest_ctx b k ks ts G" and "nfoot s nt off \<inter> G = {}"
    and "(nfoot s nt off \<union> G) \<inter> F1 = {}" and "F = (nfoot s nt off \<union> G) \<union> F1" and "keys_sorted ts"
    and "forest b ks ts (F1 \<union> G)"
proof -
  obtain off ks F' where n: "node_at b s nt off" "inode b off nt ks" "forest b ks ts F'"
      "nfoot s nt off \<inter> F' = {}" "F = nfoot s nt off \<union> F'"
    using assms(1) by (rule tree_AInnerE) blast
  have ks: "keys_sorted ks" by (rule inode_table(1) [OF n(2)])
  obtain c where c: "map_of ks k = Some c" using forest_None [OF n(3), of k] assms(2) by auto
  obtain t Fc G where x: "map_of ts k = Some t" "tree b c t Fc" "F' = Fc \<union> G" "Fc \<inter> G = {}"
    and rep: "\<And>b' c' t' Fc'. num_slots b \<le> num_slots b' \<Longrightarrow> \<forall>a \<in> G. b' a = b a \<Longrightarrow> tree b' c' t' Fc'
      \<Longrightarrow> Fc' \<inter> G = {} \<Longrightarrow> forest b' (kins k c' ks) (kins k t' ts) (Fc' \<union> G)"
    using forest_replace [OF n(3) ks c] by metis
  have "forest_ctx b k ks ts G" unfolding forest_ctx_def using rep by blast
  then show thesis
    using that [OF n(1,2) c, of Fc G] x assms(2) n forest_sorted [OF n(3)] ks by (auto simp: Un_ac)
qed

lemma inner_repoint:
  assumes n: "node_at b s nt off" and i: "inode b off nt ks" and c: "map_of ks k = Some c"
    and fc: "forest_ctx b k ks ts G" and dis: "nfoot s nt off \<inter> G = {}"
    and c': "slot_ok c'" and h: "holds b1 fl1 (nfoot s nt off \<union> G)"
    and same: "\<forall>a \<in> nfoot s nt off \<union> G. b1 a = b a" and ns: "num_slots b \<le> num_slots b1"
  shows "\<exists>b2. inner_update_child s nt k c' b1 = (Inr (), b2)
    \<and> eff b1 fl1 (nfoot s nt off \<union> G) b2 fl1 (nfoot s nt off \<union> G)
    \<and> ctx b2 s c' (nfoot s nt off \<union> G) (\<lambda>t. AInner nt (kins k t ts))"
proof -
  let ?N = "nfoot s nt off"
  have n1: "node_at b1 s nt off" using same ns by (intro node_at_cong [OF n]) auto
  have i1: "inode b1 off nt ks" using same by (intro inode_cong [OF i]) (auto simp: nfoot_def)
  have hN: "holds b1 fl1 ?N" using h by (rule holds_sub) simp
  have "map_of ks k \<noteq> None" using c by simp
  then obtain b2 where b2: "inner_update_child s nt k c' b1 = (Inr (), b2)" "node_at b2 s nt off"
      "inode b2 off nt (kins k c' ks)" "eff b1 fl1 ?N b2 fl1 ?N"
    using inner_update_child_spec [OF n1 i1 _ c' hN] by blast
  have sG: "G \<inter> ?N = {}" "G \<inter> owned b1 fl1 = {}" using dis h by (auto simp: holds_def)
  have G2: "\<forall>a \<in> G. b2 a = b a" using eff_sep(3) [OF b2(4) sG] same by auto
  have "ctx b2 s c' (?N \<union> G) (\<lambda>t. AInner nt (kins k t ts))"
    by (rule inner_ctx [OF b2(2,3) fc G2 order_trans [OF ns eff_num_slots [OF b2(4)]] dis])
  then show ?thesis using b2(1) eff_add [OF b2(4) sG] by blast
qed

lemma insert_inner_down:
  assumes t: "tree b s (AInner nt ts) F" and h: "holds b fl F" and d: "d < length (view key)"
    and m: "map_of ts (view key ! d) = Some t1"
    and child: "\<And>c F1. tree b c t1 F1 \<Longrightarrow> holds b fl F1 \<Longrightarrow> case rec c (d + 1) b of
      (r, b') \<Rightarrow> ins_spec b fl F1 c t1 (view key) v q (d + 1) cond allow r b'"
  shows "case insert_into_inner_step rec s nt key v d q cond b of
    (r, b') \<Rightarrow> ins_spec b fl F s (AInner nt ts) (view key) v q d cond allow r b'"
proof -
  let ?k = "view key" and ?b = "view key ! d"
  obtain off ks c F1 G where n: "node_at b s nt off" "inode b off nt ks" "map_of ks ?b = Some c"
      "tree b c t1 F1" "forest_ctx b ?b ks ts G" "nfoot s nt off \<inter> G = {}"
      "(nfoot s nt off \<union> G) \<inter> F1 = {}" "F = (nfoot s nt off \<union> G) \<union> F1" "keys_sorted ts" "forest b ks ts (F1 \<union> G)"
    using t m by (rule inner_split)
  let ?M = "nfoot s nt off \<union> G" and ?f = "\<lambda>t. AInner nt (kins ?b t ts)"
  have ks: "keys_sorted ks" by (rule inode_table(1) [OF n(2)])
  have same: "?f t1 = AInner nt ts" using kins_same [OF n(9) m] by simp
  have find: "inner_find_child b s nt ?b = Inr (Some c)"
    using inner_find_child_spec [OF n(1,2), of ?b] forest_slots [OF n(10)] n(3) by simp
  have cx: "ctx b s c ?M ?f"
    using inner_ctx [OF n(1) _ n(5) _ _ n(6), of c] n(2) kins_same [OF ks n(3)] by simp
  obtain r b1 where r: "rec c (d + 1) b = (r, b1)" by force
  have hF1: "holds b fl F1" using h by (rule holds_sub) (use n(8) in blast)
  have ch: "ins_spec b fl F1 c t1 ?k v q (d + 1) cond allow r b1" using child [OF n(4) hF1] r by simp
  have "insert_into_inner_step rec s nt key v d q cond b = (case r of
        Inl e \<Rightarrow> (Inl e, b1)
      | Inr (InsCrossing g d') \<Rightarrow> (Inr (InsCrossing g d'), b1)
      | Inr (Done x) \<Rightarrow> sbind (if slot_after x \<noteq> c then inner_update_child s nt ?b (slot_after x) else sret ())
          (\<lambda>_. sret (Done \<lparr>slot_after = s, ins_mutated = ins_mutated x\<rparr>)) b1)"
    using d find r unfolding insert_into_inner_step_def
    by (auto simp: byte_at_view sbind_def split: sum.splits insert_step.splits)
  moreover have "case (case r of
        Inl e \<Rightarrow> (Inl e, b1)
      | Inr (InsCrossing g d') \<Rightarrow> (Inr (InsCrossing g d'), b1)
      | Inr (Done x) \<Rightarrow> sbind (if slot_after x \<noteq> c then inner_update_child s nt ?b (slot_after x) else sret ())
          (\<lambda>_. sret (Done \<lparr>slot_after = s, ins_mutated = ins_mutated x\<rparr>)) b1)
    of (r', b') \<Rightarrow> ins_spec b fl (?M \<union> F1) s (?f t1) ?k v q d cond allow r' b'"
  proof (rule ins_spec_lift [where f = ?f, OF cx n(4,7) h [unfolded n(8)] ch])
    show "alook (?f t1) ?k d = alook t1 ?k (d + 1)" using d m unfolding same by (simp add: alook_AInner)
  next
    fix t' assume "ins_rel t1 ?k v q (d + 1) t'"
    then show "ins_rel (?f t1) ?k v q d (?f t')" unfolding same using d m by (intro ins_inner)
  next
    assume "key_stuck t1 ?k (d + 1)"
    then show "key_stuck (?f t1) ?k d" unfolding same using d m by (intro stuck_child)
  next
    fix c' b1' fl1 assume "slot_ok c'" "c' < 65536" "holds b1' fl1 ?M" "\<forall>a \<in> ?M. b1' a = b a" "num_slots b \<le> num_slots b1'"
    then show "\<exists>b2. inner_update_child s nt ?b c' b1' = (Inr (), b2) \<and> eff b1' fl1 ?M b2 fl1 ?M \<and> ctx b2 s c' ?M ?f"
      using inner_repoint [OF n(1,2,3,5,6)] by simp
  qed
  ultimately show ?thesis using n(8) same by simp
qed

lemma insert_inner_add:
  assumes t: "tree b s (AInner nt ts) F" and h: "holds b fl F" and d: "d < length (view key)"
    and m: "map_of ts (view key ! d) = None"
    and k: "length (view key) < 65536" and v: "length v < 65536" and q: "q < 2 ^ 64"
  shows "case insert_into_inner_step rec s nt key v d q cond b of
    (r, b') \<Rightarrow> ins_spec b fl F s (AInner nt ts) (view key) v q d cond allow r b'"
proof -
  let ?k = "view key" and ?b = "view key ! d" and ?t = "AInner nt ts"
  obtain off ks F' where n: "node_at b s nt off" "inode b off nt ks" "forest b ks ts F'"
      "nfoot s nt off \<inter> F' = {}" "F = nfoot s nt off \<union> F'"
    using t by (rule tree_AInnerE) blast
  let ?N = "nfoot s nt off"
  have mk: "map_of ks ?b = None" using forest_None [OF n(3)] m by blast
  have find: "inner_find_child b s nt ?b = Inr None"
    using inner_find_child_spec [OF n(1,2), of ?b] mk by simp
  have nf: "alook ?t ?k d = NotFoundR" using d m by (simp add: alook_AInner)
  have run: "insert_into_inner_step rec s nt key v d q cond b =
     (if is_if_version cond then sret (Done (keep s))
      else sbind (write_leaf key v q) (\<lambda>new_leaf.
           sbind (inner_add_child s nt ?b new_leaf) (\<lambda>g. sret (Done (changed g))))) b"
    using d find by (simp add: insert_into_inner_step_def byte_at_view)
  show ?thesis
  proof (cases "is_if_version cond")
    case True
    then show ?thesis using run ins_spec_keep [of ?t ?k d cond] not_proceeds_absent nf by simp
  next
    case False
    have h0: "holds b fl {}" using h by (rule holds_sub) simp
    from h0 k v q show ?thesis
    proof (cases rule: write_leaf_spec)
      case (fail e b1)
      then show ?thesis using run False ins_spec_alloc [OF t h fail(2)] by (simp add: sbind_Inl)
    next
      case (ok l b1 fl1 Fl)
      have sF: "F \<inter> {} = {}" "F \<inter> owned b fl = {}" using h by (simp_all add: holds_def)
      note sep = eff_sep [OF ok(3) sF]
      have n1: "node_at b1 s nt off" using node_at_eff [OF n(1) ok(3)] sF n(5) by auto
      have i1: "inode b1 off nt ks" by (rule inode_cong [OF n(2) sep(3)]) (simp add: n(5) nfoot_def)
      have f1: "forest b1 ks ts F'" using forest_eff [OF n(3) ok(3)] sF n(5) by auto
      have e1: "eff b fl F b1 fl1 (?N \<union> (F' \<union> Fl))" using eff_add [OF ok(3) sF] n(5) by (simp add: Un_ac)
      have hN: "holds b1 fl1 ?N" using eff_holds [OF e1] by (rule holds_sub) simp
      obtain r b2 where r: "inner_add_child s nt ?b l b1 = (r, b2)" by force
      have ad: "added b1 fl1 ?N (kins ?b l ks) r b2"
        using inner_add_child_spec [OF n1 i1 mk _ hN, of l] tree_slot_ok [OF ok(2)] r by simp
      show ?thesis
      proof (cases r)
        case (Inl e)
        with ad obtain a where a: "e = Alloc a" "b2 = b1" by (auto simp: added_def)
        then show ?thesis using run False ok(1) r Inl ins_spec_alloc [OF t h ok(3)] by (simp add: sbind_Inr sbind_Inl)
      next
        case (Inr s')
        with ad obtain nt' off' fl2 where x: "node_at b2 s' nt' off'" "inode b2 off' nt' (kins ?b l ks)"
            "eff b1 fl1 ?N b2 fl2 (nfoot s' nt' off')"
          by (auto simp: added_def)
        have sG: "(F' \<union> Fl) \<inter> ?N = {}" "(F' \<union> Fl) \<inter> owned b1 fl1 = {}"
          using sep(1) n(4,5) eff_holds [OF e1] by (auto simp: holds_def)
        have f2: "forest b2 ks ts F'" using forest_eff [OF f1 x(3)] sG by auto
        have l2: "tree b2 l (ALeaf ?k v q False) Fl" using tree_eff [OF ok(2) x(3)] sG by auto
        have "Fl \<inter> F' = {}" using sep(1) n(5) by blast
        then have "forest b2 (kins ?b l ks) (kins ?b (ALeaf ?k v q False) ts) (Fl \<union> F')"
          by (rule forest_insert [OF f2 mk l2])
        then have t2: "tree b2 s' (AInner nt' (kins ?b (ALeaf ?k v q False) ts)) (nfoot s' nt' off' \<union> (Fl \<union> F'))"
          by (rule tree_inner [OF x(1,2)]) (use eff_sep(1) [OF x(3) sG] in blast)
        have e2: "eff b fl F b2 fl2 (nfoot s' nt' off' \<union> (Fl \<union> F'))"
          using eff_trans [OF e1] eff_add [OF x(3) sG] by (simp add: Un_ac)
        have "ins_spec b fl F s ?t ?k v q d cond allow (Inr (Done (changed s'))) b2"
          by (rule ins_spec_done [OF _ _ e2 t2 ins_add [OF d m]]) (use nf proceeds_absent [OF False] in auto)
        then show ?thesis using run False ok(1) r Inr by (simp add: sbind_Inr)
      qed
    qed
  qed
qed

section \<open>The in-blob insert\<close>

theorem insert_at_step_refines:
  assumes "tree b s t F" and "holds b fl F" and "wf_art t path" and "on_path path (view key)" and "d = length path"
    and "height t < fuel" and k: "length (view key) < 65536" and v: "length v < 65536" and q: "q < 2 ^ 64"
  shows "case insert_at_step fuel s key v d q cond allow b of
    (r, b') \<Rightarrow> ins_spec b fl F s t (view key) v q d cond allow r b'"
  using assms(1-6)
proof (induction fuel arbitrary: s t F d path)
  case (Suc fuel)
  note t = Suc.prems(1) and h = Suc.prems(2) and wf = Suc.prems(3) and on = Suc.prems(4) and d = Suc.prems(5)
  let ?k = "view key"
  have dl: "d \<le> length ?k" using on_path_length [OF on] d by simp
  show ?case
  proof (cases t)
    case AEmpty
    then obtain off where "node_at b s EmptyRoot off" using t by (blast elim: tree_AEmptyE)
    then show ?thesis
      using insert_into_empty_root_spec [OF t [unfolded AEmpty] h k v q] AEmpty by (simp add: ntype_of_node_at Let_def)
  next
    case (ALeaf k0 v0 q0 dead)
    then obtain off where n: "node_at b s LeafT off" using t by (blast elim: tree_ALeafE)
    have "on_path path k0" using wf ALeaf by (simp add: on_path_def)
    then show ?thesis
      using n insert_into_leaf_spec [OF t [unfolded ALeaf] h _ on d k v q] ALeaf by (simp add: ntype_of_node_at Let_def)
  next
    case (APrefix p t1)
    then obtain off where n: "node_at b s PrefixT off" using t by (blast elim: tree_APrefixE)
    let ?rec = "\<lambda>s d. insert_at_step fuel s key v d q cond allow"
    have "case insert_into_prefix_step ?rec s key v d q cond b of
        (r, b') \<Rightarrow> ins_spec b fl F s (APrefix p t1) ?k v q d cond allow r b'"
    proof (cases "range_at ?k d p")
      case True
      show ?thesis
      proof (rule insert_prefix_down [OF t [unfolded APrefix] h dl True])
        fix c F1 assume c: "tree b c t1 F1" "holds b fl F1"
        show "case ?rec c (d + length p) b of
            (r, b') \<Rightarrow> ins_spec b fl F1 c t1 ?k v q (d + length p) cond allow r b'"
          using Suc.IH [OF c, of "path @ p" "d + length p"] wf on d Suc.prems(6) True APrefix
          by (simp add: on_path_append)
      qed
    next
      case False
      then show ?thesis by (rule insert_prefix_split [OF t [unfolded APrefix] h on d _ k v q])
    qed
    then show ?thesis using n APrefix by (simp add: ntype_of_node_at Let_def)
  next
    case (AInner nt ts)
    then obtain off ks where n: "node_at b s nt off" "inode b off nt ks" using t by (blast elim: tree_AInnerE)
    let ?rec = "\<lambda>s d. insert_at_step fuel s key v d q cond allow"
    have "case insert_into_inner_step ?rec s nt key v d q cond b of
        (r, b') \<Rightarrow> ins_spec b fl F s (AInner nt ts) ?k v q d cond allow r b'"
    proof (cases "d < length ?k")
      case False
      then have "key_stuck (AInner nt ts) ?k d" by (intro stuck_end) simp
      then show ?thesis
        using False ins_spec_stuck [OF t h] AInner by (simp add: insert_into_inner_step_def byte_at_view)
    next
      case True
      show ?thesis
      proof (cases "map_of ts (?k ! d)")
        case None
        then show ?thesis by (rule insert_inner_add [OF t [unfolded AInner] h True _ k v q])
      next
        case (Some t1)
        show ?thesis
        proof (rule insert_inner_down [OF t [unfolded AInner] h True Some])
          fix c F1 assume c: "tree b c t1 F1" "holds b fl F1"
          have "wf_art t1 (path @ [?k ! d])" using wf AInner Some wf_art_child by blast
          moreover have "on_path (path @ [?k ! d]) ?k" using on d True by (simp add: on_path_snoc)
          moreover have "height t1 < fuel" using height_child [OF Some, of nt] Suc.prems(6) AInner by simp
          ultimately show "case ?rec c (d + 1) b of
              (r, b') \<Rightarrow> ins_spec b fl F1 c t1 ?k v q (d + 1) cond allow r b'"
            using Suc.IH [OF c, of "path @ [?k ! d]" "d + 1"] d by simp
        qed
      qed
    qed
    then show ?thesis
      using n AInner inode_nt [OF n(2)] by (auto simp: ntype_of_node_at Let_def)
  next
    case (ABlob p g)
    then obtain off where n: "node_at b s BlobT off" using t by (blast elim: tree_ABlobE)
    then show ?thesis
      using blob_node_insert_spec [OF t [unfolded ABlob] h on d k v q] ABlob by (simp add: ntype_of_node_at Let_def)
  qed
qed simp

end
