(* ===== verification/Erase_Correct.thy ===== *)
theory Erase_Correct
  imports Erase Insert_Correct
begin

text \<open>
  The erase refines deletion from the abstract tree: the erased key is not found any more and
  every other key is found as before.  It never fails on a well-formed frame, since it allocates
  nothing, and never asks the parent to rewire a child.
\<close>

section \<open>Deletion from abstract trees\<close>

inductive del_rel :: "art \<Rightarrow> bytes \<Rightarrow> nat \<Rightarrow> art \<Rightarrow> bool" where
  del_leaf: "del_rel (ALeaf k v q False) k d (ALeaf k v q True)"
| del_prefix: "range_at k d p \<Longrightarrow> del_rel t k (d + length p) t' \<Longrightarrow> del_rel (APrefix p t) k d (APrefix p t')"
| del_inner: "d < length k \<Longrightarrow> map_of ts (k ! d) = Some t \<Longrightarrow> del_rel t k (d + 1) t'
    \<Longrightarrow> del_rel (AInner nt ts) k d (AInner nt (kins (k ! d) t' ts))"

theorem del_rel_wf:
  "del_rel t k d t' \<Longrightarrow> wf_art t path \<Longrightarrow> wf_art t' path"
proof (induction arbitrary: path rule: del_rel.induct)
  case (del_inner d k ts t t' nt)
  have "wf_art t' (path @ [k ! d])" using del_inner wf_art_child by blast
  then show ?case using del_inner.prems by (rule wf_art_kins [rotated])
qed auto

theorem del_rel_lookup:
  "del_rel t k d t' \<Longrightarrow> wf_art t path \<Longrightarrow> alook t' k' d = (if k' = k then NotFoundR else alook t k' d)"
proof (induction arbitrary: path rule: del_rel.induct)
  case (del_leaf k v q d)
  then show ?case by simp
next
  case (del_prefix k d p t t')
  then have "wf_art t (path @ p)" by simp
  then have "alook t' k' (d + length p) = (if k' = k then NotFoundR else alook t k' (d + length p))"
    by (rule del_prefix.IH)
  then show ?case using del_prefix.hyps(1) by auto
next
  case (del_inner d k ts t t' nt)
  have sorted: "keys_sorted ts" using del_inner.prems by (simp add: wf_art_AInner)
  have "wf_art t (path @ [k ! d])" using del_inner wf_art_child by blast
  then have "alook t' k' (d + 1) = (if k' = k then NotFoundR else alook t k' (d + 1))" by (rule del_inner.IH)
  then show ?case using del_inner.hyps by (auto simp: alook_AInner map_of_kins [OF sorted])
qed

theorem del_rel_user_tree: "del_rel t k d t' \<Longrightarrow> user_tree t path \<Longrightarrow> user_tree t' path"
proof (induction arbitrary: path rule: del_rel.induct)
  case (del_prefix k d p t t')
  then show ?case using del_prefix.IH [OF user_tree_prefix] by (auto simp: user_tree_def ends_path_def)
next
  case (del_inner d k ts t t' nt)
  have "user_tree t' (path @ [k ! d])" using del_inner user_tree_child by blast
  then show ?case using del_inner.prems by (rule user_tree_kins [rotated])
qed (simp add: user_tree_def)

section \<open>Refinement\<close>

fun erases :: "erase_condition \<Rightarrow> lookup_result \<Rightarrow> bool" where
  "erases EAlways r = (case r of Found _ _ \<Rightarrow> True | _ \<Rightarrow> False)"
| "erases (EIfVersion e) r = (case r of Found _ q \<Rightarrow> q = e | _ \<Rightarrow> False)"

lemma not_erases_absent [simp]: "\<not> erases cond NotFoundR"
  by (cases cond) auto

definition era_spec ::
  "buf \<Rightarrow> (node_type \<Rightarrow> nat list) \<Rightarrow> nat set \<Rightarrow> nat \<Rightarrow> art \<Rightarrow> bytes \<Rightarrow> nat \<Rightarrow> erase_condition
   \<Rightarrow> erase_step res \<Rightarrow> buf \<Rightarrow> bool" where
  "era_spec b fl F s t k d cond r b' \<longleftrightarrow>
     (case r of
        Inl e \<Rightarrow> False
      | Inr (EraCrossing g d') \<Rightarrow> b' = b \<and> alook t k d = Crossing g d'
      | Inr (EDone x) \<Rightarrow> (\<forall>g d'. alook t k d \<noteq> Crossing g d') \<and> signal x = Unchanged
          \<and> era_mutated x = erases cond (alook t k d)
          \<and> (if era_mutated x then \<exists>t'. eff b fl F b' fl F \<and> tree b' s t' F \<and> del_rel t k d t' else b' = b))"

lemma era_spec_untouched:
  "\<lbrakk>\<And>g d'. alook t k d \<noteq> Crossing g d'; \<not> erases cond (alook t k d)\<rbrakk>
   \<Longrightarrow> era_spec b fl F s t k d cond (Inr (EDone untouched)) b"
  by (simp add: era_spec_def untouched_def)

lemma erase_at_leaf_spec:
  assumes t: "tree b s (ALeaf k0 v0 q0 dead) F" (is "tree b s ?t F") and h: "holds b fl F"
  shows "case sbind (erase_at_leaf s key cond) (\<lambda>r. sret (EDone r)) b of
    (r, b') \<Rightarrow> era_spec b fl F s ?t (view key) d cond r b'"
proof -
  obtain l off where n: "node_at b s LeafT off" "l = dec_leaf (rd b off 16)" "leaf_at b l k0 v0"
      "nfoot s LeafT off \<inter> leaf_ext l k0 v0 = {}" "q0 = leaf_seq l" "dead = (tombstone l \<noteq> 0)"
      "F = nfoot s LeafT off \<union> leaf_ext l k0 v0"
    using t by (rule tree_ALeafE) blast
  have rd: "read_leaf_key_ref b s = Inr (k0, l)"
    using n by (simp add: read_leaf_key_ref_def body_of_slot_node_at leaf_extent_leaf_at Let_def)
  show ?thesis
  proof (cases "erases cond (alook ?t (view key) d)")
    case False
    then have "erase_at_leaf s key cond b = (Inr untouched, b)"
      using rd n(5,6) by (cases cond) (auto simp: erase_at_leaf_def eq_slice_view split: if_splits)
    then show ?thesis using False by (simp add: sbind_Inr era_spec_untouched)
  next
    case True
    then have eq: "k0 = view key" "tombstone l = 0" "dead = False"
      using n(6) not_erases_absent by (auto split: if_splits)
    let ?l = "l\<lparr>tombstone := 1\<rparr>"
    have wf: "wf_leaf ?l" using leaf.wf_dec [of "rd b off 16"] n(2) by (simp add: wf_leaf_def)
    let ?b1 = "wr b off (enc_leaf ?l)"
    have len: "length (enc_leaf ?l) = 16" using wf by (rule leaf.length_enc)
    have body: "dec_leaf (rd ?b1 off 16) = ?l" using wf by (rule leaf.read_after_write)
    have out: "?b1 a = b a" if "a \<notin> region off 16 \<union> leaf_ext l k0 v0" for a
      using that len wr_other [of a off "enc_leaf ?l" b] by simp
    have "?b1 a = b a" if "a \<in> leaf_ext l k0 v0" for a
      using that n(4) len by (intro wr_other) (auto simp: nfoot_def)
    then have "leaf_at ?b1 l k0 v0" by (rule leaf_at_cong [OF n(3)])
    then have at: "leaf_at ?b1 ?l k0 v0" by (simp add: leaf_at_def)
    have ext: "leaf_ext ?l k0 v0 = leaf_ext l k0 v0" by (simp add: leaf_ext_def)
    note w = leaf_rewrite [OF n(1) h [unfolded n(7)] n(4) leaf_at_range(1) [OF n(3)] out body at]
    have t1: "tree ?b1 s (ALeaf k0 v0 q0 True) F" and e1: "eff b fl F ?b1 fl F"
      using w ext n(5,7) by simp_all
    let ?b2 = "set_tombstone_leaf_cnt (sat_add 32 (tombstone_leaf_cnt ?b1) 1) ?b1"
    have "tree ?b2 s (ALeaf k0 v0 q0 True) F" "eff ?b1 fl F ?b2 fl F"
      using tree_aux [OF t1 eff_holds [OF e1], of ?b2] by simp_all
    then have "eff b fl F ?b2 fl F \<and> tree ?b2 s (ALeaf k0 v0 q0 True) F \<and> del_rel ?t (view key) d (ALeaf k0 v0 q0 True)"
      using eff_trans [OF e1] eq del_leaf by simp
    moreover have "erase_at_leaf s key cond b = (Inr \<lparr>signal = Unchanged, era_mutated = True\<rparr>, ?b2)"
    proof -
      have "write_struct_to_slot s (enc_leaf ?l) b = (Inr (), ?b1)"
        using len by (simp add: write_struct_to_slot_def body_of_slot_node_at [OF n(1)])
      moreover have "\<not> (case cond of EIfVersion expected \<Rightarrow> leaf_seq l \<noteq> expected | EAlways \<Rightarrow> False)"
        using True eq n(5) by (cases cond) auto
      ultimately show ?thesis using rd eq by (simp add: erase_at_leaf_def eq_slice_view sbind_Inr)
    qed
    ultimately show ?thesis using True by (auto simp: era_spec_def sbind_Inr)
  qed
qed

lemma era_spec_lift:
  assumes cx: "ctx b s c M f" and t: "tree b c t1 F1" and dis: "M \<inter> F1 = {}" and h: "holds b fl (M \<union> F1)"
    and child: "era_spec b fl F1 c t1 k d1 cond r b1"
    and al: "alook (f t1) k d = alook t1 k d1"
    and ir: "\<And>t'. del_rel t1 k d1 t' \<Longrightarrow> del_rel (f t1) k d (f t')"
  shows "era_spec b fl (M \<union> F1) s (f t1) k d cond r b1"
proof (cases r)
  case (Inr z)
  have sM: "M \<inter> F1 = {}" "M \<inter> owned b fl = {}" using dis h by (auto simp: holds_def)
  show ?thesis
  proof (cases z)
    case (EDone x)
    show ?thesis
    proof (cases "era_mutated x")
      case True
      then obtain t' where x: "eff b fl F1 b1 fl F1" "tree b1 c t' F1" "del_rel t1 k d1 t'"
        using child Inr EDone by (auto simp: era_spec_def)
      have "tree b1 s (f t') (M \<union> F1)" by (rule ctx_plug [OF ctx_eff [OF cx x(1) sM] x(2) dis])
      moreover have "eff b fl (M \<union> F1) b1 fl (M \<union> F1)" using eff_add [OF x(1) sM] by (simp add: Un_commute)
      ultimately show ?thesis using child Inr EDone True al ir [OF x(3)] by (auto simp: era_spec_def)
    qed (use child Inr EDone al in \<open>simp add: era_spec_def\<close>)
  qed (use child Inr al in \<open>simp add: era_spec_def\<close>)
qed (use child in \<open>simp add: era_spec_def\<close>)

text \<open>What a parent does with a child's result when the signal is \<open>Unchanged\<close>.\<close>

lemma era_spec_shape:
  assumes "era_spec b fl F s t k d cond r b1"
  shows "(\<exists>g d'. r = Inr (EraCrossing g d')) \<or> (\<exists>m. r = Inr (EDone \<lparr>signal = Unchanged, era_mutated = m\<rparr>))"
proof (cases r)
  case (Inr z)
  show ?thesis
  proof (cases z)
    case (EDone x)
    then have "signal x = Unchanged" using assms Inr by (simp add: era_spec_def)
    then have "x = \<lparr>signal = Unchanged, era_mutated = era_mutated x\<rparr>" by simp
    then show ?thesis using Inr EDone by metis
  qed (use Inr in simp)
qed (use assms in \<open>simp add: era_spec_def\<close>)

lemma erase_prefix_spec:
  assumes t: "tree b s (APrefix p t1) F" and h: "holds b fl F"
    and child: "\<And>c F1. range_at (view key) d p \<Longrightarrow> tree b c t1 F1 \<Longrightarrow> holds b fl F1 \<Longrightarrow> case rec c (d + length p) b of
      (r, b') \<Rightarrow> era_spec b fl F1 c t1 (view key) (d + length p) cond r b'"
  shows "case erase_at_prefix_step rec s key d b of
    (r, b') \<Rightarrow> era_spec b fl F s (APrefix p t1) (view key) d cond r b'"
proof -
  let ?k = "view key"
  obtain off n F1 where n: "node_at b s PrefixT off" "n = dec_prefix (rd b off 128)" "prefix_len n \<le> PREFIX_MAX_INLINE"
      "tree b (pfx_child n) t1 F1" "nfoot s PrefixT off \<inter> F1 = {}" "p = take (prefix_len n) (pfx_bytes n)"
      "F = nfoot s PrefixT off \<union> F1"
    using t by (rule tree_APrefixE) blast
  have wf: "wf_prefix n" "rd b off 128 = enc_prefix n" using n(2) by (simp_all add: prefix.wf_dec prefix.enc_dec)
  have lp: "length p = prefix_len n" "\<not> prefix_len n > length (pfx_bytes n)"
    using n(3,6) wf(1) by (simp_all add: wf_prefix_def PREFIX_MAX_INLINE_def)
  have cs: "as_u16 (pfx_child n) = pfx_child n" using tree_slot_ok [OF n(4)] by (simp add: as_u16_def)
  have rp: "read_prefix b s = Inr n" using n(1,2) by (simp add: read_prefix_def body_of_slot_node_at)
  have re: "range_eq key d p \<longleftrightarrow> range_at ?k d p" by (simp add: range_eq_view range_at_def)
  show ?thesis
  proof (cases "range_at ?k d p")
    case False
    then show ?thesis
      using rp lp re n(6) era_spec_untouched [of "APrefix p t1" ?k d cond] by (simp add: erase_at_prefix_step_def Let_def)
  next
    case True
    obtain r b1 where r: "rec (pfx_child n) (d + length p) b = (r, b1)" by force
    have hF1: "holds b fl F1" using h by (rule holds_sub) (use n(7) in blast)
    have ch: "era_spec b fl F1 (pfx_child n) t1 ?k (d + length p) cond r b1"
      using child [OF True n(4) hF1] r by simp
    have "erase_at_prefix_step rec s key d b = (r, b1)"
      using era_spec_shape [OF ch] rp lp re n(6) True r cs by (auto simp: erase_at_prefix_step_def Let_def sbind_Inr)
    moreover have "era_spec b fl (nfoot s PrefixT off \<union> F1) s (APrefix p t1) ?k d cond r b1"
    proof (rule era_spec_lift [OF _ n(4,5) h [unfolded n(7)] ch])
      show "ctx b s (pfx_child n) (nfoot s PrefixT off) (APrefix p)"
        using prefix_ctx [OF n(1) wf(2,1) n(3)] n(6) by simp
    qed (use True del_prefix in auto)
    ultimately show ?thesis using n(7) by simp
  qed
qed

lemma erase_inner_spec:
  assumes t: "tree b s (AInner nt ts) F" and h: "holds b fl F"
    and child: "\<And>c t1 F1. d < length (view key) \<Longrightarrow> map_of ts (view key ! d) = Some t1 \<Longrightarrow> tree b c t1 F1 \<Longrightarrow> holds b fl F1
      \<Longrightarrow> case rec c (d + 1) b of (r, b') \<Rightarrow> era_spec b fl F1 c t1 (view key) (d + 1) cond r b'"
  shows "case erase_at_inner_step rec s nt key d b of
    (r, b') \<Rightarrow> era_spec b fl F s (AInner nt ts) (view key) d cond r b'"
proof -
  let ?k = "view key" and ?t = "AInner nt ts"
  consider "\<not> d < length ?k" | "d < length ?k" "map_of ts (?k ! d) = None" | t1 where "d < length ?k" "map_of ts (?k ! d) = Some t1"
    by fastforce
  then show ?thesis
  proof cases
    case 1
    then show ?thesis
      using era_spec_untouched [of ?t ?k d cond] by (simp add: erase_at_inner_step_def byte_at_view alook_AInner)
  next
    case 2
    obtain off ks F' where n: "node_at b s nt off" "inode b off nt ks" "forest b ks ts F'"
      using t by (rule tree_AInnerE) blast
    have "map_of ks (?k ! d) = None" using forest_None [OF n(3)] 2 by blast
    then have "inner_find_child b s nt (?k ! d) = Inr None" using inner_find_child_spec [OF n(1,2), of "?k ! d"] by simp
    then show ?thesis
      using 2 era_spec_untouched [of ?t ?k d cond] by (simp add: erase_at_inner_step_def byte_at_view alook_AInner)
  next
    case 3
    let ?b = "?k ! d"
    obtain off ks c F1 G where n: "node_at b s nt off" "inode b off nt ks" "map_of ks ?b = Some c"
        "tree b c t1 F1" "forest_ctx b ?b ks ts G" "nfoot s nt off \<inter> G = {}"
        "(nfoot s nt off \<union> G) \<inter> F1 = {}" "F = (nfoot s nt off \<union> G) \<union> F1" "keys_sorted ts" "forest b ks ts (F1 \<union> G)"
      using t 3(2) by (rule inner_split)
    let ?f = "\<lambda>t. AInner nt (kins ?b t ts)"
    have same: "?f t1 = ?t" using kins_same [OF n(9) 3(2)] by simp
    have find: "inner_find_child b s nt ?b = Inr (Some c)"
      using inner_find_child_spec [OF n(1,2), of ?b] forest_slots [OF n(10)] n(3) by simp
    have cx: "ctx b s c (nfoot s nt off \<union> G) ?f"
      using inner_ctx [OF n(1) _ n(5) _ _ n(6), of c] n(2) kins_same [OF inode_table(1) [OF n(2)] n(3)] by simp
    obtain r b1 where r: "rec c (d + 1) b = (r, b1)" by force
    have hF1: "holds b fl F1" using h by (rule holds_sub) (use n(8) in blast)
    have ch: "era_spec b fl F1 c t1 ?k (d + 1) cond r b1" using child [OF 3 n(4) hF1] r by simp
    have run: "erase_at_inner_step rec s nt key d b = (r, b1)"
      using era_spec_shape [OF ch] find r 3(1) by (auto simp: erase_at_inner_step_def byte_at_view sbind_Inr)
    have "era_spec b fl ((nfoot s nt off \<union> G) \<union> F1) s (?f t1) ?k d cond r b1"
    proof (rule era_spec_lift [where f = ?f, OF cx n(4,7) h [unfolded n(8)] ch])
      show "alook (?f t1) ?k d = alook t1 ?k (d + 1)" using 3 unfolding same by (simp add: alook_AInner)
    next
      fix t' assume "del_rel t1 ?k (d + 1) t'"
      then show "del_rel (?f t1) ?k d (?f t')" unfolding same using 3 by (intro del_inner)
    qed
    then show ?thesis using run n(8) same by simp
  qed
qed

theorem erase_at_step_refines:
  assumes "tree b s t F" and "holds b fl F" and "height t < fuel"
  shows "case erase_at_step fuel s key d cond True b of
    (r, b') \<Rightarrow> era_spec b fl F s t (view key) d cond r b'"
  using assms
proof (induction fuel arbitrary: s t F d)
  case (Suc fuel)
  note t = Suc.prems(1) and h = Suc.prems(2)
  let ?k = "view key" and ?rec = "\<lambda>s d. erase_at_step fuel s key d cond True"
  show ?case
  proof (cases t)
    case AEmpty
    then obtain off where "node_at b s EmptyRoot off" using t by (blast elim: tree_AEmptyE)
    then show ?thesis using AEmpty era_spec_untouched [of AEmpty ?k d cond] by (simp add: ntype_of_node_at Let_def)
  next
    case (ALeaf k0 v0 q0 dead)
    then obtain off where "node_at b s LeafT off" using t by (blast elim: tree_ALeafE)
    then show ?thesis using erase_at_leaf_spec [OF t [unfolded ALeaf] h] ALeaf by (simp add: ntype_of_node_at Let_def)
  next
    case (APrefix p t1)
    then obtain off where n: "node_at b s PrefixT off" using t by (blast elim: tree_APrefixE)
    have "case erase_at_prefix_step ?rec s key d b of (r, b') \<Rightarrow> era_spec b fl F s (APrefix p t1) ?k d cond r b'"
    proof (rule erase_prefix_spec [OF t [unfolded APrefix] h])
      fix c F1 assume c: "tree b c t1 F1" "holds b fl F1"
      show "case ?rec c (d + length p) b of (r, b') \<Rightarrow> era_spec b fl F1 c t1 ?k (d + length p) cond r b'"
        using Suc.IH [OF c] Suc.prems(3) APrefix by simp
    qed
    then show ?thesis using n APrefix by (simp add: ntype_of_node_at Let_def)
  next
    case (AInner nt ts)
    then obtain off ks where n: "node_at b s nt off" "inode b off nt ks" using t by (blast elim: tree_AInnerE)
    have "case erase_at_inner_step ?rec s nt key d b of (r, b') \<Rightarrow> era_spec b fl F s (AInner nt ts) ?k d cond r b'"
    proof (rule erase_inner_spec [OF t [unfolded AInner] h])
      fix c t1 F1 assume c: "map_of ts (?k ! d) = Some t1" "tree b c t1 F1" "holds b fl F1"
      show "case ?rec c (d + 1) b of (r, b') \<Rightarrow> era_spec b fl F1 c t1 ?k (d + 1) cond r b'"
        using Suc.IH [OF c(2,3)] height_child [OF c(1), of nt] Suc.prems(3) AInner by simp
    qed
    then show ?thesis using n AInner inode_nt [OF n(2)] by (auto simp: ntype_of_node_at Let_def)
  next
    case (ABlob p g)
    then obtain off n where n: "node_at b s BlobT off" "n = dec_blob_node (rd b off 128)" "bn_prefix_len n \<le> BLOB_MAX_INLINE"
        "p = take (bn_prefix_len n) (bn_bytes n)" "g = child_blob_guid n"
      using t by (blast elim: tree_ABlobE)
    have "length (bn_bytes n) = 104"
      using blob_node.wf_dec [of "rd b off 128"] n(2) by (simp add: wf_blob_node_def)
    then have "length p = bn_prefix_len n" using n(3,4) by (simp add: BLOB_MAX_INLINE_def)
    moreover have "range_eq key d p \<longleftrightarrow> range_at ?k d p" by (simp add: range_eq_view range_at_def)
    ultimately show ?thesis
      using n era_spec_untouched [of t ?k d cond] ABlob
      by (auto simp: ntype_of_node_at Let_def blob_node_erase_step_def body_of_slot_node_at era_spec_def)
  qed
qed simp

end
