(* ===== verification/Blob_Ops.thy ===== *)
theory Blob_Ops
  imports Erase_Correct
begin

text \<open>
  The operations on one blob as the lock-coupled drivers of \<^verbatim>\<open>insert.rs\<close>, \<^verbatim>\<open>erase.rs\<close> and
  \<^verbatim>\<open>lookup.rs\<close> run them: start at the root slot of the header, and store the new root slot
  after a change.  The invariant of a blob is that its root slot leads to a well-formed tree;
  every operation keeps it.
\<close>

section \<open>Operations\<close>

definition lookup_in_blob :: "nat \<Rightarrow> buf \<Rightarrow> search_key \<Rightarrow> nat \<Rightarrow> lookup_result res" where
  "lookup_in_blob fuel b key depth = lookup_at fuel b (root_slot b) key depth"

definition insert_in_blob ::
  "nat \<Rightarrow> search_key \<Rightarrow> bytes \<Rightarrow> nat \<Rightarrow> nat \<Rightarrow> insert_condition \<Rightarrow> (buf, insert_step) st" where
  "insert_in_blob fuel key value depth seq condition =
     sbind (sget root_slot) (\<lambda>root.
     sbind (insert_at_step fuel root key value depth seq condition True) (\<lambda>step.
       case step of
         Done out \<Rightarrow>
           sbind (smod (\<lambda>b. if ins_mutated out then set_root_slot (slot_after out) b else b)) (\<lambda>_.
           sret (Done out))
       | InsCrossing g d \<Rightarrow> sret (InsCrossing g d)))"

definition erase_in_blob ::
  "nat \<Rightarrow> search_key \<Rightarrow> nat \<Rightarrow> erase_condition \<Rightarrow> (buf, erase_step) st" where
  "erase_in_blob fuel key depth condition =
     sbind (sget root_slot) (\<lambda>root.
     sbind (erase_at_step fuel root key depth condition True) (\<lambda>step.
       case step of
         EDone r \<Rightarrow>
           sbind (sget root_slot) (\<lambda>root'.
             if signal r \<noteq> Unchanged \<or> era_mutated r
             then sbind (resolve_new_root_after_erase root' (signal r)) (\<lambda>new_root.
                  sbind (smod (set_root_slot new_root)) (\<lambda>_. sret (EDone r)))
             else sret (EDone r))
       | EraCrossing g d \<Rightarrow> sret (EraCrossing g d)))"

section \<open>The blob invariant\<close>

definition blob :: "buf \<Rightarrow> art \<Rightarrow> bytes \<Rightarrow> bool" where
  "blob b t path \<longleftrightarrow> (\<exists>fl F. holds b fl F \<and> tree b (root_slot b) t F \<and> wf_art t path)"

lemma blob_set_root:
  assumes t: "tree b s t F" and h: "holds b fl F" and wf: "wf_art t path"
  shows "blob (set_root_slot s b) t path"
proof -
  let ?b = "set_root_slot s b"
  have u: "aux_update b ?b" by simp
  have inv: "alloc_inv ?b fl" "owned ?b fl = owned b fl"
    using aux_update_inv [OF u] h by (simp_all add: holds_def)
  have "\<forall>a \<in> F. ?b a = b a"
  proof
    fix a assume "a \<in> F"
    then have "a \<notin> {0..<HEADER_SIZE}" using h by (auto simp: holds_def owned_def fixed_owned_def)
    then show "?b a = b a" using u by (simp add: aux_update_def)
  qed
  then have "tree ?b s t F" using tree_frame(1) [OF t] by simp
  moreover have "root_slot ?b = s" using tree_slot_ok [OF t] by simp
  ultimately show ?thesis unfolding blob_def using inv h wf by (auto simp: holds_def)
qed

lemma lookup_in_blob_refines:
  assumes "blob b t path" and "height t < fuel"
  shows "lookup_in_blob fuel b key d = Inr (alook t (view key) d)"
  using assms descend_refines by (auto simp: blob_def lookup_in_blob_def lookup_at_def)

text \<open>The result of an insert in terms of lookups.\<close>

definition put_into :: "art \<Rightarrow> bytes \<Rightarrow> bytes \<Rightarrow> bytes \<Rightarrow> nat \<Rightarrow> art \<Rightarrow> bool" where
  "put_into t path k v q t' \<longleftrightarrow> (\<forall>k'. on_path path k' \<longrightarrow>
     alook t' k' (length path) = (if k' = k then Found v q else alook t k' (length path)))"

definition erased_from :: "art \<Rightarrow> bytes \<Rightarrow> bytes \<Rightarrow> art \<Rightarrow> bool" where
  "erased_from t path k t' \<longleftrightarrow> (\<forall>k'. on_path path k' \<longrightarrow>
     alook t' k' (length path) = (if k' = k then NotFoundR else alook t k' (length path)))"

lemma insert_in_blob_correct:
  assumes inv: "blob b t path" and on: "on_path path (view key)" and fuel: "height t < fuel"
    and k: "length (view key) < 65536" and v: "length v < 65536" and q: "q < 2 ^ 64"
  shows "case insert_in_blob fuel key v (length path) q cond b of
      (Inr (Done out), b') \<Rightarrow> ins_mutated out = proceeds cond (alook t (view key) (length path))
         \<and> (if ins_mutated out
            then \<exists>t'. blob b' t' path \<and> put_into t path (view key) v q t'
              \<and> (user_tree t path \<longrightarrow> user_key (view key) \<longrightarrow> user_tree t' path)
            else b' = b)
    | (Inr (InsCrossing g d), b') \<Rightarrow> b' = b \<and> alook t (view key) (length path) = Crossing g d
    | (Inl (Alloc _), b') \<Rightarrow> blob b' t path
    | (Inl (NotYetImplemented _), b') \<Rightarrow> blob b' t path \<and> key_stuck t (view key) (length path)
    | (Inl _, b') \<Rightarrow> False"
proof -
  obtain fl F where h: "holds b fl F" and t: "tree b (root_slot b) t F" and wf: "wf_art t path"
    using inv by (auto simp: blob_def)
  obtain r b1 where r: "insert_at_step fuel (root_slot b) key v (length path) q cond True b = (r, b1)" by force
  have spec: "ins_spec b fl F (root_slot b) t (view key) v q (length path) cond True r b1"
    using insert_at_step_refines [OF t h wf on refl fuel k v q, of cond True] r by simp
  have kept: "blob b1 t path" if keep: "kept b fl F (root_slot b) t b1"
  proof -
    obtain fl' where x: "eff b fl F b1 fl' F" "tree b1 (root_slot b) t F" using keep by (auto simp: kept_def)
    then show ?thesis using eff_holds [OF x(1)] eff_root [OF x(1)] wf by (auto simp: blob_def)
  qed
  show ?thesis
  proof (cases r)
    case (Inl e)
    then show ?thesis
      using spec r kept by (auto simp: insert_in_blob_def sbind_Inl ins_spec_def split: error.splits)
  next
    case (Inr z)
    show ?thesis
    proof (cases z)
      case (InsCrossing g d)
      then show ?thesis using spec r Inr by (simp add: insert_in_blob_def sbind_Inr ins_spec_def)
    next
      case (Done out)
      show ?thesis
      proof (cases "ins_mutated out")
        case False
        then show ?thesis using spec r Inr Done by (simp add: insert_in_blob_def sbind_Inr ins_spec_def)
      next
        case True
        then obtain fl' F' t' where x: "eff b fl F b1 fl' F'" "tree b1 (slot_after out) t' F'"
            "ins_rel t (view key) v q (length path) t'"
          using spec Inr Done by (auto simp: ins_spec_def stored_def)
        have wf': "wf_art t' path" by (rule ins_rel_wf [OF x(3) wf on refl k v q])
        have "blob (set_root_slot (slot_after out) b1) t' path"
          by (rule blob_set_root [OF x(2) eff_holds [OF x(1)] wf'])
        moreover have "put_into t path (view key) v q t'"
          unfolding put_into_def using ins_rel_lookup [OF x(3) wf on refl] by blast
        moreover have "user_tree t path \<longrightarrow> user_key (view key) \<longrightarrow> user_tree t' path"
          using ins_rel_user_tree [OF x(3) wf _ _ on refl] by blast
        moreover have "ins_mutated out = proceeds cond (alook t (view key) (length path))"
          using spec Inr Done by (simp add: ins_spec_def)
        ultimately show ?thesis
          using r Inr Done True by (auto simp: insert_in_blob_def sbind_Inr)
      qed
    qed
  qed
qed

lemma erase_in_blob_correct:
  assumes inv: "blob b t path" and fuel: "height t < fuel"
  shows "case erase_in_blob fuel key (length path) cond b of
      (Inr (EDone r), b') \<Rightarrow> signal r = Unchanged \<and> era_mutated r = erases cond (alook t (view key) (length path))
         \<and> (if era_mutated r
            then \<exists>t'. blob b' t' path \<and> erased_from t path (view key) t' \<and> (user_tree t path \<longrightarrow> user_tree t' path)
            else b' = b)
    | (Inr (EraCrossing g d), b') \<Rightarrow> b' = b \<and> alook t (view key) (length path) = Crossing g d
    | (Inl _, b') \<Rightarrow> False"
proof -
  obtain fl F where h: "holds b fl F" and t: "tree b (root_slot b) t F" and wf: "wf_art t path"
    using inv by (auto simp: blob_def)
  obtain r b1 where r: "erase_at_step fuel (root_slot b) key (length path) cond True b = (r, b1)" by force
  have spec: "era_spec b fl F (root_slot b) t (view key) (length path) cond r b1"
    using erase_at_step_refines [OF t h fuel, of key "length path" cond] r by simp
  show ?thesis
  proof (cases r)
    case (Inl e)
    then show ?thesis using spec by (simp add: era_spec_def)
  next
    case (Inr z)
    show ?thesis
    proof (cases z)
      case (EraCrossing g d)
      then show ?thesis using spec r Inr by (simp add: erase_in_blob_def sbind_Inr era_spec_def)
    next
      case (EDone x)
      show ?thesis
      proof (cases "era_mutated x")
        case False
        then show ?thesis using spec r Inr EDone by (simp add: erase_in_blob_def sbind_Inr era_spec_def)
      next
        case True
        then obtain t' where x: "eff b fl F b1 fl F" "tree b1 (root_slot b) t' F" "del_rel t (view key) (length path) t'"
          using spec Inr EDone by (auto simp: era_spec_def)
        have rs: "root_slot b1 = root_slot b" by (rule eff_root [OF x(1)])
        have "blob (set_root_slot (root_slot b) b1) t' path"
          by (rule blob_set_root [OF x(2) eff_holds [OF x(1)] del_rel_wf [OF x(3) wf]])
        moreover have "erased_from t path (view key) t'"
          unfolding erased_from_def using del_rel_lookup [OF x(3) wf] by blast
        moreover have "user_tree t path \<longrightarrow> user_tree t' path" using del_rel_user_tree [OF x(3)] by blast
        moreover have "signal x = Unchanged" "era_mutated x = erases cond (alook t (view key) (length path))"
          using spec Inr EDone by (simp_all add: era_spec_def)
        ultimately show ?thesis
          using r Inr EDone True rs by (auto simp: erase_in_blob_def sbind_Inr resolve_new_root_after_erase_def)
      qed
    qed
  qed
qed

section \<open>A fresh blob\<close>

lemma frame_init_blob:
  assumes "length guid = 16"
  obtains b where "frame_init guid = (Inr (), b)" and "blob b AEmpty []" and "header_guid b = guid"
    and "num_slots b = 1" and "space_used b = DATA_AREA_START + 8" and "\<And>i. i < 8 \<Longrightarrow> free_list_head b i = 0"
proof -
  obtain b fl where b: "frame_init guid = (Inr (), b)" "alloc_inv b fl" "root_slot b = 1"
      "node_at b 1 EmptyRoot DATA_AREA_START" "nfoot 1 EmptyRoot DATA_AREA_START \<inter> owned b fl = {}" "header_guid b = guid"
      and fresh: "num_slots b = 1" "space_used b = DATA_AREA_START + 8" "\<And>i. i < 8 \<Longrightarrow> free_list_head b i = 0"
    using assms by (rule frame_init_spec) blast
  have "tree b 1 AEmpty (nfoot 1 EmptyRoot DATA_AREA_START)" using b(4) by (rule tree_empty)
  then have "blob b AEmpty []" using b(2,3,5) by (auto simp: blob_def holds_def)
  then show thesis using b(1,6) fresh by (intro that)
qed

text \<open>A fresh blob accepts every key and value that fits.\<close>

definition alloc_ok :: "'a res \<Rightarrow> bool" where
  "alloc_ok r \<longleftrightarrow> (\<forall>e. r \<noteq> Inl (Alloc e))"

lemma alloc_ok_simps [simp]: "alloc_ok (Inr x)" "alloc_ok (Inl e) \<longleftrightarrow> (\<forall>a. e \<noteq> Alloc a)"
  by (simp_all add: alloc_ok_def)

lemma write_struct_alloc_ok: "alloc_ok (fst (write_struct_to_slot s bs b))"
  by (cases "body_of_slot b s") (auto simp: write_struct_to_slot_def alloc_ok_def node_corrupt_def split: if_splits)

lemma sbind_alloc_ok:
  "alloc_ok (fst (m b)) \<Longrightarrow> (\<And>x b'. m b = (Inr x, b') \<Longrightarrow> alloc_ok (fst (f x b')))
   \<Longrightarrow> alloc_ok (fst (sbind m f b))"
  by (cases "m b"; cases "fst (m b)") (auto simp: sbind_def alloc_ok_def)

lemma free_node_alloc_ok: "alloc_ok (fst (free_node s b))"
proof (cases "live_type b s")
  case (Inl e)
  then have "\<exists>x. e = Free x" by (auto simp: live_type_def rbind_def ok_or_def split: option.splits)
  then show ?thesis using Inl by (auto simp: free_node_def alloc_ok_def)
next
  case (Inr x)
  obtain e nt where x: "x = (e, nt)" by force
  have "alloc_ok (fst (free_node_inner s b))" using Inr x by (simp add: free_node_inner_def alloc_ok_def)
  then show ?thesis
    using Inr x by (auto simp: free_node_def intro!: sbind_alloc_ok)
qed

lemma write_leaf_fresh:
  assumes b: "num_slots b < MAX_SLOTS" "DATA_AREA_START \<le> space_used b" "free_list_head b (ntype_idx LeafT) = 0"
    and k: "length (view key) < 65536" and v: "length v < 65536"
    and room: "space_used b + leaf_extent_size (length (view key)) (length v) + 16 + SPILLOVER_RESERVATION \<le> PAGE_SIZE"
  shows "alloc_ok (fst (write_leaf key v q b))"
proof -
  let ?n = "leaf_extent_size (length (view key)) (length v)"
  have n: "8 dvd ?n" "0 < ?n" "?n < 2 ^ 31" using leaf_extent_size_bounds [of "length (view key)" "length v"] k v by simp_all
  have al: "align8 ?n = ?n" using align8_eq [of ?n] n by (auto elim!: dvdE)
  define b1 where "b1 = set_space_used (space_used b + ?n) b"
  have ext: "alloc_extent ?n b = (Inr (space_used b), b1)"
    using n room al by (simp add: alloc_extent_def b1_def Let_def)
  define b2 where "b2 = wr (wr (wr b1 (space_used b) (nat_le 2 (length (view key)))) (space_used b + 2) (view key))
     (space_used b + 2 + length (view key)) v"
  have ge: "HEADER_SIZE \<le> space_used b" using b(2) by (simp add: layout_consts)
  have h2: "num_slots b2 = num_slots b" "space_used b2 = space_used b + ?n" "free_list_head b2 (ntype_idx LeafT) = 0"
    using ge b room by (simp_all add: b2_def b1_def layout_consts)
  have "alloc_ok (fst (alloc_node LeafT b2))"
    using h2 b(1) room by (simp add: alloc_node_def alloc_node_inner_def bump_node_def Let_def sbind_def alloc_ok_def)
  moreover have "bytes_at b1 (space_used b) ?n = Some (rd b1 (space_used b) ?n)"
    using room by (simp add: bytes_at_def)
  ultimately show ?thesis
    by (simp add: write_leaf_def Let_def sbind_Inr [where m = "alloc_extent _", OF ext] b2_def [symmetric] del: add_2_eq_Suc add_2_eq_Suc')
      (auto simp: write_struct_alloc_ok intro!: sbind_alloc_ok)
qed

lemma insert_fresh:
  assumes b: "blob b AEmpty []" "num_slots b = 1" "space_used b = DATA_AREA_START + 8"
      "free_list_head b (ntype_idx LeafT) = 0"
    and k: "length (view key) < 65536" and v: "length v < 65536" and q: "q < 2 ^ 64"
    and room: "DATA_AREA_START + 8 + leaf_extent_size (length (view key)) (length v) + 16 + SPILLOVER_RESERVATION \<le> PAGE_SIZE"
    and cond: "\<not> is_if_version cond"
  shows "\<exists>out b' t'. insert_in_blob (Suc n) key v 0 q cond b = (Inr (Done out), b') \<and> ins_mutated out
    \<and> blob b' t' [] \<and> put_into AEmpty [] (view key) v q t'"
proof -
  obtain off where "node_at b (root_slot b) EmptyRoot off" using b(1) by (auto simp: blob_def elim: tree_AEmptyE)
  then have nt: "ntype_of b (root_slot b) = Inr EmptyRoot" by (rule ntype_of_node_at)
  have "alloc_ok (fst (write_leaf key v q b))"
    using b room k v by (intro write_leaf_fresh) (simp_all add: layout_consts)
  then have "alloc_ok (fst (insert_into_empty_root (root_slot b) key v q cond b))"
    using cond by (auto simp: insert_into_empty_root_def free_node_alloc_ok intro!: sbind_alloc_ok)
  then have "alloc_ok (fst (insert_at_step (Suc n) (root_slot b) key v 0 q cond True b))"
    using nt by (auto simp: Let_def intro!: sbind_alloc_ok)
  then have ok: "alloc_ok (fst (insert_in_blob (Suc n) key v 0 q cond b))"
    by (auto simp: insert_in_blob_def intro!: sbind_alloc_ok split: insert_step.splits)
  have "\<not> key_stuck AEmpty (view key) 0" by (auto elim: key_stuck.cases)
  moreover have "proceeds cond NotFoundR" using cond by (cases cond) simp_all
  ultimately show ?thesis
    using insert_in_blob_correct [OF b(1) _ _ k v q, of "Suc n" cond] ok
    by (cases "insert_in_blob (Suc n) key v 0 q cond b")
      (auto simp: alloc_ok_def split: sum.splits insert_step.splits error.splits)
qed

end
