(* ===== verification/Migrate.thy ===== *)
theory Migrate
  imports Blob_Ops
begin

text \<open>
  Deep cloning of subtrees (\<^verbatim>\<open>migrate.rs\<close>): \<^verbatim>\<open>clone_subtree\<close> in its two modes, the repacking
  of a blob and the making of a blob from a subtree.  The source frame is only read; the
  destination frame is the state.  The recursion is bounded by a fuel argument, and the
  results hold for every fuel above the height of the cloned tree.
\<close>

section \<open>Cloning nodes\<close>

definition clone_leaf :: "buf \<Rightarrow> nat \<Rightarrow> bool \<Rightarrow> (buf, nat option) st" where
  "clone_leaf src off filter_tombstones =
     (let src_leaf = dec_leaf (rd src off 16)
      in if filter_tombstones \<and> tombstone src_leaf \<noteq> 0 then sret None
         else
           sbind (sread (\<lambda>_. ok_or (bytes_at src (key_offset src_leaf) 2)
             (node_corrupt ''clone_leaf: extent header out of range''))) (\<lambda>hdr.
           let key_len = le_nat hdr; ext_total = leaf_extent_size key_len (value_size src_leaf)
           in sbind (sread (\<lambda>_. ok_or (bytes_at src (key_offset src_leaf) ext_total)
                (node_corrupt ''clone_leaf: extent body out of range''))) (\<lambda>src_ext.
              sbind (alloc_extent ext_total) (\<lambda>dst_ext.
              sbind (sread (\<lambda>b. ok_or (bytes_at b dst_ext ext_total)
                (node_corrupt ''clone_leaf: dst extent out of range''))) (\<lambda>_.
              sbind (smod (\<lambda>b. wr b dst_ext src_ext)) (\<lambda>_.
              sbind (alloc_node LeafT) (\<lambda>slot.
              let new_leaf = (if filter_tombstones
                    then leaf_live dst_ext (value_size src_leaf) (leaf_seq src_leaf)
                    else src_leaf\<lparr>key_offset := dst_ext\<rparr>)
              in sbind (write_struct_to_slot slot (enc_leaf new_leaf)) (\<lambda>_.
                 sret (Some slot)))))))))"

text \<open>\<open>rec\<close> is the recursive call on a slot of the source.\<close>

definition clone_prefix :: "(nat \<Rightarrow> (buf, nat option) st) \<Rightarrow> buf \<Rightarrow> nat \<Rightarrow> (buf, nat option) st" where
  "clone_prefix rec src off =
     (let p = dec_prefix (rd src off 128); plen = min (prefix_len p) PREFIX_MAX_INLINE
      in sbind (rec (as_u16 (pfx_child p))) (\<lambda>r. case r of
           None \<Rightarrow> sret None
         | Some new_child \<Rightarrow>
             sbind (alloc_node PrefixT) (\<lambda>slot.
             sbind (sread (\<lambda>_. prefix_new (take plen (pfx_bytes p)) new_child)) (\<lambda>new_p.
             sbind (write_struct_to_slot slot (enc_prefix new_p)) (\<lambda>_.
             sret (Some slot))))))"

text \<open>Filter mode: the children that survive, in key order.\<close>

fun clone_survivors :: "(nat \<Rightarrow> (buf, nat option) st) \<Rightarrow> (u8 \<times> nat) list \<Rightarrow> (buf, (u8 \<times> nat) list) st" where
  "clone_survivors rec [] = sret []"
| "clone_survivors rec ((key, child) # rest) =
     sbind (rec (as_u16 child)) (\<lambda>r.
     sbind (clone_survivors rec rest) (\<lambda>survivors.
     sret (case r of None \<Rightarrow> survivors | Some new_child \<Rightarrow> (key, new_child) # survivors)))"

fun clone_index48 :: "(nat \<Rightarrow> (buf, nat option) st) \<Rightarrow> node48 \<Rightarrow> nat list \<Rightarrow> (buf, (u8 \<times> nat) list) st" where
  "clone_index48 rec n [] = sret []"
| "clone_index48 rec n (b # bs) =
     (let idx = unat (n48_index n ! b)
      in if idx = 0 then clone_index48 rec n bs
         else if idx - 1 \<ge> 48 then sfail (node_corrupt ''clone_node48: index out of range'')
         else sbind (rec (as_u16 (n48_children n ! (idx - 1)))) (\<lambda>r.
              sbind (clone_index48 rec n bs) (\<lambda>survivors.
              sret (case r of None \<Rightarrow> survivors | Some new_child \<Rightarrow> (of_nat b, new_child) # survivors))))"

fun clone_children256 :: "(nat \<Rightarrow> (buf, nat option) st) \<Rightarrow> (nat \<times> nat) list \<Rightarrow> (buf, (u8 \<times> nat) list) st" where
  "clone_children256 rec [] = sret []"
| "clone_children256 rec ((b, child_slot) # rest) =
     (if child_slot = 0 then clone_children256 rec rest
      else sbind (rec (as_u16 child_slot)) (\<lambda>r.
           sbind (clone_children256 rec rest) (\<lambda>survivors.
           sret (case r of None \<Rightarrow> survivors | Some new_child \<Rightarrow> (of_nat b, new_child) # survivors))))"

text \<open>Preserve mode: every child array entry, in place.\<close>

definition expect_clone :: "nat option \<Rightarrow> (buf, nat) st" where
  "expect_clone r = sread (\<lambda>_. ok_or r (Panic ''preserve mode never returns None''))"

fun clone_slots :: "(nat \<Rightarrow> (buf, nat option) st) \<Rightarrow> bool \<Rightarrow> nat list \<Rightarrow> (buf, nat list) st" where
  "clone_slots rec skip_zero [] = sret []"
| "clone_slots rec skip_zero (c # cs) =
     (if skip_zero \<and> c = 0
      then sbind (clone_slots rec skip_zero cs) (\<lambda>ds. sret (0 # ds))
      else sbind (rec (as_u16 c)) (\<lambda>r.
           sbind (expect_clone r) (\<lambda>d.
           sbind (clone_slots rec skip_zero cs) (\<lambda>ds. sret (d # ds)))))"

section \<open>Packing survivors\<close>

definition pack_inner_node :: "(u8 \<times> nat) list \<Rightarrow> (buf, nat option) st" where
  "pack_inner_node survivors =
     (let n = length survivors
      in if n = 0 then sret None
         else if n = 1 then
           sbind (write_prefix_chain [fst (hd survivors)] (as_u16 (snd (hd survivors)))) (\<lambda>slot. sret (Some slot))
         else if n \<le> 4 then
           sbind (alloc_node Node4T) (\<lambda>slot.
           sbind (write_struct_to_slot slot (enc_node4 (node4_empty\<lparr>n4_count := as_u8 n,
             n4_keys := map fst survivors @ drop n (n4_keys node4_empty),
             n4_children := map snd survivors @ drop n (n4_children node4_empty)\<rparr>))) (\<lambda>_.
           sret (Some slot)))
         else if n \<le> 16 then
           sbind (alloc_node Node16T) (\<lambda>slot.
           sbind (write_struct_to_slot slot (enc_node16 (node16_empty\<lparr>n16_count := as_u8 n,
             n16_keys := map fst survivors @ drop n (n16_keys node16_empty),
             n16_children := map snd survivors @ drop n (n16_children node16_empty)\<rparr>))) (\<lambda>_.
           sret (Some slot)))
         else if n \<le> 48 then
           sbind (alloc_node Node48T) (\<lambda>slot.
           sbind (write_struct_to_slot slot (enc_node48 (node48_empty\<lparr>n48_count := as_u8 n,
             n48_children := map snd survivors @ drop n (n48_children node48_empty),
             n48_index := fold (\<lambda>ci ix. ix[unat (fst (survivors ! ci)) := of_nat (ci + 1)]) [0..<n]
               (n48_index node48_empty)\<rparr>))) (\<lambda>_.
           sret (Some slot)))
         else
           sbind (alloc_node Node256T) (\<lambda>slot.
           sbind (write_struct_to_slot slot (enc_node256 (node256_empty\<lparr>n256_count := as_u8 n,
             n256_children := fold (\<lambda>(b, c) cs. cs[unat b := c]) survivors (n256_children node256_empty)\<rparr>))) (\<lambda>_.
           sret (Some slot))))"

section \<open>Inner nodes and the recursion\<close>

definition clone_node4 :: "(nat \<Rightarrow> (buf, nat option) st) \<Rightarrow> buf \<Rightarrow> nat \<Rightarrow> bool \<Rightarrow> (buf, nat option) st" where
  "clone_node4 rec src off filter_tombstones =
     (let src_n = dec_node4 (rd src off 24); count = min (n4_count src_n) 4
      in if filter_tombstones
         then sbind (clone_survivors rec (take count (zip (n4_keys src_n) (n4_children src_n)))) pack_inner_node
         else sbind (clone_slots rec False (take count (n4_children src_n))) (\<lambda>new_children.
              sbind (alloc_node Node4T) (\<lambda>slot.
              sbind (write_struct_to_slot slot (enc_node4 (node4_empty\<lparr>n4_count := n4_count src_n,
                n4_keys := n4_keys src_n, n4_children := new_children @ replicate (4 - count) 0\<rparr>))) (\<lambda>_.
              sret (Some slot)))))"

definition clone_node16 :: "(nat \<Rightarrow> (buf, nat option) st) \<Rightarrow> buf \<Rightarrow> nat \<Rightarrow> bool \<Rightarrow> (buf, nat option) st" where
  "clone_node16 rec src off filter_tombstones =
     (let src_n = dec_node16 (rd src off 88); count = min (n16_count src_n) 16
      in if filter_tombstones
         then sbind (clone_survivors rec (take count (zip (n16_keys src_n) (n16_children src_n)))) pack_inner_node
         else sbind (clone_slots rec False (take count (n16_children src_n))) (\<lambda>new_children.
              sbind (alloc_node Node16T) (\<lambda>slot.
              sbind (write_struct_to_slot slot (enc_node16 (node16_empty\<lparr>n16_count := n16_count src_n,
                n16_keys := n16_keys src_n, n16_children := new_children @ replicate (16 - count) 0\<rparr>))) (\<lambda>_.
              sret (Some slot)))))"

definition clone_node48 :: "(nat \<Rightarrow> (buf, nat option) st) \<Rightarrow> buf \<Rightarrow> nat \<Rightarrow> bool \<Rightarrow> (buf, nat option) st" where
  "clone_node48 rec src off filter_tombstones =
     (let src_n = dec_node48 (rd src off 456)
      in if filter_tombstones
         then sbind (clone_index48 rec src_n [0..<256]) pack_inner_node
         else sbind (clone_slots rec True (n48_children src_n)) (\<lambda>new_children.
              sbind (alloc_node Node48T) (\<lambda>slot.
              sbind (write_struct_to_slot slot (enc_node48 (node48_empty\<lparr>n48_count := n48_count src_n,
                n48_index := n48_index src_n, n48_children := new_children\<rparr>))) (\<lambda>_.
              sret (Some slot)))))"

definition clone_node256 :: "(nat \<Rightarrow> (buf, nat option) st) \<Rightarrow> buf \<Rightarrow> nat \<Rightarrow> bool \<Rightarrow> (buf, nat option) st" where
  "clone_node256 rec src off filter_tombstones =
     (let src_n = dec_node256 (rd src off 1032)
      in if filter_tombstones
         then sbind (clone_children256 rec (enumerate 0 (n256_children src_n))) pack_inner_node
         else sbind (clone_slots rec True (n256_children src_n)) (\<lambda>new_children.
              sbind (alloc_node Node256T) (\<lambda>slot.
              sbind (write_struct_to_slot slot (enc_node256 (node256_empty\<lparr>n256_count := n256_count src_n,
                n256_children := new_children\<rparr>))) (\<lambda>_.
              sret (Some slot)))))"

definition clone_blob_node :: "buf \<Rightarrow> nat \<Rightarrow> (buf, nat option) st" where
  "clone_blob_node src off =
     (let src_b = dec_blob_node (rd src off 128); plen = min (bn_prefix_len src_b) BLOB_MAX_INLINE
      in sbind (sread (\<lambda>_. blob_node_new (take plen (bn_bytes src_b)) (child_blob_guid src_b))) (\<lambda>new_b.
         sbind (alloc_node BlobT) (\<lambda>slot.
         sbind (write_struct_to_slot slot (enc_blob_node new_b)) (\<lambda>_.
         sret (Some slot)))))"

fun clone_subtree :: "nat \<Rightarrow> buf \<Rightarrow> bool \<Rightarrow> nat \<Rightarrow> (buf, nat option) st" where
  "clone_subtree 0 src filter_tombstones src_slot = sfail StackOverflow"
| "clone_subtree (Suc fuel) src filter_tombstones src_slot =
     sbind (sread (\<lambda>_. ok_or (slot_entry src src_slot) (node_corrupt ''clone_subtree: invalid src slot''))) (\<lambda>e.
     sbind (sread (\<lambda>_. ok_or (slot_node_type e) (node_corrupt ''clone_subtree: undecodable src ntype''))) (\<lambda>ntype.
     sbind (sread (\<lambda>_. ok_or (body_of_slot src src_slot)
       (node_corrupt ''clone_subtree: src body resolution failed''))) (\<lambda>(off, len).
     let rec = clone_subtree fuel src filter_tombstones
     in case ntype of
          Invalid \<Rightarrow> sfail (node_corrupt ''clone_subtree: NodeType::Invalid in source'')
        | EmptyRoot \<Rightarrow> sbind (alloc_node EmptyRoot) (\<lambda>slot. sret (Some slot))
        | LeafT \<Rightarrow> clone_leaf src off filter_tombstones
        | PrefixT \<Rightarrow> clone_prefix rec src off
        | Node4T \<Rightarrow> clone_node4 rec src off filter_tombstones
        | Node16T \<Rightarrow> clone_node16 rec src off filter_tombstones
        | Node48T \<Rightarrow> clone_node48 rec src off filter_tombstones
        | Node256T \<Rightarrow> clone_node256 rec src off filter_tombstones
        | BlobT \<Rightarrow> clone_blob_node src off)))"

section \<open>Whole blobs\<close>

text \<open>\<^verbatim>\<open>frame_init\<close> returns the new frame beside its result; what follows runs on that frame.\<close>

definition in_fresh :: "blob_guid \<Rightarrow> (buf, 'a) st \<Rightarrow> 'a res \<times> buf" where
  "in_fresh guid m = (case frame_init guid of (Inl e, b) \<Rightarrow> (Inl e, b) | (Inr _, b) \<Rightarrow> m b)"

definition release_sentinel :: "nat \<Rightarrow> (buf, unit) st" where
  "release_sentinel new_root =
     sbind (sget root_slot) (\<lambda>root. if root = 1 \<and> new_root \<noteq> 1 then free_node 1 else sret ())"

definition make_blob_from_node :: "nat \<Rightarrow> buf \<Rightarrow> nat \<Rightarrow> blob_guid \<Rightarrow> buf res" where
  "make_blob_from_node fuel src src_slot new_guid =
     (case in_fresh new_guid
        (sbind (clone_subtree fuel src False src_slot) (\<lambda>r.
         sbind (expect_clone r) (\<lambda>cloned_root_slot.
         sbind (release_sentinel cloned_root_slot) (\<lambda>_.
         smod (set_root_slot cloned_root_slot))))) of
        (Inl e, _) \<Rightarrow> Inl e
      | (Inr _, b) \<Rightarrow> Inr b)"

definition blob_needs_compaction :: "buf \<Rightarrow> bool" where
  "blob_needs_compaction b \<longleftrightarrow> tombstone_leaf_cnt b \<noteq> 0 \<or> free_list_head b (nt_as_u8 LeafT - 1) \<noteq> 0"

text \<open>The scratch image replaces the buffer only when it is complete.\<close>

definition compact_blob :: "nat \<Rightarrow> (buf, unit) st" where
  "compact_blob fuel buf =
     (case in_fresh (header_guid buf)
        (sbind (clone_subtree fuel buf True (root_slot buf)) (\<lambda>cloned.
         sbind (case cloned of Some slot \<Rightarrow> sret slot | None \<Rightarrow> alloc_node EmptyRoot) (\<lambda>new_root.
         sbind (release_sentinel new_root) (\<lambda>_.
         smod (\<lambda>b. set_compact_times (sat_add 32 (compact_times buf) 1)
           (set_tombstone_leaf_cnt 0 (set_root_slot new_root b))))))) of
        (Inl e, _) \<Rightarrow> (Inl e, buf)
      | (Inr _, b) \<Rightarrow> (Inr (), b))"

section \<open>Code that builds in a frame\<close>

text \<open>
  \<open>made d fl Q m\<close>: the outcome \<open>m\<close> of code run on frame \<open>d\<close>, of which the client holds nothing
  yet, is an allocation failure, or a result and fresh memory \<open>F\<close> with \<open>Q\<close>.
\<close>

definition made :: "buf \<Rightarrow> (node_type \<Rightarrow> nat list) \<Rightarrow> ('a \<Rightarrow> buf \<Rightarrow> nat set \<Rightarrow> bool) \<Rightarrow> 'a res \<times> buf \<Rightarrow> bool" where
  "made d fl Q m \<longleftrightarrow>
     (case m of
        (Inl e, d') \<Rightarrow> (\<exists>a. e = Alloc a) \<and> (\<exists>fl'. eff d fl {} d' fl' {})
      | (Inr x, d') \<Rightarrow> \<exists>fl' F. eff d fl {} d' fl' F \<and> Q x d' F)"

definition intact :: "buf \<Rightarrow> nat set \<Rightarrow> buf \<Rightarrow> nat set \<Rightarrow> bool" where
  "intact d F d' F' \<longleftrightarrow> F' \<inter> F = {} \<and> (\<forall>a\<in>F. d' a = d a) \<and> num_slots d \<le> num_slots d'"

lemma intact_tree: "intact d F d' F' \<Longrightarrow> tree d s t F \<Longrightarrow> tree d' s t F"
  by (auto simp: intact_def intro: tree_frame(1))

lemma made_fail: "eff d fl {} d' fl' F \<Longrightarrow> made d fl Q (Inl (Alloc e), d')"
  using eff_drop [of d fl "{}" d' fl' F "{}"] by (auto simp: made_def)

lemma made_ok: "eff d fl {} d' fl' F \<Longrightarrow> Q x d' F \<Longrightarrow> made d fl Q (Inr x, d')"
  by (auto simp: made_def)

lemma made_ret: "holds d fl {} \<Longrightarrow> Q x d {} \<Longrightarrow> made d fl Q (sret x d)"
  unfolding sret_def by (rule made_ok [OF eff_refl])

lemma made_mono: "made d fl Q m \<Longrightarrow> (\<And>x d' F. Q x d' F \<Longrightarrow> P x d' F) \<Longrightarrow> made d fl P m"
  unfolding made_def by (cases m; cases "fst m") (auto, blast)

lemma eff_seq:
  assumes "eff d fl {} d1 fl1 F1" and "eff d1 fl1 {} d2 fl2 F2"
  shows "eff d fl {} d2 fl2 (F2 \<union> F1)" and "intact d1 F1 d2 F2"
proof -
  have sep: "F1 \<inter> {} = {}" "F1 \<inter> owned d1 fl1 = {}" using eff_holds [OF assms(1)] by (simp_all add: holds_def)
  show "eff d fl {} d2 fl2 (F2 \<union> F1)" using eff_trans [OF assms(1)] eff_add [OF assms(2) sep] by simp
  show "intact d1 F1 d2 F2"
    using eff_sep [OF assms(2) sep] eff_num_slots [OF assms(2)] by (auto simp: intact_def)
qed

lemma made_bind:
  assumes m: "made d fl Q (m d)"
    and k: "\<And>x d1 fl1 F1. \<lbrakk>holds d1 fl1 {}; Q x d1 F1\<rbrakk>
      \<Longrightarrow> made d1 fl1 (\<lambda>y d2 F2. intact d1 F1 d2 F2 \<longrightarrow> P y d2 (F2 \<union> F1)) (k x d1)"
  shows "made d fl P (sbind m k d)"
proof (cases "m d")
  case (Pair r d1)
  show ?thesis
  proof (cases r)
    case (Inl e)
    then have "sbind m k d = (Inl e, d1)" using Pair by (simp add: sbind_Inl)
    then show ?thesis using m Pair Inl by (simp add: made_def)
  next
    case (Inr x)
    then obtain fl1 F1 where 1: "eff d fl {} d1 fl1 F1" "Q x d1 F1" using m Pair by (auto simp: made_def)
    have run: "sbind m k d = k x d1" using Pair Inr by (simp add: sbind_Inr)
    have "holds d1 fl1 {}" using eff_holds [OF 1(1)] by (rule holds_sub) simp
    note 2 = k [OF this 1(2)]
    obtain r2 d2 where kx: "k x d1 = (r2, d2)" by force
    show ?thesis
    proof (cases r2)
      case (Inl e)
      with 2 kx obtain a fl2 where "e = Alloc a" "eff d1 fl1 {} d2 fl2 {}" by (auto simp: made_def)
      then show ?thesis using made_fail [OF eff_seq(1) [OF 1(1)]] run kx Inl by metis
    next
      case (Inr y)
      with 2 kx obtain fl2 F2 where "eff d1 fl1 {} d2 fl2 F2" "intact d1 F1 d2 F2 \<longrightarrow> P y d2 (F2 \<union> F1)"
        by (auto simp: made_def)
      then show ?thesis using made_ok [OF eff_seq(1) [OF 1(1)]] eff_seq(2) [OF 1(1)] run kx Inr by metis
    qed
  qed
qed

text \<open>The last step only rearranges the result.\<close>

lemma made_map: "made d fl (\<lambda>x. P (f x)) (m d) \<Longrightarrow> made d fl P (sbind m (\<lambda>x. sret (f x)) d)"
  unfolding made_def by (cases "m d"; cases "fst (m d)") (auto simp: sbind_def sret_def)

lemma made_new_node:
  assumes "holds d fl {}" and "nt \<noteq> Invalid" and "length bs = node_bytes nt"
  shows "made d fl (\<lambda>s d' F. \<exists>off. node_at d' s nt off \<and> rd d' off (node_bytes nt) = bs \<and> F = nfoot s nt off)
    (new_node nt bs d)"
  using assms
proof (cases rule: new_node_spec)
  case (fail e)
  then show ?thesis using made_fail [OF eff_refl [OF assms(1)]] by simp
next
  case (ok s off b' fl')
  then show ?thesis by (auto intro!: made_ok)
qed

lemma made_alloc_node:
  assumes "holds d fl {}" and "nt \<noteq> Invalid"
  shows "made d fl (\<lambda>s d' F. \<exists>off. node_at d' s nt off \<and> F = nfoot s nt off) (alloc_node nt d)"
  using assms
proof (cases rule: alloc_node_eff)
  case (fail e)
  then show ?thesis using made_fail [OF eff_refl [OF assms(1)]] by simp
next
  case (ok s off b' fl')
  then show ?thesis by (auto intro!: made_ok)
qed

lemma made_prefix_chain:
  assumes "holds d fl {}" and "slot_ok c" and "c < 65536" and "bs \<noteq> []"
  shows "made d fl (\<lambda>s d' F. ctx d' s c F (pchain bs)) (write_prefix_chain bs c d)"
  using write_prefix_chain_spec [OF assms]
  by (auto simp: made_def wrapped_def split: prod.splits sum.splits)

text \<open>Allocating and filling a node in the way the code writes it.\<close>

lemma new_node_then:
  "sbind (alloc_node nt) (\<lambda>slot. sbind (write_struct_to_slot slot bs) (\<lambda>_. sret (f slot)))
     = sbind (new_node nt bs) (\<lambda>slot. sret (f slot))"
  unfolding new_node_def by (simp only: sbind_assoc sbind_sret_left)

lemma made_leaf:
  assumes h: "holds d fl {}" and k: "length k < 65536" and v: "length v < 65536"
    and n: "n = leaf_extent_size (length k) (length v)"
    and out: "\<And>off b a. a \<notin> region off n \<Longrightarrow> f off b a = b a"
    and kv: "\<And>off b. rd (f off b) off (2 + length k + length v) = nat_le 2 (length k) @ k @ v"
    and l: "\<And>off. off < 4294967296 \<Longrightarrow> wf_leaf (l off)"
      "\<And>off. key_offset (l off) = off" "\<And>off. value_size (l off) = length v"
      "\<And>off. leaf_seq (l off) = q" "\<And>off. tombstone (l off) = tb"
  shows "made d fl (\<lambda>s d' F. tree d' s (ALeaf k v q (tb \<noteq> 0)) F)
    (sbind (alloc_extent n) (\<lambda>off.
     sbind (sread (\<lambda>b. ok_or (bytes_at b off n) e)) (\<lambda>_.
     sbind (smod (f off)) (\<lambda>_. new_node LeafT (enc_leaf (l off))))) d)"
proof -
  have n2: "2 + length k + length v \<le> n" "n < 2 + length k + length v + 8" "8 dvd n"
    using leaf_extent_size_bounds [of "length k" "length v"] k v n by simp_all
  have al: "align8 n = n" using align8_eq [of n] n2 k v by (auto elim!: dvdE)
  have pos: "0 < n" "n < 2 ^ 31" using n2 k v by simp_all
  from h pos show ?thesis
  proof (cases rule: alloc_extent_eff)
    case (fail x)
    then show ?thesis using made_fail [OF eff_refl [OF h]] by (simp add: sbind_Inl)
  next
    case (ok off d1)
    let ?E = "region off n" and ?d2 = "f off d1" and ?l = "l off"
    have e1: "eff d fl {} d1 fl ?E" using ok(4) al by simp
    have e2: "eff d1 fl ?E ?d2 fl ?E" using eff_holds [OF e1] out by (rule eff_local)
    have e12: "eff d fl {} ?d2 fl ?E" using eff_trans [OF e1 e2] .
    have h2: "holds ?d2 fl {}" using eff_holds [OF e12] by (rule holds_sub) simp
    have "bytes_at d1 off n = Some (rd d1 off n)" using ok(2) al by (simp add: bytes_at_def)
    then have run: "sbind (alloc_extent n) (\<lambda>off. sbind (sread (\<lambda>b. ok_or (bytes_at b off n) e)) (\<lambda>_.
        sbind (smod (f off)) (\<lambda>_. new_node LeafT (enc_leaf (l off))))) d = new_node LeafT (enc_leaf ?l) ?d2"
      using ok(1) by (simp add: sbind_Inr smod_def)
    have wf: "wf_leaf ?l" using ok(2) by (intro l(1)) (simp add: layout_consts)
    have len: "length (enc_leaf ?l) = node_bytes LeafT" using wf by (simp add: leaf.length_enc)
    have "LeafT \<noteq> Invalid" by simp
    from h2 this len show ?thesis
    proof (cases rule: new_node_spec)
      case (fail x)
      then show ?thesis using made_fail [OF e12] run by simp
    next
      case new: (ok s noff d3 fl3)
      let ?N = "nfoot s LeafT noff"
      note sq = eff_seq [OF e12 new(4)]
      have "leaf_at ?d2 ?l k v"
        using kv [of off d1] k v l ok(2,3) al n by (simp add: leaf_at_def)
      then have at3: "leaf_at d3 ?l k v"
        by (rule leaf_at_cong) (use sq(2) in \<open>simp add: intact_def leaf_ext_def l n\<close>)
      have "?N \<inter> leaf_ext ?l k v = {}" using sq(2) by (simp add: intact_def leaf_ext_def l n)
      then have "tree d3 s (ALeaf k v q (tb \<noteq> 0)) (?N \<union> leaf_ext ?l k v)"
        using leaf_tree [OF new(2) _ wf at3] new(3) by (simp add: l)
      then have "tree d3 s (ALeaf k v q (tb \<noteq> 0)) (?N \<union> ?E)" by (simp add: leaf_ext_def l n)
      then show ?thesis unfolding run new(1) by (rule made_ok [OF sq(1)])
    qed
  qed
qed

lemma expect_clone_Some [simp]: "expect_clone (Some s) = sret s"
  by (simp add: expect_clone_def sread_def ok_or_def sret_def)

text \<open>Sequencing with a read of a constant.\<close>

lemma sread_const: "sread (\<lambda>_. Inr x) = sret x"
  by (simp add: sread_def sret_def)

section \<open>What is cloned\<close>

text \<open>The tree left when the dead leaves are dropped and thinned inner nodes are repacked.\<close>

fun pack :: "(u8 \<times> art) list \<Rightarrow> art option" where
  "pack [] = None"
| "pack [(b, t)] = Some (APrefix [b] t)"
| "pack ts = Some (AInner (let n = length ts in
     if n \<le> 4 then Node4T else if n \<le> 16 then Node16T else if n \<le> 48 then Node48T else Node256T) ts)"

fun alive :: "(u8 \<times> art option) list \<Rightarrow> (u8 \<times> art) list" where
  "alive [] = []"
| "alive ((b, None) # rs) = alive rs"
| "alive ((b, Some t) # rs) = (b, t) # alive rs"

primrec live_part :: "art \<Rightarrow> art option" where
  "live_part AEmpty = Some AEmpty"
| "live_part (ALeaf k v s dead) = (if dead then None else Some (ALeaf k v s False))"
| "live_part (APrefix p t) = map_option (APrefix p) (live_part t)"
| "live_part (AInner nt ts) = pack (alive (map (map_prod id live_part) ts))"
| "live_part (ABlob p g) = Some (ABlob p g)"

definition copy_of :: "bool \<Rightarrow> art \<Rightarrow> art option" where
  "copy_of filter_tombstones t = (if filter_tombstones then live_part t else Some t)"

text \<open>The outcome of cloning a tree: its copy, in fresh memory.\<close>

definition copied :: "art option \<Rightarrow> nat option \<Rightarrow> buf \<Rightarrow> nat set \<Rightarrow> bool" where
  "copied t r d F = (case r of None \<Rightarrow> t = None \<and> F = {} | Some s \<Rightarrow> \<exists>t'. t = Some t' \<and> tree d s t' F)"

lemma copied_Some: "tree d s t' F \<Longrightarrow> t = Some t' \<Longrightarrow> copied t (Some s) d F"
  by (simp add: copied_def)

lemma leaf_bytes:
  assumes "leaf_at b l k v"
  shows "bytes_at b (key_offset l) 2 = Some (nat_le 2 (length k))"
    and "bytes_at b (key_offset l) (leaf_extent_size (length k) (length v))
      = Some (rd b (key_offset l) (leaf_extent_size (length k) (length v)))"
    and "take (2 + length k + length v) (rd b (key_offset l) (leaf_extent_size (length k) (length v)))
      = nat_le 2 (length k) @ k @ v"
    and "le_nat (nat_le 2 (length k)) = length k" and "value_size l = length v"
proof -
  let ?n = "leaf_extent_size (length k) (length v)" and ?o = "key_offset l"
  have a: "rd b ?o (2 + length k + length v) = nat_le 2 (length k) @ k @ v" "length k < 65536" "length v < 65536"
      "?o + ?n \<le> PAGE_SIZE" "value_size l = length v"
    using assms by (simp_all add: leaf_at_def)
  have n: "2 + length k + length v \<le> ?n" using a by (intro leaf_extent_covers)
  show "take (2 + length k + length v) (rd b ?o ?n) = nat_le 2 (length k) @ k @ v"
    unfolding take_rd [OF n] by (rule a(1))
  have "rd b ?o 2 = take 2 (rd b ?o (2 + length k + length v))" by (rule take_rd [symmetric]) simp
  then have "rd b ?o 2 = nat_le 2 (length k)" unfolding a(1) by simp
  then show "bytes_at b ?o 2 = Some (nat_le 2 (length k))" using a(4) n by (simp add: bytes_at_def)
  show "bytes_at b ?o ?n = Some (rd b ?o ?n)" using a(4) by (simp add: bytes_at_def)
  show "le_nat (nat_le 2 (length k)) = length k" using a(2) by simp
  show "value_size l = length v" by (rule a(5))
qed

lemma clone_leaf_made:
  assumes h: "holds d fl {}" and l: "l = dec_leaf (rd src off 16)" and at: "leaf_at src l k v"
  shows "made d fl (copied (copy_of filt (ALeaf k v (leaf_seq l) (tombstone l \<noteq> 0)))) (clone_leaf src off filt d)"
proof (cases "filt \<and> tombstone l \<noteq> 0")
  case True
  then have run: "clone_leaf src off filt d = sret None d" by (simp add: clone_leaf_def Let_def l [symmetric])
  show ?thesis unfolding run by (rule made_ret [OF h]) (use True in \<open>simp add: copied_def copy_of_def\<close>)
next
  case False
  let ?n = "leaf_extent_size (length k) (length v)"
  let ?l = "\<lambda>off. if filt then leaf_live off (length v) (leaf_seq l) else l\<lparr>key_offset := off\<rparr>"
  let ?f = "\<lambda>off b. wr b off (rd src (key_offset l) ?n)"
  note lb = leaf_bytes [OF at]
  have wfl: "wf_leaf l" using l by (simp add: leaf.wf_dec)
  have sz: "length k < 65536" "length v < 65536" using at by (simp_all add: leaf_at_def)
  have run: "clone_leaf src off filt =
      sbind (sbind (alloc_extent ?n) (\<lambda>off.
        sbind (sread (\<lambda>b. ok_or (bytes_at b off ?n) (node_corrupt ''clone_leaf: dst extent out of range''))) (\<lambda>_.
        sbind (smod (?f off)) (\<lambda>_. new_node LeafT (enc_leaf (?l off)))))) (\<lambda>slot. sret (Some slot))"
    using False sz
    by (auto simp: clone_leaf_def Let_def l [symmetric] lb ok_or_def sread_const sbind_sret_left
        sbind_assoc new_node_then cong: if_cong)
  have "made d fl (\<lambda>s d' F. tree d' s (ALeaf k v (leaf_seq l) (tombstone l \<noteq> 0)) F)
      (sbind (alloc_extent ?n) (\<lambda>off.
        sbind (sread (\<lambda>b. ok_or (bytes_at b off ?n) (node_corrupt ''clone_leaf: dst extent out of range''))) (\<lambda>_.
        sbind (smod (?f off)) (\<lambda>_. new_node LeafT (enc_leaf (?l off))))) d)"
  proof (rule made_leaf [OF h sz refl])
    fix o' b
    show "rd (?f o' b) o' (2 + length k + length v) = nat_le 2 (length k) @ k @ v"
      using take_rd [OF leaf_extent_covers [OF sz], of "?f o' b" o'] lb(3) by simp
  qed (use False wfl sz lb(5) in \<open>auto simp: wf_leaf_def leaf_live_def wr_other\<close>)
  then show ?thesis
    unfolding run using False
    by (intro made_map, elim made_mono) (auto simp: copied_def copy_of_def)
qed

text \<open>What the recursive call does on a slot.\<close>

definition clones :: "(nat \<Rightarrow> (buf, nat option) st) \<Rightarrow> bool \<Rightarrow> nat \<Rightarrow> art \<Rightarrow> bool" where
  "clones rec filt c t \<longleftrightarrow> slot_ok c \<and> c < 65536
     \<and> (\<forall>d fl. holds d fl {} \<longrightarrow> made d fl (copied (copy_of filt t)) (rec c d))"

lemma clones_run: "clones rec filt c t \<Longrightarrow> holds d fl {} \<Longrightarrow> made d fl (copied (copy_of filt t)) (rec (as_u16 c) d)"
  by (simp add: clones_def)

lemma clone_prefix_made:
  assumes h: "holds d fl {}" and p: "p = dec_prefix (rd src off 128)" and len: "prefix_len p \<le> PREFIX_MAX_INLINE"
    and c: "clones rec filt (pfx_child p) t"
  shows "made d fl (copied (copy_of filt (APrefix (take (prefix_len p) (pfx_bytes p)) t))) (clone_prefix rec src off d)"
proof -
  let ?bs = "take (prefix_len p) (pfx_bytes p)"
  have "wf_prefix p" using p by (simp add: prefix.wf_dec)
  then have lb: "length ?bs \<le> PREFIX_MAX_INLINE" using len by simp
  have "made d fl (copied (copy_of filt (APrefix ?bs t)))
     (sbind (rec (as_u16 (pfx_child p))) (\<lambda>r. case r of None \<Rightarrow> sret None
        | Some new_child \<Rightarrow> sbind (alloc_node PrefixT) (\<lambda>slot.
             sbind (sread (\<lambda>_. prefix_new ?bs new_child)) (\<lambda>new_p.
             sbind (write_struct_to_slot slot (enc_prefix new_p)) (\<lambda>_. sret (Some slot))))) d)"
  proof (rule made_bind [where Q = "copied (copy_of filt t)"])
    show "made d fl (copied (copy_of filt t)) (rec (as_u16 (pfx_child p)) d)" using c h by (rule clones_run)
    fix r d1 fl1 F1 assume h1: "holds d1 fl1 {}" and r: "copied (copy_of filt t) r d1 F1"
    let ?P = "\<lambda>y d2 F2. intact d1 F1 d2 F2 \<longrightarrow> copied (copy_of filt (APrefix ?bs t)) y d2 (F2 \<union> F1)"
    show "made d1 fl1 ?P ((case r of None \<Rightarrow> sret None
        | Some new_child \<Rightarrow> sbind (alloc_node PrefixT) (\<lambda>slot.
             sbind (sread (\<lambda>_. prefix_new ?bs new_child)) (\<lambda>new_p.
             sbind (write_struct_to_slot slot (enc_prefix new_p)) (\<lambda>_. sret (Some slot))))) d1)"
    proof (cases r)
      case None
      show ?thesis unfolding None option.case
        by (rule made_ret [OF h1]) (use r None in \<open>auto simp: copied_def copy_of_def split: if_splits\<close>)
    next
      case (Some s)
      then obtain t' where t': "copy_of filt t = Some t'" "tree d1 s t' F1" using r by (auto simp: copied_def)
      obtain n where n: "prefix_new ?bs s = Inr n" "wf_prefix n" "prefix_len n = length ?bs"
          "take (prefix_len n) (pfx_bytes n) = ?bs" "pfx_child n = s"
        using prefix_new_ok [OF lb] tree_slot_ok [OF t'(2)] by blast
      have run: "sbind (alloc_node PrefixT) (\<lambda>slot. sbind (sread (\<lambda>_. prefix_new ?bs s)) (\<lambda>new_p.
          sbind (write_struct_to_slot slot (enc_prefix new_p)) (\<lambda>_. sret (Some slot))))
          = sbind (new_node PrefixT (enc_prefix n)) (\<lambda>slot. sret (Some slot))"
        by (simp add: n(1) sread_const sbind_sret_left new_node_then)
      have "length (enc_prefix n) = node_bytes PrefixT" using n(2) by (simp add: prefix.length_enc)
      then have "made d1 fl1 (\<lambda>s d' F. \<exists>off. node_at d' s PrefixT off \<and> rd d' off (node_bytes PrefixT) = enc_prefix n
          \<and> F = nfoot s PrefixT off) (new_node PrefixT (enc_prefix n) d1)"
        by (intro made_new_node [OF h1]) simp_all
      then have "made d1 fl1 (\<lambda>x. ?P (Some x)) (new_node PrefixT (enc_prefix n) d1)"
      proof (rule made_mono, intro impI, elim exE conjE)
        fix x d2 F2 o2 assume a: "node_at d2 x PrefixT o2" "rd d2 o2 (node_bytes PrefixT) = enc_prefix n"
          "F2 = nfoot x PrefixT o2" and k: "intact d1 F1 d2 F2"
        have "tree d2 (pfx_child n) t' F1" using intact_tree [OF k t'(2)] n(5) by simp
        then have "tree d2 x (APrefix ?bs t') (F2 \<union> F1)"
          using prefix_tree [OF a(1) _ n(2)] a(2,3) n(3,4) lb k by (auto simp: intact_def)
        then show "copied (copy_of filt (APrefix ?bs t)) (Some x) d2 (F2 \<union> F1)"
          by (rule copied_Some) (use t'(1) in \<open>auto simp: copy_of_def split: if_splits\<close>)
      qed
      then show ?thesis unfolding Some option.case run by (rule made_map)
    qed
  qed
  then show ?thesis using len by (simp add: clone_prefix_def Let_def p [symmetric] min_absorb1)
qed

lemma intact_forest: "intact d F d' F' \<Longrightarrow> forest d ks ts F \<Longrightarrow> forest d' ks ts F"
  by (auto simp: intact_def intro: tree_frame(2))

lemma clone_survivors_made:
  assumes "list_all2 (\<lambda>(k, c) (k', t). k' = k \<and> clones rec True c t) ks ts" and "holds d fl {}"
  shows "made d fl (\<lambda>out d' F. forest d' out (alive (map (map_prod id live_part) ts)) F) (clone_survivors rec ks d)"
  using assms
proof (induction ks ts arbitrary: d fl rule: list_all2_induct)
  case Nil
  show ?case unfolding clone_survivors.simps by (rule made_ret [OF Nil(1)]) (simp add: forest_Nil)
next
  case (Cons x ks y ts)
  obtain k c t where xy: "x = (k, c)" "y = (k, t)" and c: "clones rec True c t" using Cons(1) by auto
  let ?A = "alive (map (map_prod id live_part) ts)"
  show ?case
    unfolding xy clone_survivors.simps
  proof (rule made_bind [where Q = "copied (copy_of True t)"])
    show "made d fl (copied (copy_of True t)) (rec (as_u16 c) d)" using c Cons.prems by (rule clones_run)
    fix r d1 fl1 F1 assume h1: "holds d1 fl1 {}" and r: "copied (copy_of True t) r d1 F1"
    show "made d1 fl1 (\<lambda>out d2 F2. intact d1 F1 d2 F2 \<longrightarrow>
        forest d2 out (alive (map (map_prod id live_part) ((k, t) # ts))) (F2 \<union> F1))
      (sbind (clone_survivors rec ks) (\<lambda>survivors. sret (case r of None \<Rightarrow> survivors
         | Some new_child \<Rightarrow> (k, new_child) # survivors)) d1)"
    proof (rule made_map, rule made_mono [OF Cons.IH [OF h1]], intro impI)
      fix out d2 F2 assume f: "forest d2 out ?A F2" and kp: "intact d1 F1 d2 F2"
      show "forest d2 (case r of None \<Rightarrow> out | Some new_child \<Rightarrow> (k, new_child) # out)
          (alive (map (map_prod id live_part) ((k, t) # ts))) (F2 \<union> F1)"
      proof (cases r)
        case None
        then show ?thesis using f r by (simp add: copied_def copy_of_def)
      next
        case (Some s)
        then obtain t' where t': "live_part t = Some t'" "tree d1 s t' F1"
          using r by (auto simp: copied_def copy_of_def)
        have "forest d2 ((k, s) # out) ((k, t') # ?A) (F1 \<union> F2)"
          using forest_Cons [OF intact_tree [OF kp t'(2)] f] kp by (auto simp: intact_def)
        then show ?thesis using Some t'(1) by (simp add: Un_commute)
      qed
    qed
  qed
qed

lemma clone_index48_survivors:
  assumes "\<forall>b\<in>set bs. b < 256 \<and> unat (n48_index n ! b) \<le> 48"
  shows "clone_index48 rec n bs
    = clone_survivors rec (List.map_filter (\<lambda>b. map_option (Pair (of_nat b)) (slot48 n b)) bs)"
  using assms by (induction bs) (auto simp: slot48_def Let_def map_filter_simps)

lemma clone_children256_survivors:
  "clone_children256 rec (map (\<lambda>b. (b, f b)) bs)
    = clone_survivors rec (List.map_filter (\<lambda>b. map_option (Pair (of_nat b)) (if f b = 0 then None else Some (f b))) bs)"
  by (induction bs) (auto simp: map_filter_simps)

text \<open>Preserve mode: the array of clones, and trees for its entries.\<close>

definition slot_map :: "(nat \<Rightarrow> nat) \<Rightarrow> nat \<Rightarrow> nat" where
  "slot_map f c = (if c = 0 then 0 else f c)"

definition clones_at :: "(nat \<Rightarrow> nat) \<Rightarrow> (nat \<Rightarrow> art) \<Rightarrow> nat set \<Rightarrow> buf \<Rightarrow> nat set \<Rightarrow> bool" where
  "clones_at f T C d F \<longleftrightarrow> (\<exists>H. (\<forall>c\<in>C. tree d (f c) (T c) (H c)) \<and> (\<forall>c\<in>C. \<forall>c'\<in>C. c \<noteq> c' \<longrightarrow> H c \<inter> H c' = {})
     \<and> F = (\<Union>c\<in>C. H c))"

lemma clones_at_cong: "(\<And>c. c \<in> C \<Longrightarrow> g c = f c) \<Longrightarrow> clones_at g T C d F \<longleftrightarrow> clones_at f T C d F"
  by (simp add: clones_at_def)

lemma clones_at_frame: "clones_at f T C d F \<Longrightarrow> intact d F d' F' \<Longrightarrow> clones_at f T C d' F"
  unfolding clones_at_def intact_def by (fastforce intro: tree_frame(1))

lemma clones_at_insert:
  assumes "clones_at f T C d F" and "tree d (f c) (T c) Fc" and "Fc \<inter> F = {}" and "c \<notin> C"
  shows "clones_at f T (insert c C) d (F \<union> Fc)"
proof -
  obtain H where H: "\<forall>c\<in>C. tree d (f c) (T c) (H c)" "\<forall>c\<in>C. \<forall>c'\<in>C. c \<noteq> c' \<longrightarrow> H c \<inter> H c' = {}" "F = (\<Union>c\<in>C. H c)"
    using assms(1) by (auto simp: clones_at_def)
  show ?thesis
    unfolding clones_at_def
    by (intro exI [of _ "H(c := Fc)"]) (use H assms(2-4) in auto)
qed

lemma clone_slots_made:
  assumes "\<And>c. c \<in> set cs \<Longrightarrow> c \<noteq> 0 \<Longrightarrow> clones rec False c (T c)"
    and "distinct (filter (\<lambda>c. c \<noteq> 0) cs)" and "skip_zero \<or> 0 \<notin> set cs" and "holds d fl {}"
  shows "made d fl (\<lambda>ds d' F. \<exists>f. ds = map (slot_map f) cs \<and> clones_at f T (set cs - {0}) d' F)
    (clone_slots rec skip_zero cs d)"
  using assms
proof (induction cs arbitrary: d fl)
  case Nil
  show ?case unfolding clone_slots.simps by (rule made_ret [OF Nil(4)]) (auto simp: clones_at_def)
next
  case (Cons c cs)
  have IH: "made d fl (\<lambda>ds d' F. \<exists>f. ds = map (slot_map f) cs \<and> clones_at f T (set cs - {0}) d' F)
      (clone_slots rec skip_zero cs d)" if "holds d fl {}" for d fl
    using Cons.prems(1-3) that by (intro Cons.IH) (auto split: if_splits)
  show ?case
  proof (cases "c = 0")
    case True
    then have "clone_slots rec skip_zero (c # cs) = sbind (clone_slots rec skip_zero cs) (\<lambda>ds. sret (0 # ds))"
      using Cons.prems(3) by simp
    then show ?thesis
      by (simp only:) (rule made_map, rule made_mono [OF IH [OF Cons.prems(4)]], auto simp: True slot_map_def)
  next
    case False
    have c: "clones rec False c (T c)" using Cons.prems(1) False by simp
    have run: "clone_slots rec skip_zero (c # cs) = sbind (rec (as_u16 c)) (\<lambda>r. sbind (expect_clone r) (\<lambda>e.
        sbind (clone_slots rec skip_zero cs) (\<lambda>ds. sret (e # ds))))"
      using False by simp
    show ?thesis
      unfolding run
    proof (rule made_bind [where Q = "copied (copy_of False (T c))"])
      show "made d fl (copied (copy_of False (T c))) (rec (as_u16 c) d)" using c Cons.prems(4) by (rule clones_run)
      fix r d1 fl1 F1 assume h1: "holds d1 fl1 {}" and r: "copied (copy_of False (T c)) r d1 F1"
      then obtain s where s: "r = Some s" "tree d1 s (T c) F1" by (auto simp: copied_def copy_of_def split: option.splits)
      show "made d1 fl1 (\<lambda>ds d2 F2. intact d1 F1 d2 F2 \<longrightarrow>
          (\<exists>f. ds = map (slot_map f) (c # cs) \<and> clones_at f T (set (c # cs) - {0}) d2 (F2 \<union> F1)))
        (sbind (expect_clone r) (\<lambda>e. sbind (clone_slots rec skip_zero cs) (\<lambda>ds. sret (e # ds))) d1)"
        unfolding s(1) expect_clone_Some sbind_sret_left
      proof (rule made_map, rule made_mono [OF IH [OF h1]], intro impI, elim exE conjE)
        fix ds d2 F2 f assume ds: "ds = map (slot_map f) cs" and f: "clones_at f T (set cs - {0}) d2 F2"
          and kp: "intact d1 F1 d2 F2"
        let ?f = "f(c := s)"
        have new: "c \<notin> set cs" using Cons.prems(2) False by auto
        have "clones_at ?f T (set cs - {0}) d2 F2"
          using f new by (subst clones_at_cong [where f = f]) auto
        moreover have "tree d2 (?f c) (T c) F1" using intact_tree [OF kp s(2)] by simp
        ultimately have "clones_at ?f T (insert c (set cs - {0})) d2 (F2 \<union> F1)"
          using kp new by (intro clones_at_insert) (auto simp: intact_def)
        moreover have "s # ds = map (slot_map ?f) (c # cs)"
          using ds new False by (auto simp: slot_map_def)
        moreover have "set (c # cs) - {0} = insert c (set cs - {0})" using False by auto
        ultimately show "\<exists>f. s # ds = map (slot_map f) (c # cs) \<and> clones_at f T (set (c # cs) - {0}) d2 (F2 \<union> F1)"
          by metis
      qed
    qed
  qed
qed

end
