(* ===== verification/Clone_Correct.thy ===== *)
theory Clone_Correct
  imports Migrate
begin

text \<open>
  Cloning is correct: in preserve mode the clone is the same tree, in filter mode it is the
  live part of the tree, and the live part answers every lookup as the tree does.
\<close>

section \<open>Children of an inner node\<close>

lemma tree_entry: "tree b s t F \<Longrightarrow> entry_addr s \<in> F"
  by (cases rule: tree.cases, assumption) (auto simp: nfoot_def)

lemma forest_slot_entry: "forest b ks ts F \<Longrightarrow> (k, c) \<in> set ks \<Longrightarrow> entry_addr c \<in> F"
  by (induction ks arbitrary: ts F) (auto elim!: forest_ConsE dest: tree_entry)

lemma forest_distinct: "forest b ks ts F \<Longrightarrow> distinct (map snd ks)"
proof (induction ks arbitrary: ts F)
  case (Cons x ks)
  obtain k c where x: "x = (k, c)" by force
  from Cons.prems x obtain t ts' F1 F2 where f: "tree b c t F1" "forest b ks ts' F2" "F1 \<inter> F2 = {}"
    by (auto elim: forest_ConsE)
  have "c \<notin> snd ` set ks" using f tree_entry forest_slot_entry by (fastforce dest: tree_entry)
  then show ?case using x Cons.IH [OF f(2)] by simp
qed simp

lemma forest_trees:
  assumes "forest b ks ts F"
  obtains T where "ts = map (map_prod id T) ks" and "\<And>k c. (k, c) \<in> set ks \<Longrightarrow> \<exists>G. tree b c (T c) G"
  using assms
proof (induction ks arbitrary: ts F thesis)
  case Nil
  then show ?case by (auto elim: forest_NilE)
next
  case (Cons x ks)
  obtain k c where x: "x = (k, c)" by force
  from Cons.prems(2) x obtain t ts' F1 F2 where f: "ts = (k, t) # ts'" "tree b c t F1" "forest b ks ts' F2"
    by (auto elim: forest_ConsE)
  obtain T where T: "ts' = map (map_prod id T) ks" "\<And>k c. (k, c) \<in> set ks \<Longrightarrow> \<exists>G. tree b c (T c) G"
    using Cons.IH [OF _ f(3)] by blast
  have new: "c \<notin> snd ` set ks" using forest_distinct [OF Cons.prems(2)] x by simp
  have "map (map_prod id (T(c := t))) ks = map (map_prod id T) ks" using new by (auto simp: image_iff)
  moreover have "\<exists>G. tree b c' ((T(c := t)) c') G" if "(k', c') \<in> set (x # ks)" for k' c'
    using that f(2) T(2) x new by (cases "c' = c") (auto simp: image_iff)
  ultimately show ?case using x f(1) T(1) by (intro Cons.prems(1) [of "T(c := t)"]) auto
qed

lemma clones_at_forest:
  assumes "clones_at f T (snd ` set ks) d F" and "distinct (map snd ks)"
  shows "forest d (map (map_prod id f) ks) (map (map_prod id T) ks) F"
proof -
  obtain H where H: "\<forall>c\<in>snd ` set ks. tree d (f c) (T c) (H c)"
      "\<forall>c\<in>snd ` set ks. \<forall>c'\<in>snd ` set ks. c \<noteq> c' \<longrightarrow> H c \<inter> H c' = {}" and F: "F = (\<Union>c\<in>snd ` set ks. H c)"
    using assms(1) by (auto simp: clones_at_def)
  show ?thesis
    unfolding F using H assms(2)
  proof (induction ks)
    case Nil
    then show ?case by (simp add: forest_Nil)
  next
    case (Cons x ks)
    obtain k c where x: "x = (k, c)" by force
    have "forest d (map (map_prod id f) ks) (map (map_prod id T) ks) (\<Union>c\<in>snd ` set ks. H c)"
      using Cons.prems by (intro Cons.IH) auto
    moreover have "tree d (f c) (T c) (H c)" using Cons.prems(1) x by simp
    moreover have "H c \<inter> (\<Union>c\<in>snd ` set ks. H c) = {}" using Cons.prems(2,3) x by fastforce
    ultimately have "forest d ((k, f c) # map (map_prod id f) ks) ((k, T c) # map (map_prod id T) ks)
        (H c \<union> (\<Union>c\<in>snd ` set ks. H c))"
      by (intro forest_Cons)
    moreover have "map (map_prod id f) (x # ks) = (k, f c) # map (map_prod id f) ks"
      and "map (map_prod id T) (x # ks) = (k, T c) # map (map_prod id T) ks"
      and "(\<Union>c\<in>snd ` set (x # ks). H c) = H c \<union> (\<Union>c\<in>snd ` set ks. H c)"
      by (simp_all add: x)
    ultimately show ?case by metis
  qed
qed

lemma clones_at_slots: "clones_at f T C d F \<Longrightarrow> c \<in> C \<Longrightarrow> slot_ok (f c) \<and> f c < 65536"
  by (auto simp: clones_at_def dest: tree_slot_ok)

section \<open>Preserve mode\<close>

text \<open>A node with its children replaced.\<close>

lemma keys_sorted_map: "keys_sorted (map (map_prod id f) ks) \<longleftrightarrow> keys_sorted ks"
  by (simp add: keys_sorted_def comp_def)

lemma slots_ok_map: "slots_ok (map (map_prod id f) ks) \<longleftrightarrow> (\<forall>c\<in>snd ` set ks. slot_ok (f c))"
  by (auto simp: slots_ok_def)

lemma arr_kids_map:
  "length keys = length cs \<Longrightarrow> n \<le> length cs \<Longrightarrow>
    arr_kids keys (map f (take n cs) @ rest) n = map (map_prod id f) (arr_kids keys cs n)"
  by (simp add: arr_kids_def zip_map2 map_prod_def id_def)

lemma reslot4:
  assumes n: "inv4 n" and f: "\<forall>c\<in>snd ` set (kids4 n). slot_ok (f c)"
  defines "m \<equiv> node4_empty\<lparr>n4_count := n4_count n, n4_keys := n4_keys n,
    n4_children := map (slot_map f) (take (n4_count n) (n4_children n)) @ replicate (4 - n4_count n) 0\<rparr>"
  shows "kids4 m = map (map_prod id f) (kids4 n)" and "inv4 m"
proof -
  note len = inv4_lengths [OF n]
  have nz: "c \<noteq> 0" if "c \<in> snd ` set (kids4 n)" for c using len(5) that by (auto simp: slots_ok_def slot_ok_def)
  have set: "set (take (n4_count n) (n4_children n)) = snd ` set (kids4 n)"
    using len by (simp add: kids4_def set_arr_children)
  have eq: "map (slot_map f) (take (n4_count n) (n4_children n)) = map f (take (n4_count n) (n4_children n))"
  proof (rule map_cong [OF refl])
    fix c assume "c \<in> set (take (n4_count n) (n4_children n))"
    then have "c \<noteq> 0" unfolding set by (rule nz)
    then show "slot_map f c = f c" by (simp add: slot_map_def)
  qed
  show k: "kids4 m = map (map_prod id f) (kids4 n)"
    using len by (simp add: kids4_def m_def eq arr_kids_map)
  have "inv4 m \<longleftrightarrow> wf_node4 m"
    unfolding inv4_def k using len f by (simp add: keys_sorted_map slots_ok_map m_def)
  moreover have "\<forall>c\<in>set (take (n4_count n) (n4_children n)). f c < 4294967296"
    unfolding set using f by (simp add: slot_ok_def)
  ultimately show "inv4 m"
    using n len by (auto simp: m_def eq wf_node4_def node4_empty_def inv4_def)
qed

lemma reslot16:
  assumes n: "inv16 n" and f: "\<forall>c\<in>snd ` set (kids16 n). slot_ok (f c)"
  defines "m \<equiv> node16_empty\<lparr>n16_count := n16_count n, n16_keys := n16_keys n,
    n16_children := map (slot_map f) (take (n16_count n) (n16_children n)) @ replicate (16 - n16_count n) 0\<rparr>"
  shows "kids16 m = map (map_prod id f) (kids16 n)" and "inv16 m"
proof -
  note len = inv16_lengths [OF n]
  have nz: "c \<noteq> 0" if "c \<in> snd ` set (kids16 n)" for c using len(5) that by (auto simp: slots_ok_def slot_ok_def)
  have set: "set (take (n16_count n) (n16_children n)) = snd ` set (kids16 n)"
    using len by (simp add: kids16_def set_arr_children)
  have eq: "map (slot_map f) (take (n16_count n) (n16_children n)) = map f (take (n16_count n) (n16_children n))"
  proof (rule map_cong [OF refl])
    fix c assume "c \<in> set (take (n16_count n) (n16_children n))"
    then have "c \<noteq> 0" unfolding set by (rule nz)
    then show "slot_map f c = f c" by (simp add: slot_map_def)
  qed
  show k: "kids16 m = map (map_prod id f) (kids16 n)"
    using len by (simp add: kids16_def m_def eq arr_kids_map)
  have "inv16 m \<longleftrightarrow> wf_node16 m"
    unfolding inv16_def k using len f by (simp add: keys_sorted_map slots_ok_map m_def)
  moreover have "\<forall>c\<in>set (take (n16_count n) (n16_children n)). f c < 4294967296"
    unfolding set using f by (simp add: slot_ok_def)
  ultimately show "inv16 m"
    using n len by (auto simp: m_def eq wf_node16_def node16_empty_def inv16_def)
qed

lemma table_kids_map: "table_kids (\<lambda>i. map_option f (g i)) = map (map_prod id f) (table_kids g)"
  by (rule keys_sorted_ext) (simp_all add: keys_sorted_map map_of_map_prod fun_eq_iff)

lemma table_kids_mem: "(k, c) \<in> set (table_kids g) \<longleftrightarrow> g (unat k) = Some c"
  using map_of_eq_Some_iff [OF keys_sorted_distinct [OF keys_sorted_table], of g k c] by simp

lemma snd_table_kids: "c \<in> snd ` set (table_kids g) \<longleftrightarrow> (\<exists>i<256. g i = Some c)"
proof
  assume "c \<in> snd ` set (table_kids g)"
  then obtain k :: u8 where "g (unat k) = Some c" by (auto simp: table_kids_mem)
  then show "\<exists>i<256. g i = Some c" using u8_bound by blast
next
  assume "\<exists>i<256. g i = Some c"
  then obtain i where "i < 256" "g i = Some c" by blast
  then have "(of_nat i, c) \<in> set (table_kids g)" by (simp add: table_kids_mem unat_of_nat_u8_less)
  then show "c \<in> snd ` set (table_kids g)" by (rule rev_image_eqI) simp
qed

lemma kids_children:
  "inv48 n48 \<Longrightarrow> set (n48_children n48) - {0} = snd ` set (kids48 n48)"
  "inv256 n256 \<Longrightarrow> set (n256_children n256) - {0} = snd ` set (kids256 n256)"
proof -
  assume n: "inv48 n48"
  note len = inv48_lengths [OF n]
  show "set (n48_children n48) - {0} = snd ` set (kids48 n48)"
  proof (intro set_eqI iffI)
    fix c assume "c \<in> set (n48_children n48) - {0}"
    then obtain p where p: "p < 48" "n48_children n48 ! p = c" "c \<noteq> 0" using len(2) by (auto simp: in_set_conv_nth)
    then obtain i where "i < 256" "unat (n48_index n48 ! i) = Suc p" using n unfolding inv48_def by blast
    then show "c \<in> snd ` set (kids48 n48)"
      using p unfolding kids48_def snd_table_kids by (intro exI [of _ i]) (simp add: slot48_def)
  next
    fix c assume "c \<in> snd ` set (kids48 n48)"
    then obtain i where i: "i < 256" "slot48 n48 i = Some c" unfolding kids48_def snd_table_kids by blast
    then have "c = n48_children n48 ! (unat (n48_index n48 ! i) - 1)" "unat (n48_index n48 ! i) \<noteq> 0"
      by (auto simp: slot48_def Let_def split: if_splits)
    then show "c \<in> set (n48_children n48) - {0}"
      using len(2) len(4) [OF i(1)] slot48_ok [OF n i] by (auto simp: slot_ok_def)
  qed
next
  assume n: "inv256 n256"
  note len = inv256_lengths [OF n]
  show "set (n256_children n256) - {0} = snd ` set (kids256 n256)"
    unfolding kids256_def set_eq_iff snd_table_kids
    using len(1) by (auto simp: slot256_def Let_def in_set_conv_nth split: if_splits)
qed

lemma distinct_filter_nth:
  "(\<And>p q. p < length xs \<Longrightarrow> q < length xs \<Longrightarrow> P (xs ! p) \<Longrightarrow> xs ! p = xs ! q \<Longrightarrow> p = q) \<Longrightarrow> distinct (filter P xs)"
proof (induction xs)
  case (Cons x xs)
  have "distinct (filter P xs)"
    by (rule Cons.IH) (use Cons.prems [of "Suc _" "Suc _"] in auto)
  moreover have "x \<notin> set xs" if "P x"
  proof
    assume "x \<in> set xs"
    then obtain q where "q < length xs" "xs ! q = x" by (auto simp: in_set_conv_nth)
    then show False using Cons.prems [of 0 "Suc q"] that by simp
  qed
  ultimately show ?case by auto
qed simp

lemma table_kids_inj:
  assumes "distinct (map snd (table_kids g))" and "g i = Some c" and "g j = Some c" and "i < 256" and "j < 256"
  shows "i = j"
proof -
  have "(of_nat i, c) \<in> set (table_kids g)" "(of_nat j, c) \<in> set (table_kids g)"
    using assms by (simp_all add: table_kids_mem unat_of_nat_u8_less)
  then have "(of_nat i, c) = (of_nat j :: u8, c)"
    using assms(1) unfolding distinct_map inj_on_def by (metis snd_conv)
  then have "unat (of_nat i :: u8) = unat (of_nat j :: u8)" by simp
  then show ?thesis using assms(4,5) by (simp only: unat_of_nat_u8_less)
qed

lemma distinct_children:
  "inv48 n48 \<Longrightarrow> distinct (map snd (kids48 n48)) \<Longrightarrow> distinct (filter (\<lambda>c. c \<noteq> 0) (n48_children n48))"
  "inv256 n256 \<Longrightarrow> distinct (map snd (kids256 n256)) \<Longrightarrow> distinct (filter (\<lambda>c. c \<noteq> 0) (n256_children n256))"
proof -
  assume n: "inv48 n48" and d: "distinct (map snd (kids48 n48))"
  have ex: "\<exists>i<256. unat (n48_index n48 ! i) = Suc p" if "p < 48" "n48_children n48 ! p \<noteq> 0" for p
    using n that unfolding inv48_def by blast
  show "distinct (filter (\<lambda>c. c \<noteq> 0) (n48_children n48))"
  proof (rule distinct_filter_nth)
    fix p q assume a: "p < length (n48_children n48)" "q < length (n48_children n48)" "n48_children n48 ! p \<noteq> 0"
      "n48_children n48 ! p = n48_children n48 ! q"
    then obtain i j where ij: "i < 256" "unat (n48_index n48 ! i) = Suc p" "j < 256" "unat (n48_index n48 ! j) = Suc q"
      using ex inv48_lengths(2) [OF n] by metis
    then have "i = j"
      using table_kids_inj [OF d [unfolded kids48_def], of i "n48_children n48 ! p" j] a(4) by (simp add: slot48_def)
    then show "p = q" using ij by simp
  qed
next
  assume n: "inv256 n256" and d: "distinct (map snd (kids256 n256))"
  show "distinct (filter (\<lambda>c. c \<noteq> 0) (n256_children n256))"
  proof (rule distinct_filter_nth)
    fix p q assume "p < length (n256_children n256)" "q < length (n256_children n256)" "n256_children n256 ! p \<noteq> 0"
      "n256_children n256 ! p = n256_children n256 ! q"
    then show "p = q"
      using table_kids_inj [OF d [unfolded kids256_def], of p _ q] inv256_lengths(1) [OF n] by (simp add: slot256_def)
  qed
qed

lemma reslot48:
  assumes n: "inv48 n" and f: "\<forall>c\<in>snd ` set (kids48 n). slot_ok (f c)"
  defines "m \<equiv> node48_empty\<lparr>n48_count := n48_count n, n48_index := n48_index n,
    n48_children := map (slot_map f) (n48_children n)\<rparr>"
  shows "kids48 m = map (map_prod id f) (kids48 n)" and "inv48 m"
proof -
  note len = inv48_lengths [OF n]
  have "slot_ok (f c)" if "c \<in> set (n48_children n)" and "c \<noteq> 0" for c
    using f that kids_children(1) [OF n] by blast
  then have f': "slot_map f c = 0 \<longleftrightarrow> c = 0" "slot_map f c < 4294967296" if "c \<in> set (n48_children n)" for c
    using that by (auto simp: slot_map_def slot_ok_def)
  have ch: "n48_children m ! p = slot_map f (n48_children n ! p)" if "p < 48" for p
    using that len(2) by (simp add: m_def)
  have z: "n48_children m ! p = 0 \<longleftrightarrow> n48_children n ! p = 0" if "p < 48" for p
    using ch [OF that] f'(1) [of "n48_children n ! p"] that len(2) by simp
  have "slot48 m i = map_option f (slot48 n i)" if i: "i < 256" for i
  proof (cases "slot48 n i")
    case None
    then show ?thesis by (simp add: slot48_def m_def Let_def split: if_splits)
  next
    case (Some c)
    then have ix: "unat (n48_index n ! i) \<noteq> 0" "c = n48_children n ! (unat (n48_index n ! i) - 1)"
      by (auto simp: slot48_def Let_def split: if_splits)
    have "c \<noteq> 0" using slot48_ok [OF n i Some] by (simp add: slot_ok_def)
    moreover have "unat (n48_index n ! i) - 1 < 48" using len(4) [OF i] ix(1) by simp
    ultimately show ?thesis using ch ix Some by (simp add: slot48_def m_def slot_map_def)
  qed
  then show "kids48 m = map (map_prod id f) (kids48 n)"
    unfolding kids48_def table_kids_map [symmetric] by (rule table_kids_cong)
  have "wf_node48 m"
    using n len f'(2) by (auto simp: m_def wf_node48_def node48_empty_def inv48_def)
  moreover have "{p. p < 48 \<and> n48_children m ! p \<noteq> 0} = {p. p < 48 \<and> n48_children n ! p \<noteq> 0}"
    by (rule Collect_cong) (metis z)
  then have "n48_count n = card {p. p < 48 \<and> n48_children m ! p \<noteq> 0}" using n by (simp only: inv48_def)
  moreover have "\<forall>p<48. n48_children m ! p \<noteq> 0 \<longleftrightarrow> (\<exists>i<256. unat (n48_index n ! i) = Suc p)"
    using n z by (simp add: inv48_def)
  moreover have "\<forall>i<256. \<forall>j<256. n48_index n ! i = n48_index n ! j \<longrightarrow> n48_index n ! i \<noteq> 0 \<longrightarrow> i = j"
    using n unfolding inv48_def by blast
  moreover have "n48_index m = n48_index n" "n48_count m = n48_count n" by (simp_all add: m_def)
  ultimately show "inv48 m"
    using len(4) unfolding inv48_def by (intro conjI allI impI) (simp_all only: simp_thms)
qed

lemma reslot256:
  assumes n: "inv256 n" and f: "\<forall>c\<in>snd ` set (kids256 n). slot_ok (f c)"
  defines "m \<equiv> node256_empty\<lparr>n256_count := n256_count n, n256_children := map (slot_map f) (n256_children n)\<rparr>"
  shows "kids256 m = map (map_prod id f) (kids256 n)" and "inv256 m"
proof -
  note len = inv256_lengths [OF n]
  have "slot_ok (f c)" if "c \<in> set (n256_children n)" and "c \<noteq> 0" for c
    using f that kids_children(2) [OF n] by blast
  then have f': "slot_map f c = 0 \<longleftrightarrow> c = 0" "slot_map f c < 4294967296" if "c \<in> set (n256_children n)" for c
    using that by (auto simp: slot_map_def slot_ok_def)
  have "slot256 m i = map_option f (slot256 n i)" if i: "i < 256" for i
    using i len(1) f'(1) [of "n256_children n ! i"] by (auto simp: slot256_def m_def Let_def slot_map_def)
  then show "kids256 m = map (map_prod id f) (kids256 n)"
    unfolding kids256_def table_kids_map [symmetric] by (rule table_kids_cong)
  show "inv256 m"
    using n len f'(2) by (auto simp: m_def wf_node256_def node256_empty_def inv256_def)
qed

text \<open>The bytes of an inner node with given children.\<close>

definition node_image :: "node_type \<Rightarrow> bytes \<Rightarrow> (u8 \<times> nat) list \<Rightarrow> bool" where
  "node_image nt bs ks \<longleftrightarrow> nt \<noteq> Invalid \<and> length bs = node_bytes nt
     \<and> (\<forall>b off. rd b off (node_bytes nt) = bs \<longrightarrow> inode b off nt ks)"

lemma node_images:
  "inv4 n4 \<Longrightarrow> node_image Node4T (enc_node4 n4) (kids4 n4)"
  "inv16 n16 \<Longrightarrow> node_image Node16T (enc_node16 n16) (kids16 n16)"
  "inv48 n48 \<Longrightarrow> node_image Node48T (enc_node48 n48) (kids48 n48)"
  "inv256 n256 \<Longrightarrow> node_image Node256T (enc_node256 n256) (kids256 n256)"
  using enc_node_length
  by (simp_all add: node_image_def inode_def Let_def inv4_def inv16_def inv48_def inv256_def
      node4.dec_enc node16.dec_enc node48.dec_enc node256.dec_enc)

text \<open>The four arms of preserve mode: clone the array, then write the node that points at the clones.\<close>

lemma preserve_made:
  assumes h: "holds d fl {}" and f: "forest src ks ts G"
    and rec: "\<And>c t G. tree src c t G \<Longrightarrow> (\<exists>k. (k, t) \<in> set ts) \<Longrightarrow> clones rec False c t"
    and cs: "set cs - {0} = snd ` set ks" "distinct (filter (\<lambda>c. c \<noteq> 0) cs)" "skip_zero \<or> 0 \<notin> set cs"
    and enc: "\<And>f. \<forall>c\<in>snd ` set ks. slot_ok (f c) \<Longrightarrow> node_image nt (E (map (slot_map f) cs)) (map (map_prod id f) ks)"
  shows "made d fl (copied (Some (AInner nt ts)))
    (sbind (clone_slots rec skip_zero cs) (\<lambda>ds. sbind (new_node nt (E ds)) (\<lambda>slot. sret (Some slot))) d)"
proof -
  obtain T where T: "ts = map (map_prod id T) ks" "\<And>k c. (k, c) \<in> set ks \<Longrightarrow> \<exists>G. tree src c (T c) G"
    using f by (rule forest_trees) blast
  have c: "clones rec False c (T c)" if c: "c \<in> set cs" "c \<noteq> 0" for c
  proof -
    have "c \<in> snd ` set ks" unfolding cs(1) [symmetric] using c by blast
    then obtain k where k: "(k, c) \<in> set ks" by auto
    then have "(k, T c) \<in> set ts" using imageI [OF k, of "map_prod id T"] by (simp add: T(1))
    then show ?thesis using T(2) [OF k] rec by blast
  qed
  have m: "made d fl (\<lambda>ds d' F. \<exists>f. ds = map (slot_map f) cs \<and> clones_at f T (set cs - {0}) d' F)
      (clone_slots rec skip_zero cs d)"
    using c cs(2,3) h by (rule clone_slots_made)
  show ?thesis
  proof (rule made_bind [where m = "clone_slots rec skip_zero cs", OF m])
    fix ds d1 fl1 F1 assume h1: "holds d1 fl1 {}"
      and "\<exists>f. ds = map (slot_map f) cs \<and> clones_at f T (set cs - {0}) d1 F1"
    then obtain g where g: "ds = map (slot_map g) cs" "clones_at g T (snd ` set ks) d1 F1" unfolding cs(1) by blast
    have ok: "\<forall>c\<in>snd ` set ks. slot_ok (g c)" using clones_at_slots [OF g(2)] by blast
    have fr: "forest d1 (map (map_prod id g) ks) ts F1"
      unfolding T(1) by (rule clones_at_forest [OF g(2) forest_distinct [OF f]])
    have e: "nt \<noteq> Invalid" "length (E (map (slot_map g) cs)) = node_bytes nt"
      "\<And>b off. rd b off (node_bytes nt) = E (map (slot_map g) cs) \<Longrightarrow> inode b off nt (map (map_prod id g) ks)"
      using enc [OF ok] by (simp_all add: node_image_def)
    show "made d1 fl1 (\<lambda>y d2 F2. intact d1 F1 d2 F2 \<longrightarrow> copied (Some (AInner nt ts)) y d2 (F2 \<union> F1))
      (sbind (new_node nt (E ds)) (\<lambda>slot. sret (Some slot)) d1)"
      unfolding g(1)
    proof (rule made_map, rule made_mono [OF made_new_node [OF h1 e(1,2)]], intro impI, elim exE conjE)
      fix s d2 F2 off assume n: "node_at d2 s nt off" "rd d2 off (node_bytes nt) = E (map (slot_map g) cs)"
        "F2 = nfoot s nt off" and i: "intact d1 F1 d2 F2"
      have "inode d2 off nt (map (map_prod id g) ks)" using n(2) by (rule e(3))
      then have "tree d2 s (AInner nt ts) (nfoot s nt off \<union> F1)"
        using tree_inner [OF n(1) _ intact_forest [OF i fr]] i n(3) by (auto simp: intact_def)
      then show "copied (Some (AInner nt ts)) (Some s) d2 (F2 \<union> F1)" unfolding n(3) by (rule copied_Some) simp
    qed
  qed
qed

section \<open>Filter mode\<close>

lemma forest_slots_ok: "forest b ks ts F \<Longrightarrow> slots_ok ks"
proof (induction ks arbitrary: ts F)
  case (Cons x ks)
  then obtain k c t ts' F1 F2 where "x = (k, c)" "tree b c t F1" "forest b ks ts' F2"
    by (cases x) (auto elim: forest_ConsE)
  then show ?case using Cons.IH tree_slot_ok by (auto simp: slots_ok_def)
qed (simp add: slots_ok_def)

lemma forest_length: "forest b ks ts F \<Longrightarrow> length ks = length ts"
  by (drule forest_keys) (metis length_map)

text \<open>A packed node of any width holds the survivors.\<close>

lemma new_inner_made:
  assumes h: "holds d fl {}" and i: "node_image nt bs out"
    and fr: "\<And>d2 F2. intact d F0 d2 F2 \<Longrightarrow> forest d2 out ts F0"
  shows "made d fl (\<lambda>r d2 F2. intact d F0 d2 F2 \<longrightarrow> copied (Some (AInner nt ts)) r d2 (F2 \<union> F0))
    (sbind (new_node nt bs) (\<lambda>slot. sret (Some slot)) d)"
proof -
  have i': "nt \<noteq> Invalid" "length bs = node_bytes nt" "\<And>b off. rd b off (node_bytes nt) = bs \<Longrightarrow> inode b off nt out"
    using i by (simp_all add: node_image_def)
  show ?thesis
  proof (rule made_map, rule made_mono [OF made_new_node [OF h i'(1,2)]], intro impI, elim exE conjE)
    fix s d2 F2 off assume n: "node_at d2 s nt off" "rd d2 off (node_bytes nt) = bs" "F2 = nfoot s nt off"
      and k: "intact d F0 d2 F2"
    have "tree d2 s (AInner nt ts) (nfoot s nt off \<union> F0)"
      using tree_inner [OF n(1) i'(3) [OF n(2)] fr [OF k]] k n(3) by (auto simp: intact_def)
    then show "copied (Some (AInner nt ts)) (Some s) d2 (F2 \<union> F0)" unfolding n(3) by (rule copied_Some) simp
  qed
qed

definition packed_bytes :: "(u8 \<times> nat) list \<Rightarrow> node_type \<times> bytes" where
  "packed_bytes out = (let n = length out in
     if n \<le> 4 then (Node4T, enc_node4 (packed4 out)) else if n \<le> 16 then (Node16T, enc_node16 (packed16 out))
     else if n \<le> 48 then (Node48T, enc_node48 (packed48 out)) else (Node256T, enc_node256 (packed256 out)))"

lemma pack_inner_node_packed:
  assumes "2 \<le> length out"
  shows "pack_inner_node out
    = sbind (new_node (fst (packed_bytes out)) (snd (packed_bytes out))) (\<lambda>slot. sret (Some slot))"
proof -
  have "fold (\<lambda>ci ix. ix[unat (fst (out ! ci)) := of_nat (ci + 1)]) [0..<length out] (replicate 256 0 :: bytes)
      = fresh_index (map fst out)"
    unfolding fresh_index_def length_map by (rule fold_cong) auto
  moreover have "out \<noteq> []" "length out \<noteq> Suc 0" using assms by auto
  ultimately show ?thesis
    by (simp add: pack_inner_node_def packed_bytes_def Let_def packed4_def packed16_def packed48_def packed256_def
        fill256_def new_node_then node4_empty_def node16_empty_def node48_empty_def node256_empty_def)
qed

lemma packed_bytes_image:
  assumes "keys_sorted out" and "slots_ok out" and "packed_bytes out = (nt, bs)"
  shows "node_image nt bs out"
proof -
  note p4 = packed4_inv [OF assms(1,2)] and p16 = packed16_inv [OF assms(1,2)]
    and p48 = packed48_kids [OF assms(1)] packed48_inv [OF assms(1) _ assms(2)] and p256 = packed256_inv [OF assms(1,2)]
  consider "length out \<le> 4" "nt = Node4T" "bs = enc_node4 (packed4 out)"
    | "length out \<le> 16" "nt = Node16T" "bs = enc_node16 (packed16 out)"
    | "length out \<le> 48" "nt = Node48T" "bs = enc_node48 (packed48 out)"
    | "nt = Node256T" "bs = enc_node256 (packed256 out)"
    using assms(3) by (auto simp: packed_bytes_def Let_def split: if_splits)
  then show ?thesis
    by cases (use node_images(1) [OF p4(2)] node_images(2) [OF p16(2)] node_images(3) [OF p48(2)]
      node_images(4) [OF p256(2)] p4(1) p16(1) p48(1) p256(1) in auto)
qed

lemma pchain_one [simp]: "pchain [b] t = APrefix [b] t"
  by (subst pchain.simps) (simp add: PREFIX_MAX_INLINE_def)

lemma pack_made:
  assumes h: "holds d fl {}" and f: "forest d out ts F" and ks: "keys_sorted out"
  shows "made d fl (\<lambda>r d2 F2. intact d F d2 F2 \<longrightarrow> copied (pack ts) r d2 (F2 \<union> F)) (pack_inner_node out d)"
proof (cases "2 \<le> length out")
  case True
  obtain nt bs where p: "packed_bytes out = (nt, bs)" by force
  note i = packed_bytes_image [OF ks forest_slots_ok [OF f] p]
  have "pack ts = Some (AInner nt ts)"
    using True forest_length [OF f] p
    by (cases ts rule: pack.cases) (auto simp: packed_bytes_def Let_def split: if_splits)
  then show ?thesis
    unfolding pack_inner_node_packed [OF True] p fst_conv snd_conv
    using new_inner_made [OF h i intact_forest [OF _ f]] by simp
next
  case False
  show ?thesis
  proof (cases out)
    case Nil
    then have run: "pack_inner_node out d = sret None d" and e: "ts = []" "F = {}"
      using f by (auto simp: pack_inner_node_def elim: forest_NilE)
    show ?thesis unfolding run by (rule made_ret [OF h]) (simp add: copied_def e)
  next
    case (Cons x rest)
    then obtain b c where x: "out = [(b, c)]" using False by (cases x; cases rest) auto
    then obtain t where t: "ts = [(b, t)]" "tree d c t F" using f by (auto elim!: forest_ConsE forest_NilE)
    have c: "slot_ok c" "c < 65536" using tree_slot_ok [OF t(2)] by simp_all
    have run: "pack_inner_node out = sbind (write_prefix_chain [b] c) (\<lambda>slot. sret (Some slot))"
      using c by (simp add: x pack_inner_node_def)
    show ?thesis
      unfolding run
    proof (rule made_map, rule made_mono [OF made_prefix_chain [OF h c]], simp, intro impI)
      fix s d2 F2 assume cx: "ctx d2 s c F2 (pchain [b])" and k: "intact d F d2 F2"
      have "tree d2 s (pchain [b] t) (F2 \<union> F)"
        by (rule ctx_plug [OF cx intact_tree [OF k t(2)]]) (use k in \<open>simp add: intact_def\<close>)
      then show "copied (pack ts) (Some s) d2 (F2 \<union> F)" by (simp add: copied_def t(1))
    qed
  qed
qed

lemma set_alive: "(b, t) \<in> set (alive rs) \<longleftrightarrow> (b, Some t) \<in> set rs"
  by (induction rs rule: alive.induct) auto

lemma keys_sorted_alive: "keys_sorted rs \<Longrightarrow> keys_sorted (alive rs)"
  by (induction rs rule: alive.induct) (auto simp: set_alive)

lemma filter_made:
  assumes h: "holds d fl {}" and f: "forest src ks ts G" and ks: "keys_sorted ks"
    and rec: "\<And>c t G. tree src c t G \<Longrightarrow> (\<exists>k. (k, t) \<in> set ts) \<Longrightarrow> clones rec True c t"
  shows "made d fl (copied (live_part (AInner nt ts))) (sbind (clone_survivors rec ks) pack_inner_node d)"
proof -
  let ?A = "alive (map (map_prod id live_part) ts)"
  have "list_all2 (\<lambda>(k, c) (k', t). k' = k \<and> clones rec True c t) ks ts"
    using f rec
  proof (induction ks arbitrary: ts G)
    case Nil
    then show ?case by (auto elim: forest_NilE)
  next
    case (Cons x ks)
    obtain k c where x: "x = (k, c)" by force
    from Cons.prems(1) x obtain t ts' F1 F2 where g: "ts = (k, t) # ts'" "tree src c t F1" "forest src ks ts' F2"
      by (auto elim: forest_ConsE)
    have "list_all2 (\<lambda>(k, c) (k', t). k' = k \<and> clones rec True c t) ks ts'"
      by (rule Cons.IH [OF g(3)]) (use Cons.prems(2) g(1) in auto)
    moreover have "clones rec True c t" by (rule Cons.prems(2) [OF g(2)]) (use g(1) in auto)
    ultimately show ?case by (simp add: x g(1))
  qed
  from clone_survivors_made [OF this h]
  have m: "made d fl (\<lambda>out d' F. forest d' out ?A F) (clone_survivors rec ks d)" .
  have sorted: "keys_sorted ?A"
    by (rule keys_sorted_alive) (use ks forest_sorted [OF f] in \<open>simp add: keys_sorted_map\<close>)
  show ?thesis
    by (rule made_bind [where m = "clone_survivors rec ks", OF m])
      (use pack_made forest_sorted sorted in auto)
qed

section \<open>The recursion\<close>

lemma height_mem: "(b, t) \<in> set ts \<Longrightarrow> height t < height (AInner nt ts)"
  using foldr_max_ge [of b "height t" "map (map_prod id height) ts"] by (force simp: less_Suc_eq_le)

lemma clone_entry:
  assumes "node_at src s nt off"
  shows "clone_subtree (Suc fuel) src filt s =
    (let rec = clone_subtree fuel src filt
     in case nt of
          Invalid \<Rightarrow> sfail (node_corrupt ''clone_subtree: NodeType::Invalid in source'')
        | EmptyRoot \<Rightarrow> sbind (alloc_node EmptyRoot) (\<lambda>slot. sret (Some slot))
        | LeafT \<Rightarrow> clone_leaf src off filt
        | PrefixT \<Rightarrow> clone_prefix rec src off
        | Node4T \<Rightarrow> clone_node4 rec src off filt
        | Node16T \<Rightarrow> clone_node16 rec src off filt
        | Node48T \<Rightarrow> clone_node48 rec src off filt
        | Node256T \<Rightarrow> clone_node256 rec src off filt
        | BlobT \<Rightarrow> clone_blob_node src off)"
  using slot_entry_node_at [OF assms] body_of_slot_node_at [OF assms]
  by (simp add: ok_or_def sread_const sbind_sret_left)

declare clone_subtree.simps(2) [simp del]

text \<open>The inner nodes: their children lie in the source, and the recursive call clones each of them.\<close>

definition inner_task :: "buf \<Rightarrow> (u8 \<times> nat) list \<Rightarrow> (u8 \<times> art) list \<Rightarrow> (nat \<Rightarrow> (buf, nat option) st) \<Rightarrow> bool \<Rightarrow> bool" where
  "inner_task src ks ts rec filt \<longleftrightarrow> (\<exists>G. forest src ks ts G)
     \<and> (\<forall>c t H. tree src c t H \<longrightarrow> (\<exists>k. (k, t) \<in> set ts) \<longrightarrow> clones rec filt c t)"

lemma task_slots:
  assumes "inner_task src ks ts rec filt"
  shows "distinct (map snd ks)" and "0 \<notin> snd ` set ks"
  using assms forest_distinct forest_slots_ok by (fastforce simp: inner_task_def slots_ok_def slot_ok_def)+

lemma task_filter:
  assumes "inner_task src ks ts rec True" and "holds d fl {}" and "keys_sorted ks"
  shows "made d fl (copied (copy_of True (AInner nt ts))) (sbind (clone_survivors rec ks) pack_inner_node d)"
  using assms filter_made unfolding inner_task_def copy_of_def by (metis (no_types, lifting))

lemma task_preserve:
  assumes "inner_task src ks ts rec False" and "holds d fl {}"
    and "set cs - {0} = snd ` set ks" and "distinct (filter (\<lambda>c. c \<noteq> 0) cs)" and "skip_zero \<or> 0 \<notin> set cs"
    and "\<And>f. \<forall>c\<in>snd ` set ks. slot_ok (f c) \<Longrightarrow> node_image nt (E (map (slot_map f) cs)) (map (map_prod id f) ks)"
  shows "made d fl (copied (copy_of False (AInner nt ts)))
    (sbind (clone_slots rec skip_zero cs) (\<lambda>ds. sbind (new_node nt (E ds)) (\<lambda>slot. sret (Some slot))) d)"
proof -
  obtain G where f: "forest src ks ts G" using assms(1) by (auto simp: inner_task_def)
  have "clones rec False c t" if "tree src c t H" and "\<exists>k. (k, t) \<in> set ts" for c t H
    using assms(1) that unfolding inner_task_def by blast
  from preserve_made [OF assms(2) f this assms(3-6)] show ?thesis by (simp add: copy_of_def)
qed

text \<open>The two widths with a key array.\<close>

lemma array_children:
  assumes "inner_task src ks ts rec filt" and "map snd ks = cs"
  shows "set cs - {0} = snd ` set ks" and "distinct (filter (\<lambda>c. c \<noteq> 0) cs)" and "False \<or> 0 \<notin> set cs"
proof -
  have set: "set cs = snd ` set ks" using assms(2) by (metis set_map)
  show "set cs - {0} = snd ` set ks" and "False \<or> 0 \<notin> set cs"
    using task_slots(2) [OF assms(1)] unfolding set by simp_all
  show "distinct (filter (\<lambda>c. c \<noteq> 0) cs)" using task_slots(1) [OF assms(1)] assms(2) by simp
qed

lemma clone4:
  assumes n: "n = dec_node4 (rd src off 24)" "inv4 n" "ks = kids4 n"
    and task: "inner_task src ks ts rec filt" and h: "holds d fl {}"
  shows "made d fl (copied (copy_of filt (AInner Node4T ts))) (clone_node4 rec src off filt d)"
proof (cases filt)
  note len = inv4_lengths [OF n(2)]
  case True
  have "take (min (n4_count n) 4) (zip (n4_keys n) (n4_children n)) = ks"
    using len by (simp add: n(3) kids4_def arr_kids_def take_zip min_absorb1)
  then have "clone_node4 rec src off filt = sbind (clone_survivors rec ks) pack_inner_node"
    using True by (simp add: clone_node4_def Let_def n(1) [symmetric])
  then show ?thesis using task_filter [OF _ h] task True len(4) n(3) by simp
next
  note len = inv4_lengths [OF n(2)]
  case False
  let ?cs = "take (n4_count n) (n4_children n)"
  let ?E = "\<lambda>ds. enc_node4 (node4_empty\<lparr>n4_count := n4_count n, n4_keys := n4_keys n,
    n4_children := ds @ replicate (4 - n4_count n) 0\<rparr>)"
  have run: "clone_node4 rec src off filt
      = sbind (clone_slots rec False ?cs) (\<lambda>ds. sbind (new_node Node4T (?E ds)) (\<lambda>slot. sret (Some slot)))"
    using False len by (simp add: clone_node4_def Let_def n(1) [symmetric] new_node_then min_absorb1)
  have cs: "map snd ks = ?cs" using len by (simp add: n(3) kids4_def arr_kids_def)
  have image: "node_image Node4T (?E (map (slot_map f) ?cs)) (map (map_prod id f) ks)"
    if "\<forall>c\<in>snd ` set ks. slot_ok (f c)" for f
    using node_images(1) [OF reslot4(2) [OF n(2)]] reslot4(1) [OF n(2)] that n(3) by metis
  have "inner_task src ks ts rec False" using task False by simp
  from task_preserve [OF this h array_children [OF task cs] image] show ?thesis unfolding run using False by simp
qed

lemma clone16:
  assumes n: "n = dec_node16 (rd src off 88)" "inv16 n" "ks = kids16 n"
    and task: "inner_task src ks ts rec filt" and h: "holds d fl {}"
  shows "made d fl (copied (copy_of filt (AInner Node16T ts))) (clone_node16 rec src off filt d)"
proof (cases filt)
  note len = inv16_lengths [OF n(2)]
  case True
  have "take (min (n16_count n) 16) (zip (n16_keys n) (n16_children n)) = ks"
    using len by (simp add: n(3) kids16_def arr_kids_def take_zip min_absorb1)
  then have "clone_node16 rec src off filt = sbind (clone_survivors rec ks) pack_inner_node"
    using True by (simp add: clone_node16_def Let_def n(1) [symmetric])
  then show ?thesis using task_filter [OF _ h] task True len(4) n(3) by simp
next
  note len = inv16_lengths [OF n(2)]
  case False
  let ?cs = "take (n16_count n) (n16_children n)"
  let ?E = "\<lambda>ds. enc_node16 (node16_empty\<lparr>n16_count := n16_count n, n16_keys := n16_keys n,
    n16_children := ds @ replicate (16 - n16_count n) 0\<rparr>)"
  have run: "clone_node16 rec src off filt
      = sbind (clone_slots rec False ?cs) (\<lambda>ds. sbind (new_node Node16T (?E ds)) (\<lambda>slot. sret (Some slot)))"
    using False len by (simp add: clone_node16_def Let_def n(1) [symmetric] new_node_then min_absorb1)
  have cs: "map snd ks = ?cs" using len by (simp add: n(3) kids16_def arr_kids_def)
  have image: "node_image Node16T (?E (map (slot_map f) ?cs)) (map (map_prod id f) ks)"
    if "\<forall>c\<in>snd ` set ks. slot_ok (f c)" for f
    using node_images(2) [OF reslot16(2) [OF n(2)]] reslot16(1) [OF n(2)] that n(3) by metis
  have "inner_task src ks ts rec False" using task False by simp
  from task_preserve [OF this h array_children [OF task cs] image] show ?thesis unfolding run using False by simp
qed

text \<open>The two widths indexed by key byte.\<close>

lemma clone48:
  assumes n: "n = dec_node48 (rd src off 456)" "inv48 n" "ks = kids48 n"
    and task: "inner_task src ks ts rec filt" and h: "holds d fl {}"
  shows "made d fl (copied (copy_of filt (AInner Node48T ts))) (clone_node48 rec src off filt d)"
proof (cases filt)
  case True
  have "clone_index48 rec n [0..<256] = clone_survivors rec ks"
    unfolding n(3) kids48_def table_kids_def
    by (rule clone_index48_survivors) (use inv48_lengths(4) [OF n(2)] in simp)
  then have "clone_node48 rec src off filt = sbind (clone_survivors rec ks) pack_inner_node"
    using True by (simp add: clone_node48_def Let_def n(1) [symmetric] del: upt_rec_numeral)
  then show ?thesis using task_filter [OF _ h] task True kids48_sorted n(3) by simp
next
  case False
  let ?E = "\<lambda>ds. enc_node48 (node48_empty\<lparr>n48_count := n48_count n, n48_index := n48_index n, n48_children := ds\<rparr>)"
  have run: "clone_node48 rec src off filt = sbind (clone_slots rec True (n48_children n))
      (\<lambda>ds. sbind (new_node Node48T (?E ds)) (\<lambda>slot. sret (Some slot)))"
    using False by (simp add: clone_node48_def Let_def n(1) [symmetric] new_node_then)
  have image: "node_image Node48T (?E (map (slot_map f) (n48_children n))) (map (map_prod id f) ks)"
    if "\<forall>c\<in>snd ` set ks. slot_ok (f c)" for f
    using node_images(3) [OF reslot48(2) [OF n(2)]] reslot48(1) [OF n(2)] that n(3) by metis
  have d: "distinct (filter (\<lambda>c. c \<noteq> 0) (n48_children n))"
    using distinct_children(1) [OF n(2)] task_slots(1) [OF task] n(3) by simp
  have t: "inner_task src ks ts rec False" and s: "True \<or> 0 \<notin> set (n48_children n)" using task False by simp_all
  from task_preserve [OF t h kids_children(1) [OF n(2), folded n(3)] d s image] show ?thesis unfolding run using False by simp
qed

lemma clone256:
  assumes n: "n = dec_node256 (rd src off 1032)" "inv256 n" "ks = kids256 n"
    and task: "inner_task src ks ts rec filt" and h: "holds d fl {}"
  shows "made d fl (copied (copy_of filt (AInner Node256T ts))) (clone_node256 rec src off filt d)"
proof (cases filt)
  case True
  have "enumerate 0 (n256_children n) = map (\<lambda>b. (b, n256_children n ! b)) [0..<256]"
    using inv256_lengths(1) [OF n(2)]
    by (intro nth_equalityI) (simp_all add: nth_enumerate_eq del: upt_rec_numeral)
  then have "clone_children256 rec (enumerate 0 (n256_children n)) = clone_survivors rec ks"
    unfolding n(3) kids256_def table_kids_def slot256_def Let_def by (simp only: clone_children256_survivors)
  then have "clone_node256 rec src off filt = sbind (clone_survivors rec ks) pack_inner_node"
    using True by (simp add: clone_node256_def Let_def n(1) [symmetric])
  then show ?thesis using task_filter [OF _ h] task True kids256_sorted n(3) by simp
next
  case False
  let ?E = "\<lambda>ds. enc_node256 (node256_empty\<lparr>n256_count := n256_count n, n256_children := ds\<rparr>)"
  have run: "clone_node256 rec src off filt = sbind (clone_slots rec True (n256_children n))
      (\<lambda>ds. sbind (new_node Node256T (?E ds)) (\<lambda>slot. sret (Some slot)))"
    using False by (simp add: clone_node256_def Let_def n(1) [symmetric] new_node_then)
  have image: "node_image Node256T (?E (map (slot_map f) (n256_children n))) (map (map_prod id f) ks)"
    if "\<forall>c\<in>snd ` set ks. slot_ok (f c)" for f
    using node_images(4) [OF reslot256(2) [OF n(2)]] reslot256(1) [OF n(2)] that n(3) by metis
  have d: "distinct (filter (\<lambda>c. c \<noteq> 0) (n256_children n))"
    using distinct_children(2) [OF n(2)] task_slots(1) [OF task] n(3) by simp
  have t: "inner_task src ks ts rec False" and s: "True \<or> 0 \<notin> set (n256_children n)" using task False by simp_all
  from task_preserve [OF t h kids_children(2) [OF n(2), folded n(3)] d s image] show ?thesis unfolding run using False by simp
qed

lemma clone_blob_made:
  assumes h: "holds d fl {}" and n: "n = dec_blob_node (rd src off 128)" and len: "bn_prefix_len n \<le> BLOB_MAX_INLINE"
  shows "made d fl (copied (copy_of filt (ABlob (take (bn_prefix_len n) (bn_bytes n)) (child_blob_guid n))))
    (clone_blob_node src off d)"
proof -
  let ?bs = "take (bn_prefix_len n) (bn_bytes n)"
  have "wf_blob_node n" using n by (simp add: blob_node.wf_dec)
  then have w: "length (bn_bytes n) = BLOB_MAX_INLINE" "length (child_blob_guid n) = 16"
    by (simp_all add: wf_blob_node_def BLOB_MAX_INLINE_def)
  then have lb: "length ?bs = bn_prefix_len n" using len by simp
  obtain m where m: "blob_node_new ?bs (child_blob_guid n) = Inr m" "wf_blob_node m"
      "take (bn_prefix_len m) (bn_bytes m) = ?bs" "child_blob_guid m = child_blob_guid n" "bn_prefix_len m \<le> BLOB_MAX_INLINE"
    using lb len w by (auto simp: blob_node_new_def wf_blob_node_def BLOB_MAX_INLINE_def)
  have run: "clone_blob_node src off = sbind (new_node BlobT (enc_blob_node m)) (\<lambda>slot. sret (Some slot))"
    using len m(1)
    by (simp add: clone_blob_node_def Let_def n [symmetric] min_absorb1 sread_const sbind_sret_left new_node_then)
  have e: "length (enc_blob_node m) = node_bytes BlobT" using m(2) by (simp add: blob_node.length_enc)
  have "BlobT \<noteq> Invalid" by simp
  note new = made_new_node [OF h this e]
  show ?thesis
    unfolding run
  proof (rule made_map, rule made_mono [OF new], elim exE conjE)
    fix s d2 F2 off' assume a: "node_at d2 s BlobT off'" "rd d2 off' (node_bytes BlobT) = enc_blob_node m" "F2 = nfoot s BlobT off'"
    have "m = dec_blob_node (rd d2 off' 128)" using a(2) m(2) by (simp add: blob_node.dec_enc)
    from tree_blob [OF a(1) this m(5)] show "copied (copy_of filt (ABlob ?bs (child_blob_guid n))) (Some s) d2 F2"
      using m(3,4) a(3) by (simp add: copied_def copy_of_def)
  qed
qed

lemma clone_empty_made:
  assumes "holds d fl {}"
  shows "made d fl (copied (copy_of filt AEmpty)) (sbind (alloc_node EmptyRoot) (\<lambda>slot. sret (Some slot)) d)"
proof (rule made_map, rule made_mono [OF made_alloc_node [OF assms]])
  fix s d2 F2 assume "\<exists>off. node_at d2 s EmptyRoot off \<and> F2 = nfoot s EmptyRoot off"
  then show "copied (copy_of filt AEmpty) (Some s) d2 F2" by (auto simp: copied_def copy_of_def intro: tree_empty)
qed simp

lemma clone_subtree_made:
  assumes "tree src s t G" and "height t < fuel" and "holds d fl {}"
  shows "made d fl (copied (copy_of filt t)) (clone_subtree fuel src filt s d)"
  using assms
proof (induction fuel arbitrary: s t G d fl)
  case (Suc fuel)
  let ?rec = "clone_subtree fuel src filt"
  have rec: "clones ?rec filt c u" if "tree src c u H" and "height u < fuel" for c u H
    using Suc.IH [OF that] tree_slot_ok [OF that(1)] by (simp add: clones_def)
  from Suc.prems(1) show ?case
  proof cases
    case (tree_empty off)
    then show ?thesis using clone_empty_made [OF Suc.prems(3)] by (simp add: clone_entry Let_def)
  next
    case (tree_leaf off l k v)
    then show ?thesis using clone_leaf_made [OF Suc.prems(3)] by (simp add: clone_entry Let_def)
  next
    case (tree_prefix off p t' F)
    have "clones ?rec filt (pfx_child p) t'" by (rule rec [OF tree_prefix(6)]) (use Suc.prems(2) tree_prefix(1) in simp)
    then show ?thesis
      using clone_prefix_made [OF Suc.prems(3) tree_prefix(4,5)] tree_prefix(1,3) by (simp add: clone_entry Let_def)
  next
    case (tree_inner nt off ks ts F)
    have "clones ?rec filt c u" if "tree src c u H" and "\<exists>k. (k, u) \<in> set ts" for c u H
      using rec [OF that(1)] that(2) height_mem [of _ u ts nt] Suc.prems(2) tree_inner(1) by fastforce
    then have task: "inner_task src ks ts ?rec filt" using tree_inner(5) unfolding inner_task_def by blast
    from tree_inner(4) show ?thesis
      by (cases rule: inode_cases)
        (use clone4 clone16 clone48 clone256 task Suc.prems(3) tree_inner in \<open>simp_all add: clone_entry Let_def\<close>)
  next
    case (tree_blob off n)
    then show ?thesis using clone_blob_made [OF Suc.prems(3)] by (simp add: clone_entry Let_def)
  qed
qed simp

end
