(* ===== verification/Compact.thy ===== *)
theory Compact
  imports Clone_Correct
begin

text \<open>
  Repacking a blob and making a blob from a subtree (\<^verbatim>\<open>compact_blob\<close> and
  \<^verbatim>\<open>make_blob_from_node\<close> of \<^verbatim>\<open>migrate.rs\<close>): lookups, the map a blob stands for and the
  invariants of a blob are kept.
\<close>

section \<open>The live part of a tree\<close>

fun olook :: "art option \<Rightarrow> bytes \<Rightarrow> nat \<Rightarrow> lookup_result" where
  "olook None k d = NotFoundR"
| "olook (Some t) k d = alook t k d"

lemma range_at_one: "range_at k d [b] \<longleftrightarrow> d < length k \<and> k ! d = b"
  unfolding range_at_def
  by (cases "d < length k") (auto simp: take_Suc_conv_app_nth hd_drop_conv_nth take_Suc)

lemma olook_pack:
  "distinct (map fst ts) \<Longrightarrow> olook (pack ts) k d
    = (if d < length k then case map_of ts (k ! d) of None \<Rightarrow> NotFoundR | Some t \<Rightarrow> alook t k (d + 1) else NotFoundR)"
  by (cases ts rule: pack.cases) (auto simp: alook_AInner range_at_one)

lemma map_of_alive:
  "distinct (map fst rs) \<Longrightarrow> map_of (alive rs) b = (case map_of rs b of Some (Some t) \<Rightarrow> Some t | _ \<Rightarrow> None)"
  by (induction rs rule: alive.induct) (auto simp: map_of_eq_None_iff set_alive image_iff split: option.splits)

lemma olook_live: "wf_art t path \<Longrightarrow> olook (live_part t) k d = alook t k d"
proof (induction t arbitrary: path d)
  case (APrefix p t)
  then have "olook (live_part t) k (d + length p) = alook t k (d + length p)" by auto
  then show ?case by (cases "live_part t") auto
next
  case (AInner nt ts)
  have sorted: "keys_sorted ts" using AInner.prems by (simp add: wf_art_AInner)
  let ?rs = "map (map_prod id live_part) ts"
  have d1: "distinct (map fst ?rs)" using keys_sorted_distinct [OF sorted] by (simp add: comp_def)
  have d2: "distinct (map fst (alive ?rs))"
    by (intro keys_sorted_distinct keys_sorted_alive) (simp add: keys_sorted_map sorted)
  have child: "olook (live_part u) k (d + 1) = alook u k (d + 1)" if "map_of ts b = Some u" for b u
    using AInner.IH [of "(b, u)" u] map_of_SomeD [OF that] wf_art_child [OF AInner.prems that] by force
  show ?case
  proof (cases "d < length k")
    case True
    show ?thesis
    proof (cases "map_of ts (k ! d)")
      case None
      then show ?thesis using True d1 d2 by (simp add: olook_pack map_of_alive map_of_map_prod alook_AInner)
    next
      case (Some u)
      then show ?thesis using True d1 d2 child [OF Some]
        by (cases "live_part u") (simp_all add: olook_pack map_of_alive map_of_map_prod alook_AInner)
    qed
  next
    case False
    then show ?thesis using d2 by (simp add: olook_pack alook_AInner)
  qed
qed auto

lemma foldr_max_le: "foldr (max \<circ> snd) xs (0 :: nat) \<le> m \<longleftrightarrow> (\<forall>(b, h) \<in> set xs. h \<le> m)"
  by (induction xs) auto

lemma height_inner_le: "height (AInner nt ts) \<le> Suc m \<longleftrightarrow> (\<forall>(b, t) \<in> set ts. height t \<le> m)"
  by (auto simp: foldr_max_le image_iff)

lemma height_pack: "(\<forall>(b, t) \<in> set ts. height t \<le> m) \<Longrightarrow> pack ts = Some t' \<Longrightarrow> height t' \<le> Suc m"
  by (cases ts rule: pack.cases) (auto simp: height_inner_le simp del: height.simps(4))

lemma live_height: "live_part t = Some t' \<Longrightarrow> height t' \<le> height t"
proof (induction t arbitrary: t')
  case (AInner nt ts)
  have "height u' \<le> height (AInner nt ts) - 1" if m: "(b, u') \<in> set (alive (map (map_prod id live_part) ts))" for b u'
  proof -
    obtain u where u: "(b, u) \<in> set ts" "live_part u = Some u'" using m by (auto simp: set_alive)
    then show ?thesis using AInner.IH [OF u(1), of u u'] height_mem [OF u(1), of nt] by auto
  qed
  then have "height t' \<le> Suc (height (AInner nt ts) - 1)" using AInner.prems by (intro height_pack) auto
  then show ?case by simp
qed (auto split: if_splits)

lemma wf_pack: "keys_sorted ts \<Longrightarrow> (\<forall>(b, t) \<in> set ts. wf_art t (path @ [b])) \<Longrightarrow> pack ts = Some t' \<Longrightarrow> wf_art t' path"
  by (cases ts rule: pack.cases) (auto simp: wf_art_AInner PREFIX_MAX_INLINE_def)

lemma wf_live: "wf_art t path \<Longrightarrow> live_part t = Some t' \<Longrightarrow> wf_art t' path"
proof (induction t arbitrary: path t')
  case (AInner nt ts)
  have "wf_art u' (path @ [b])" if m: "(b, u') \<in> set (alive (map (map_prod id live_part) ts))" for b u'
  proof -
    obtain u where u: "(b, u) \<in> set ts" "live_part u = Some u'" using m by (auto simp: set_alive)
    then show ?thesis using AInner.IH [OF u(1), of u] AInner.prems(1) by (auto simp: wf_art_AInner)
  qed
  moreover have "keys_sorted (alive (map (map_prod id live_part) ts))"
    using AInner.prems(1) by (intro keys_sorted_alive) (simp add: wf_art_AInner keys_sorted_map)
  ultimately show ?case using AInner.prems(2) by (intro wf_pack) auto
qed (auto split: if_splits)

lemma end_node_live: "end_node t \<Longrightarrow> live_part t = Some t' \<Longrightarrow> end_node t'"
  by (cases t) (auto split: if_splits)

lemma zero_free_pack:
  "(\<forall>(b, t) \<in> set ts. (b = 0 \<longrightarrow> end_node t) \<and> zero_free t) \<Longrightarrow> pack ts = Some t' \<Longrightarrow> zero_free t'"
  by (cases ts rule: pack.cases) (auto simp: zero_free_AInner)

lemma zero_free_live: "zero_free t \<Longrightarrow> live_part t = Some t' \<Longrightarrow> zero_free t'"
proof (induction t arbitrary: t')
  case (APrefix p t)
  then show ?case using end_node_live by (fastforce simp: ends_path_def)
next
  case (AInner nt ts)
  have "(b = 0 \<longrightarrow> end_node u') \<and> zero_free u'" if m: "(b, u') \<in> set (alive (map (map_prod id live_part) ts))" for b u'
  proof -
    obtain u where u: "(b, u) \<in> set ts" "live_part u = Some u'" using m by (auto simp: set_alive)
    then show ?thesis using AInner.IH [OF u(1), of u] AInner.prems(1) end_node_live by (auto simp: zero_free_AInner)
  qed
  then show ?case using AInner.prems(2) by (intro zero_free_pack) auto
qed (auto split: if_splits)

section \<open>A fresh frame that is filled\<close>

lemma in_fresh_made:
  assumes g: "length guid = 16"
    and m: "\<forall>d fl. holds d fl {} \<longrightarrow> made d fl Q (m d)"
  obtains (fail) e d' where "in_fresh guid (sbind m k) = (Inl (Alloc e), d')"
    | (ok) x d fl F where "in_fresh guid (sbind m k) = k x d" and "holds d fl (F \<union> nfoot 1 EmptyRoot DATA_AREA_START)"
        and "F \<inter> nfoot 1 EmptyRoot DATA_AREA_START = {}"
        and "Q x d F" and "root_slot d = 1" and "node_at d 1 EmptyRoot DATA_AREA_START" and "header_guid d = guid"
proof -
  let ?N = "nfoot 1 EmptyRoot DATA_AREA_START"
  obtain b fl where b: "frame_init guid = (Inr (), b)" "alloc_inv b fl" "root_slot b = 1"
      "node_at b 1 EmptyRoot DATA_AREA_START" "?N \<inter> owned b fl = {}" "header_guid b = guid"
    using g by (rule frame_init_spec) blast
  have h: "holds b fl {}" using b(2) by (simp add: holds_def)
  have run: "in_fresh guid (sbind m k) = sbind m k b" by (simp add: in_fresh_def b(1))
  obtain r d where mb: "m b = (r, d)" by force
  show thesis
  proof (cases r)
    case (Inl e)
    then show ?thesis using fail [of _ d] m [rule_format, OF h] mb run by (auto simp: made_def sbind_Inl)
  next
    case (Inr x)
    then obtain fl' F where e: "eff b fl {} d fl' F" "Q x d F" using m [rule_format, OF h] mb by (auto simp: made_def)
    have sep: "?N \<inter> F = {}" "?N \<inter> owned d fl' = {}" "node_at d 1 EmptyRoot DATA_AREA_START"
      using eff_sep [OF e(1), of ?N] b(5) node_at_eff [OF b(4) e(1)] by simp_all
    have "holds d fl' (F \<union> ?N)" using eff_holds [OF e(1)] sep(2) by (auto simp: holds_def)
    moreover have "root_slot d = 1" "header_guid d = guid" using e(1) b(3,6) by (simp_all add: eff_def)
    ultimately show ?thesis using ok [of x d fl' F] e(2) sep run mb Inr by (auto simp: sbind_Inr)
  qed
qed

lemma release_sentinel_spec:
  assumes h: "holds d fl (F \<union> nfoot 1 EmptyRoot DATA_AREA_START)" and dis: "F \<inter> nfoot 1 EmptyRoot DATA_AREA_START = {}"
    and t: "tree d s t F" and r: "root_slot d = 1" and n: "node_at d 1 EmptyRoot DATA_AREA_START"
  obtains d' fl' where "release_sentinel s d = (Inr (), d')" and "tree d' s t F" and "holds d' fl' F"
    and "header_guid d' = header_guid d"
proof -
  let ?N = "nfoot 1 EmptyRoot DATA_AREA_START"
  have "entry_addr 1 \<in> ?N" by (auto simp: nfoot_def)
  then have "s \<noteq> 1" using tree_entry [OF t] dis by blast
  obtain d' fl' where f: "free_node 1 d = (Inr (), d')" "eff d fl ?N d' fl' (?N - ?N)"
    using free_node_eff [OF holds_sub [OF h] n subset_refl] by auto
  have "release_sentinel s d = (Inr (), d')"
    using f(1) r \<open>s \<noteq> 1\<close> by (simp add: release_sentinel_def sget_def sbind_Inr)
  moreover have "tree d' s t F" using tree_eff [OF t f(2)] dis h by (auto simp: holds_def)
  moreover have sep: "F \<inter> owned d' fl' = {}" using eff_sep(2) [OF f(2), of F] dis h by (auto simp: holds_def)
  then have "holds d' fl' F" using eff_holds [OF f(2)] by (simp add: holds_def)
  moreover have "header_guid d' = header_guid d" using f(2) by (simp add: eff_def)
  ultimately show thesis by (rule that)
qed

section \<open>Repacking a blob\<close>

lemma length_header_guid [simp]: "length (header_guid b) = 16"
  by (simp add: header_guid_def)

lemma blob_aux:
  assumes b: "blob b t path" and u: "aux_update b b'" and r: "root_slot b' = root_slot b"
  shows "blob b' t path"
proof -
  obtain fl F where h: "holds b fl F" "tree b (root_slot b) t F" "wf_art t path" using b by (auto simp: blob_def)
  have inv: "alloc_inv b' fl" "owned b' fl = owned b fl"
    using aux_update_inv [OF u] h(1) by (simp_all add: holds_def)
  have "\<forall>a \<in> F. b' a = b a"
  proof
    fix a assume "a \<in> F"
    then have "a \<notin> {0..<HEADER_SIZE}" using h(1) by (auto simp: holds_def owned_def fixed_owned_def)
    then show "b' a = b a" using u by (simp add: aux_update_def)
  qed
  then have "tree b' (root_slot b) t F" using tree_frame(1) [OF h(2)] u by (simp add: aux_update_def)
  then show ?thesis unfolding blob_def using inv h r by (auto simp: holds_def)
qed

text \<open>The tree that is left, an empty root when nothing is.\<close>

definition compacted :: "art \<Rightarrow> art" where
  "compacted t = (case live_part t of None \<Rightarrow> AEmpty | Some t' \<Rightarrow> t')"

lemma compacted_look: "wf_art t path \<Longrightarrow> alook (compacted t) k d = alook t k d"
  using olook_live [of t path k d] by (auto simp: compacted_def split: option.splits)

lemma compacted_wf: "wf_art t path \<Longrightarrow> wf_art (compacted t) path"
  by (auto simp: compacted_def wf_live split: option.splits)

lemma compacted_height: "height (compacted t) \<le> height t"
  by (auto simp: compacted_def live_height split: option.splits)

lemma compacted_user: "user_tree t path \<Longrightarrow> user_tree (compacted t) path"
  by (auto simp: compacted_def user_tree_def zero_free_live end_node_live split: option.splits)

definition clone_or_empty :: "nat \<Rightarrow> buf \<Rightarrow> (buf, nat) st" where
  "clone_or_empty fuel buf = sbind (clone_subtree fuel buf True (root_slot buf)) (\<lambda>cloned.
     case cloned of Some slot \<Rightarrow> sret slot | None \<Rightarrow> alloc_node EmptyRoot)"

lemma clone_or_empty_made:
  assumes t: "tree b (root_slot b) t G" and f: "height t < fuel" and h: "holds d fl {}"
  shows "made d fl (\<lambda>s d' F. tree d' s (compacted t) F) (clone_or_empty fuel b d)"
  unfolding clone_or_empty_def
proof (rule made_bind [where Q = "copied (live_part t)"])
  show "made d fl (copied (live_part t)) (clone_subtree fuel b True (root_slot b) d)"
    using clone_subtree_made [OF t f h, of True] by (simp add: copy_of_def)
  fix r d1 fl1 F1 assume h1: "holds d1 fl1 {}" and r: "copied (live_part t) r d1 F1"
  show "made d1 fl1 (\<lambda>s d2 F2. intact d1 F1 d2 F2 \<longrightarrow> tree d2 s (compacted t) (F2 \<union> F1))
      ((case r of None \<Rightarrow> alloc_node EmptyRoot | Some slot \<Rightarrow> sret slot) d1)"
  proof (cases r)
    case None
    then have e: "compacted t = AEmpty" "F1 = {}" using r by (simp_all add: copied_def compacted_def)
    show ?thesis
      unfolding None option.case
      by (rule made_mono [OF made_alloc_node [OF h1]]) (auto simp: e intro: tree_empty)
  next
    case (Some s)
    then have "tree d1 s (compacted t) F1" using r by (auto simp: copied_def compacted_def)
    then show ?thesis unfolding Some option.case by (intro made_ret [OF h1]) simp
  qed
qed

lemma compact_blob_spec:
  assumes b: "blob b t path" and f: "height t < fuel"
  obtains (fail) e where "compact_blob fuel b = (Inl (Alloc e), b)"
    | (ok) b' where "compact_blob fuel b = (Inr (), b')" and "blob b' (compacted t) path"
        and "header_guid b' = header_guid b" and "tombstone_leaf_cnt b' = 0"
        and "compact_times b' = min (compact_times b + 1) (2 ^ 32 - 1)"
proof -
  obtain fl F where t: "tree b (root_slot b) t F" "wf_art t path" using b by (auto simp: blob_def)
  let ?k = "\<lambda>new_root. sbind (release_sentinel new_root) (\<lambda>_. smod (\<lambda>d. set_compact_times (sat_add 32 (compact_times b) 1)
     (set_tombstone_leaf_cnt 0 (set_root_slot new_root d))))"
  have run: "compact_blob fuel b = (case in_fresh (header_guid b) (sbind (clone_or_empty fuel b) ?k) of
      (Inl e, _) \<Rightarrow> (Inl e, b) | (Inr _, b') \<Rightarrow> (Inr (), b'))"
    unfolding compact_blob_def clone_or_empty_def sbind_assoc ..
  have g: "length (header_guid b) = 16" by simp
  have m: "\<forall>d fl. holds d fl {} \<longrightarrow> made d fl (\<lambda>s d' F. tree d' s (compacted t) F) (clone_or_empty fuel b d)"
    using clone_or_empty_made [OF t(1) f] by blast
  from g m show thesis
  proof (cases rule: in_fresh_made [where k = ?k])
    case (fail e d')
    then show ?thesis using that(1) run by simp
  next
    case (ok s d fl1 F1)
    obtain d2 fl2 where d2: "release_sentinel s d = (Inr (), d2)" "tree d2 s (compacted t) F1" "holds d2 fl2 F1"
        "header_guid d2 = header_guid d"
      using release_sentinel_spec [OF ok(2,3,4,5,6)] by blast
    let ?d3 = "set_root_slot s d2"
    let ?d4 = "set_compact_times (sat_add 32 (compact_times b) 1) (set_tombstone_leaf_cnt 0 ?d3)"
    have "blob ?d3 (compacted t) path" by (rule blob_set_root [OF d2(2,3) compacted_wf [OF t(2)]])
    then have "blob (set_tombstone_leaf_cnt 0 ?d3) (compacted t) path" by (rule blob_aux) simp_all
    then have "blob ?d4 (compacted t) path" by (rule blob_aux) simp_all
    moreover have "compact_blob fuel b = (Inr (), ?d4)"
      using ok(1) d2(1) by (simp add: run sbind_Inr smod_def)
    moreover have "header_guid ?d4 = header_guid b" using d2(4) ok(7) by simp
    moreover have "compact_times ?d4 = min (compact_times b + 1) (2 ^ 32 - 1)" by (simp add: sat_add_def)
    ultimately show ?thesis using that(2) by simp
  qed
qed

section \<open>A blob from a subtree\<close>

lemma make_blob_spec:
  assumes t: "tree src s t G" and wf: "wf_art t path" and f: "height t < fuel" and g: "length guid = 16"
  obtains (fail) e where "make_blob_from_node fuel src s guid = Inl (Alloc e)"
    | (ok) b where "make_blob_from_node fuel src s guid = Inr b" and "blob b t path" and "header_guid b = guid"
proof -
  let ?m = "clone_subtree fuel src False s"
  let ?k = "\<lambda>r. sbind (expect_clone r) (\<lambda>root. sbind (release_sentinel root) (\<lambda>_. smod (set_root_slot root)))"
  have run: "make_blob_from_node fuel src s guid = (case in_fresh guid (sbind ?m ?k) of (Inl e, _) \<Rightarrow> Inl e | (Inr _, b) \<Rightarrow> Inr b)"
    unfolding make_blob_from_node_def ..
  have m: "\<forall>d fl. holds d fl {} \<longrightarrow> made d fl (copied (Some t)) (?m d)"
    using clone_subtree_made [OF t f, of _ _ False] by (simp add: copy_of_def)
  from g m show thesis
  proof (cases rule: in_fresh_made [where k = ?k])
    case (fail e d')
    then show ?thesis using that(1) run by simp
  next
    case (ok r d fl1 F1)
    then obtain root where r: "r = Some root" "tree d root t F1" by (auto simp: copied_def split: option.splits)
    obtain d2 fl2 where d2: "release_sentinel root d = (Inr (), d2)" "tree d2 root t F1" "holds d2 fl2 F1"
        "header_guid d2 = header_guid d"
      using release_sentinel_spec [OF ok(2,3) r(2) ok(5,6)] by blast
    have "make_blob_from_node fuel src s guid = Inr (set_root_slot root d2)"
      using ok(1) d2(1) by (simp add: run r(1) sbind_sret_left sbind_Inr smod_def)
    moreover have "blob (set_root_slot root d2) t path" by (rule blob_set_root [OF d2(2,3) wf])
    moreover have "header_guid (set_root_slot root d2) = guid" using d2(4) ok(7) by simp
    ultimately show ?thesis by (rule that(2))
  qed
qed

end
