(* ===== verification/Blob_Runs.thy ===== *)
theory Blob_Runs
  imports Compact
begin

text \<open>
  A blob under a sequence of operations refines a finite map from keys to values with their
  sequence numbers: the abstract specification of the tree.  The runs start from a freshly
  initialised frame and apply inserts and erases of user keys, with any condition, and
  compactions; an insert may fail for lack of space, which leaves the map alone.
\<close>

section \<open>Fuel does not matter\<close>

text \<open>More fuel gives the same result, unless the descent ran out of it.\<close>

definition overflows :: "'a res \<Rightarrow> bool" where
  "overflows r \<longleftrightarrow> r = Inl StackOverflow"

lemma overflows_simps [simp]: "\<not> overflows (Inr x)" "overflows (Inl e) \<longleftrightarrow> e = StackOverflow"
  by (simp_all add: overflows_def)

lemma sbind_more:
  assumes "\<not> overflows (fst (m b)) \<Longrightarrow> m' b = m b" and "\<not> overflows (fst (sbind m k b))"
  shows "sbind m' k b = sbind m k b"
proof (cases "m b")
  case (Pair r b1)
  then have "\<not> overflows r" using assms(2) by (cases r) (auto simp: sbind_def)
  then show ?thesis using assms(1) Pair by (simp add: sbind_def)
qed

definition more_fuel :: "(nat \<Rightarrow> nat \<Rightarrow> (buf, 'a) st) \<Rightarrow> (nat \<Rightarrow> nat \<Rightarrow> (buf, 'a) st) \<Rightarrow> bool" where
  "more_fuel rec rec' \<longleftrightarrow> (\<forall>s d b. \<not> overflows (fst (rec s d b)) \<longrightarrow> rec' s d b = rec s d b)"

lemma more_fuelD: "more_fuel rec rec' \<Longrightarrow> \<not> overflows (fst (rec s d b)) \<Longrightarrow> rec' s d b = rec s d b"
  by (simp add: more_fuel_def)

lemma insert_prefix_more:
  assumes m: "more_fuel rec rec'" and ok: "\<not> overflows (fst (insert_into_prefix_step rec s key v d q cond b))"
  shows "insert_into_prefix_step rec' s key v d q cond b = insert_into_prefix_step rec s key v d q cond b"
proof (cases "read_prefix b s")
  case (Inl e)
  then show ?thesis by (simp add: insert_into_prefix_step_def)
next
  case (Inr p)
  show ?thesis
  proof (cases "prefix_len p \<le> length (pfx_bytes p)
      \<and> common_prefix_with_slice key d (take (prefix_len p) (pfx_bytes p)) = prefix_len p")
    case True
    then show ?thesis
      using ok Inr unfolding insert_into_prefix_step_def
      by (simp add: Let_def) (rule sbind_more [OF more_fuelD [OF m]], assumption, simp)
  next
    case False
    then show ?thesis using Inr by (auto simp: insert_into_prefix_step_def Let_def)
  qed
qed

lemma insert_inner_more:
  assumes m: "more_fuel rec rec'" and ok: "\<not> overflows (fst (insert_into_inner_step rec s nt key v d q cond b))"
  shows "insert_into_inner_step rec' s nt key v d q cond b = insert_into_inner_step rec s nt key v d q cond b"
proof (cases "byte_at key d")
  case None
  then show ?thesis by (simp add: insert_into_inner_step_def)
next
  case (Some x)
  show ?thesis
  proof (cases "inner_find_child b s nt x")
    case (Inl e)
    then show ?thesis using Some by (simp add: insert_into_inner_step_def)
  next
    case (Inr c)
    then show ?thesis
      using ok Some unfolding insert_into_inner_step_def
      by (cases c) (simp_all, rule sbind_more [OF more_fuelD [OF m]], assumption, simp)
  qed
qed

lemma insert_at_step_more:
  "\<not> overflows (fst (insert_at_step fuel s key v d q cond allow b)) \<Longrightarrow> fuel \<le> fuel'
   \<Longrightarrow> insert_at_step fuel' s key v d q cond allow b = insert_at_step fuel s key v d q cond allow b"
proof (induction fuel arbitrary: fuel' s d b)
  case (Suc fuel)
  obtain n where n: "fuel' = Suc n" "fuel \<le> n" using Suc.prems(2) by (cases fuel') auto
  let ?rec = "\<lambda>s d. insert_at_step fuel s key v d q cond allow" and ?rec' = "\<lambda>s d. insert_at_step n s key v d q cond allow"
  have m: "more_fuel ?rec ?rec'" unfolding more_fuel_def using Suc.IH n(2) by blast
  show ?case
  proof (cases "ntype_of b s")
    case (Inl e)
    then show ?thesis by (simp add: n Let_def)
  next
    case (Inr nt)
    show ?thesis
      using Suc.prems(1) Inr insert_prefix_more [OF m, of s key v d q cond b] insert_inner_more [OF m, of s nt key v d q cond b]
      unfolding n(1) by (cases nt) (simp_all add: Let_def)
  qed
qed simp

lemma erase_prefix_more:
  assumes m: "more_fuel rec rec'" and ok: "\<not> overflows (fst (erase_at_prefix_step rec s key d b))"
  shows "erase_at_prefix_step rec' s key d b = erase_at_prefix_step rec s key d b"
proof (cases "read_prefix b s")
  case (Inl e)
  then show ?thesis by (simp add: erase_at_prefix_step_def)
next
  case (Inr p)
  show ?thesis
  proof (cases "prefix_len p \<le> length (pfx_bytes p) \<and> range_eq key d (take (prefix_len p) (pfx_bytes p))")
    case True
    then show ?thesis
      using ok Inr unfolding erase_at_prefix_step_def
      by (simp add: Let_def) (rule sbind_more [OF more_fuelD [OF m]], assumption, simp)
  next
    case False
    then show ?thesis using Inr by (auto simp: erase_at_prefix_step_def Let_def)
  qed
qed

lemma erase_inner_more:
  assumes m: "more_fuel rec rec'" and ok: "\<not> overflows (fst (erase_at_inner_step rec s nt key d b))"
  shows "erase_at_inner_step rec' s nt key d b = erase_at_inner_step rec s nt key d b"
proof (cases "byte_at key d")
  case None
  then show ?thesis by (simp add: erase_at_inner_step_def)
next
  case (Some x)
  show ?thesis
  proof (cases "inner_find_child b s nt x")
    case (Inl e)
    then show ?thesis using Some by (simp add: erase_at_inner_step_def)
  next
    case (Inr c)
    then show ?thesis
      using ok Some unfolding erase_at_inner_step_def
      by (cases c) (simp_all, rule sbind_more [OF more_fuelD [OF m]], assumption, simp)
  qed
qed

lemma erase_at_step_more:
  "\<not> overflows (fst (erase_at_step fuel s key d cond allow b)) \<Longrightarrow> fuel \<le> fuel'
   \<Longrightarrow> erase_at_step fuel' s key d cond allow b = erase_at_step fuel s key d cond allow b"
proof (induction fuel arbitrary: fuel' s d b)
  case (Suc fuel)
  obtain n where n: "fuel' = Suc n" "fuel \<le> n" using Suc.prems(2) by (cases fuel') auto
  let ?rec = "\<lambda>s d. erase_at_step fuel s key d cond allow" and ?rec' = "\<lambda>s d. erase_at_step n s key d cond allow"
  have m: "more_fuel ?rec ?rec'" unfolding more_fuel_def using Suc.IH n(2) by blast
  show ?case
  proof (cases "ntype_of b s")
    case (Inl e)
    then show ?thesis by (simp add: n Let_def)
  next
    case (Inr nt)
    show ?thesis
      using Suc.prems(1) Inr erase_prefix_more [OF m, of s key d b] erase_inner_more [OF m, of s nt key d b]
      unfolding n(1) by (cases nt) (simp_all add: Let_def)
  qed
qed simp

lemma insert_in_blob_more:
  assumes "\<not> overflows (fst (insert_in_blob fuel key v d q cond b))" and "fuel \<le> fuel'"
  shows "insert_in_blob fuel' key v d q cond b = insert_in_blob fuel key v d q cond b"
  using assms(1) unfolding insert_in_blob_def
  by (simp) (rule sbind_more, rule insert_at_step_more [OF _ assms(2)], assumption, simp)

lemma erase_in_blob_more:
  assumes "\<not> overflows (fst (erase_in_blob fuel key d cond b))" and "fuel \<le> fuel'"
  shows "erase_in_blob fuel' key d cond b = erase_in_blob fuel key d cond b"
  using assms(1) unfolding erase_in_blob_def
  by (simp) (rule sbind_more, rule erase_at_step_more [OF _ assms(2)], assumption, simp)

text \<open>The same for cloning, where the recursive calls are spread over loops.\<close>

definition extends :: "(buf, 'a) st \<Rightarrow> (buf, 'a) st \<Rightarrow> bool" where
  "extends m m' \<longleftrightarrow> (\<forall>b. \<not> overflows (fst (m b)) \<longrightarrow> m' b = m b)"

lemma extends_refl [intro]: "extends m m"
  by (simp add: extends_def)

lemma extends_bind [intro]:
  assumes "extends m m'" and "\<And>x. extends (k x) (k' x)"
  shows "extends (sbind m k) (sbind m' k')"
  unfolding extends_def
proof (intro allI impI)
  fix b assume ok: "\<not> overflows (fst (sbind m k b))"
  obtain r b1 where mb: "m b = (r, b1)" by force
  have "\<not> overflows r" using ok mb by (cases r) (auto simp: sbind_def)
  then have m': "m' b = m b" using assms(1) mb by (simp add: extends_def)
  show "sbind m' k' b = sbind m k b"
  proof (cases r)
    case (Inl e)
    then show ?thesis using m' mb by (simp add: sbind_def)
  next
    case (Inr x)
    then show ?thesis using m' mb ok assms(2) [of x] by (simp add: sbind_def extends_def)
  qed
qed

lemma clone_loops_more:
  assumes rec: "\<And>c. extends (rec c) (rec' c)"
  shows survivors_more: "extends (clone_survivors rec ks) (clone_survivors rec' ks)"
    and index48_more: "extends (clone_index48 rec n bs) (clone_index48 rec' n bs)"
    and children256_more: "extends (clone_children256 rec ms) (clone_children256 rec' ms)"
    and slots_more: "extends (clone_slots rec z cs) (clone_slots rec' z cs)"
proof -
  show "extends (clone_survivors rec ks) (clone_survivors rec' ks)"
    by (induction ks) (auto intro!: extends_bind extends_refl rec split: option.splits)
  show "extends (clone_index48 rec n bs) (clone_index48 rec' n bs)"
    by (induction bs) (auto simp: Let_def intro!: extends_bind extends_refl rec split: option.splits)
  show "extends (clone_children256 rec ms) (clone_children256 rec' ms)"
    by (induction ms) (auto intro!: extends_bind extends_refl rec split: option.splits)
  show "extends (clone_slots rec z cs) (clone_slots rec' z cs)"
    by (induction cs) (auto intro!: extends_bind extends_refl rec split: option.splits)
qed

lemma clone_arms_more:
  assumes rec: "\<And>c. extends (rec c) (rec' c)"
  shows "extends (clone_prefix rec src off) (clone_prefix rec' src off)"
    and "extends (clone_node4 rec src off filt) (clone_node4 rec' src off filt)"
    and "extends (clone_node16 rec src off filt) (clone_node16 rec' src off filt)"
    and "extends (clone_node48 rec src off filt) (clone_node48 rec' src off filt)"
    and "extends (clone_node256 rec src off filt) (clone_node256 rec' src off filt)"
  unfolding clone_prefix_def clone_node4_def clone_node16_def clone_node48_def clone_node256_def Let_def
  by (auto intro!: extends_bind extends_refl clone_loops_more rec split: option.splits)

lemma clone_subtree_more: "fuel \<le> fuel' \<Longrightarrow> extends (clone_subtree fuel src filt s) (clone_subtree fuel' src filt s)"
proof (induction fuel arbitrary: fuel' s)
  case 0
  show ?case by (simp add: extends_def sfail_def)
next
  case (Suc fuel)
  then obtain n where n: "fuel' = Suc n" "fuel \<le> n" by (cases fuel') auto
  have rec: "extends (clone_subtree fuel src filt c) (clone_subtree n src filt c)" for c using Suc.IH n(2) by blast
  show ?case
    unfolding n(1) clone_subtree.simps Let_def
    by (intro extends_bind extends_refl) (auto split: prod.splits node_type.splits intro!: clone_arms_more rec)
qed

lemma in_fresh_more:
  assumes "extends m m'" and "\<not> overflows (fst (in_fresh guid m))"
  shows "in_fresh guid m' = in_fresh guid m"
  using assms by (auto simp: in_fresh_def extends_def split: prod.splits sum.splits)

lemma compact_blob_more:
  assumes "\<not> overflows (fst (compact_blob fuel b))" and "fuel \<le> fuel'"
  shows "compact_blob fuel' b = compact_blob fuel b"
proof -
  let ?m = "\<lambda>fuel. sbind (clone_subtree fuel b True (root_slot b)) (\<lambda>cloned.
      sbind (case cloned of Some slot \<Rightarrow> sret slot | None \<Rightarrow> alloc_node EmptyRoot) (\<lambda>new_root.
      sbind (release_sentinel new_root) (\<lambda>_.
      smod (\<lambda>d. set_compact_times (sat_add 32 (compact_times b) 1)
        (set_tombstone_leaf_cnt 0 (set_root_slot new_root d))))))"
  have "extends (?m fuel) (?m fuel')" by (intro extends_bind clone_subtree_more extends_refl assms(2))
  moreover have "\<not> overflows (fst (in_fresh (header_guid b) (?m fuel)))"
    using assms(1) by (auto simp: compact_blob_def split: prod.splits sum.splits)
  ultimately have "in_fresh (header_guid b) (?m fuel') = in_fresh (header_guid b) (?m fuel)" by (rule in_fresh_more)
  then show ?thesis by (simp only: compact_blob_def)
qed

section \<open>The specification\<close>

type_synonym kv = "bytes \<Rightarrow> (bytes \<times> nat) option"

fun map_result :: "(bytes \<times> nat) option \<Rightarrow> lookup_result" where
  "map_result None = NotFoundR"
| "map_result (Some (v, q)) = Found v q"

text \<open>One step of the specification: what the map becomes.\<close>

definition spec_insert :: "insert_condition \<Rightarrow> bytes \<Rightarrow> bytes \<Rightarrow> nat \<Rightarrow> kv \<Rightarrow> kv" where
  "spec_insert cond k v q M = (if proceeds cond (map_result (M k)) then M(k \<mapsto> (v, q)) else M)"

definition spec_erase :: "erase_condition \<Rightarrow> bytes \<Rightarrow> kv \<Rightarrow> kv" where
  "spec_erase cond k M = (if erases cond (map_result (M k)) then M(k := None) else M)"

inductive blob_run :: "buf \<Rightarrow> kv \<Rightarrow> bool" where
  run_init: "length guid = 16 \<Longrightarrow> frame_init guid = (Inr (), b) \<Longrightarrow> blob_run b Map.empty"
| run_insert: "blob_run b M \<Longrightarrow> 0 \<notin> set u \<Longrightarrow> length u < 65535 \<Longrightarrow> length v < 65536 \<Longrightarrow> q < 2 ^ 64
    \<Longrightarrow> insert_in_blob fuel (sk_user u) v 0 q cond b = (Inr (Done out), b')
    \<Longrightarrow> blob_run b' (spec_insert cond (u @ [0]) v q M)"
| run_full: "blob_run b M \<Longrightarrow> 0 \<notin> set u \<Longrightarrow> length u < 65535 \<Longrightarrow> length v < 65536 \<Longrightarrow> q < 2 ^ 64
    \<Longrightarrow> insert_in_blob fuel (sk_user u) v 0 q cond b = (Inl (Alloc e), b') \<Longrightarrow> blob_run b' M"
| run_erase: "blob_run b M \<Longrightarrow> erase_in_blob fuel (sk_user u) 0 cond b = (Inr (EDone r), b')
    \<Longrightarrow> blob_run b' (spec_erase cond (u @ [0]) M)"
| run_compact: "blob_run b M \<Longrightarrow> compact_blob fuel b = (Inr (), b') \<Longrightarrow> blob_run b' M"

definition blob_abs :: "buf \<Rightarrow> kv \<Rightarrow> bool" where
  "blob_abs b M \<longleftrightarrow> (\<exists>t. blob b t [] \<and> user_tree t [] \<and> (\<forall>k. alook t k 0 = map_result (M k)))"

lemma map_result_no_crossing [simp]: "map_result x \<noteq> Crossing g d"
  by (cases x) auto

lemma user_key_sk [simp]: "0 \<notin> set u \<Longrightarrow> user_key (u @ [0])"
  by (auto simp: user_key_def)

lemma blob_abs_insert:
  assumes ab: "blob_abs b M" and u: "0 \<notin> set u" "length u < 65535" and v: "length v < 65536" and q: "q < 2 ^ 64"
    and ok: "\<not> overflows (fst (insert_in_blob fuel (sk_user u) v 0 q cond b))"
  shows "case insert_in_blob fuel (sk_user u) v 0 q cond b of
      (Inr (Done out), b') \<Rightarrow> blob_abs b' (spec_insert cond (u @ [0]) v q M)
        \<and> ins_mutated out = proceeds cond (map_result (M (u @ [0])))
    | (Inl (Alloc e), b') \<Rightarrow> blob_abs b' M
    | _ \<Rightarrow> False"
proof -
  obtain t where t: "blob b t []" "user_tree t []" "\<And>k. alook t k 0 = map_result (M k)"
    using ab by (auto simp: blob_abs_def)
  let ?k = "view (sk_user u)"
  let ?f = "max fuel (Suc (height t))"
  have run: "insert_in_blob ?f (sk_user u) v 0 q cond b = insert_in_blob fuel (sk_user u) v 0 q cond b"
    by (rule insert_in_blob_more [OF ok]) simp
  have ns: "\<not> key_stuck t ?k 0"
  proof
    assume "key_stuck t ?k 0"
    moreover obtain fl F where "wf_art t []" using t(1) by (auto simp: blob_def)
    ultimately show False using user_keys_not_stuck [of t ?k 0 "[]"] t(2) u by simp
  qed
  have len: "on_path [] ?k" "height t < ?f" "length ?k < 65536" using u by auto
  note spec = insert_in_blob_correct [OF t(1) len v q, of cond, unfolded list.size(3)]
  obtain r b' where r: "insert_in_blob ?f (sk_user u) v 0 q cond b = (r, b')" by force
  show ?thesis
  proof (cases r)
    case (Inl e)
    then show ?thesis
      using spec r run ns t(2,3) by (cases e) (auto simp: blob_abs_def)
  next
    case (Inr z)
    show ?thesis
    proof (cases z)
      case (InsCrossing g d)
      then show ?thesis using spec r Inr t(3) by simp
    next
      case (Done out)
      have mut: "ins_mutated out = proceeds cond (map_result (M (u @ [0])))"
        using spec r Inr Done t(3) by simp
      show ?thesis
      proof (cases "ins_mutated out")
        case False
        then have "b' = b" using spec r Inr Done by simp
        then show ?thesis using ab False mut r run Inr Done by (simp add: spec_insert_def)
      next
        case True
        then obtain t' where t': "blob b' t' []" "put_into t [] ?k v q t'" "user_tree t' []"
          using spec r Inr Done t(2) u by auto
        have "alook t' k 0 = map_result ((M(u @ [0] \<mapsto> (v, q))) k)" for k
          using t'(2) t(3) by (simp add: put_into_def)
        then have "blob_abs b' (M(u @ [0] \<mapsto> (v, q)))" using t' by (auto simp: blob_abs_def)
        then show ?thesis using True mut r run Inr Done by (simp add: spec_insert_def)
      qed
    qed
  qed
qed

lemma blob_abs_erase:
  assumes ab: "blob_abs b M" and ok: "\<not> overflows (fst (erase_in_blob fuel (sk_user u) 0 cond b))"
  shows "case erase_in_blob fuel (sk_user u) 0 cond b of
      (Inr (EDone r), b') \<Rightarrow> blob_abs b' (spec_erase cond (u @ [0]) M)
        \<and> era_mutated r = erases cond (map_result (M (u @ [0])))
    | _ \<Rightarrow> False"
proof -
  obtain t where t: "blob b t []" "user_tree t []" "\<And>k. alook t k 0 = map_result (M k)"
    using ab by (auto simp: blob_abs_def)
  let ?k = "view (sk_user u)" and ?f = "max fuel (Suc (height t))"
  have run: "erase_in_blob ?f (sk_user u) 0 cond b = erase_in_blob fuel (sk_user u) 0 cond b"
    by (rule erase_in_blob_more [OF ok]) simp
  have "height t < ?f" by simp
  note spec = erase_in_blob_correct [OF t(1) this, where key = "sk_user u" and cond = cond, unfolded list.size(3)]
  obtain r b' where r: "erase_in_blob ?f (sk_user u) 0 cond b = (r, b')" by force
  show ?thesis
  proof (cases r)
    case (Inl e)
    then show ?thesis using spec r by simp
  next
    case (Inr z)
    show ?thesis
    proof (cases z)
      case (EraCrossing g d)
      then show ?thesis using spec r Inr t(3) by simp
    next
      case (EDone x)
      have mut: "era_mutated x = erases cond (map_result (M (u @ [0])))"
        using spec r Inr EDone t(3) by simp
      show ?thesis
      proof (cases "era_mutated x")
        case False
        then have "b' = b" using spec r Inr EDone by simp
        then show ?thesis using ab False mut r run Inr EDone by (simp add: spec_erase_def)
      next
        case True
        then obtain t' where t': "blob b' t' []" "erased_from t [] ?k t'" "user_tree t' []"
          using spec r Inr EDone t(2) by auto
        have "alook t' k 0 = map_result ((M(u @ [0] := None)) k)" for k
          using t'(2) t(3) by (simp add: erased_from_def)
        then have "blob_abs b' (M(u @ [0] := None))" using t' by (auto simp: blob_abs_def)
        then show ?thesis using True mut r run Inr EDone by (simp add: spec_erase_def)
      qed
    qed
  qed
qed

lemma blob_abs_compact:
  assumes ab: "blob_abs b M" and run: "compact_blob fuel b = (Inr (), b')"
  shows "blob_abs b' M"
proof -
  obtain t where t: "blob b t []" "user_tree t []" "\<And>k. alook t k 0 = map_result (M k)"
    using ab by (auto simp: blob_abs_def)
  let ?f = "max fuel (Suc (height t))"
  have "compact_blob ?f b = (Inr (), b')" using compact_blob_more [of fuel b ?f] run by simp
  moreover have "wf_art t []" using t(1) by (auto simp: blob_def)
  moreover have "height t < ?f" by simp
  ultimately have "blob b' (compacted t) []" using compact_blob_spec [OF t(1)] by (metis Pair_inject old.sum.distinct(1))
  then show ?thesis
    using compacted_user [OF t(2)] compacted_look [OF \<open>wf_art t []\<close>] t(3) by (auto simp: blob_abs_def)
qed

lemma blob_run_abs: "blob_run b M \<Longrightarrow> blob_abs b M"
proof (induction rule: blob_run.induct)
  case (run_init guid b)
  obtain b' where "frame_init guid = (Inr (), b')" "blob b' AEmpty []"
    using run_init(1) by (rule frame_init_blob)
  then show ?case using run_init(2) by (auto simp: blob_abs_def user_tree_def)
next
  case (run_insert b M u v q fuel cond out b')
  then show ?case using blob_abs_insert [OF run_insert.IH run_insert.hyps(2-5), of fuel cond] by simp
next
  case (run_full b M u v q fuel cond e b')
  then show ?case using blob_abs_insert [OF run_full.IH run_full.hyps(2-5), of fuel cond] by simp
next
  case (run_erase b M fuel u cond r b')
  then show ?case using blob_abs_erase [OF run_erase.IH, of fuel u cond] by simp
next
  case (run_compact b M fuel b')
  then show ?case using blob_abs_compact by blast
qed

text \<open>Every lookup in a run agrees with the map.\<close>

lemma blob_run_lookup:
  assumes "blob_run b M"
  shows "\<exists>n. \<forall>fuel \<ge> n. \<forall>key. lookup_in_blob fuel b key 0 = Inr (map_result (M (view key)))"
proof -
  obtain t where t: "blob b t []" "\<And>k. alook t k 0 = map_result (M k)"
    using blob_run_abs [OF assms] by (auto simp: blob_abs_def)
  then have "lookup_in_blob fuel b key 0 = Inr (map_result (M (view key)))" if "Suc (height t) \<le> fuel" for fuel key
    using lookup_in_blob_refines [OF t(1)] that by simp
  then show ?thesis by blast
qed

text \<open>A run with one key, for the instances of the properties.\<close>

lemma one_key_run: "\<exists>b. blob_run b [[97, 0] \<mapsto> ([1, 2], 5)]"
proof -
  have g: "length (replicate 16 0 :: blob_guid) = 16" by simp
  obtain b where b: "frame_init (replicate 16 0) = (Inr (), b)" "blob b AEmpty []" "num_slots b = 1"
      "space_used b = DATA_AREA_START + 8" "\<forall>i<8. free_list_head b i = 0"
    by (rule frame_init_blob [OF g]) blast
  have ext: "leaf_extent_size (length (view (sk_user [97]))) (length [1, 2 :: u8]) \<le> 16"
    using leaf_extent_size_bounds(3) [of "Suc (Suc 0)" "Suc (Suc 0)"] by simp
  obtain out b' where "insert_in_blob (Suc 0) (sk_user [97]) [1, 2] 0 5 Always b = (Inr (Done out), b')"
    using insert_fresh [OF b(2,3,4), of "sk_user [97]" "[1, 2]" 5 Always 0] b(5) ext
    by (auto simp: layout_consts SPILLOVER_RESERVATION_def)
  from run_insert [OF run_init [OF g b(1)] _ _ _ _ this]
  have "blob_run b' (spec_insert Always [97, 0] [1, 2] 5 Map.empty)" by simp
  then show ?thesis by (auto simp: spec_insert_def)
qed

lemma one_key_blob:
  "\<exists>b t. blob b t [] \<and> user_tree t [] \<and> alook t [97, 0] 0 = Found [1, 2] 5 \<and> alook t [98, 0] 0 = NotFoundR"
proof -
  obtain b where "blob_run b [[97, 0] \<mapsto> ([1, 2], 5)]" using one_key_run by blast
  then show ?thesis using blob_run_abs by (fastforce simp: blob_abs_def)
qed

end
