(* ===== verification/Transition.thy ===== *)
theory Transition
  imports Prelude
begin

text \<open>
  Interleavings of atomic steps, shared by the models of the concurrency primitives: the states
  reachable from an initial state, and the contract of an inductive invariant.  A shared
  variable is read and written by single atomic steps, in any order the threads take them.
\<close>

inductive reach :: "('s \<Rightarrow> bool) \<Rightarrow> ('s \<Rightarrow> 's \<Rightarrow> bool) \<Rightarrow> 's \<Rightarrow> bool"
  for init :: "'s \<Rightarrow> bool" and step :: "'s \<Rightarrow> 's \<Rightarrow> bool" where
  reach_init: "init s \<Longrightarrow> reach init step s"
| reach_step: "reach init step s \<Longrightarrow> step s s' \<Longrightarrow> reach init step s'"

locale inductive_invariant =
  fixes init :: "'s \<Rightarrow> bool" and step :: "'s \<Rightarrow> 's \<Rightarrow> bool" and inv :: "'s \<Rightarrow> bool"
  assumes inv_init: "init s \<Longrightarrow> inv s"
    and inv_step: "inv s \<Longrightarrow> step s s' \<Longrightarrow> inv s'"
begin

lemma reachable_inv: "reach init step s \<Longrightarrow> inv s"
  by (induction rule: reach.induct) (auto intro: inv_init inv_step)

end

text \<open>
  Admission of shared and exclusive holders: the contract of the latch and of the gate.  No
  exclusive holder ever meets another holder.
\<close>

locale admission = inductive_invariant init step inv
  for init :: "'s \<Rightarrow> bool" and step :: "'s \<Rightarrow> 's \<Rightarrow> bool" and inv :: "'s \<Rightarrow> bool" +
  fixes shared :: "'s \<Rightarrow> nat set" and exclusive :: "'s \<Rightarrow> nat set"
  assumes inv_exclusion: "inv s \<Longrightarrow> t \<in> exclusive s \<Longrightarrow> shared s = {} \<and> exclusive s = {t}"
begin

lemma exclusion:
  assumes "reach init step s" and "t \<in> exclusive s"
  shows "shared s = {} \<and> exclusive s = {t}"
  using inv_exclusion reachable_inv assms by blast

lemma sharing: "reach init step s \<Longrightarrow> t \<in> shared s \<Longrightarrow> exclusive s = {}"
  using exclusion by blast

end

end
