(* ===== verification/Latch.thy ===== *)
theory Latch
  imports Transition
begin

text \<open>
  The hybrid latch of \<^verbatim>\<open>src/concurrency/hybrid_latch.rs\<close>.  Every load, store and
  compare-exchange is one atomic step; a thread's position between two of them is its program
  counter, and a spinning loop goes back to the start.  A weak compare-exchange may fail
  spuriously.  The memory is sequentially consistent.  The protected content and the values
  optimistic readers saw are kept beside the latch, to say what a validated read means.
\<close>

section \<open>The latch\<close>

definition WRITER :: u32 where "WRITER = 0xFFFFFFFF"

record hybrid_latch =
  lcounter :: u32
  lversion :: u64

definition latch_new :: hybrid_latch where
  "latch_new = \<lparr>lcounter = 0, lversion = 0\<rparr>"

datatype lpc =
    LIdle
  | LOptLoad u64
  | LOptimistic u64
  | LValidate u64
  | LValid u64 bool
  | LSharedLoad u32
  | LShared
  | LExclusive
  | LReleasing

text \<open>The operations, step by step: the first argument is the latch, the second the thread.\<close>

fun acquire_optimistic :: "hybrid_latch \<Rightarrow> lpc \<Rightarrow> (hybrid_latch \<times> lpc) option" where
  "acquire_optimistic l LIdle = Some (l, LOptLoad (lversion l))"
| "acquire_optimistic l (LOptLoad v) = Some (l, if lcounter l \<noteq> WRITER then LOptimistic v else LIdle)"
| "acquire_optimistic l _ = None"

fun latch_validate :: "hybrid_latch \<Rightarrow> lpc \<Rightarrow> (hybrid_latch \<times> lpc) option" where
  "latch_validate l (LOptimistic snapshot) = Some (l, if lcounter l = WRITER then LValid snapshot False else LValidate snapshot)"
| "latch_validate l (LValidate snapshot) = Some (l, LValid snapshot (lversion l = snapshot))"
| "latch_validate l _ = None"

fun acquire_shared :: "bool \<Rightarrow> hybrid_latch \<Rightarrow> lpc \<Rightarrow> (hybrid_latch \<times> lpc) option" where
  "acquire_shared spurious l LIdle =
     (let cur = lcounter l
      in if cur = WRITER \<or> cur \<ge> WRITER - 1 then Some (l, LIdle) else Some (l, LSharedLoad cur))"
| "acquire_shared spurious l (LSharedLoad cur) =
     (if lcounter l = cur \<and> \<not> spurious then Some (l\<lparr>lcounter := cur + 1\<rparr>, LShared) else Some (l, LIdle))"
| "acquire_shared spurious l _ = None"

fun release_shared :: "hybrid_latch \<Rightarrow> lpc \<Rightarrow> (hybrid_latch \<times> lpc) option" where
  "release_shared l LShared = Some (l\<lparr>lcounter := lcounter l - 1\<rparr>, LIdle)"
| "release_shared l _ = None"

fun acquire_exclusive :: "bool \<Rightarrow> hybrid_latch \<Rightarrow> lpc \<Rightarrow> (hybrid_latch \<times> lpc) option" where
  "acquire_exclusive spurious l LIdle =
     (if lcounter l = 0 \<and> \<not> spurious then Some (l\<lparr>lcounter := WRITER\<rparr>, LExclusive) else Some (l, LIdle))"
| "acquire_exclusive spurious l _ = None"

fun release_exclusive :: "hybrid_latch \<Rightarrow> lpc \<Rightarrow> (hybrid_latch \<times> lpc) option" where
  "release_exclusive l LExclusive = Some (l\<lparr>lversion := lversion l + 1\<rparr>, LReleasing)"
| "release_exclusive l LReleasing = Some (l\<lparr>lcounter := 0\<rparr>, LIdle)"
| "release_exclusive l _ = None"

text \<open>The guard: what it validates and releases depends on the state it holds.\<close>

datatype guard_state = Unlocked | GOptimistic | GShared | GExclusive

fun guard_of :: "lpc \<Rightarrow> guard_state" where
  "guard_of (LOptimistic _) = GOptimistic"
| "guard_of (LValidate _) = GOptimistic"
| "guard_of (LValid _ _) = GOptimistic"
| "guard_of LShared = GShared"
| "guard_of LExclusive = GExclusive"
| "guard_of LReleasing = GExclusive"
| "guard_of _ = Unlocked"

text \<open>A guard that holds a lock is valid without asking the latch.\<close>

fun guard_validate :: "guard_state \<Rightarrow> bool \<Rightarrow> bool" where
  "guard_validate GOptimistic answer = answer"
| "guard_validate GShared answer = True"
| "guard_validate GExclusive answer = True"
| "guard_validate Unlocked answer = False"

definition guard_release :: "hybrid_latch \<Rightarrow> lpc \<Rightarrow> (hybrid_latch \<times> lpc) option" where
  "guard_release l p =
     (case guard_of p of
        GOptimistic \<Rightarrow> Some (l, LIdle)
      | Unlocked \<Rightarrow> Some (l, p)
      | GShared \<Rightarrow> release_shared l p
      | GExclusive \<Rightarrow> release_exclusive l p)"

section \<open>Threads around a latch\<close>

record latch_sys =
  ls_latch :: hybrid_latch
  ls_pc :: "nat \<Rightarrow> lpc"
  ls_content :: nat
  ls_releases :: nat
  ls_base :: "nat \<Rightarrow> nat"
  ls_reads :: "nat \<Rightarrow> nat set"
  ls_seen :: "nat \<Rightarrow> nat"

definition latch_init :: "latch_sys \<Rightarrow> bool" where
  "latch_init s \<longleftrightarrow> ls_latch s = latch_new \<and> (\<forall>t. ls_pc s t = LIdle) \<and> ls_releases s = 0"

definition set_pc :: "nat \<Rightarrow> hybrid_latch \<times> lpc \<Rightarrow> latch_sys \<Rightarrow> latch_sys" where
  "set_pc t lp s = s\<lparr>ls_latch := fst lp, ls_pc := (ls_pc s)(t := snd lp)\<rparr>"

inductive latch_step :: "latch_sys \<Rightarrow> latch_sys \<Rightarrow> bool" where
  opt_load: "ls_pc s t = LIdle \<Longrightarrow> acquire_optimistic (ls_latch s) (ls_pc s t) = Some lp
    \<Longrightarrow> latch_step s (set_pc t lp (s\<lparr>ls_base := (ls_base s)(t := ls_releases s), ls_reads := (ls_reads s)(t := {})\<rparr>))"
| opt_check: "ls_pc s t = LOptLoad v \<Longrightarrow> acquire_optimistic (ls_latch s) (ls_pc s t) = Some lp
    \<Longrightarrow> latch_step s (set_pc t lp s)"
| opt_read: "ls_pc s t = LOptimistic v
    \<Longrightarrow> latch_step s (s\<lparr>ls_reads := (ls_reads s)(t := insert (ls_content s) (ls_reads s t))\<rparr>)"
| opt_validate: "ls_pc s t = LOptimistic v \<Longrightarrow> latch_validate (ls_latch s) (ls_pc s t) = Some lp
    \<Longrightarrow> latch_step s (set_pc t lp (s\<lparr>ls_seen := (ls_seen s)(t := ls_content s)\<rparr>))"
| opt_confirm: "ls_pc s t = LValidate v \<Longrightarrow> latch_validate (ls_latch s) (ls_pc s t) = Some lp
    \<Longrightarrow> latch_step s (set_pc t lp s)"
| opt_again: "ls_pc s t = LValid v ok \<Longrightarrow> latch_step s (set_pc t (ls_latch s, LOptimistic v) s)"
| take_shared: "acquire_shared spurious (ls_latch s) (ls_pc s t) = Some lp \<Longrightarrow> latch_step s (set_pc t lp s)"
| take_exclusive: "acquire_exclusive spurious (ls_latch s) (ls_pc s t) = Some lp \<Longrightarrow> latch_step s (set_pc t lp s)"
| write_content: "ls_pc s t = LExclusive \<Longrightarrow> latch_step s (s\<lparr>ls_content := d\<rparr>)"
| release: "ls_pc s t \<noteq> LExclusive \<Longrightarrow> guard_release (ls_latch s) (ls_pc s t) = Some lp \<Longrightarrow> latch_step s (set_pc t lp s)"
| release_bump: "ls_pc s t = LExclusive \<Longrightarrow> guard_release (ls_latch s) (ls_pc s t) = Some lp
    \<Longrightarrow> latch_step s (set_pc t lp (s\<lparr>ls_releases := ls_releases s + 1\<rparr>))"

inductive_cases latch_stepE: "latch_step s s'"

section \<open>Invariant\<close>

definition sharers :: "latch_sys \<Rightarrow> nat set" where
  "sharers s = {t. ls_pc s t = LShared}"

definition writers :: "latch_sys \<Rightarrow> nat set" where
  "writers s = {t. ls_pc s t = LExclusive \<or> ls_pc s t = LReleasing}"

text \<open>The counter word counts the sharers, or marks the one writer.\<close>

definition counter_inv :: "latch_sys \<Rightarrow> bool" where
  "counter_inv s \<longleftrightarrow> finite (sharers s) \<and>
     (if writers s = {} then lcounter (ls_latch s) \<noteq> WRITER \<and> unat (lcounter (ls_latch s)) = card (sharers s)
      else (\<exists>t. writers s = {t}) \<and> sharers s = {} \<and> lcounter (ls_latch s) = WRITER)
     \<and> (\<forall>t cur. ls_pc s t = LSharedLoad cur \<longrightarrow> cur < WRITER - 1)"

text \<open>What an optimistic reader knows as long as no writer has released.\<close>

definition coherent :: "latch_sys \<Rightarrow> nat \<Rightarrow> bool" where
  "coherent s t \<longleftrightarrow> ls_base s t \<le> ls_releases s
     \<and> (ls_releases s = ls_base s t \<longrightarrow>
          (\<forall>u. ls_pc s u \<noteq> LReleasing) \<and> (writers s = {} \<longrightarrow> ls_reads s t \<subseteq> {ls_content s}))"

fun reader_ok :: "latch_sys \<Rightarrow> nat \<Rightarrow> lpc \<Rightarrow> bool" where
  "reader_ok s t (LOptLoad v) \<longleftrightarrow> v = of_nat (ls_base s t) \<and> ls_base s t \<le> ls_releases s \<and> ls_reads s t = {}"
| "reader_ok s t (LOptimistic v) \<longleftrightarrow> v = of_nat (ls_base s t) \<and> coherent s t"
| "reader_ok s t (LValidate v) \<longleftrightarrow> v = of_nat (ls_base s t) \<and> coherent s t
     \<and> (ls_releases s = ls_base s t \<longrightarrow> ls_reads s t \<subseteq> {ls_seen s t})"
| "reader_ok s t (LValid v ok) \<longleftrightarrow> v = of_nat (ls_base s t) \<and> coherent s t
     \<and> (ok \<longrightarrow> ls_releases s < 2 ^ 64 \<longrightarrow> ls_reads s t \<subseteq> {ls_seen s t})"
| "reader_ok s t _ \<longleftrightarrow> True"

definition latch_inv :: "latch_sys \<Rightarrow> bool" where
  "latch_inv s \<longleftrightarrow> counter_inv s \<and> lversion (ls_latch s) = of_nat (ls_releases s)
     \<and> (\<forall>t. reader_ok s t (ls_pc s t))"

text \<open>Each step changes one thread; the others keep what they know.\<close>

lemma sharers_set_pc [simp]:
  "sharers (set_pc t lp s) = (if snd lp = LShared then insert t (sharers s) else sharers s - {t})"
  by (auto simp: sharers_def set_pc_def)

lemma writers_set_pc [simp]:
  "writers (set_pc t lp s) = (if snd lp = LExclusive \<or> snd lp = LReleasing then insert t (writers s) else writers s - {t})"
  by (auto simp: writers_def set_pc_def)

lemma sharers_upd [simp]:
  "sharers (s\<lparr>ls_base := x\<rparr>) = sharers s" "sharers (s\<lparr>ls_reads := y\<rparr>) = sharers s"
  "sharers (s\<lparr>ls_seen := z\<rparr>) = sharers s" "sharers (s\<lparr>ls_content := d\<rparr>) = sharers s"
  "sharers (s\<lparr>ls_releases := n\<rparr>) = sharers s"
  by (auto simp: sharers_def)

lemma writers_upd [simp]:
  "writers (s\<lparr>ls_base := x\<rparr>) = writers s" "writers (s\<lparr>ls_reads := y\<rparr>) = writers s"
  "writers (s\<lparr>ls_seen := z\<rparr>) = writers s" "writers (s\<lparr>ls_content := d\<rparr>) = writers s"
  "writers (s\<lparr>ls_releases := n\<rparr>) = writers s"
  by (auto simp: writers_def)

lemma set_pc_sel [simp]:
  "ls_latch (set_pc t lp s) = fst lp" "ls_content (set_pc t lp s) = ls_content s"
  "ls_releases (set_pc t lp s) = ls_releases s" "ls_base (set_pc t lp s) = ls_base s"
  "ls_reads (set_pc t lp s) = ls_reads s" "ls_seen (set_pc t lp s) = ls_seen s"
  "ls_pc (set_pc t lp s) = (ls_pc s)(t := snd lp)"
  by (auto simp: set_pc_def)

lemma in_sharers: "t \<in> sharers s \<longleftrightarrow> ls_pc s t = LShared"
  and in_writers: "t \<in> writers s \<longleftrightarrow> ls_pc s t = LExclusive \<or> ls_pc s t = LReleasing"
  by (auto simp: sharers_def writers_def)

lemma no_writer_counter: "counter_inv s \<Longrightarrow> lcounter (ls_latch s) \<noteq> WRITER \<Longrightarrow> writers s = {}"
  by (auto simp: counter_inv_def split: if_splits)

lemma one_writer:
  assumes "counter_inv s" and "ls_pc s t = LExclusive \<or> ls_pc s t = LReleasing"
  shows "writers s = {t} \<and> sharers s = {} \<and> lcounter (ls_latch s) = WRITER"
proof -
  have "t \<in> writers s"
    using assms(2) by (simp add: in_writers)
  with assms(1) show ?thesis
    by (auto simp: counter_inv_def split: if_splits)
qed

lemma below_writer: "(cur :: u32) < WRITER - 1 \<Longrightarrow> cur \<noteq> WRITER \<and> cur + 1 \<noteq> WRITER \<and> unat (cur + 1) = Suc (unat cur)"
  unfolding WRITER_def by (unat_arith, simp)

lemma dec_not_writer: "(cur :: u32) \<noteq> 0 \<Longrightarrow> cur - 1 \<noteq> WRITER"
  using unat_minus_one [of cur] unsigned_less [of cur, where ?'a = nat] by (auto simp: WRITER_def)

lemma not_writer_below: "\<not> (cur = WRITER \<or> cur \<ge> WRITER - 1) \<Longrightarrow> cur < WRITER - 1"
  by (simp add: not_le)


lemma counter_inv_step: "counter_inv s \<Longrightarrow> latch_step s s' \<Longrightarrow> counter_inv s'"
proof (erule latch_step.cases, goal_cases)
  case (7 spurious s t lp)
  show ?case
  proof (cases "ls_pc s t")
    case (LSharedLoad cur)
    with 7 have "cur < WRITER - 1"
      by (auto simp: counter_inv_def)
    from below_writer [OF this] 7 LSharedLoad show ?thesis
      by (auto simp: counter_inv_def in_sharers in_writers card_insert_if split: if_splits)
  qed (use 7 in \<open>auto simp: counter_inv_def in_sharers in_writers Let_def not_writer_below split: if_splits\<close>)
next
  case (8 spurious s t lp)
  then show ?case
    by (cases "ls_pc s t") (auto simp: counter_inv_def in_sharers in_writers WRITER_def split: if_splits)
next
  case (10 s t lp)
  have c: "lcounter (ls_latch s) \<noteq> 0 \<and> writers s = {} \<and> card (sharers s) \<noteq> 0" if "ls_pc s t = LShared"
  proof -
    have "t \<in> sharers s"
      using that by (simp add: in_sharers)
    with 10 show ?thesis
      by (auto simp: counter_inv_def split: if_splits)
  qed
  show ?case
  proof (cases "ls_pc s t")
    case LShared
    with 10 c show ?thesis
      by (auto simp: counter_inv_def in_sharers guard_release_def dec_not_writer unat_minus_one)
  next
    case LReleasing
    moreover from this 10 have "writers s = {t} \<and> sharers s = {}"
      using one_writer by blast
    ultimately show ?thesis
      using 10 by (auto simp: counter_inv_def guard_release_def WRITER_def)
  qed (use 10 in \<open>auto simp: counter_inv_def in_sharers in_writers guard_release_def split: if_splits\<close>)
next
  case (11 s t lp)
  then have "writers s = {t} \<and> sharers s = {} \<and> lcounter (ls_latch s) = WRITER"
    using one_writer by blast
  with 11 show ?case
    by (clarsimp simp: counter_inv_def guard_release_def)
qed (auto simp: counter_inv_def in_sharers in_writers split: if_splits)

lemma version_step:
  assumes "latch_step s s'" and "counter_inv s" and "lversion (ls_latch s) = of_nat (ls_releases s)"
  shows "lversion (ls_latch s') = of_nat (ls_releases s')"
  using assms
proof (cases rule: latch_step.cases)
  case (take_shared spurious t lp)
  then show ?thesis
    using assms by (cases "ls_pc s t") (auto simp: Let_def split: if_splits)
next
  case (take_exclusive spurious t lp)
  then show ?thesis
    using assms by (cases "ls_pc s t") (auto split: if_splits)
next
  case (release t lp)
  then show ?thesis
    using assms by (cases "ls_pc s t") (auto simp: guard_release_def)
qed (auto simp: guard_release_def)

lemma coherent_other:
  assumes "coherent s t" and "latch_step s s'"
    and "ls_base s' t = ls_base s t" and "ls_reads s' t = ls_reads s t"
  shows "coherent s' t"
proof -
  have le: "ls_releases s \<le> ls_releases s'"
    using assms(2) by cases auto
  have same: "(\<forall>u. ls_pc s' u \<noteq> LReleasing) \<and> (writers s' = {} \<longrightarrow> writers s = {} \<and> ls_content s' = ls_content s)"
    if "ls_releases s' = ls_releases s" and "\<forall>u. ls_pc s u \<noteq> LReleasing"
    using assms(2) that
  proof (cases rule: latch_step.cases)
    case (take_shared spurious u lp)
    with that show ?thesis
      by (cases "ls_pc s u") (auto simp: in_writers Let_def split: if_splits)
  next
    case (take_exclusive spurious u lp)
    with that show ?thesis
      by (cases "ls_pc s u") (auto simp: in_writers split: if_splits)
  next
    case (release u lp)
    with that show ?thesis
      by (cases "ls_pc s u") (auto simp: in_writers guard_release_def split: if_splits)
  qed (auto simp: in_writers split: if_splits)
  show ?thesis
    using assms(1,3,4) le same by (auto simp: coherent_def)
qed

lemma reader_other:
  assumes "reader_ok s t (ls_pc s t)" and "latch_step s s'"
    and "ls_pc s' t = ls_pc s t" and "ls_base s' t = ls_base s t"
    and "ls_reads s' t = ls_reads s t" and "ls_seen s' t = ls_seen s t"
  shows "reader_ok s' t (ls_pc s' t)"
proof -
  have le: "ls_releases s \<le> ls_releases s'"
    using assms(2) by cases auto
  have coh: "coherent s t \<Longrightarrow> coherent s' t"
    using coherent_other assms by blast
  show ?thesis
    unfolding assms(3)
    using assms(1) le coh assms(4-6)
    by (cases "ls_pc s t") (auto simp: coherent_def)
qed

lemma opt_check_coherent:
  "counter_inv s \<Longrightarrow> lcounter (ls_latch s) \<noteq> WRITER \<Longrightarrow> ls_base s t \<le> ls_releases s \<Longrightarrow> ls_reads s t = {} \<Longrightarrow> coherent s t"
  using no_writer_counter [of s] unfolding coherent_def writers_def by simp

lemma confirmed_base:
  assumes "(of_nat (ls_releases s) :: u64) = of_nat (ls_base s t)" and "ls_base s t \<le> ls_releases s"
    and "ls_releases s < 2 ^ 64"
  shows "ls_releases s = ls_base s t"
proof -
  have "unat (of_nat (ls_releases s) :: u64) = unat (of_nat (ls_base s t) :: u64)"
    by (simp only: assms(1))
  with assms(2,3) show ?thesis
    by (simp add: unat_of_nat)
qed

lemma reader_moved:
  assumes step: "latch_step s s'" and "ls_pc s t = p"
    and "reader_ok s t p" and "counter_inv s" and "lversion (ls_latch s) = of_nat (ls_releases s)"
    and same: "ls_base s' t = ls_base s t" "ls_reads s' t = ls_reads s t" "ls_releases s' = ls_releases s"
    and move: "ls_seen s' t = ls_seen s t \<and> acquire_optimistic (ls_latch s) p = Some (l, ls_pc s' t) \<and> p \<noteq> LIdle
      \<or> ls_seen s' t = ls_content s \<and> latch_validate (ls_latch s) p = Some (l, ls_pc s' t) \<and> (\<exists>v. p = LOptimistic v)
      \<or> ls_seen s' t = ls_seen s t \<and> latch_validate (ls_latch s) p = Some (l, ls_pc s' t) \<and> (\<exists>v. p = LValidate v)
      \<or> (\<exists>v ok. p = LValid v ok \<and> ls_pc s' t = LOptimistic v)"
  shows "reader_ok s' t (ls_pc s' t)"
proof -
  have coh: "coherent s' t" if "coherent s t"
    using coherent_other [OF that step] same by blast
  show ?thesis
  proof (cases p)
    case (LOptLoad v)
    then have m: "ls_pc s' t = (if lcounter (ls_latch s) \<noteq> WRITER then LOptimistic v else LIdle)"
      using move by auto
    show ?thesis
      using m assms LOptLoad coh opt_check_coherent [of s t] by auto
  next
    case (LOptimistic v)
    then have m: "ls_pc s' t = (if lcounter (ls_latch s) = WRITER then LValid v False else LValidate v)"
      and seen: "ls_seen s' t = ls_content s"
      using move by auto
    show ?thesis
      using m assms(3,4) same LOptimistic coh seen no_writer_counter [of s] by (auto simp: coherent_def)
  next
    case (LValidate v)
    then have m: "ls_pc s' t = LValid v (lversion (ls_latch s) = v)" and seen: "ls_seen s' t = ls_seen s t"
      using move by auto
    show ?thesis
      using m assms(3,5) same LValidate coh seen confirmed_base [of s t] by (auto simp: coherent_def)
  next
    case (LValid v ok)
    then have m: "ls_pc s' t = LOptimistic v"
      using move by auto
    show ?thesis
      using m assms(3) same LValid coh by auto
  qed (use move in auto)
qed

lemma reader_step:
  assumes step: "latch_step s s'" and ok: "reader_ok s t (ls_pc s t)" and cnt: "counter_inv s"
    and ver: "lversion (ls_latch s) = of_nat (ls_releases s)"
  shows "reader_ok s' t (ls_pc s' t)"
proof -
  note mine = reader_moved [OF step refl ok cnt ver]
  show ?thesis
  proof (cases "ls_pc s' t = ls_pc s t \<and> ls_base s' t = ls_base s t \<and> ls_reads s' t = ls_reads s t
      \<and> ls_seen s' t = ls_seen s t")
    case True
    then show ?thesis
      using reader_other [OF ok step] by blast
  next
    case False
    from step show ?thesis
    proof cases
      case (opt_load u lp)
      with ver False show ?thesis
        by (cases "u = t") auto
    next
      case (opt_check u v lp)
      with False have "u = t"
        by (cases "u = t") auto
      with opt_check show ?thesis
        by (intro mine [where l = "fst lp"]) simp_all
    next
      case (opt_read u v)
      with False show ?thesis
        using ok by (cases "u = t") (auto simp: coherent_def)
    next
      case (opt_validate u v lp)
      with False have "u = t"
        by (cases "u = t") auto
      with opt_validate show ?thesis
        by (intro mine [where l = "fst lp"]) simp_all
    next
      case (opt_confirm u v lp)
      with False have "u = t"
        by (cases "u = t") auto
      with opt_confirm show ?thesis
        by (intro mine [where l = "fst lp"]) simp_all
    next
      case (opt_again u v b)
      with False have "u = t"
        by (cases "u = t") auto
      with opt_again show ?thesis
        by (intro mine [where l = "ls_latch s"]) simp_all
    next
      case (take_shared spurious u lp)
      with False show ?thesis
        by (cases "ls_pc s u"; cases "u = t") (auto simp: Let_def split: if_splits)
    next
      case (take_exclusive spurious u lp)
      with False show ?thesis
        by (cases "ls_pc s u"; cases "u = t") (auto split: if_splits)
    next
      case (release u lp)
      with False show ?thesis
        by (cases "ls_pc s u"; cases "u = t") (auto simp: guard_release_def)
    next
      case (release_bump u lp)
      with False show ?thesis
        by (cases "u = t") (auto simp: guard_release_def)
    qed (use False in auto)
  qed
qed

lemma latch_inv_step: "latch_inv s \<Longrightarrow> latch_step s s' \<Longrightarrow> latch_inv s'"
  unfolding latch_inv_def using counter_inv_step version_step reader_step by blast

lemma latch_inv_init: "latch_init s \<Longrightarrow> latch_inv s"
  by (auto simp: latch_init_def latch_inv_def counter_inv_def latch_new_def sharers_def writers_def WRITER_def)

interpretation latch: admission latch_init latch_step latch_inv sharers writers
proof unfold_locales
  fix s t
  assume "latch_inv s" and "t \<in> writers s"
  then show "sharers s = {} \<and> writers s = {t}"
    using one_writer [of s t] by (simp add: latch_inv_def in_writers)
qed (use latch_inv_init latch_inv_step in blast)+

section \<open>Sample runs\<close>

definition idle_sys :: latch_sys where
  "idle_sys = \<lparr>ls_latch = latch_new, ls_pc = (\<lambda>_. LIdle), ls_content = 7, ls_releases = 0,
     ls_base = (\<lambda>_. 0), ls_reads = (\<lambda>_. {}), ls_seen = (\<lambda>_. 0)\<rparr>"

lemma idle_reached: "reach latch_init latch_step idle_sys"
  by (rule reach_init) (simp add: idle_sys_def latch_init_def)

lemma some_writer: "\<exists>s. reach latch_init latch_step s \<and> ls_pc s 0 = LExclusive"
proof -
  have "latch_step idle_sys (set_pc 0 (latch_new\<lparr>lcounter := WRITER\<rparr>, LExclusive) idle_sys)"
    by (rule take_exclusive [where spurious = False]) (simp add: idle_sys_def latch_new_def)
  from reach_step [OF idle_reached this] show ?thesis
    by (intro exI conjI) (assumption, simp)
qed

lemma some_reader:
  "\<exists>s. reach latch_init latch_step s \<and> ls_pc s 0 = LValid 0 True \<and> ls_releases s < 2 ^ 64 \<and> ls_reads s 0 = {7}"
proof -
  define s1 where "s1 = set_pc 0 (latch_new, LOptLoad 0) (idle_sys\<lparr>ls_base := (\<lambda>_. 0)(0 := 0), ls_reads := (\<lambda>_. {})(0 := {})\<rparr>)"
  define s2 where "s2 = set_pc 0 (latch_new, LOptimistic 0) s1"
  define s3 where "s3 = s2\<lparr>ls_reads := (ls_reads s2)(0 := insert (ls_content s2) (ls_reads s2 0))\<rparr>"
  define s4 where "s4 = set_pc 0 (latch_new, LValidate 0) (s3\<lparr>ls_seen := (ls_seen s3)(0 := ls_content s3)\<rparr>)"
  define s5 where "s5 = set_pc 0 (latch_new, LValid 0 True) s4"
  note idle = idle_sys_def latch_new_def
  have "latch_step idle_sys s1"
    unfolding s1_def using opt_load [of idle_sys 0 "(latch_new, LOptLoad 0)"] by (simp add: idle)
  moreover have "latch_step s1 s2"
    unfolding s2_def by (rule opt_check [where v = 0]) (simp_all add: s1_def idle WRITER_def)
  moreover have "latch_step s2 s3"
    unfolding s3_def by (rule opt_read [where v = 0]) (simp add: s2_def)
  moreover have "latch_step s3 s4"
    unfolding s4_def by (rule opt_validate [where v = 0]) (simp_all add: s3_def s2_def idle WRITER_def)
  moreover have "latch_step s4 s5"
    unfolding s5_def by (rule opt_confirm [where v = 0]) (simp_all add: s4_def idle)
  ultimately have "reach latch_init latch_step s5"
    using idle_reached reach_step by metis
  then show ?thesis
    by (intro exI [of _ s5]) (simp add: s5_def s4_def s3_def s2_def s1_def idle_sys_def)
qed

section \<open>Properties\<close>

text \<open>C18. Exclusion: however the threads' atomic steps interleave, and whichever weak
  compare-exchanges fail, a thread that holds the latch exclusively is alone: there is no
  shared holder and no second exclusive one, until it has cleared the counter.
\<close>

theorem latch_exclusion:
  assumes "reach latch_init latch_step s" and "ls_pc s t = LExclusive \<or> ls_pc s t = LReleasing"
  shows "sharers s = {} \<and> writers s = {t} \<and> lcounter (ls_latch s) = WRITER"
  using latch.exclusion [OF assms(1)] one_writer [of s t] latch.reachable_inv [OF assms(1)] assms(2)
  by (auto simp: latch_inv_def)

theorem latch_exclusion_witness:
  "\<exists>s. reach latch_init latch_step s \<and> ls_pc s 0 = LExclusive \<and> sharers s = {} \<and> writers s = {0}
     \<and> lcounter (ls_latch s) = WRITER"
  using some_writer latch_exclusion by blast

text \<open>C17. A validated optimistic read is consistent: when validation answers true, everything the
  reader saw since its snapshot is the one content the protected frame had when the validation
  looked at the counter, although writers ran in between at will.  The version is a 64-bit
  word, so the statement is for runs with fewer than \<open>2\<^sup>64\<close> exclusive releases.
\<close>

theorem optimistic_read_consistent:
  assumes "reach latch_init latch_step s" and "ls_pc s t = LValid v True" and "ls_releases s < 2 ^ 64"
  shows "ls_reads s t \<subseteq> {ls_seen s t}"
proof -
  have "reader_ok s t (ls_pc s t)"
    using latch.reachable_inv [OF assms(1)] by (simp add: latch_inv_def)
  with assms(2,3) show ?thesis
    by simp
qed

theorem optimistic_read_consistent_witness:
  "\<exists>s. reach latch_init latch_step s \<and> ls_pc s 0 = LValid 0 True \<and> ls_releases s < 2 ^ 64
     \<and> ls_reads s 0 = {7} \<and> ls_reads s 0 \<subseteq> {ls_seen s 0}"
  using some_reader optimistic_read_consistent by blast

end
