(* ===== verification/Gate.thy ===== *)
theory Gate
  imports Transition
begin

text \<open>
  The shared/exclusive admission gate of \<^verbatim>\<open>src/concurrency/gate.rs\<close> and the commit gate built
  on it (\<^verbatim>\<open>src/concurrency/commit_gate.rs\<close>): one word that counts the shared entrants and whose
  top bit marks a pending or admitted exclusive entrant.  Loads, stores and weak
  compare-exchanges are single steps of the threads.
\<close>

unbundle bit_operations_syntax

section \<open>The gate\<close>

definition WRITE_BIT :: u64 where "WRITE_BIT = push_bit 63 1"

definition COUNT_MASK :: u64 where "COUNT_MASK = WRITE_BIT - 1"

datatype gpc =
    GIdle
  | GSharedLoad u64
  | GShared
  | GExclusiveLoad u64
  | GDrain
  | GExclusive

record gate_sys =
  gs_state :: u64
  gs_pc :: "nat \<Rightarrow> gpc"

definition gate_new :: u64 where "gate_new = 0"

fun enter_shared :: "bool \<Rightarrow> u64 \<Rightarrow> gpc \<Rightarrow> (u64 \<times> gpc) option" where
  "enter_shared spurious st GIdle =
     (let cur = st
      in if cur AND WRITE_BIT = 0 \<and> cur AND COUNT_MASK \<noteq> COUNT_MASK then Some (st, GSharedLoad cur)
         else Some (st, GIdle))"
| "enter_shared spurious st (GSharedLoad cur) =
     (if st = cur \<and> \<not> spurious then Some (cur + 1, GShared) else Some (st, GIdle))"
| "enter_shared spurious st _ = None"

fun enter_exclusive :: "bool \<Rightarrow> u64 \<Rightarrow> gpc \<Rightarrow> (u64 \<times> gpc) option" where
  "enter_exclusive spurious st GIdle =
     (let cur = st in if cur AND WRITE_BIT \<noteq> 0 then Some (st, GIdle) else Some (st, GExclusiveLoad cur))"
| "enter_exclusive spurious st (GExclusiveLoad cur) =
     (if st = cur \<and> \<not> spurious then Some (cur OR WRITE_BIT, GDrain) else Some (st, GIdle))"
| "enter_exclusive spurious st GDrain =
     (if st AND COUNT_MASK \<noteq> 0 then Some (st, GDrain) else Some (st, GExclusive))"
| "enter_exclusive spurious st _ = None"

fun leave_shared :: "u64 \<Rightarrow> gpc \<Rightarrow> (u64 \<times> gpc) option" where
  "leave_shared st GShared = Some (st - 1, GIdle)"
| "leave_shared st _ = None"

fun leave_exclusive :: "u64 \<Rightarrow> gpc \<Rightarrow> (u64 \<times> gpc) option" where
  "leave_exclusive st GExclusive = Some (0, GIdle)"
| "leave_exclusive st _ = None"

text \<open>The commit gate names the two sides: writers share, a checkpoint excludes.\<close>

definition enter_writer :: "bool \<Rightarrow> u64 \<Rightarrow> gpc \<Rightarrow> (u64 \<times> gpc) option" where
  "enter_writer = enter_shared"

definition enter_checkpoint :: "bool \<Rightarrow> u64 \<Rightarrow> gpc \<Rightarrow> (u64 \<times> gpc) option" where
  "enter_checkpoint = enter_exclusive"

section \<open>Threads around a gate\<close>

definition gate_init :: "gate_sys \<Rightarrow> bool" where
  "gate_init s \<longleftrightarrow> gs_state s = gate_new \<and> (\<forall>t. gs_pc s t = GIdle)"

definition gate_move :: "nat \<Rightarrow> u64 \<times> gpc \<Rightarrow> gate_sys \<Rightarrow> gate_sys" where
  "gate_move t sp s = s\<lparr>gs_state := fst sp, gs_pc := (gs_pc s)(t := snd sp)\<rparr>"

inductive gate_step :: "gate_sys \<Rightarrow> gate_sys \<Rightarrow> bool" where
  g_writer: "enter_writer spurious (gs_state s) (gs_pc s t) = Some sp \<Longrightarrow> gate_step s (gate_move t sp s)"
| g_checkpoint: "enter_checkpoint spurious (gs_state s) (gs_pc s t) = Some sp \<Longrightarrow> gate_step s (gate_move t sp s)"
| g_leave_shared: "leave_shared (gs_state s) (gs_pc s t) = Some sp \<Longrightarrow> gate_step s (gate_move t sp s)"
| g_leave_exclusive: "leave_exclusive (gs_state s) (gs_pc s t) = Some sp \<Longrightarrow> gate_step s (gate_move t sp s)"

definition insiders :: "gate_sys \<Rightarrow> nat set" where
  "insiders s = {t. gs_pc s t = GShared}"

definition checkpoints :: "gate_sys \<Rightarrow> nat set" where
  "checkpoints s = {t. gs_pc s t = GExclusive}"

definition pending :: "gate_sys \<Rightarrow> nat set" where
  "pending s = {t. gs_pc s t = GDrain \<or> gs_pc s t = GExclusive}"

section \<open>Invariant\<close>

text \<open>
  The word is the number of shared entrants, plus the write bit while a thread drains or is
  inside; a thread inside has seen the count at zero.
\<close>

definition gate_inv :: "gate_sys \<Rightarrow> bool" where
  "gate_inv s \<longleftrightarrow> finite (insiders s) \<and> card (insiders s) < 2 ^ 63
     \<and> unat (gs_state s) = (if pending s = {} then 0 else 2 ^ 63) + card (insiders s)
     \<and> (\<forall>t\<in>pending s. pending s = {t})
     \<and> (checkpoints s \<noteq> {} \<longrightarrow> insiders s = {})
     \<and> (\<forall>t cur. gs_pc s t = GSharedLoad cur \<longrightarrow> unat cur < 2 ^ 63 - 1)
     \<and> (\<forall>t cur. gs_pc s t = GExclusiveLoad cur \<longrightarrow> unat cur < 2 ^ 63)"

lemma write_bit_clear: "(w :: u64) AND WRITE_BIT = 0 \<longleftrightarrow> unat w < 2 ^ 63"
proof -
  have "unat w < 2 ^ 64"
    using unsigned_less [of w, where ?'a = nat] by simp
  moreover have "w AND WRITE_BIT = 0 \<longleftrightarrow> \<not> bit w 63"
    unfolding WRITE_BIT_def push_bit_eq_mult mult_1 by (rule and_exp_eq_0_iff_not_bit)
  moreover have "bit w 63 \<longleftrightarrow> bit (unat w) 63"
    by (simp add: bit_unsigned_iff)
  moreover have "bit n 63 \<longleftrightarrow> 2 ^ 63 \<le> n" if "n < 2 ^ 64" for n :: nat
  proof -
    have "n div 2 ^ 63 < 2"
      using that by (simp add: less_mult_imp_div_less)
    then have "odd (n div 2 ^ 63) \<longleftrightarrow> 0 < n div 2 ^ 63"
      by (cases "n div 2 ^ 63") auto
    also have "\<dots> \<longleftrightarrow> 2 ^ 63 \<le> n"
      by (simp add: div_greater_zero_iff)
    finally show ?thesis
      by (simp only: bit_iff_odd)
  qed
  ultimately show ?thesis
    by (simp add: not_le [symmetric])
qed

lemma count_bits: "unat ((w :: u64) AND COUNT_MASK) = unat w mod 2 ^ 63"
proof -
  have "COUNT_MASK = mask 63"
    by (simp add: COUNT_MASK_def WRITE_BIT_def mask_eq_exp_minus_1)
  then have "w AND COUNT_MASK = take_bit 63 w"
    by (simp only: take_bit_eq_mask)
  then show ?thesis
    by (simp only: unsigned_take_bit_eq) (simp only: take_bit_eq_mod)
qed

lemma set_write_bit: "unat (w :: u64) < 2 ^ 63 \<Longrightarrow> unat (w OR WRITE_BIT) = 2 ^ 63 + unat w"
proof -
  assume w: "unat w < 2 ^ 63"
  then have "w OR WRITE_BIT = w + WRITE_BIT"
    using write_bit_clear disjunctive_add_eq_or by metis
  moreover have "unat WRITE_BIT = 2 ^ 63"
    by (simp add: WRITE_BIT_def)
  ultimately show ?thesis
    using w by (simp add: unat_word_ariths)
qed

lemma count_full: "(w :: u64) AND COUNT_MASK = COUNT_MASK \<longleftrightarrow> unat w mod 2 ^ 63 = 2 ^ 63 - 1"
proof -
  have "unat COUNT_MASK = 2 ^ 63 - 1"
    by (simp add: COUNT_MASK_def WRITE_BIT_def)
  then show ?thesis
    by (simp only: word_unat_eq_iff count_bits)
qed

lemma count_zero: "(w :: u64) AND COUNT_MASK = 0 \<longleftrightarrow> unat w mod 2 ^ 63 = 0"
  by (simp only: word_unat_eq_iff count_bits unsigned_0)

text \<open>Facts about a move, as for the latch.\<close>

lemma gate_move_sel [simp]:
  "gs_state (gate_move t sp s) = fst sp" "gs_pc (gate_move t sp s) = (gs_pc s)(t := snd sp)"
  by (simp_all add: gate_move_def)

lemma gate_move_sets [simp]:
  "insiders (gate_move t sp s) = (if snd sp = GShared then insert t (insiders s) else insiders s - {t})"
  "checkpoints (gate_move t sp s) = (if snd sp = GExclusive then insert t (checkpoints s) else checkpoints s - {t})"
  "pending (gate_move t sp s) = (if snd sp = GDrain \<or> snd sp = GExclusive then insert t (pending s) else pending s - {t})"
  by (auto simp: insiders_def checkpoints_def pending_def)

lemma in_gate_sets:
  "t \<in> insiders s \<longleftrightarrow> gs_pc s t = GShared" "t \<in> checkpoints s \<longleftrightarrow> gs_pc s t = GExclusive"
  "t \<in> pending s \<longleftrightarrow> gs_pc s t = GDrain \<or> gs_pc s t = GExclusive"
  by (auto simp: insiders_def checkpoints_def pending_def)

lemma gate_inv_init: "gate_init s \<Longrightarrow> gate_inv s"
  by (auto simp: gate_init_def gate_inv_def gate_new_def insiders_def checkpoints_def pending_def)

lemma gate_inv_shared:
  assumes "gate_inv s" and "enter_shared spurious (gs_state s) (gs_pc s t) = Some sp"
  shows "gate_inv (gate_move t sp s)"
proof (cases "gs_pc s t")
  case GIdle
  with assms show ?thesis
    by (auto simp: gate_inv_def in_gate_sets write_bit_clear count_full Let_def split: if_splits)
next
  case (GSharedLoad cur)
  then have cur: "unat cur < 2 ^ 63 - 1"
    using assms(1) by (simp add: gate_inv_def)
  then have inc: "unat (cur + 1) = Suc (unat cur)"
    by (simp add: unat_word_ariths)
  show ?thesis
  proof (cases "gs_state s = cur \<and> \<not> spurious")
    case True
    with cur assms(1) have "pending s = {}" and "card (insiders s) = unat cur"
      by (simp_all add: gate_inv_def split: if_splits)
    moreover have "t \<notin> insiders s"
      using GSharedLoad by (simp add: in_gate_sets)
    moreover have "sp = (cur + 1, GShared)"
      using assms(2) True GSharedLoad by simp
    moreover have "checkpoints s = {}"
      using \<open>pending s = {}\<close> by (auto simp: checkpoints_def pending_def)
    ultimately show ?thesis
      using assms(1) cur inc by (simp add: gate_inv_def)
  next
    case False
    with assms GSharedLoad show ?thesis
      by (auto simp: gate_inv_def in_gate_sets)
  qed
qed (use assms in auto)

lemma gate_inv_exclusive:
  assumes "gate_inv s" and "enter_exclusive spurious (gs_state s) (gs_pc s t) = Some sp"
  shows "gate_inv (gate_move t sp s)"
proof (cases "gs_pc s t")
  case GIdle
  with assms show ?thesis
    by (auto simp: gate_inv_def in_gate_sets write_bit_clear Let_def split: if_splits)
next
  case (GExclusiveLoad cur)
  then have cur: "unat cur < 2 ^ 63"
    using assms(1) by (simp add: gate_inv_def)
  show ?thesis
  proof (cases "gs_state s = cur \<and> \<not> spurious")
    case True
    with cur assms(1) have "pending s = {}" and "card (insiders s) = unat cur"
      by (simp_all add: gate_inv_def split: if_splits)
    moreover have "t \<notin> insiders s"
      using GExclusiveLoad by (simp add: in_gate_sets)
    moreover have "sp = (cur OR WRITE_BIT, GDrain)"
      using assms(2) True GExclusiveLoad by simp
    moreover have "checkpoints s = {}"
      using \<open>pending s = {}\<close> by (auto simp: checkpoints_def pending_def)
    ultimately show ?thesis
      using assms(1) cur set_write_bit [OF cur] by (simp add: gate_inv_def)
  next
    case False
    with assms GExclusiveLoad show ?thesis
      by (auto simp: gate_inv_def in_gate_sets)
  qed
next
  case GDrain
  then have "pending s = {t}" and "t \<notin> insiders s"
    using assms(1) by (auto simp: gate_inv_def in_gate_sets)
  with assms GDrain show ?thesis
    by (auto simp: gate_inv_def in_gate_sets count_zero split: if_splits)
qed (use assms in auto)

lemma gate_inv_leave_shared:
  assumes "gate_inv s" and "leave_shared (gs_state s) (gs_pc s t) = Some sp"
  shows "gate_inv (gate_move t sp s)"
proof (cases "gs_pc s t")
  case GShared
  then have t: "t \<in> insiders s" "t \<notin> pending s"
    by (simp_all add: in_gate_sets)
  moreover have n: "card (insiders s) \<noteq> 0"
    using t assms(1) by (auto simp: gate_inv_def)
  moreover have "unat (gs_state s - 1) = unat (gs_state s) - 1"
    by (rule unat_minus_one) (use n assms(1) in \<open>auto simp: gate_inv_def\<close>)
  moreover have "sp = (gs_state s - 1, GIdle)"
    using assms(2) GShared by simp
  ultimately show ?thesis
    using assms(1) GShared by (auto simp: gate_inv_def)
qed (use assms in auto)

lemma gate_inv_leave_exclusive:
  assumes "gate_inv s" and "leave_exclusive (gs_state s) (gs_pc s t) = Some sp"
  shows "gate_inv (gate_move t sp s)"
proof (cases "gs_pc s t")
  case GExclusive
  then have "pending s = {t}" and "t \<in> checkpoints s"
    using assms(1) by (auto simp: gate_inv_def in_gate_sets)
  with assms GExclusive show ?thesis
    by (auto simp: gate_inv_def)
qed (use assms in auto)

lemma gate_inv_step: "gate_inv s \<Longrightarrow> gate_step s s' \<Longrightarrow> gate_inv s'"
  by (auto elim!: gate_step.cases simp: enter_writer_def enter_checkpoint_def
      intro: gate_inv_shared gate_inv_exclusive gate_inv_leave_shared gate_inv_leave_exclusive)

interpretation gate: admission gate_init gate_step gate_inv insiders checkpoints
proof unfold_locales
  fix s t
  assume "gate_inv s" and "t \<in> checkpoints s"
  moreover from this have "pending s = {t}"
    by (auto simp: gate_inv_def in_gate_sets)
  ultimately show "insiders s = {} \<and> checkpoints s = {t}"
    by (auto simp: gate_inv_def in_gate_sets checkpoints_def pending_def)
qed (use gate_inv_init gate_inv_step in blast)+

text \<open>While a thread drains, the shared side only shrinks.\<close>

lemma drain_shrinks:
  assumes "gate_inv s" and "pending s \<noteq> {}" and "gate_step s s'"
  shows "insiders s' \<subseteq> insiders s"
proof -
  have big: "2 ^ 63 \<le> unat (gs_state s)"
    using assms(1,2) by (simp add: gate_inv_def)
  from assms(3) show ?thesis
  proof cases
    case (g_writer spurious t sp)
    have "snd sp \<noteq> GShared"
    proof (cases "gs_pc s t")
      case (GSharedLoad cur)
      then have "unat cur < 2 ^ 63 - 1"
        using assms(1) by (simp add: gate_inv_def)
      then have "gs_state s \<noteq> cur"
        using big by auto
      with g_writer GSharedLoad show ?thesis
        by (auto simp: enter_writer_def)
    qed (use g_writer in \<open>auto simp: enter_writer_def Let_def split: if_splits\<close>)
    with g_writer show ?thesis
      by auto
  next
    case (g_checkpoint spurious t sp)
    then show ?thesis
      by (cases "gs_pc s t") (auto simp: enter_checkpoint_def Let_def split: if_splits)
  next
    case (g_leave_shared t sp)
    then show ?thesis
      by (cases "gs_pc s t") auto
  next
    case (g_leave_exclusive t sp)
    then show ?thesis
      by (cases "gs_pc s t") auto
  qed
qed

section \<open>Sample runs\<close>

definition idle_gate :: gate_sys where
  "idle_gate = \<lparr>gs_state = 0, gs_pc = (\<lambda>_. GIdle)\<rparr>"

lemma some_drain: "\<exists>s s'. reach gate_init gate_step s \<and> gs_pc s 0 = GDrain \<and> gate_step s s' \<and> gs_pc s' 0 = GExclusive"
proof -
  define s1 where "s1 = gate_move 0 (0, GExclusiveLoad 0) idle_gate"
  define s2 where "s2 = gate_move 0 (WRITE_BIT, GDrain) s1"
  define s3 where "s3 = gate_move 0 (WRITE_BIT, GExclusive) s2"
  have "reach gate_init gate_step idle_gate"
    by (rule reach_init) (simp add: gate_init_def idle_gate_def gate_new_def)
  moreover have "gate_step idle_gate s1"
    unfolding s1_def
    by (rule g_checkpoint [where spurious = False]) (simp add: enter_checkpoint_def idle_gate_def)
  moreover have "gate_step s1 s2"
    unfolding s2_def by (rule g_checkpoint [where spurious = False]) (simp add: enter_checkpoint_def s1_def)
  moreover have "gate_step s2 s3"
    unfolding s3_def
    by (rule g_checkpoint [where spurious = False]) (simp add: enter_checkpoint_def s2_def count_zero WRITE_BIT_def)
  ultimately have "reach gate_init gate_step s2" and "gate_step s2 s3"
    using reach_step by metis+
  then show ?thesis
    by (intro exI [of _ s2] exI [of _ s3]) (simp add: s2_def s3_def)
qed

section \<open>Properties\<close>

text \<open>C19. The checkpoint side of the commit gate is exclusive: while a checkpoint is inside, no
  writer is in its publish section and no second checkpoint is inside, for every interleaving
  of the entering and leaving threads.
\<close>

theorem checkpoint_excludes_writers:
  assumes "reach gate_init gate_step s" and "gs_pc s t = GExclusive"
  shows "insiders s = {} \<and> checkpoints s = {t}"
  using gate.exclusion [OF assms(1)] assms(2) by (simp add: in_gate_sets)

theorem checkpoint_excludes_writers_witness:
  "\<exists>s. reach gate_init gate_step s \<and> gs_pc s 0 = GExclusive \<and> insiders s = {} \<and> checkpoints s = {0}"
  using some_drain reach_step checkpoint_excludes_writers by (metis (no_types, lifting))

text \<open>C20. A pending checkpoint cannot be overtaken or starved by new writers: from the moment it
  has set the write bit, no step of any thread admits another writer, so the set of writers it
  waits for only shrinks; and once that set is empty, its next look at the word lets it in.
\<close>

theorem checkpoint_not_overtaken:
  assumes "reach gate_init gate_step s" and "gs_pc s t = GDrain" and "gate_step s s'"
  shows "insiders s' \<subseteq> insiders s
    \<and> (if insiders s = {} then enter_checkpoint spurious (gs_state s) GDrain = Some (gs_state s, GExclusive)
       else enter_checkpoint spurious (gs_state s) GDrain = Some (gs_state s, GDrain))"
proof -
  have inv: "gate_inv s"
    by (rule gate.reachable_inv [OF assms(1)])
  have pend: "pending s \<noteq> {}"
    using assms(2) by (auto simp: pending_def)
  have "insiders s = {} \<longleftrightarrow> gs_state s AND COUNT_MASK = 0"
    using inv pend by (simp add: gate_inv_def count_zero)
  then show ?thesis
    using drain_shrinks [OF inv pend assms(3)] by (simp add: enter_checkpoint_def)
qed

theorem checkpoint_not_overtaken_witness:
  "\<exists>s s'. reach gate_init gate_step s \<and> gs_pc s 0 = GDrain \<and> gate_step s s' \<and> insiders s' \<subseteq> insiders s"
  using some_drain checkpoint_not_overtaken by metis

end
