(* ===== verification/Endpoint_Locks.thy ===== *)
theory Endpoint_Locks
  imports Transition
begin

text \<open>
  The fixed-shard endpoint locks of \<^verbatim>\<open>src/concurrency/endpoint_locks.rs\<close>: an operation on one
  or two keys locks the shards of its keys, in the order of the shard numbers, and drops them
  when it ends.  A weak compare-exchange may fail spuriously, which is a step that changes
  nothing.
\<close>

unbundle bit_operations_syntax

section \<open>Shards\<close>

definition ENDPOINT_LOCK_SHARDS :: nat where "ENDPOINT_LOCK_SHARDS = 256"

definition shard_index :: "bytes \<Rightarrow> nat" where
  "shard_index key =
     (let h = foldl (\<lambda>h b. (h XOR ucast b) * 0x100000001b3) (0xcbf29ce484222325 :: u64) key
      in unat (h AND of_nat (ENDPOINT_LOCK_SHARDS - 1)))"

text \<open>The shards an operation locks, in locking order.\<close>

definition lock_key :: "bytes \<Rightarrow> nat list" where
  "lock_key key = [shard_index key]"

definition lock_pair :: "bytes \<Rightarrow> bytes \<Rightarrow> nat list" where
  "lock_pair src dst =
     (let src_idx = shard_index src; dst_idx = shard_index dst
      in if src_idx = dst_idx then [src_idx]
         else if src_idx < dst_idx then [src_idx, dst_idx] else [dst_idx, src_idx])"

datatype endpoint_op = OnKey bytes | OnPair bytes bytes

fun op_keys :: "endpoint_op \<Rightarrow> bytes set" where
  "op_keys (OnKey key) = {key}"
| "op_keys (OnPair src dst) = {src, dst}"

fun op_shards :: "endpoint_op \<Rightarrow> nat list" where
  "op_shards (OnKey key) = lock_key key"
| "op_shards (OnPair src dst) = lock_pair src dst"

section \<open>Threads around the locks\<close>

text \<open>
  A thread is idle, runs an operation with the shards it holds and those it still wants (inside
  once it wants none), or drops its shards one by one.
\<close>

datatype epc =
    EIdle
  | ERun endpoint_op "nat list" "nat list"
  | EDrop "nat list"

record endpoint_sys =
  es_locked :: "nat \<Rightarrow> bool"
  es_pc :: "nat \<Rightarrow> epc"

definition endpoint_init :: "endpoint_sys \<Rightarrow> bool" where
  "endpoint_init s \<longleftrightarrow> (\<forall>i. \<not> es_locked s i) \<and> (\<forall>t. es_pc s t = EIdle)"

fun shard_lock :: "bool \<Rightarrow> (nat \<Rightarrow> bool) \<Rightarrow> epc \<Rightarrow> ((nat \<Rightarrow> bool) \<times> epc) option" where
  "shard_lock spurious locked (ERun a held (i # rest)) =
     (if \<not> locked i \<and> \<not> spurious then Some (locked(i := True), ERun a (held @ [i]) rest)
      else Some (locked, ERun a held (i # rest)))"
| "shard_lock spurious locked _ = None"

fun shard_drop :: "(nat \<Rightarrow> bool) \<Rightarrow> epc \<Rightarrow> ((nat \<Rightarrow> bool) \<times> epc) option" where
  "shard_drop locked (ERun a held []) = Some (locked, EDrop held)"
| "shard_drop locked (EDrop (i # held)) = Some (locked(i := False), EDrop held)"
| "shard_drop locked (EDrop []) = Some (locked, EIdle)"
| "shard_drop locked _ = None"

definition endpoint_move :: "nat \<Rightarrow> (nat \<Rightarrow> bool) \<times> epc \<Rightarrow> endpoint_sys \<Rightarrow> endpoint_sys" where
  "endpoint_move t lp s = s\<lparr>es_locked := fst lp, es_pc := (es_pc s)(t := snd lp)\<rparr>"

inductive endpoint_step :: "endpoint_sys \<Rightarrow> endpoint_sys \<Rightarrow> bool" where
  e_start: "es_pc s t = EIdle \<Longrightarrow> endpoint_step s (endpoint_move t (es_locked s, ERun a [] (op_shards a)) s)"
| e_lock: "shard_lock spurious (es_locked s) (es_pc s t) = Some lp \<Longrightarrow> endpoint_step s (endpoint_move t lp s)"
| e_drop: "shard_drop (es_locked s) (es_pc s t) = Some lp \<Longrightarrow> endpoint_step s (endpoint_move t lp s)"

section \<open>Invariant\<close>

fun held_by :: "epc \<Rightarrow> nat list" where
  "held_by EIdle = []"
| "held_by (ERun a held rest) = held"
| "held_by (EDrop held) = held"

fun wants :: "epc \<Rightarrow> nat list" where
  "wants (ERun a held rest) = rest"
| "wants _ = []"

definition pc_ok :: "epc \<Rightarrow> bool" where
  "pc_ok p \<longleftrightarrow> sorted_wrt (<) (held_by p @ wants p)
     \<and> (\<forall>i\<in>set (held_by p @ wants p). i < ENDPOINT_LOCK_SHARDS)
     \<and> (case p of ERun a held rest \<Rightarrow> held @ rest = op_shards a | _ \<Rightarrow> True)"

definition endpoint_inv :: "endpoint_sys \<Rightarrow> bool" where
  "endpoint_inv s \<longleftrightarrow>
     (\<forall>i. es_locked s i \<longleftrightarrow> (\<exists>t. i \<in> set (held_by (es_pc s t))))
     \<and> (\<forall>t u i. i \<in> set (held_by (es_pc s t)) \<longrightarrow> i \<in> set (held_by (es_pc s u)) \<longrightarrow> t = u)
     \<and> (\<forall>t. pc_ok (es_pc s t))"

lemma shard_index_bound: "shard_index key < ENDPOINT_LOCK_SHARDS"
proof -
  have "unat ((h :: u64) AND 255) < 256" for h
  proof -
    have "h AND 255 = take_bit 8 h"
      by (simp add: take_bit_eq_mask mask_eq_exp_minus_1)
    then have "unat (h AND 255) = unat h mod 2 ^ 8"
      by (simp only: unsigned_take_bit_eq) (simp only: take_bit_eq_mod)
    then show ?thesis
      by simp
  qed
  then show ?thesis
    by (simp add: shard_index_def ENDPOINT_LOCK_SHARDS_def Let_def)
qed

lemma op_shards_sorted: "sorted_wrt (<) (op_shards a)" "i \<in> set (op_shards a) \<Longrightarrow> i < ENDPOINT_LOCK_SHARDS"
  by (cases a; auto simp: lock_key_def lock_pair_def Let_def shard_index_bound split: if_splits)+

lemma op_shards_cover: "key \<in> op_keys a \<Longrightarrow> shard_index key \<in> set (op_shards a)"
  by (cases a) (auto simp: lock_key_def lock_pair_def Let_def)

lemma endpoint_move_sel [simp]:
  "es_locked (endpoint_move t lp s) = fst lp" "es_pc (endpoint_move t lp s) = (es_pc s)(t := snd lp)"
  by (simp_all add: endpoint_move_def)

lemma endpoint_inv_init: "endpoint_init s \<Longrightarrow> endpoint_inv s"
  by (simp add: endpoint_init_def endpoint_inv_def pc_ok_def)

text \<open>A move keeps the invariant when the lock table follows what the moving thread holds.\<close>

lemma endpoint_inv_move:
  assumes inv: "endpoint_inv s" and "pc_ok p"
    and "\<And>i. l i \<longleftrightarrow> (if i \<in> set (held_by (es_pc s t)) \<union> set (held_by p) then i \<in> set (held_by p) else es_locked s i)"
    and "\<And>i. i \<in> set (held_by p) \<Longrightarrow> i \<in> set (held_by (es_pc s t)) \<or> \<not> es_locked s i"
  shows "endpoint_inv (endpoint_move t (l, p) s)"
proof -
  have other: "i \<notin> set (held_by (es_pc s u))" if "i \<in> set (held_by (es_pc s t)) \<union> set (held_by p)" and "u \<noteq> t" for i u
    using inv that assms(4) [of i] unfolding endpoint_inv_def by (metis UnE)
  have "l i \<longleftrightarrow> (\<exists>u. i \<in> set (held_by (((es_pc s)(t := p)) u)))" for i
    using assms(3) [of i] inv other [of i] unfolding endpoint_inv_def by (auto split: if_splits)
  moreover have "u = v" if "i \<in> set (held_by (((es_pc s)(t := p)) u))" and "i \<in> set (held_by (((es_pc s)(t := p)) v))" for u v i
    using that inv other [of i] unfolding endpoint_inv_def by (auto split: if_splits)
  moreover have "pc_ok (((es_pc s)(t := p)) u)" for u
    using inv assms(2) by (simp add: endpoint_inv_def)
  ultimately show ?thesis
    unfolding endpoint_inv_def endpoint_move_sel fst_conv snd_conv by blast
qed

lemma endpoint_inv_lock:
  assumes inv: "endpoint_inv s" and lock: "shard_lock spurious (es_locked s) (es_pc s t) = Some lp"
  shows "endpoint_inv (endpoint_move t lp s)"
proof -
  from lock obtain a held i rest where pc: "es_pc s t = ERun a held (i # rest)"
    by (cases "es_pc s t" rule: wants.cases; cases "wants (es_pc s t)") auto
  show ?thesis
  proof (cases "\<not> es_locked s i \<and> \<not> spurious")
    case True
    then have lp: "lp = ((es_locked s)(i := True), ERun a (held @ [i]) rest)"
      using lock pc by simp
    have "pc_ok (es_pc s t)"
      using inv by (simp add: endpoint_inv_def)
    then have "pc_ok (ERun a (held @ [i]) rest)"
      using op_shards_sorted [where a = a] by (auto simp: pc_ok_def pc)
    moreover have "es_locked s j" if "j \<in> set held" for j
      using inv pc that unfolding endpoint_inv_def by (metis held_by.simps(2))
    ultimately show ?thesis
      unfolding lp using True by (intro endpoint_inv_move [OF inv]) (auto simp: pc)
  next
    case False
    then have "lp = (es_locked s, es_pc s t)"
      using lock pc by (auto split: if_splits)
    then have "endpoint_move t lp s = s"
      by (cases s) (simp add: endpoint_move_def)
    with inv show ?thesis
      by simp
  qed
qed

lemma endpoint_inv_drop:
  assumes inv: "endpoint_inv s" and drop: "shard_drop (es_locked s) (es_pc s t) = Some lp"
  shows "endpoint_inv (endpoint_move t lp s)"
proof -
  have ok: "pc_ok (es_pc s t)"
    using inv by (simp add: endpoint_inv_def)
  have held: "es_locked s j" if "j \<in> set (held_by (es_pc s t))" for j
    using inv that unfolding endpoint_inv_def by metis
  show ?thesis
  proof (cases "es_pc s t")
    case EIdle
    with drop show ?thesis
      by simp
  next
    case (ERun a own rest)
    then have "rest = []" and lp: "lp = (es_locked s, EDrop own)"
      using drop by (cases rest; simp)+
    then show ?thesis
      unfolding lp using ok held by (intro endpoint_inv_move [OF inv]) (auto simp: ERun pc_ok_def)
  next
    case (EDrop own)
    show ?thesis
    proof (cases own)
      case Nil
      then have lp: "lp = (es_locked s, EIdle)"
        using drop EDrop by simp
      show ?thesis
        unfolding lp using ok held by (intro endpoint_inv_move [OF inv]) (auto simp: EDrop Nil pc_ok_def)
    next
      case (Cons i rest)
      then have lp: "lp = ((es_locked s)(i := False), EDrop rest)"
        using drop EDrop by simp
      show ?thesis
        unfolding lp using ok held by (intro endpoint_inv_move [OF inv]) (auto simp: EDrop Cons pc_ok_def)
    qed
  qed
qed

lemma endpoint_inv_step:
  assumes inv: "endpoint_inv s" and "endpoint_step s s'"
  shows "endpoint_inv s'"
  using assms(2)
proof cases
  case (e_start t a)
  have "pc_ok (ERun a [] (op_shards a))"
    using op_shards_sorted [where a = a] by (simp add: pc_ok_def)
  then show ?thesis
    unfolding e_start(1) using e_start(2) by (intro endpoint_inv_move [OF inv]) auto
qed (use inv endpoint_inv_lock endpoint_inv_drop in blast)+

interpretation endpoint: inductive_invariant endpoint_init endpoint_step endpoint_inv
  by unfold_locales (use endpoint_inv_init endpoint_inv_step in blast)+

text \<open>
  Waiting threads form chains of growing shard numbers, so some thread can move.
\<close>

definition can_move :: "endpoint_sys \<Rightarrow> nat \<Rightarrow> bool" where
  "can_move s u \<longleftrightarrow> es_pc s u \<noteq> EIdle \<and> (case wants (es_pc s u) of [] \<Rightarrow> True | i # _ \<Rightarrow> \<not> es_locked s i)"

lemma some_can_move:
  assumes inv: "endpoint_inv s" and "wants (es_pc s t) = i # rest"
  shows "\<exists>u. can_move s u"
  using assms(2)
proof (induction "ENDPOINT_LOCK_SHARDS - i" arbitrary: t i rest rule: less_induct)
  case less
  show ?case
  proof (cases "es_locked s i")
    case False
    with less.prems have "can_move s t"
      by (cases "es_pc s t") (auto simp: can_move_def)
    then show ?thesis ..
  next
    case True
    with inv obtain u where u: "i \<in> set (held_by (es_pc s u))"
      by (auto simp: endpoint_inv_def)
    show ?thesis
    proof (cases "wants (es_pc s u)")
      case Nil
      with u have "can_move s u"
        by (cases "es_pc s u") (auto simp: can_move_def)
      then show ?thesis ..
    next
      case (Cons j more)
      have "pc_ok (es_pc s u)"
        using inv by (simp add: endpoint_inv_def)
      with u Cons have "i < j" and "j < ENDPOINT_LOCK_SHARDS"
        by (auto simp: pc_ok_def sorted_wrt_append)
      then show ?thesis
        using less.hyps [OF _ Cons] by simp
    qed
  qed
qed

section \<open>Sample run\<close>

definition idle_endpoints :: endpoint_sys where
  "idle_endpoints = \<lparr>es_locked = (\<lambda>_. False), es_pc = (\<lambda>_. EIdle)\<rparr>"

lemma sample_shards: "shard_index [] = 37" "shard_index [1] = 44"
  unfolding shard_index_def ENDPOINT_LOCK_SHARDS_def Let_def by simp_all

lemma some_inside:
  "\<exists>s. reach endpoint_init endpoint_step s \<and> es_pc s 0 = ERun (OnKey []) [37] []
     \<and> es_pc s 1 = ERun (OnKey [1]) [44] []"
proof -
  define s1 where "s1 = endpoint_move 0 (\<lambda>_. False, ERun (OnKey []) [] [37]) idle_endpoints"
  define s2 where "s2 = endpoint_move 0 ((\<lambda>_. False)(37 := True), ERun (OnKey []) [37] []) s1"
  define s3 where "s3 = endpoint_move 1 (es_locked s2, ERun (OnKey [1]) [] [44]) s2"
  define s4 where "s4 = endpoint_move 1 ((es_locked s2)(44 := True), ERun (OnKey [1]) [44] []) s3"
  have "reach endpoint_init endpoint_step idle_endpoints"
    by (rule reach_init) (simp add: endpoint_init_def idle_endpoints_def)
  moreover have "endpoint_step idle_endpoints s1"
    using e_start [of idle_endpoints 0 "OnKey []"]
    by (simp add: s1_def idle_endpoints_def lock_key_def sample_shards)
  moreover have "endpoint_step s1 s2"
    unfolding s2_def by (rule e_lock [where spurious = False]) (simp add: s1_def)
  moreover have "endpoint_step s2 s3"
    using e_start [of s2 1 "OnKey [1]"]
    by (simp add: s3_def s2_def s1_def idle_endpoints_def lock_key_def sample_shards)
  moreover have "endpoint_step s3 s4"
    unfolding s4_def by (rule e_lock [where spurious = False]) (simp add: s3_def s2_def)
  ultimately have "reach endpoint_init endpoint_step s4"
    using reach_step by metis
  then show ?thesis
    by (intro exI [of _ s4]) (simp add: s4_def s3_def s2_def)
qed

section \<open>Properties\<close>

text \<open>C22. Operations on a common key never run at the same time: two threads that are both inside
  have disjoint sets of keys, whatever the order in which their steps interleave.
\<close>

theorem endpoint_exclusion:
  assumes "reach endpoint_init endpoint_step s" and "t \<noteq> u"
    and "es_pc s t = ERun a held []" and "es_pc s u = ERun b held' []"
  shows "op_keys a \<inter> op_keys b = {}"
proof (rule ccontr)
  have inv: "endpoint_inv s"
    by (rule endpoint.reachable_inv [OF assms(1)])
  assume "op_keys a \<inter> op_keys b \<noteq> {}"
  then obtain key where "key \<in> op_keys a" and "key \<in> op_keys b"
    by blast
  moreover have "pc_ok (es_pc s t)" "pc_ok (es_pc s u)"
    using inv by (simp_all add: endpoint_inv_def)
  ultimately have "shard_index key \<in> set (held_by (es_pc s t))" "shard_index key \<in> set (held_by (es_pc s u))"
    using assms(3,4) op_shards_cover by (simp_all add: pc_ok_def)
  with inv assms(2) show False
    unfolding endpoint_inv_def by blast
qed

theorem endpoint_exclusion_witness:
  "\<exists>s. reach endpoint_init endpoint_step s \<and> es_pc s 0 = ERun (OnKey []) [37] []
     \<and> es_pc s 1 = ERun (OnKey [1]) [44] [] \<and> op_keys (OnKey []) \<inter> op_keys (OnKey [1]) = {}"
proof -
  obtain s where s: "reach endpoint_init endpoint_step s" "es_pc s 0 = ERun (OnKey []) [37] []"
    "es_pc s 1 = ERun (OnKey [1]) [44] []"
    using some_inside by blast
  show ?thesis
    using endpoint_exclusion [OF s(1) zero_neq_one s(2,3)] s by (intro exI [of _ s] conjI)
qed

text \<open>C21. The locks never deadlock: whenever some thread has begun an operation, there is a thread
  that is inside, dropping its shards, or whose next shard is free, so the threads are never
  all waiting for one another, for any mix of one-key and two-key operations.
\<close>

theorem endpoint_no_deadlock:
  assumes "reach endpoint_init endpoint_step s" and "es_pc s t \<noteq> EIdle"
  shows "\<exists>u. can_move s u"
proof (cases "wants (es_pc s t)")
  case Nil
  with assms(2) have "can_move s t"
    by (simp add: can_move_def)
  then show ?thesis ..
next
  case (Cons i rest)
  then show ?thesis
    by (rule some_can_move [OF endpoint.reachable_inv [OF assms(1)]])
qed

theorem endpoint_no_deadlock_witness:
  "\<exists>s. reach endpoint_init endpoint_step s \<and> es_pc s 0 = ERun (OnKey []) [37] [] \<and> (\<exists>u. can_move s u)"
proof -
  obtain s where s: "reach endpoint_init endpoint_step s" "es_pc s 0 = ERun (OnKey []) [37] []"
    using some_inside by blast
  then have "es_pc s 0 \<noteq> EIdle"
    by simp
  from endpoint_no_deadlock [OF s(1) this] s show ?thesis
    by blast
qed

end
