(* ===== verification/Bookkeeping.thy ===== *)
theory Bookkeeping
  imports Prelude "HOL-Library.AList"
begin

text \<open>
  The mutation bookkeeping of the buffer manager (\<^verbatim>\<open>buffer_manager/mutation.rs\<close>): per shard
  the dirty, flushing and pending-delete maps and the two queues of maintenance hints.  A
  hash map is an association list with distinct keys; the order of the list is the order in
  which the map happens to be iterated.
\<close>

unbundle bit_operations_syntax

section \<open>Maps keyed by blob\<close>

type_synonym seq_map = "(blob_guid \<times> nat) list"

text \<open>\<^verbatim>\<open>entry(guid).and_modify(min).or_insert(seq)\<close>.\<close>

definition merge_min :: "blob_guid \<Rightarrow> nat \<Rightarrow> seq_map \<Rightarrow> seq_map" where
  "merge_min guid seq m = AList.update guid (case map_of m guid of None \<Rightarrow> seq | Some cur \<Rightarrow> min cur seq) m"

lemmas alist_simps [simp] = update_conv' delete_conv'

lemma map_of_merge_min [simp]:
  "map_of (merge_min g s m) = (map_of m)(g \<mapsto> (case map_of m g of None \<Rightarrow> s | Some cur \<Rightarrow> min cur s))"
  by (simp add: merge_min_def)

lemma distinct_merge_min [simp]: "distinct (map fst m) \<Longrightarrow> distinct (map fst (merge_min g s m))"
  by (simp add: merge_min_def distinct_update)

lemma distinct_delete [simp]: "distinct (map fst m) \<Longrightarrow> distinct (map fst (AList.delete g m))"
  by (rule AList.distinct_delete)

lemma set_merge_min: "fst ` set (merge_min g s m) = insert g (fst ` set m)"
  by (simp add: merge_min_def dom_update)

lemma map_of_eq_Nil: "map_of m = Map.empty \<longleftrightarrow> m = []"
  by (cases m) auto

section \<open>Maintenance queues\<close>

text \<open>
  A queue of candidates with a set beside it; removal takes a candidate out of the set only
  and leaves its place in the queue.
\<close>

record maintenance_queue =
  mq_set :: "blob_guid set"
  mq_queue :: "blob_guid list"

definition mq_insert :: "blob_guid \<Rightarrow> maintenance_queue \<Rightarrow> bool \<times> maintenance_queue" where
  "mq_insert guid q =
     (if guid \<notin> mq_set q
      then (True, q\<lparr>mq_set := insert guid (mq_set q), mq_queue := mq_queue q @ [guid]\<rparr>)
      else (False, q))"

definition mq_remove :: "blob_guid \<Rightarrow> maintenance_queue \<Rightarrow> bool \<times> maintenance_queue" where
  "mq_remove guid q = (guid \<in> mq_set q, q\<lparr>mq_set := mq_set q - {guid}\<rparr>)"

fun pop_batch_loop :: "nat \<Rightarrow> blob_guid list \<Rightarrow> blob_guid set \<Rightarrow> blob_guid list \<times> maintenance_queue" where
  "pop_batch_loop limit [] live = ([], \<lparr>mq_set = live, mq_queue = []\<rparr>)"
| "pop_batch_loop limit (guid # rest) live =
     (if limit = 0 then ([], \<lparr>mq_set = live, mq_queue = guid # rest\<rparr>)
      else if guid \<in> live
      then (case pop_batch_loop (limit - 1) rest (live - {guid}) of (out, q) \<Rightarrow> (guid # out, q))
      else pop_batch_loop limit rest live)"

definition pop_batch :: "nat \<Rightarrow> maintenance_queue \<Rightarrow> blob_guid list \<times> maintenance_queue" where
  "pop_batch limit q = pop_batch_loop limit (mq_queue q) (mq_set q)"

text \<open>No candidate is lost: every member of the set keeps a place in the queue.\<close>

definition mq_ok :: "maintenance_queue \<Rightarrow> bool" where
  "mq_ok q \<longleftrightarrow> mq_set q \<subseteq> set (mq_queue q)"

lemma mq_ok_ops [simp]:
  "mq_ok q \<Longrightarrow> mq_ok (snd (mq_insert g q))"
  "mq_ok q \<Longrightarrow> mq_ok (snd (mq_remove g q))"
  by (auto simp: mq_ok_def mq_insert_def mq_remove_def)

lemma pop_batch_loop_spec:
  assumes "live \<subseteq> set queue" and "pop_batch_loop limit queue live = (out, q)"
  shows "mq_ok q \<and> distinct out \<and> length out \<le> limit \<and> set out \<subseteq> live \<and> mq_set q = live - set out
    \<and> (length out < limit \<longrightarrow> mq_set q = {})"
  using assms
proof (induction limit queue live arbitrary: out q rule: pop_batch_loop.induct)
  case (2 limit guid rest live)
  show ?case
  proof (cases "limit = 0")
    case False
    show ?thesis
    proof (cases "guid \<in> live")
      case True
      obtain out' where o: "pop_batch_loop (limit - 1) rest (live - {guid}) = (out', q)" "out = guid # out'"
        using "2.prems" False True by (auto split: prod.splits)
      have "live - {guid} \<subseteq> set rest" using "2.prems"(1) by auto
      from "2.IH"(1) [OF False True this o(1)] show ?thesis using o(2) True False by auto
    next
      case out_of: False
      then have "live \<subseteq> set rest" using "2.prems"(1) by auto
      then show ?thesis using "2.IH"(2) [OF False out_of, of out q] "2.prems"(2) False out_of by auto
    qed
  qed (use "2.prems" in \<open>auto simp: mq_ok_def\<close>)
qed (auto simp: mq_ok_def)

section \<open>One shard\<close>

record mutation_state =
  ms_dirty :: seq_map
  ms_flushing :: seq_map
  ms_pending_deletes :: seq_map
  ms_compact_candidates :: maintenance_queue
  ms_merge_candidates :: maintenance_queue

definition ms_default :: mutation_state where
  "ms_default = \<lparr>ms_dirty = [], ms_flushing = [], ms_pending_deletes = [],
     ms_compact_candidates = \<lparr>mq_set = {}, mq_queue = []\<rparr>, ms_merge_candidates = \<lparr>mq_set = {}, mq_queue = []\<rparr>\<rparr>"

definition is_protected :: "blob_guid \<Rightarrow> mutation_state \<Rightarrow> bool" where
  "is_protected guid s \<longleftrightarrow> map_of (ms_dirty s) guid \<noteq> None \<or> map_of (ms_flushing s) guid \<noteq> None"

definition is_protected_or_pending :: "blob_guid \<Rightarrow> mutation_state \<Rightarrow> bool" where
  "is_protected_or_pending guid s \<longleftrightarrow> is_protected guid s \<or> map_of (ms_pending_deletes s) guid \<noteq> None"

definition remove_dirty :: "blob_guid \<Rightarrow> mutation_state \<Rightarrow> mutation_state" where
  "remove_dirty guid s = s\<lparr>ms_dirty := AList.delete guid (ms_dirty s), ms_flushing := AList.delete guid (ms_flushing s)\<rparr>"

definition add_flushing :: "blob_guid \<Rightarrow> mutation_state \<Rightarrow> mutation_state" where
  "add_flushing guid s = s\<lparr>ms_flushing := AList.update guid
     ((case map_of (ms_flushing s) guid of None \<Rightarrow> 0 | Some c \<Rightarrow> c) + 1) (ms_flushing s)\<rparr>"

definition remove_one_flushing :: "blob_guid \<Rightarrow> mutation_state \<Rightarrow> mutation_state" where
  "remove_one_flushing guid s =
     (case map_of (ms_flushing s) guid of
        None \<Rightarrow> s
      | Some count \<Rightarrow>
          if count - 1 = 0 then s\<lparr>ms_flushing := AList.delete guid (ms_flushing s)\<rparr>
          else s\<lparr>ms_flushing := AList.update guid (count - 1) (ms_flushing s)\<rparr>)"

definition remove_maintenance_candidates :: "blob_guid \<Rightarrow> mutation_state \<Rightarrow> (bool \<times> bool) \<times> mutation_state" where
  "remove_maintenance_candidates guid s =
     (case (mq_remove guid (ms_compact_candidates s), mq_remove guid (ms_merge_candidates s)) of
        ((rc, c), (rm, m)) \<Rightarrow> ((rc, rm), s\<lparr>ms_compact_candidates := c, ms_merge_candidates := m\<rparr>))"

lemma shard_op_sel [simp]:
  "ms_pending_deletes (add_flushing g s) = ms_pending_deletes s" "ms_dirty (add_flushing g s) = ms_dirty s"
  "ms_pending_deletes (remove_one_flushing g s) = ms_pending_deletes s" "ms_dirty (remove_one_flushing g s) = ms_dirty s"
  "ms_pending_deletes (remove_dirty g s) = ms_pending_deletes s"
  "ms_dirty (snd (remove_maintenance_candidates g s)) = ms_dirty s"
  "ms_flushing (snd (remove_maintenance_candidates g s)) = ms_flushing s"
  "ms_pending_deletes (snd (remove_maintenance_candidates g s)) = ms_pending_deletes s"
  by (simp_all add: add_flushing_def remove_one_flushing_def remove_dirty_def remove_maintenance_candidates_def
      split: option.splits prod.splits)

lemma map_of_flushing [simp]:
  "map_of (ms_flushing (add_flushing g s)) =
     (map_of (ms_flushing s))(g \<mapsto> (case map_of (ms_flushing s) g of None \<Rightarrow> 0 | Some c \<Rightarrow> c) + 1)"
  "map_of (ms_flushing (remove_one_flushing g s)) =
     (map_of (ms_flushing s))(g := (case map_of (ms_flushing s) g of None \<Rightarrow> None
        | Some c \<Rightarrow> if c - 1 = 0 then None else Some (c - 1)))"
  by (auto simp: add_flushing_def remove_one_flushing_def fun_eq_iff split: option.splits)

section \<open>Sharding\<close>

definition BOOKKEEPING_SHARDS :: nat where
  "BOOKKEEPING_SHARDS = 64"

definition u64_le :: "bytes \<Rightarrow> u64" where
  "u64_le bs = of_nat (le_nat bs)"

definition bookkeeping_shard_idx :: "blob_guid \<Rightarrow> nat" where
  "bookkeeping_shard_idx guid =
     (let lo = u64_le (take 8 guid); hi = u64_le (take 8 (drop 8 guid));
          h = lo XOR word_rotl 27 hi;
          h = h XOR drop_bit 33 h;
          h = h * 0xff51afd7ed558ccd;
          h = h XOR drop_bit 33 h
      in unat (h AND of_nat (BOOKKEEPING_SHARDS - 1)))"

lemma bookkeeping_shard_idx_bound: "bookkeeping_shard_idx guid < BOOKKEEPING_SHARDS"
proof -
  have "unat (h AND 63) < 64" for h :: u64
  proof -
    have "h AND 63 = h AND mask 6" by (simp add: mask_eq_exp_minus_1)
    also have "\<dots> = take_bit 6 h" by (simp add: take_bit_eq_mask)
    finally have "unat (h AND 63) = take_bit 6 (unat h)" by (simp add: unsigned_take_bit_eq)
    then show ?thesis using take_bit_nat_less_exp [of 6 "unat h"] by simp
  qed
  then show ?thesis by (simp add: bookkeeping_shard_idx_def BOOKKEEPING_SHARDS_def Let_def)
qed

datatype candidate_kind = Compact | Merge

definition queue_of :: "candidate_kind \<Rightarrow> mutation_state \<Rightarrow> maintenance_queue" where
  "queue_of kind s = (case kind of Compact \<Rightarrow> ms_compact_candidates s | Merge \<Rightarrow> ms_merge_candidates s)"

definition set_queue_of :: "candidate_kind \<Rightarrow> maintenance_queue \<Rightarrow> mutation_state \<Rightarrow> mutation_state" where
  "set_queue_of kind q s =
     (case kind of Compact \<Rightarrow> s\<lparr>ms_compact_candidates := q\<rparr> | Merge \<Rightarrow> s\<lparr>ms_merge_candidates := q\<rparr>)"

fun pop_shards :: "candidate_kind \<Rightarrow> nat list \<Rightarrow> nat \<Rightarrow> (nat \<Rightarrow> mutation_state) \<Rightarrow> blob_guid list \<times> (nat \<Rightarrow> mutation_state)" where
  "pop_shards kind [] remaining shards = ([], shards)"
| "pop_shards kind (idx # rest) remaining shards =
     (case pop_batch remaining (queue_of kind (shards idx)) of (popped, q) \<Rightarrow>
      let shards = shards(idx := set_queue_of kind q (shards idx))
      in if length popped = remaining then (popped, shards)
         else case pop_shards kind rest (remaining - length popped) shards of (out, shards') \<Rightarrow> (popped @ out, shards'))"

definition pop_candidate_batch :: "candidate_kind \<Rightarrow> nat \<Rightarrow> nat \<Rightarrow> (nat \<Rightarrow> mutation_state) \<Rightarrow> blob_guid list \<times> (nat \<Rightarrow> mutation_state)" where
  "pop_candidate_batch kind cursor limit shards =
     (if limit = 0 then ([], shards)
      else let start = cursor mod BOOKKEEPING_SHARDS
           in pop_shards kind (map (\<lambda>offset. (start + offset) mod BOOKKEEPING_SHARDS) [0..<BOOKKEEPING_SHARDS]) limit shards)"

lemma pop_shards_maps:
  "pop_shards kind idxs n shards = (out, shards') \<Longrightarrow>
     ms_dirty (shards' i) = ms_dirty (shards i) \<and> ms_flushing (shards' i) = ms_flushing (shards i)
     \<and> ms_pending_deletes (shards' i) = ms_pending_deletes (shards i)"
  by (induction kind idxs n shards arbitrary: out rule: pop_shards.induct)
    (fastforce simp: Let_def set_queue_of_def split: prod.splits if_splits candidate_kind.splits)+

end
