(* ===== verification/Cache_Policy.thy ===== *)
theory Cache_Policy
  imports Bookkeeping
begin

text \<open>
  The two advisory policies of the cache: the frequency sketch that decides which blob a point
  read may displace (\<^verbatim>\<open>buffer_manager/admission.rs\<close>) and the small tier of route anchors
  (\<^verbatim>\<open>buffer_manager/residency.rs\<close>).
\<close>

section \<open>Frequency sketch\<close>

definition ROWS :: nat where "ROWS = 4"
definition WIDTH :: nat where "WIDTH = 4096"
definition DECAY_PERIOD :: nat where "DECAY_PERIOD = 65536"

record tiny_lfu =
  lfu_counters :: "nat \<Rightarrow> nat"
  lfu_samples :: nat

definition lfu_new :: tiny_lfu where
  "lfu_new = \<lparr>lfu_counters = (\<lambda>_. 0), lfu_samples = 0\<rparr>"

definition mix64 :: "blob_guid \<Rightarrow> u64 \<Rightarrow> u64" where
  "mix64 guid salt =
     (let lo = u64_le (take 8 guid); hi = u64_le (take 8 (drop 8 guid));
          x = lo XOR word_rotl 29 hi XOR (salt * 0x9e3779b97f4a7c15);
          x = x XOR drop_bit 33 x;
          x = x * 0xff51afd7ed558ccd;
          x = x XOR drop_bit 33 x;
          x = x * 0xc4ceb9fe1a85ec53
      in x XOR drop_bit 33 x)"

definition lfu_idx :: "blob_guid \<Rightarrow> nat \<Rightarrow> nat" where
  "lfu_idx guid row = unat (mix64 guid (of_nat row)) mod WIDTH"

definition lfu_cell :: "blob_guid \<Rightarrow> nat \<Rightarrow> nat" where
  "lfu_cell guid row = row * WIDTH + lfu_idx guid row"

definition lfu_decay :: "(nat \<Rightarrow> nat) \<Rightarrow> nat \<Rightarrow> nat" where
  "lfu_decay c = (\<lambda>i. c i div 2)"

definition lfu_record :: "blob_guid \<Rightarrow> tiny_lfu \<Rightarrow> tiny_lfu" where
  "lfu_record guid l =
     (let sample = lfu_samples l + 1;
          c = fold (\<lambda>row c. c(lfu_cell guid row := min 255 (c (lfu_cell guid row) + 1))) [0..<ROWS] (lfu_counters l)
      in \<lparr>lfu_counters = (if sample mod DECAY_PERIOD = 0 then lfu_decay c else c), lfu_samples = sample\<rparr>)"

definition lfu_estimate :: "tiny_lfu \<Rightarrow> blob_guid \<Rightarrow> nat" where
  "lfu_estimate l guid = fold (\<lambda>row out. min out (lfu_counters l (lfu_cell guid row))) [0..<ROWS] 255"

lemma lfu_cell_inj: "row \<noteq> row' \<Longrightarrow> lfu_cell g row \<noteq> lfu_cell g row'"
proof
  assume "row \<noteq> row'" and "lfu_cell g row = lfu_cell g row'"
  then have "(row * WIDTH + lfu_idx g row) div WIDTH = (row' * WIDTH + lfu_idx g row') div WIDTH"
    by (simp add: lfu_cell_def)
  moreover have "lfu_idx g r < WIDTH" for r by (simp add: lfu_idx_def WIDTH_def)
  ultimately show False using \<open>row \<noteq> row'\<close> by (simp add: WIDTH_def div_add1_eq)
qed

lemma lfu_cell_eq [simp]: "lfu_cell g row = lfu_cell g row' \<longleftrightarrow> row = row'"
  using lfu_cell_inj by blast

text \<open>Recording a blob raises its estimate by one, up to the largest counter, outside a decay.\<close>

lemma lfu_record_estimate:
  assumes "(lfu_samples l + 1) mod DECAY_PERIOD \<noteq> 0"
  shows "lfu_estimate (lfu_record g l) g = min 255 (lfu_estimate l g + 1)"
proof -
  have cell: "lfu_counters (lfu_record g l) (lfu_cell g row) = min 255 (lfu_counters l (lfu_cell g row) + 1)"
    if "row < ROWS" for row
  proof -
    have "fold (\<lambda>row c. c(lfu_cell g row := min 255 (c (lfu_cell g row) + 1))) rows c (lfu_cell g row)
        = (if row \<in> set rows then min 255 (c (lfu_cell g row) + 1) else c (lfu_cell g row))"
      if "distinct rows" for rows and c :: "nat \<Rightarrow> nat"
      using that by (induction rows arbitrary: c) auto
    from this [of "[0..<ROWS]" "lfu_counters l"] show ?thesis
      using assms that by (simp add: lfu_record_def Let_def)
  qed
  have "fold (\<lambda>row out. min out (lfu_counters (lfu_record g l) (lfu_cell g row))) rows (min 255 (Suc n))
      = min 255 (Suc (fold (\<lambda>row out. min out (lfu_counters l (lfu_cell g row))) rows n))"
    if "\<forall>r \<in> set rows. r < ROWS" for rows n
    using that
  proof (induction rows arbitrary: n)
    case (Cons r rows)
    have "min (min 255 (Suc n)) (lfu_counters (lfu_record g l) (lfu_cell g r))
        = min 255 (Suc (min n (lfu_counters l (lfu_cell g r))))"
      using cell [of r] Cons.prems by simp
    then show ?case using Cons by simp
  qed simp
  from this [of "[0..<ROWS]" 255] show ?thesis by (simp add: lfu_estimate_def)
qed

section \<open>Route anchors\<close>

record route_residency =
  rr_budget :: nat
  rr_entries :: seq_map

definition route_resident_budget :: "nat \<Rightarrow> nat" where
  "route_resident_budget capacity = (if capacity < 4 then 0 else min (capacity div 4) 4096)"

definition rr_new :: "nat \<Rightarrow> route_residency" where
  "rr_new cache_capacity = \<lparr>rr_budget = route_resident_budget cache_capacity, rr_entries = []\<rparr>"

definition rr_contains :: "blob_guid \<Rightarrow> route_residency \<Rightarrow> bool" where
  "rr_contains guid r \<longleftrightarrow> map_of (rr_entries r) guid \<noteq> None"

definition rr_remove :: "blob_guid \<Rightarrow> route_residency \<Rightarrow> route_residency" where
  "rr_remove guid r = r\<lparr>rr_entries := AList.delete guid (rr_entries r)\<rparr>"

fun oldest :: "seq_map \<Rightarrow> (blob_guid \<times> nat) option \<Rightarrow> (blob_guid \<times> nat) option" where
  "oldest [] victim = victim"
| "oldest ((guid, tick) # rest) victim =
     oldest rest (case victim of None \<Rightarrow> Some (guid, tick)
       | Some (v, vmin) \<Rightarrow> if tick < vmin then Some (guid, tick) else victim)"

definition demote_oldest :: "route_residency \<Rightarrow> bool \<times> route_residency" where
  "demote_oldest r =
     (case oldest (rr_entries r) None of
        None \<Rightarrow> (False, r)
      | Some (guid, _) \<Rightarrow> (True, rr_remove guid r))"

lemma oldest_member: "oldest m v = Some (g, t) \<Longrightarrow> (g, t) \<in> set m \<or> v = Some (g, t)"
  by (induction m v rule: oldest.induct) (auto split: option.splits if_splits)

lemma length_delete_less: "g \<in> fst ` set m \<Longrightarrow> length (AList.delete g m) < length m"
  by (induction m) (auto simp: AList.delete_eq le_imp_less_Suc)

lemma demote_oldest_shrinks:
  assumes "(True, r') = demote_oldest r"
  shows "length (rr_entries r') < length (rr_entries r)"
proof -
  obtain g t where o: "oldest (rr_entries r) None = Some (g, t)" "r' = rr_remove g r"
    using assms by (auto simp: demote_oldest_def split: option.splits)
  then have "g \<in> fst ` set (rr_entries r)" using oldest_member [of "rr_entries r" None g t] by force
  then show ?thesis using length_delete_less o(2) by (simp add: rr_remove_def)
qed

function demote_over_budget :: "nat \<Rightarrow> route_residency \<Rightarrow> nat \<times> route_residency" where
  "demote_over_budget demotions r =
     (if length (rr_entries r) > rr_budget r
      then case demote_oldest r of
          (False, r') \<Rightarrow> (demotions, r')
        | (True, r') \<Rightarrow> demote_over_budget (demotions + 1) r'
      else (demotions, r))"
  by pat_completeness auto
termination
  by (relation "measure (length \<circ> rr_entries \<circ> snd)") (auto dest: demote_oldest_shrinks)

definition rr_mark :: "blob_guid \<Rightarrow> nat \<Rightarrow> route_residency \<Rightarrow> nat \<times> route_residency" where
  "rr_mark guid tick r =
     (if rr_budget r = 0 then (0, r)
      else if map_of (rr_entries r) guid \<noteq> None then (0, r\<lparr>rr_entries := AList.update guid tick (rr_entries r)\<rparr>)
      else demote_over_budget 0 (r\<lparr>rr_entries := AList.update guid tick (rr_entries r)\<rparr>))"

declare demote_over_budget.simps [simp del]

lemma oldest_None: "oldest m v = None \<Longrightarrow> m = [] \<and> v = None"
  by (induction m v rule: oldest.induct) (auto split: option.splits if_splits)

lemma demote_over_budget_bound:
  "rr_budget (snd (demote_over_budget n r)) = rr_budget r
   \<and> length (rr_entries (snd (demote_over_budget n r))) \<le> rr_budget r"
proof (induction n r rule: demote_over_budget.induct)
  case (1 n r)
  show ?case
  proof (cases "length (rr_entries r) > rr_budget r")
    case True
    have "oldest (rr_entries r) None \<noteq> None"
      using oldest_None [of "rr_entries r" None] True by fastforce
    then obtain r' where r': "demote_oldest r = (True, r')" by (force simp: demote_oldest_def)
    then have b: "rr_budget r' = rr_budget r" by (auto simp: demote_oldest_def rr_remove_def split: option.splits)
    have "demote_over_budget n r = demote_over_budget (n + 1) r'"
      using True r' by (subst demote_over_budget.simps) simp
    moreover have "rr_budget (snd (demote_over_budget (n + 1) r')) = rr_budget r'
        \<and> length (rr_entries (snd (demote_over_budget (n + 1) r'))) \<le> rr_budget r'"
      using 1 [OF True r' [symmetric]] by simp
    ultimately show ?thesis using b by simp
  qed (simp add: demote_over_budget.simps [of n r])
qed

lemma length_update_Some: "map_of m g \<noteq> None \<Longrightarrow> length (AList.update g v m) = length m"
  by (induction m) auto

text \<open>The tier never exceeds its budget, a quarter of the cache.\<close>

lemma rr_mark_bound:
  assumes "length (rr_entries r) \<le> rr_budget r"
  shows "length (rr_entries (snd (rr_mark g t r))) \<le> rr_budget r"
proof (cases "map_of (rr_entries r) g = None")
  case True
  then show ?thesis using assms demote_over_budget_bound [of 0 "r\<lparr>rr_entries := AList.update g t (rr_entries r)\<rparr>"]
    by (auto simp: rr_mark_def)
next
  case False
  then have "length (AList.update g t (rr_entries r)) = length (rr_entries r)"
    using length_update_Some [of "rr_entries r" g] by blast
  then show ?thesis using False assms by (auto simp: rr_mark_def)
qed

end
