(* ===== verification/Buffer_Manager.thy ===== *)
theory Buffer_Manager
  imports Cache_Policy
begin

text \<open>
  The buffer manager (\<^verbatim>\<open>buffer_manager/mod.rs\<close>, \<^verbatim>\<open>cached_blob.rs\<close>) over a blob store: the cache
  of page images, the dirty, flushing and pending-delete bookkeeping, eviction, and the
  write-through of checkpoint snapshots.  A call of the store may fail; its outcome is taken
  from a list of outcomes that is part of the store's state.
\<close>

section \<open>The blob store\<close>

record blob_store =
  bs_blobs :: "blob_guid \<Rightarrow> buf option"
  bs_unsynced :: bool
  bs_faults :: "io_outcome list"

definition io_next :: "blob_store \<Rightarrow> io_outcome \<times> blob_store" where
  "io_next st = (case bs_faults st of [] \<Rightarrow> (IoOk, st) | f # fs \<Rightarrow> (f, st\<lparr>bs_faults := fs\<rparr>))"

definition store_read_blob :: "blob_guid \<Rightarrow> (blob_store, buf) st" where
  "store_read_blob guid st =
     (case io_next st of
        (IoOk, st') \<Rightarrow> (ok_or (bs_blobs st' guid) (BlobStoreIo ''blob not found''), st')
      | (IoError _, st') \<Rightarrow> (Inl io_error, st'))"

definition put_images :: "(blob_guid \<times> buf) list \<Rightarrow> blob_store \<Rightarrow> blob_store" where
  "put_images writes st = st\<lparr>bs_blobs := fold (\<lambda>(guid, src) m. m(guid \<mapsto> src)) writes (bs_blobs st), bs_unsynced := True\<rparr>"

definition store_write_blobs :: "(blob_guid \<times> buf) list \<Rightarrow> (blob_store, unit) st" where
  "store_write_blobs writes st =
     (case io_next st of
        (IoOk, st') \<Rightarrow> (Inr (), put_images writes st')
      | (IoError n, st') \<Rightarrow> (Inl io_error, put_images (take n writes) st'))"

definition store_delete_blob :: "blob_guid \<Rightarrow> (blob_store, unit) st" where
  "store_delete_blob guid st =
     (case io_next st of
        (IoOk, st') \<Rightarrow> (Inr (), st'\<lparr>bs_blobs := (bs_blobs st')(guid := None), bs_unsynced := True\<rparr>)
      | (IoError _, st') \<Rightarrow> (Inl io_error, st'))"

definition store_flush :: "(blob_store, unit) st" where
  "store_flush st =
     (case io_next st of
        (IoOk, st') \<Rightarrow> (Inr (), st'\<lparr>bs_unsynced := False\<rparr>)
      | (IoError _, st') \<Rightarrow> (Inl io_error, st'))"

definition store_needs_flush :: "blob_store \<Rightarrow> bool" where
  "store_needs_flush st = bs_unsynced st"

section \<open>Cached blobs\<close>

text \<open>
  The content latch is seen as its version and whether a writer holds it.  \<open>cb_pins\<close> counts the
  references to the entry outside the cache, so that \<^verbatim>\<open>Arc::strong_count\<close> is one more.
\<close>

record cached_blob =
  cb_buf :: buf
  cb_version :: nat
  cb_locked :: bool
  cb_pins :: nat
  dirty_seq_hint :: nat
  last_touched :: nat

definition CLEAN_DIRTY_SEQ :: nat where
  "CLEAN_DIRTY_SEQ = 0"

definition cached_blob_new :: "buf \<Rightarrow> cached_blob" where
  "cached_blob_new buf = \<lparr>cb_buf = buf, cb_version = 0, cb_locked = False, cb_pins = 0,
     dirty_seq_hint = CLEAN_DIRTY_SEQ, last_touched = 0\<rparr>"

definition dirty_hint_needs_map_publish :: "nat \<Rightarrow> cached_blob \<Rightarrow> bool \<times> cached_blob" where
  "dirty_hint_needs_map_publish seq e =
     (let cur = dirty_seq_hint e
      in if cur \<noteq> CLEAN_DIRTY_SEQ \<and> cur \<le> seq then (False, e)
         else (True, e\<lparr>dirty_seq_hint := if cur = CLEAN_DIRTY_SEQ then seq else min cur seq\<rparr>))"

definition take_dirty_hint :: "cached_blob \<Rightarrow> nat option \<times> cached_blob" where
  "take_dirty_hint e =
     (if dirty_seq_hint e = CLEAN_DIRTY_SEQ then None else Some (dirty_seq_hint e),
      e\<lparr>dirty_seq_hint := CLEAN_DIRTY_SEQ\<rparr>)"

definition clear_dirty_hint :: "cached_blob \<Rightarrow> cached_blob" where
  "clear_dirty_hint e = e\<lparr>dirty_seq_hint := CLEAN_DIRTY_SEQ\<rparr>"

definition validate_content_version :: "nat \<Rightarrow> cached_blob \<Rightarrow> bool" where
  "validate_content_version version e \<longleftrightarrow> \<not> cb_locked e \<and> cb_version e = version"

lemma hint_sel [simp]:
  "cb_buf (clear_dirty_hint e) = cb_buf e" "cb_version (clear_dirty_hint e) = cb_version e"
  "cb_locked (clear_dirty_hint e) = cb_locked e" "cb_pins (clear_dirty_hint e) = cb_pins e"
  "cb_buf (snd (take_dirty_hint e)) = cb_buf e" "cb_version (snd (take_dirty_hint e)) = cb_version e"
  "cb_locked (snd (take_dirty_hint e)) = cb_locked e" "cb_pins (snd (take_dirty_hint e)) = cb_pins e"
  "cb_buf (snd (dirty_hint_needs_map_publish s e)) = cb_buf e"
  "cb_version (snd (dirty_hint_needs_map_publish s e)) = cb_version e"
  "cb_locked (snd (dirty_hint_needs_map_publish s e)) = cb_locked e"
  "cb_pins (snd (dirty_hint_needs_map_publish s e)) = cb_pins e"
  by (simp_all add: clear_dirty_hint_def take_dirty_hint_def dirty_hint_needs_map_publish_def Let_def)

section \<open>State and its parts\<close>

record buffer_manager =
  bm_store :: blob_store
  bm_capacity :: nat
  bm_cache :: "(blob_guid \<times> cached_blob) list"
  bm_admission :: tiny_lfu
  bm_route_resident :: route_residency
  bm_mutation :: "nat \<Rightarrow> mutation_state"
  bm_pending_delete_total :: nat
  bm_compact_cursor :: nat
  bm_merge_cursor :: nat
  bm_compact_total :: nat
  bm_merge_total :: nat
  bm_clock :: nat

definition bm_new :: "blob_store \<Rightarrow> nat \<Rightarrow> buffer_manager" where
  "bm_new st capacity = (let capacity = max capacity 1 in
     \<lparr>bm_store = st, bm_capacity = capacity, bm_cache = [], bm_admission = lfu_new,
      bm_route_resident = rr_new capacity, bm_mutation = (\<lambda>_. ms_default), bm_pending_delete_total = 0,
      bm_compact_cursor = 0, bm_merge_cursor = 0, bm_compact_total = 0, bm_merge_total = 0, bm_clock = 1\<rparr>)"

definition mutation_shard :: "blob_guid \<Rightarrow> buffer_manager \<Rightarrow> mutation_state" where
  "mutation_shard guid bm = bm_mutation bm (bookkeeping_shard_idx guid)"

definition set_shard :: "nat \<Rightarrow> mutation_state \<Rightarrow> buffer_manager \<Rightarrow> buffer_manager" where
  "set_shard i s bm = bm\<lparr>bm_mutation := (bm_mutation bm)(i := s)\<rparr>"

abbreviation upd_shard :: "blob_guid \<Rightarrow> (mutation_state \<Rightarrow> mutation_state) \<Rightarrow> buffer_manager \<Rightarrow> buffer_manager" where
  "upd_shard guid f bm \<equiv> set_shard (bookkeeping_shard_idx guid) (f (mutation_shard guid bm)) bm"

abbreviation cached_at :: "buffer_manager \<Rightarrow> blob_guid \<Rightarrow> cached_blob option" where
  "cached_at bm guid \<equiv> map_of (bm_cache bm) guid"

definition upd_cached :: "blob_guid \<Rightarrow> (cached_blob \<Rightarrow> cached_blob) \<Rightarrow> buffer_manager \<Rightarrow> buffer_manager" where
  "upd_cached guid f bm =
     (case cached_at bm guid of None \<Rightarrow> bm | Some e \<Rightarrow> bm\<lparr>bm_cache := AList.update guid (f e) (bm_cache bm)\<rparr>)"

definition on_store :: "(blob_store, 'a) st \<Rightarrow> (buffer_manager, 'a) st" where
  "on_store m bm = (case m (bm_store bm) of (r, st) \<Rightarrow> (r, bm\<lparr>bm_store := st\<rparr>))"

definition is_pending_delete :: "blob_guid \<Rightarrow> buffer_manager \<Rightarrow> bool" where
  "is_pending_delete guid bm \<longleftrightarrow> bm_pending_delete_total bm \<noteq> 0
     \<and> map_of (ms_pending_deletes (mutation_shard guid bm)) guid \<noteq> None"

definition pending_delete_not_found :: error where
  "pending_delete_not_found = BlobStoreIo ''blob is pending delete''"

section \<open>Cache access and eviction\<close>

datatype pin_access = Point | Scan | Silent

definition get_cached_with_access :: "blob_guid \<Rightarrow> pin_access \<Rightarrow> buffer_manager \<Rightarrow> cached_blob option \<times> buffer_manager" where
  "get_cached_with_access guid access bm =
     (case cached_at bm guid of
        None \<Rightarrow> (None, if access = Point then bm\<lparr>bm_admission := lfu_record guid (bm_admission bm)\<rparr> else bm)
      | Some e \<Rightarrow>
          if access = Point
          then let bm = bm\<lparr>bm_admission := lfu_record guid (bm_admission bm)\<rparr>; tick = bm_clock bm;
                   e' = e\<lparr>last_touched := tick\<rparr>
               in (Some e', bm\<lparr>bm_clock := tick + 1, bm_cache := AList.update guid e' (bm_cache bm)\<rparr>)
          else (Some e, bm))"

text \<open>The choice of a victim: unpinned, unprotected, not an anchor, coldest first.\<close>

fun pick_victim :: "(blob_guid \<Rightarrow> bool) \<Rightarrow> (blob_guid \<Rightarrow> nat) \<Rightarrow> nat \<Rightarrow> (blob_guid \<times> cached_blob) list
    \<Rightarrow> (blob_guid \<times> nat \<times> nat) option \<Rightarrow> (blob_guid \<times> nat \<times> nat) option" where
  "pick_victim skip freq_of max_last_touched [] victim = victim"
| "pick_victim skip freq_of max_last_touched ((guid, e) # rest) victim =
     (if cb_pins e \<noteq> 0 \<or> skip guid \<or> last_touched e > max_last_touched
      then pick_victim skip freq_of max_last_touched rest victim
      else let freq = freq_of guid; tick = last_touched e
           in pick_victim skip freq_of max_last_touched rest
             (case victim of
                None \<Rightarrow> Some (guid, freq, tick)
              | Some (_, vfreq, vtick) \<Rightarrow>
                  if freq < vfreq \<or> freq = vfreq \<and> tick < vtick then Some (guid, freq, tick) else victim))"

definition protected_anywhere :: "buffer_manager \<Rightarrow> blob_guid \<Rightarrow> bool" where
  "protected_anywhere bm guid \<longleftrightarrow> (\<exists>i < BOOKKEEPING_SHARDS. is_protected_or_pending guid (bm_mutation bm i))"

definition removable :: "blob_guid \<Rightarrow> buffer_manager \<Rightarrow> bool" where
  "removable guid bm \<longleftrightarrow> \<not> rr_contains guid (bm_route_resident bm)
     \<and> (case cached_at bm guid of None \<Rightarrow> False | Some e \<Rightarrow> cb_pins e = 0)
     \<and> \<not> is_protected_or_pending guid (mutation_shard guid bm)"

definition drop_cached :: "blob_guid \<Rightarrow> buffer_manager \<Rightarrow> buffer_manager" where
  "drop_cached guid bm = bm\<lparr>bm_cache := AList.delete guid (bm_cache bm)\<rparr>"

definition try_evict_cold :: "blob_guid \<Rightarrow> buffer_manager \<Rightarrow> bool \<times> buffer_manager" where
  "try_evict_cold guid bm =
     (if rr_contains guid (bm_route_resident bm) then (False, bm)
      else if is_protected_or_pending guid (mutation_shard guid bm) then (False, bm)
      else if removable guid bm then (True, drop_cached guid bm) else (False, bm))"

definition try_evict_until :: "nat \<Rightarrow> (blob_guid \<times> nat) option \<Rightarrow> buffer_manager \<Rightarrow> bool \<times> buffer_manager" where
  "try_evict_until max_last_touched candidate bm =
     (let victim = pick_victim (\<lambda>g. protected_anywhere bm g \<or> rr_contains g (bm_route_resident bm))
            (\<lambda>g. if candidate \<noteq> None then lfu_estimate (bm_admission bm) g else 0)
            max_last_touched (bm_cache bm) None
      in case victim of
           None \<Rightarrow> (False, bm)
         | Some (guid, freq, _) \<Rightarrow>
             (case candidate of
                Some (candidate_guid, candidate_freq) \<Rightarrow>
                  if guid \<noteq> candidate_guid \<and> freq > candidate_freq then (False, bm)
                  else if removable guid bm then (True, drop_cached guid bm) else (False, bm)
              | None \<Rightarrow> if removable guid bm then (True, drop_cached guid bm) else (False, bm)))"

definition U64_MAX :: nat where
  "U64_MAX = 2 ^ 64 - 1"

definition try_evict_for_point_insert :: "blob_guid \<Rightarrow> buffer_manager \<Rightarrow> bool \<times> buffer_manager" where
  "try_evict_for_point_insert candidate bm =
     try_evict_until U64_MAX (Some (candidate, lfu_estimate (bm_admission bm) candidate)) bm"

definition try_evict_scan_cold :: "buffer_manager \<Rightarrow> bool \<times> buffer_manager" where
  "try_evict_scan_cold bm = try_evict_until 0 None bm"

lemma removable_cached: "removable g bm \<Longrightarrow> g \<in> fst ` set (bm_cache bm)"
  by (force simp: removable_def dest: map_of_SomeD split: option.splits)

lemma try_evict_until_cases:
  "try_evict_until t c bm = (False, bm)
   \<or> (\<exists>g. removable g bm \<and> try_evict_until t c bm = (True, drop_cached g bm))"
  by (auto simp: try_evict_until_def Let_def split: option.splits prod.splits)

definition evict_for :: "blob_guid \<Rightarrow> pin_access \<Rightarrow> buffer_manager \<Rightarrow> bool \<times> buffer_manager" where
  "evict_for guid access bm = (case access of Point \<Rightarrow> try_evict_for_point_insert guid bm | _ \<Rightarrow> try_evict_scan_cold bm)"

lemma evict_for_cases:
  "evict_for g a bm = (False, bm) \<or> (\<exists>v. removable v bm \<and> evict_for g a bm = (True, drop_cached v bm))"
  using try_evict_until_cases
  by (auto simp: evict_for_def try_evict_for_point_insert_def try_evict_scan_cold_def split: pin_access.splits)

lemma evict_for_shrinks:
  assumes "(True, bm') = evict_for g a bm"
  shows "length (bm_cache bm') < length (bm_cache bm)"
  using assms evict_for_cases [of g a bm] length_delete_less [OF removable_cached]
  by (auto simp: drop_cached_def)

text \<open>The inline overflow loop, with its budget of retries.\<close>

function evict_overflow :: "blob_guid \<Rightarrow> pin_access \<Rightarrow> nat \<Rightarrow> nat \<Rightarrow> buffer_manager \<Rightarrow> buffer_manager" where
  "evict_overflow guid access retries_left entry_spins bm =
     (if length (bm_cache bm) > bm_capacity bm
      then case evict_for guid access bm of
          (True, bm') \<Rightarrow> evict_overflow guid access retries_left (length (bm_cache bm')) bm'
        | (False, bm') \<Rightarrow>
            if retries_left = 0 \<or> entry_spins = 0 then bm'
            else evict_overflow guid access (retries_left - 1) (entry_spins - 1) bm
      else bm)"
  by pat_completeness auto
termination
  by (relation "measures [\<lambda>(_, _, _, _, bm). length (bm_cache bm), \<lambda>(_, _, r, _, _). r]")
    (auto dest: evict_for_shrinks)

declare evict_overflow.simps [simp del]

definition RETRY_BUDGET :: nat where
  "RETRY_BUDGET = 8"

text \<open>The entry returned by the next two functions is pinned by the caller.\<close>

definition insert_owned_into_cache :: "blob_guid \<Rightarrow> buf \<Rightarrow> pin_access \<Rightarrow> buffer_manager \<Rightarrow> buffer_manager" where
  "insert_owned_into_cache guid contents access bm =
     (let hot_tick = (if access = Point then Some (bm_clock bm) else None);
          bm = (if access = Point then bm\<lparr>bm_clock := bm_clock bm + 1\<rparr> else bm);
          bm = (if cached_at bm guid = None
                then bm\<lparr>bm_cache := AList.update guid
                  ((cached_blob_new contents)\<lparr>last_touched := case hot_tick of None \<Rightarrow> 0 | Some t \<Rightarrow> t\<rparr>) (bm_cache bm)\<rparr>
                else bm);
          bm = upd_cached guid (\<lambda>e. e\<lparr>last_touched := (case hot_tick of None \<Rightarrow> last_touched e | Some t \<Rightarrow> t),
                 cb_pins := cb_pins e + 1\<rparr>) bm
      in evict_overflow guid access RETRY_BUDGET (length (bm_cache bm)) bm)"

definition pin_with_access :: "blob_guid \<Rightarrow> pin_access \<Rightarrow> (buffer_manager, unit) st" where
  "pin_with_access guid access bm =
     (if is_pending_delete guid bm then (Inl pending_delete_not_found, bm)
      else case get_cached_with_access guid access bm of
          (Some _, bm') \<Rightarrow> (Inr (), upd_cached guid (\<lambda>e. e\<lparr>cb_pins := cb_pins e + 1\<rparr>) bm')
        | (None, bm') \<Rightarrow>
            (case on_store (store_read_blob guid) bm' of
               (Inl err, bm') \<Rightarrow> (Inl err, bm')
             | (Inr scratch, bm') \<Rightarrow>
                 if is_pending_delete guid bm' then (Inl pending_delete_not_found, bm')
                 else (Inr (), insert_owned_into_cache guid scratch access bm')))"

definition unpin :: "blob_guid \<Rightarrow> buffer_manager \<Rightarrow> buffer_manager" where
  "unpin guid bm = upd_cached guid (\<lambda>e. e\<lparr>cb_pins := cb_pins e - 1\<rparr>) bm"

section \<open>Dirty tracking\<close>

definition mark_dirty_with_hint :: "blob_guid \<Rightarrow> nat \<Rightarrow> buffer_manager \<Rightarrow> buffer_manager" where
  "mark_dirty_with_hint guid seq bm =
     (case cached_at bm guid of
        None \<Rightarrow> bm
      | Some cached \<Rightarrow>
          (case dirty_hint_needs_map_publish seq cached of (needs_publish, cached') \<Rightarrow>
           let hint_covers_seq = \<not> needs_publish; bm = upd_cached guid (\<lambda>_. cached') bm; state = mutation_shard guid bm
           in if map_of (ms_pending_deletes state) guid \<noteq> None then upd_cached guid clear_dirty_hint bm
              else if hint_covers_seq \<and> (case map_of (ms_dirty state) guid of Some cur \<Rightarrow> cur \<le> seq | None \<Rightarrow> False) then bm
              else let bm = (if hint_covers_seq
                       then upd_cached guid (\<lambda>e. snd (dirty_hint_needs_map_publish seq (clear_dirty_hint e))) bm else bm)
                   in upd_shard guid (\<lambda>s. s\<lparr>ms_dirty := merge_min guid seq (ms_dirty s)\<rparr>) bm))"

definition mark_dirty :: "blob_guid \<Rightarrow> nat \<Rightarrow> buffer_manager \<Rightarrow> buffer_manager" where
  "mark_dirty guid seq bm = mark_dirty_with_hint guid seq bm"

fun take_hints :: "seq_map \<Rightarrow> buffer_manager \<Rightarrow> seq_map \<times> buffer_manager" where
  "take_hints [] bm = ([], bm)"
| "take_hints ((guid, seq) # rest) bm =
     (case cached_at bm guid of
        None \<Rightarrow> (case take_hints rest bm of (out, bm') \<Rightarrow> ((guid, seq) # out, bm'))
      | Some e \<Rightarrow>
          let seq' = (case fst (take_dirty_hint e) of None \<Rightarrow> seq | Some hinted_seq \<Rightarrow> min seq hinted_seq)
          in case take_hints rest (upd_cached guid (snd \<circ> take_dirty_hint) bm) of (out, bm') \<Rightarrow> ((guid, seq') # out, bm'))"

fun claim_dirty :: "nat \<Rightarrow> seq_map \<Rightarrow> buffer_manager \<Rightarrow> seq_map \<times> buffer_manager" where
  "claim_dirty i [] bm = ([], bm)"
| "claim_dirty i ((guid, seq) # rest) bm =
     (if map_of (ms_pending_deletes (bm_mutation bm i)) guid \<noteq> None
      then claim_dirty i rest (upd_cached guid clear_dirty_hint bm)
      else case claim_dirty i rest (set_shard i (add_flushing guid (bm_mutation bm i)) bm) of
             (out, bm') \<Rightarrow> ((guid, seq) # out, bm'))"

definition snapshot_dirty_shard :: "nat \<Rightarrow> buffer_manager \<Rightarrow> seq_map \<times> buffer_manager" where
  "snapshot_dirty_shard i bm =
     (case take_hints (ms_dirty (bm_mutation bm i)) bm of (snap, bm1) \<Rightarrow>
      claim_dirty i snap (set_shard i ((bm_mutation bm1 i)\<lparr>ms_dirty := []\<rparr>) bm1))"

fun snapshot_shards :: "(nat \<Rightarrow> buffer_manager \<Rightarrow> seq_map \<times> buffer_manager) \<Rightarrow> nat list \<Rightarrow> buffer_manager \<Rightarrow> seq_map \<times> buffer_manager" where
  "snapshot_shards f [] bm = ([], bm)"
| "snapshot_shards f (i # rest) bm =
     (case f i bm of (out, bm1) \<Rightarrow> case snapshot_shards f rest bm1 of (outs, bm2) \<Rightarrow> (out @ outs, bm2))"

definition snapshot_dirty :: "buffer_manager \<Rightarrow> seq_map \<times> buffer_manager" where
  "snapshot_dirty = snapshot_shards snapshot_dirty_shard [0..<BOOKKEEPING_SHARDS]"

record dirty_snapshot_entry =
  ds_guid :: blob_guid
  ds_expected_seq :: nat
  ds_content_version :: nat

fun snapshot_dirty_versions :: "seq_map \<Rightarrow> buffer_manager \<Rightarrow> dirty_snapshot_entry list res" where
  "snapshot_dirty_versions [] bm = Inr []"
| "snapshot_dirty_versions ((guid, seq) # rest) bm =
     (case cached_at bm guid of
        None \<Rightarrow> Inl (Internal ''snapshot_dirty_versions: dirty entry lost cache image'')
      | Some e \<Rightarrow> rbind (snapshot_dirty_versions rest bm)
          (\<lambda>out. Inr (\<lparr>ds_guid = guid, ds_expected_seq = seq, ds_content_version = cb_version e\<rparr> # out)))"

fun restore_dirty :: "seq_map \<Rightarrow> buffer_manager \<Rightarrow> buffer_manager" where
  "restore_dirty [] bm = bm"
| "restore_dirty ((guid, t) # rest) bm =
     (let bm = upd_cached guid (\<lambda>e. snd (dirty_hint_needs_map_publish t e)) bm;
          state = mutation_shard guid bm
      in if map_of (ms_pending_deletes state) guid \<noteq> None
         then restore_dirty rest (upd_shard guid (remove_one_flushing guid) (upd_cached guid clear_dirty_hint bm))
         else restore_dirty rest (upd_shard guid
           (\<lambda>s. let s = remove_one_flushing guid s in s\<lparr>ms_dirty := merge_min guid t (ms_dirty s)\<rparr>) bm))"

definition dirty_count :: "buffer_manager \<Rightarrow> nat" where
  "dirty_count bm = (\<Sum>i<BOOKKEEPING_SHARDS. length (ms_dirty (bm_mutation bm i)))"

definition flushing_count :: "buffer_manager \<Rightarrow> nat" where
  "flushing_count bm = (\<Sum>i<BOOKKEEPING_SHARDS. sum_list (map snd (ms_flushing (bm_mutation bm i))))"

section \<open>Deferred deletion\<close>

definition decrement_candidate_totals :: "bool \<times> bool \<Rightarrow> buffer_manager \<Rightarrow> buffer_manager" where
  "decrement_candidate_totals removed bm = bm\<lparr>
     bm_compact_total := bm_compact_total bm - (if fst removed then 1 else 0),
     bm_merge_total := bm_merge_total bm - (if snd removed then 1 else 0)\<rparr>"

definition mark_for_delete :: "blob_guid \<Rightarrow> nat \<Rightarrow> buffer_manager \<Rightarrow> buffer_manager" where
  "mark_for_delete guid seq bm =
     (let state = mutation_shard guid bm;
          bm = (if map_of (ms_pending_deletes state) guid = None
                then bm\<lparr>bm_pending_delete_total := bm_pending_delete_total bm + 1\<rparr> else bm);
          state = remove_dirty guid (state\<lparr>ms_pending_deletes := merge_min guid seq (ms_pending_deletes state)\<rparr>);
          removed = fst (remove_maintenance_candidates guid state);
          bm = set_shard (bookkeeping_shard_idx guid) (snd (remove_maintenance_candidates guid state)) bm
      in drop_cached guid (decrement_candidate_totals removed bm))"

definition snapshot_pending_shard :: "nat \<Rightarrow> buffer_manager \<Rightarrow> seq_map \<times> buffer_manager" where
  "snapshot_pending_shard i bm =
     (let pending = ms_pending_deletes (bm_mutation bm i)
      in (pending, set_shard i ((bm_mutation bm i)\<lparr>ms_pending_deletes := []\<rparr>)
            (bm\<lparr>bm_pending_delete_total := bm_pending_delete_total bm - length pending\<rparr>)))"

definition snapshot_pending_deletes :: "buffer_manager \<Rightarrow> seq_map \<times> buffer_manager" where
  "snapshot_pending_deletes = snapshot_shards snapshot_pending_shard [0..<BOOKKEEPING_SHARDS]"

fun restore_pending_deletes :: "seq_map \<Rightarrow> buffer_manager \<Rightarrow> buffer_manager" where
  "restore_pending_deletes [] bm = bm"
| "restore_pending_deletes ((g, t) # rest) bm =
     (let bm = (if map_of (ms_pending_deletes (mutation_shard g bm)) g = None
                then bm\<lparr>bm_pending_delete_total := bm_pending_delete_total bm + 1\<rparr> else bm)
      in restore_pending_deletes rest
           (upd_shard g (\<lambda>s. s\<lparr>ms_pending_deletes := merge_min g t (ms_pending_deletes s)\<rparr>) bm))"

definition pending_delete_count :: "buffer_manager \<Rightarrow> nat" where
  "pending_delete_count bm = bm_pending_delete_total bm"

definition execute_pending_delete :: "blob_guid \<Rightarrow> (buffer_manager, unit) st" where
  "execute_pending_delete guid = on_store (store_delete_blob guid)"

section \<open>Maintenance hints\<close>

definition note_compaction_candidate :: "blob_guid \<Rightarrow> buffer_manager \<Rightarrow> buffer_manager" where
  "note_compaction_candidate guid bm =
     (let state = mutation_shard guid bm
      in if map_of (ms_pending_deletes state) guid = None
         then case mq_insert guid (ms_compact_candidates state) of (new, q) \<Rightarrow>
           (let bm = upd_shard guid (\<lambda>s. s\<lparr>ms_compact_candidates := q\<rparr>) bm
            in if new then bm\<lparr>bm_compact_total := bm_compact_total bm + 1\<rparr> else bm)
         else bm)"

definition note_merge_candidate :: "blob_guid \<Rightarrow> buffer_manager \<Rightarrow> buffer_manager" where
  "note_merge_candidate guid bm =
     (let state = mutation_shard guid bm
      in if map_of (ms_pending_deletes state) guid = None
         then case mq_insert guid (ms_merge_candidates state) of (new, q) \<Rightarrow>
           (let bm = upd_shard guid (\<lambda>s. s\<lparr>ms_merge_candidates := q\<rparr>) bm
            in if new then bm\<lparr>bm_merge_total := bm_merge_total bm + 1\<rparr> else bm)
         else bm)"

definition pop_compaction_candidates :: "nat \<Rightarrow> buffer_manager \<Rightarrow> blob_guid list \<times> buffer_manager" where
  "pop_compaction_candidates limit bm =
     (case pop_candidate_batch Compact (bm_compact_cursor bm) limit (bm_mutation bm) of (out, shards) \<Rightarrow>
      (out, bm\<lparr>bm_mutation := shards, bm_compact_total := bm_compact_total bm - length out,
        bm_compact_cursor := (if limit = 0 then bm_compact_cursor bm else bm_compact_cursor bm + 1)\<rparr>))"

definition pop_merge_candidates :: "nat \<Rightarrow> buffer_manager \<Rightarrow> blob_guid list \<times> buffer_manager" where
  "pop_merge_candidates limit bm =
     (case pop_candidate_batch Merge (bm_merge_cursor bm) limit (bm_mutation bm) of (out, shards) \<Rightarrow>
      (out, bm\<lparr>bm_mutation := shards, bm_merge_total := bm_merge_total bm - length out,
        bm_merge_cursor := (if limit = 0 then bm_merge_cursor bm else bm_merge_cursor bm + 1)\<rparr>))"

section \<open>Write-through\<close>

record write_through_entry =
  wt_guid :: blob_guid
  wt_bytes :: buf
  wt_expected_seq :: nat
  wt_content_version :: "nat option"

datatype write_through_status = Written | Stale

definition STRUCTURAL_SEQ :: nat where
  "STRUCTURAL_SEQ = 2 ^ 64 - 1"

definition store_has_blob :: "blob_guid \<Rightarrow> buffer_manager \<Rightarrow> bool" where
  "store_has_blob guid bm \<longleftrightarrow> bs_blobs (bm_store bm) guid \<noteq> None"

definition has_unflushed_blob :: "blob_guid \<Rightarrow> buffer_manager \<Rightarrow> bool" where
  "has_unflushed_blob guid bm \<longleftrightarrow> is_protected guid (mutation_shard guid bm)"

text \<open>A shared guard waits for a writer; the snapshot is taken once the latch is free.\<close>

definition snapshot_bytes :: "blob_guid \<Rightarrow> buffer_manager \<Rightarrow> buf option" where
  "snapshot_bytes guid bm = map_option cb_buf (cached_at bm guid)"

definition snapshot_bytes_if_version :: "blob_guid \<Rightarrow> nat \<Rightarrow> buffer_manager \<Rightarrow> buf option res" where
  "snapshot_bytes_if_version guid content_version bm =
     (case cached_at bm guid of
        None \<Rightarrow> Inl (Internal ''snapshot_bytes_if_version: dirty entry lost cache image'')
      | Some e \<Rightarrow> Inr (if cb_version e \<noteq> content_version then None else Some (cb_buf e)))"

definition write_snapshot_is_current :: "write_through_entry \<Rightarrow> buffer_manager \<Rightarrow> bool res" where
  "write_snapshot_is_current w bm =
     (case wt_content_version w of
        None \<Rightarrow> Inr True
      | Some version \<Rightarrow>
          (case cached_at bm (wt_guid w) of
             None \<Rightarrow> Inl (Internal ''write_through_batch: flushing entry lost cache image'')
           | Some cached \<Rightarrow> Inr (validate_content_version version cached)))"

definition retire_write_through :: "blob_guid \<Rightarrow> nat \<Rightarrow> buffer_manager \<Rightarrow> buffer_manager" where
  "retire_write_through guid expected_seq bm =
     (let bm = upd_shard guid (\<lambda>s.
            let s = (if expected_seq \<noteq> STRUCTURAL_SEQ \<and> map_of (ms_dirty s) guid = Some expected_seq
                     then s\<lparr>ms_dirty := AList.delete guid (ms_dirty s)\<rparr> else s)
            in remove_one_flushing guid s) bm;
          still_dirty = is_protected guid (mutation_shard guid bm)
      in if still_dirty then bm else upd_cached guid clear_dirty_hint bm)"

fun current_flags :: "write_through_entry list \<Rightarrow> buffer_manager \<Rightarrow> bool list res" where
  "current_flags [] bm = Inr []"
| "current_flags (w # ws) bm =
     rbind (write_snapshot_is_current w bm) (\<lambda>c. rbind (current_flags ws bm) (\<lambda>cs. Inr (c # cs)))"

definition retire_all :: "write_through_entry list \<Rightarrow> buffer_manager \<Rightarrow> buffer_manager" where
  "retire_all ws bm = fold (\<lambda>w. retire_write_through (wt_guid w) (wt_expected_seq w)) ws bm"

definition write_through_batch :: "write_through_entry list \<Rightarrow> (buffer_manager, write_through_status list) st" where
  "write_through_batch entries bm =
     (if entries = [] then (Inr [], bm)
      else case current_flags entries bm of
          Inl e \<Rightarrow> (Inl e, bm)
        | Inr flags \<Rightarrow>
            let current = map fst (filter snd (zip entries flags));
                stale = map fst (filter (Not \<circ> snd) (zip entries flags));
                writes = map (\<lambda>w. (wt_guid w, wt_bytes w)) current
            in case (if writes = [] then (Inr (), bm) else on_store (store_write_blobs writes) bm) of
                 (Inl e, bm') \<Rightarrow> (Inl e, bm')
               | (Inr _, bm') \<Rightarrow> (Inr (map (\<lambda>c. if c then Written else Stale) flags), retire_all stale (retire_all current bm')))"

definition flush_inner :: "(buffer_manager, unit) st" where
  "flush_inner = on_store store_flush"

definition bm_needs_flush :: "buffer_manager \<Rightarrow> bool" where
  "bm_needs_flush bm = store_needs_flush (bm_store bm)"

definition install_new_blob :: "blob_guid \<Rightarrow> buf \<Rightarrow> nat \<Rightarrow> buffer_manager \<Rightarrow> buffer_manager" where
  "install_new_blob guid bytes seq bm =
     (let tick = bm_clock bm;
          e = snd (dirty_hint_needs_map_publish seq ((cached_blob_new bytes)\<lparr>last_touched := tick\<rparr>));
          bm = bm\<lparr>bm_clock := tick + 1, bm_cache := AList.update guid e (bm_cache bm)\<rparr>
      in upd_shard guid (\<lambda>s. s\<lparr>ms_dirty := merge_min guid seq (ms_dirty s)\<rparr>) bm)"

definition bm_has_blob :: "blob_guid \<Rightarrow> buffer_manager \<Rightarrow> bool" where
  "bm_has_blob guid bm \<longleftrightarrow> \<not> is_pending_delete guid bm \<and> (cached_at bm guid \<noteq> None \<or> store_has_blob guid bm)"

end
