(* ===== verification/Bm_Spec.thy ===== *)
theory Bm_Spec
  imports Buffer_Manager
begin

text \<open>
  What the buffer manager promises, seen through maps: which blobs are cached, dirty, being
  flushed or pending deletion.  Shards, hash maps, dirty hints and recency are gone; every
  operation of the code refines one on these maps.
\<close>

section \<open>The view\<close>

record tracking =
  tr_cache :: "blob_guid \<Rightarrow> cached_blob option"
  tr_dirty :: "blob_guid \<Rightarrow> nat option"
  tr_flushing :: "blob_guid \<Rightarrow> nat option"
  tr_pending :: "blob_guid \<Rightarrow> nat option"
  tr_store :: blob_store

text \<open>A cached blob without its recency and its dirty hint.\<close>

definition core :: "cached_blob \<Rightarrow> cached_blob" where
  "core e = e\<lparr>dirty_seq_hint := 0, last_touched := 0\<rparr>"

definition track :: "buffer_manager \<Rightarrow> tracking" where
  "track bm = \<lparr>tr_cache = (\<lambda>g. map_option core (cached_at bm g)),
     tr_dirty = (\<lambda>g. map_of (ms_dirty (mutation_shard g bm)) g),
     tr_flushing = (\<lambda>g. map_of (ms_flushing (mutation_shard g bm)) g),
     tr_pending = (\<lambda>g. map_of (ms_pending_deletes (mutation_shard g bm)) g),
     tr_store = bm_store bm\<rparr>"

lemma core_sel [simp]:
  "cb_buf (core e) = cb_buf e" "cb_version (core e) = cb_version e" "cb_locked (core e) = cb_locked e"
  "cb_pins (core e) = cb_pins e"
  by (simp_all add: core_def)

lemma core_hint [simp]:
  "core (clear_dirty_hint e) = core e" "core (snd (take_dirty_hint e)) = core e"
  "core (snd (dirty_hint_needs_map_publish s e)) = core e" "core (e\<lparr>last_touched := t\<rparr>) = core e"
  by (simp_all add: core_def clear_dirty_hint_def take_dirty_hint_def dirty_hint_needs_map_publish_def Let_def)

text \<open>Every map holds the blobs of its shard, once.\<close>

definition placed :: "nat \<Rightarrow> seq_map \<Rightarrow> bool" where
  "placed i m \<longleftrightarrow> distinct (map fst m) \<and> (\<forall>g \<in> fst ` set m. bookkeeping_shard_idx g = i)"

definition positive :: "seq_map \<Rightarrow> bool" where
  "positive m \<longleftrightarrow> (\<forall>c \<in> snd ` set m. 0 < c)"

definition shard_wf :: "nat \<Rightarrow> mutation_state \<Rightarrow> bool" where
  "shard_wf i s \<longleftrightarrow> placed i (ms_dirty s) \<and> placed i (ms_flushing s) \<and> placed i (ms_pending_deletes s)
     \<and> positive (ms_flushing s)"

definition bm_wf :: "buffer_manager \<Rightarrow> bool" where
  "bm_wf bm \<longleftrightarrow> distinct (map fst (bm_cache bm)) \<and> (\<forall>i. shard_wf i (bm_mutation bm i))
     \<and> bm_pending_delete_total bm = (\<Sum>i<BOOKKEEPING_SHARDS. length (ms_pending_deletes (bm_mutation bm i)))"

section \<open>Small updates\<close>

lemma placed_update:
  assumes "placed (bookkeeping_shard_idx g) m"
  shows "placed (bookkeeping_shard_idx g) (AList.update g v m)"
proof -
  have "fst ` set (AList.update g v m) = insert g (fst ` set m)" by (simp add: dom_update)
  then show ?thesis using assms by (auto simp: placed_def distinct_update simp del: ball_simps)
qed

lemma placed_merge_min: "placed (bookkeeping_shard_idx g) m \<Longrightarrow> placed (bookkeeping_shard_idx g) (merge_min g s m)"
  unfolding merge_min_def by (rule placed_update)

lemma placed_delete [simp]: "placed i m \<Longrightarrow> placed i (AList.delete g m)"
  by (auto simp: placed_def AList.delete_eq distinct_map_filter)

lemma placed_Nil [simp]: "placed i []"
  by (simp add: placed_def)

lemma placed_lookup: "placed i m \<Longrightarrow> map_of m g = Some v \<Longrightarrow> bookkeeping_shard_idx g = i"
  by (force simp: placed_def dest: map_of_SomeD)

lemma placed_other: "placed i m \<Longrightarrow> bookkeeping_shard_idx g \<noteq> i \<Longrightarrow> map_of m g = None"
  using placed_lookup by (cases "map_of m g") auto

lemma track_set_shard:
  "track (set_shard i s bm) = (track bm)\<lparr>
     tr_dirty := (\<lambda>g. if bookkeeping_shard_idx g = i then map_of (ms_dirty s) g else tr_dirty (track bm) g),
     tr_flushing := (\<lambda>g. if bookkeeping_shard_idx g = i then map_of (ms_flushing s) g else tr_flushing (track bm) g),
     tr_pending := (\<lambda>g. if bookkeeping_shard_idx g = i then map_of (ms_pending_deletes s) g else tr_pending (track bm) g)\<rparr>"
  by (auto simp: track_def set_shard_def mutation_shard_def fun_eq_iff)

lemma set_shard_sel [simp]:
  "bm_cache (set_shard i s bm) = bm_cache bm" "bm_store (set_shard i s bm) = bm_store bm"
  "bm_mutation (set_shard i s bm) = (bm_mutation bm)(i := s)"
  "bm_pending_delete_total (set_shard i s bm) = bm_pending_delete_total bm"
  "bm_capacity (set_shard i s bm) = bm_capacity bm"
  by (simp_all add: set_shard_def)

lemma upd_cached_sel [simp]:
  "bm_mutation (upd_cached g f bm) = bm_mutation bm" "bm_store (upd_cached g f bm) = bm_store bm"
  "bm_pending_delete_total (upd_cached g f bm) = bm_pending_delete_total bm"
  "mutation_shard h (upd_cached g f bm) = mutation_shard h bm"
  "cached_at (upd_cached g f bm) = (cached_at bm)(g := map_option f (cached_at bm g))"
  by (auto simp: upd_cached_def mutation_shard_def fun_eq_iff split: option.splits)

lemma distinct_upd_cached [simp]:
  "distinct (map fst (bm_cache bm)) \<Longrightarrow> distinct (map fst (bm_cache (upd_cached g f bm)))"
  by (auto simp: upd_cached_def distinct_update split: option.splits)

lemma bm_wf_upd_cached [simp]: "bm_wf bm \<Longrightarrow> bm_wf (upd_cached g f bm)"
  by (simp add: bm_wf_def)

lemma track_upd_cached:
  "track (upd_cached g f bm) = (track bm)\<lparr>tr_cache := (tr_cache (track bm))(g := map_option (core \<circ> f) (cached_at bm g))\<rparr>"
  by (auto simp: track_def fun_eq_iff option.map_comp)

lemma track_upd_hint:
  assumes "\<And>e. cached_at bm g = Some e \<Longrightarrow> core (f e) = core e"
  shows "track (upd_cached g f bm) = track bm"
  using assms by (cases "cached_at bm g") (auto simp: track_upd_cached track_def fun_eq_iff)

lemma sum_shard:
  fixes f :: "mutation_state \<Rightarrow> nat"
  assumes "i < BOOKKEEPING_SHARDS"
  shows "(\<Sum>j<BOOKKEEPING_SHARDS. f (((sh)(i := s)) j)) + f (sh i) = (\<Sum>j<BOOKKEEPING_SHARDS. f (sh j)) + f s"
proof -
  have "(\<Sum>j<BOOKKEEPING_SHARDS. f ((sh(i := s)) j)) = f s + (\<Sum>j\<in>{..<BOOKKEEPING_SHARDS} - {i}. f (sh j))"
    using assms by (simp add: sum.remove [of _ i])
  moreover have "(\<Sum>j<BOOKKEEPING_SHARDS. f (sh j)) = f (sh i) + (\<Sum>j\<in>{..<BOOKKEEPING_SHARDS} - {i}. f (sh j))"
    using assms by (simp add: sum.remove [of _ i])
  ultimately show ?thesis by simp
qed

lemma bm_wf_set_shard:
  assumes "bm_wf bm" and "shard_wf i s" and "length (ms_pending_deletes s) = length (ms_pending_deletes (bm_mutation bm i))"
  shows "bm_wf (set_shard i s bm)"
proof -
  have "(\<Sum>j<BOOKKEEPING_SHARDS. length (ms_pending_deletes (((bm_mutation bm)(i := s)) j)))
      = (\<Sum>j<BOOKKEEPING_SHARDS. length (ms_pending_deletes (bm_mutation bm j)))"
    using assms(3) by (intro sum.cong) auto
  then show ?thesis using assms(1,2) by (auto simp: bm_wf_def)
qed

lemma shard_wf_at: "bm_wf bm \<Longrightarrow> shard_wf (bookkeeping_shard_idx g) (mutation_shard g bm)"
  by (simp add: bm_wf_def mutation_shard_def)

lemma track_sel:
  "tr_dirty (track bm) g = map_of (ms_dirty (mutation_shard g bm)) g"
  "tr_flushing (track bm) g = map_of (ms_flushing (mutation_shard g bm)) g"
  "tr_pending (track bm) g = map_of (ms_pending_deletes (mutation_shard g bm)) g"
  "tr_cache (track bm) g = map_option core (cached_at bm g)"
  "tr_store (track bm) = bm_store bm"
  by (simp_all add: track_def)

text \<open>An update of one blob's entries in its shard.\<close>

lemma track_upd_shard:
  assumes "\<And>h. h \<noteq> g \<Longrightarrow> map_of (ms_dirty (f s)) h = map_of (ms_dirty s) h"
    and "\<And>h. h \<noteq> g \<Longrightarrow> map_of (ms_flushing (f s)) h = map_of (ms_flushing s) h"
    and "\<And>h. h \<noteq> g \<Longrightarrow> map_of (ms_pending_deletes (f s)) h = map_of (ms_pending_deletes s) h"
    and "s = mutation_shard g bm"
  shows "track (set_shard (bookkeeping_shard_idx g) (f s) bm) = (track bm)\<lparr>
     tr_dirty := (tr_dirty (track bm))(g := map_of (ms_dirty (f s)) g),
     tr_flushing := (tr_flushing (track bm))(g := map_of (ms_flushing (f s)) g),
     tr_pending := (tr_pending (track bm))(g := map_of (ms_pending_deletes (f s)) g)\<rparr>"
  using assms by (auto simp: track_set_shard track_sel fun_eq_iff mutation_shard_def)

section \<open>Operations on the view\<close>

definition min_into :: "blob_guid \<Rightarrow> nat \<Rightarrow> (blob_guid \<Rightarrow> nat option) \<Rightarrow> blob_guid \<Rightarrow> nat option" where
  "min_into g s m = m(g \<mapsto> (case m g of None \<Rightarrow> s | Some cur \<Rightarrow> min cur s))"

definition unref :: "blob_guid \<Rightarrow> (blob_guid \<Rightarrow> nat option) \<Rightarrow> blob_guid \<Rightarrow> nat option" where
  "unref g m = m(g := (case m g of None \<Rightarrow> None | Some c \<Rightarrow> if c - 1 = 0 then None else Some (c - 1)))"

definition a_mark_dirty :: "blob_guid \<Rightarrow> nat \<Rightarrow> tracking \<Rightarrow> tracking" where
  "a_mark_dirty g s T = (if tr_cache T g = None \<or> tr_pending T g \<noteq> None then T
     else T\<lparr>tr_dirty := min_into g s (tr_dirty T)\<rparr>)"

definition a_snapshot_dirty :: "tracking \<Rightarrow> tracking" where
  "a_snapshot_dirty T = T\<lparr>tr_dirty := (\<lambda>_. None), tr_flushing := (\<lambda>g.
     if tr_dirty T g \<noteq> None \<and> tr_pending T g = None
     then Some ((case tr_flushing T g of None \<Rightarrow> 0 | Some c \<Rightarrow> c) + 1) else tr_flushing T g)\<rparr>"

definition a_restore_one :: "blob_guid \<times> nat \<Rightarrow> tracking \<Rightarrow> tracking" where
  "a_restore_one p T = (case p of (g, t) \<Rightarrow>
     if tr_pending T g \<noteq> None then T\<lparr>tr_flushing := unref g (tr_flushing T)\<rparr>
     else T\<lparr>tr_flushing := unref g (tr_flushing T), tr_dirty := min_into g t (tr_dirty T)\<rparr>)"

definition a_mark_for_delete :: "blob_guid \<Rightarrow> nat \<Rightarrow> tracking \<Rightarrow> tracking" where
  "a_mark_for_delete g s T = T\<lparr>tr_pending := min_into g s (tr_pending T), tr_dirty := (tr_dirty T)(g := None),
     tr_flushing := (tr_flushing T)(g := None), tr_cache := (tr_cache T)(g := None)\<rparr>"

definition a_restore_pending :: "blob_guid \<times> nat \<Rightarrow> tracking \<Rightarrow> tracking" where
  "a_restore_pending p T = T\<lparr>tr_pending := min_into (fst p) (snd p) (tr_pending T)\<rparr>"

definition a_retire :: "blob_guid \<Rightarrow> nat \<Rightarrow> tracking \<Rightarrow> tracking" where
  "a_retire g seq T = T\<lparr>tr_dirty := (if seq \<noteq> STRUCTURAL_SEQ \<and> tr_dirty T g = Some seq
       then (tr_dirty T)(g := None) else tr_dirty T), tr_flushing := unref g (tr_flushing T)\<rparr>"

definition a_install :: "blob_guid \<Rightarrow> buf \<Rightarrow> nat \<Rightarrow> tracking \<Rightarrow> tracking" where
  "a_install g b s T = T\<lparr>tr_cache := (tr_cache T)(g \<mapsto> core (cached_blob_new b)), tr_dirty := min_into g s (tr_dirty T)\<rparr>"

section \<open>Refinement\<close>

lemma tracking_eqI:
  fixes T U :: tracking
  assumes "tr_cache T = tr_cache U" "tr_dirty T = tr_dirty U" "tr_flushing T = tr_flushing U"
    "tr_pending T = tr_pending U" "tr_store T = tr_store U"
  shows "T = U"
  using assms by (cases T; cases U) simp

lemma flush_positive: "shard_wf i s \<Longrightarrow> map_of (ms_flushing s) g = Some c \<Longrightarrow> 0 < c"
  by (force simp: shard_wf_def positive_def dest: map_of_SomeD)

lemma shard_wf_ops:
  assumes "shard_wf (bookkeeping_shard_idx g) s"
  shows "shard_wf (bookkeeping_shard_idx g) (s\<lparr>ms_dirty := merge_min g t (ms_dirty s)\<rparr>)"
    and "shard_wf (bookkeeping_shard_idx g) (s\<lparr>ms_pending_deletes := merge_min g t (ms_pending_deletes s)\<rparr>)"
    and "shard_wf (bookkeeping_shard_idx g) (s\<lparr>ms_dirty := AList.delete g (ms_dirty s)\<rparr>)"
    and "shard_wf (bookkeeping_shard_idx g) (remove_one_flushing g s)"
    and "shard_wf (bookkeeping_shard_idx g) (add_flushing g s)"
    and "shard_wf (bookkeeping_shard_idx g) (remove_dirty g s)"
proof -
  have upd: "positive (AList.update g n m)" if "positive m" "0 < n" for n m
    using that by (induction m) (auto simp: positive_def)
  have del: "positive (AList.delete g m)" if "positive m" for m
    using that by (auto simp: positive_def AList.delete_eq)
  show "shard_wf (bookkeeping_shard_idx g) (s\<lparr>ms_dirty := merge_min g t (ms_dirty s)\<rparr>)"
    "shard_wf (bookkeeping_shard_idx g) (s\<lparr>ms_pending_deletes := merge_min g t (ms_pending_deletes s)\<rparr>)"
    "shard_wf (bookkeeping_shard_idx g) (s\<lparr>ms_dirty := AList.delete g (ms_dirty s)\<rparr>)"
    using assms by (simp_all add: shard_wf_def placed_merge_min)
  show "shard_wf (bookkeeping_shard_idx g) (remove_one_flushing g s)"
    using assms upd del by (simp add: shard_wf_def remove_one_flushing_def placed_update split: option.split)
  show "shard_wf (bookkeeping_shard_idx g) (add_flushing g s)"
    using assms upd by (simp add: shard_wf_def add_flushing_def placed_update)
  show "shard_wf (bookkeeping_shard_idx g) (remove_dirty g s)"
    using assms del by (simp add: shard_wf_def remove_dirty_def)
qed

lemma mutation_shard_set_shard [simp]:
  "mutation_shard h (set_shard i s bm) = (if bookkeeping_shard_idx h = i then s else mutation_shard h bm)"
  by (simp add: mutation_shard_def)

lemma track_upd_simple:
  "track (upd_shard g (remove_one_flushing g) bm) = (track bm)\<lparr>tr_flushing := unref g (tr_flushing (track bm))\<rparr>"
  "track (upd_shard g (\<lambda>s. s\<lparr>ms_dirty := merge_min g t (ms_dirty s)\<rparr>) bm) = (track bm)\<lparr>tr_dirty := min_into g t (tr_dirty (track bm))\<rparr>"
  "track (upd_shard g (\<lambda>s. s\<lparr>ms_pending_deletes := merge_min g t (ms_pending_deletes s)\<rparr>) bm)
     = (track bm)\<lparr>tr_pending := min_into g t (tr_pending (track bm))\<rparr>"
  by (intro tracking_eqI; auto simp: track_set_shard track_sel min_into_def unref_def fun_eq_iff mutation_shard_def split: option.splits)+

lemma bm_wf_upd_simple:
  assumes "bm_wf bm"
  shows "bm_wf (upd_shard g (remove_one_flushing g) bm)"
    and "bm_wf (upd_shard g (\<lambda>s. s\<lparr>ms_dirty := merge_min g t (ms_dirty s)\<rparr>) bm)"
  by (intro bm_wf_set_shard [OF assms] shard_wf_ops shard_wf_at [OF assms]; simp add: mutation_shard_def)+

lemma set_shard_twice [simp]: "set_shard i s (set_shard i s' bm) = set_shard i s bm"
  by (simp add: set_shard_def)

lemma mark_dirty_refines:
  assumes wf: "bm_wf bm"
  shows "track (mark_dirty_with_hint g s bm) = a_mark_dirty g s (track bm)" and "bm_wf (mark_dirty_with_hint g s bm)"
proof -
  note sh = track_upd_simple(2) [of g s] and w = bm_wf_upd_simple(2) [where t = s and g = g]
  have "track (mark_dirty_with_hint g s bm) = a_mark_dirty g s (track bm) \<and> bm_wf (mark_dirty_with_hint g s bm)"
  proof (cases "cached_at bm g")
    case None
    then show ?thesis using wf by (simp add: mark_dirty_with_hint_def a_mark_dirty_def track_sel)
  next
    case (Some e)
    obtain p e' where pe: "dirty_hint_needs_map_publish s e = (p, e')" by force
    then have ce: "core e' = core e" using core_hint(3) [of s e] by simp
    let ?b1 = "upd_cached g (\<lambda>_. e') bm"
    have t1: "track ?b1 = track bm" using Some ce by (intro track_upd_hint) simp
    have b1: "bm_wf ?b1" using wf by simp
    have t2: "track (upd_cached g clear_dirty_hint ?b1) = track bm" using t1 by (simp add: track_upd_hint)
    have t3: "track (upd_cached g (\<lambda>e. snd (dirty_hint_needs_map_publish s (clear_dirty_hint e))) ?b1) = track bm"
      using t1 by (simp add: track_upd_hint)
    have cov: "(track bm)\<lparr>tr_dirty := min_into g s (tr_dirty (track bm))\<rparr> = track bm"
      if "map_of (ms_dirty (mutation_shard g bm)) g = Some cur" "cur \<le> s" for cur
      using that by (intro tracking_eqI) (auto simp: min_into_def track_sel fun_eq_iff min_def)
    have ne: "tr_cache (track bm) g \<noteq> None" using Some by (simp add: track_sel)
    show ?thesis
      using Some pe t1 t2 t3 b1 ne cov sh [of ?b1] sh [of "upd_cached g (\<lambda>e. snd (dirty_hint_needs_map_publish s (clear_dirty_hint e))) ?b1"]
        w [OF b1] w [of "upd_cached g (\<lambda>e. snd (dirty_hint_needs_map_publish s (clear_dirty_hint e))) ?b1"]
      by (auto simp: mark_dirty_with_hint_def a_mark_dirty_def track_sel Let_def split: option.splits)
  qed
  then show "track (mark_dirty_with_hint g s bm) = a_mark_dirty g s (track bm)" "bm_wf (mark_dirty_with_hint g s bm)"
    by blast+
qed

lemma restore_dirty_refines:
  "bm_wf bm \<Longrightarrow> track (restore_dirty es bm) = fold a_restore_one es (track bm) \<and> bm_wf (restore_dirty es bm)"
proof (induction es bm rule: restore_dirty.induct)
  case (2 g t rest bm)
  let ?b1 = "upd_cached g (\<lambda>e. snd (dirty_hint_needs_map_publish t e)) bm"
  let ?b2 = "upd_cached g clear_dirty_hint ?b1"
  let ?f = "\<lambda>s. let s = remove_one_flushing g s in s\<lparr>ms_dirty := merge_min g t (ms_dirty s)\<rparr>"
  have t1: "track ?b1 = track bm" by (simp add: track_upd_hint)
  have t2: "track ?b2 = track bm" using t1 by (simp add: track_upd_hint)
  have w1: "bm_wf ?b1" "bm_wf ?b2" using "2.prems" by simp_all
  show ?case
  proof (cases "map_of (ms_pending_deletes (mutation_shard g bm)) g = None")
    case False
    let ?b3 = "upd_shard g (remove_one_flushing g) ?b2"
    have "track ?b3 = a_restore_one (g, t) (track bm)"
      unfolding track_upd_simple(1) t2 using False by (simp add: a_restore_one_def track_sel(3))
    then show ?thesis
      using "2.IH"(1) [OF refl refl _ bm_wf_upd_simple(1) [OF w1(2)]] False by (simp add: Let_def)
  next
    case True
    let ?b3 = "upd_shard g (\<lambda>s. s\<lparr>ms_dirty := merge_min g t (ms_dirty s)\<rparr>) (upd_shard g (remove_one_flushing g) ?b1)"
    have e: "upd_shard g ?f ?b1 = ?b3" by (simp add: Let_def mutation_shard_def)
    have "track ?b3 = a_restore_one (g, t) (track bm)"
      unfolding track_upd_simple(1,2) t1 using True by (simp add: a_restore_one_def track_sel(3))
    then show ?thesis
      using "2.IH"(2) [OF refl refl _, unfolded e, OF _ bm_wf_upd_simple(2) [OF bm_wf_upd_simple(1) [OF w1(1)]]] True e
      by (simp add: Let_def)
  qed
qed simp

section \<open>Draining the maps\<close>

lemma take_hints_spec:
  "bm_wf bm \<Longrightarrow> take_hints m bm = (m', bm') \<Longrightarrow>
     map fst m' = map fst m \<and> track bm' = track bm \<and> bm_mutation bm' = bm_mutation bm \<and> bm_wf bm'
     \<and> bm_pending_delete_total bm' = bm_pending_delete_total bm"
proof (induction m bm arbitrary: m' bm' rule: take_hints.induct)
  case (2 g seq rest bm)
  show ?case
  proof (cases "cached_at bm g")
    case None
    then show ?thesis using 2 by (auto split: prod.splits)
  next
    case (Some e)
    let ?b = "upd_cached g (snd \<circ> take_dirty_hint) bm"
    obtain out where o: "take_hints rest ?b = (out, bm')" "map fst m' = g # map fst out"
      using "2.prems" Some by (auto simp: Let_def split: prod.splits)
    have "track ?b = track bm" by (simp add: track_upd_hint)
    then show ?thesis using "2.IH"(2) [OF Some refl _ o(1)] "2.prems" o(2) by (simp add: comp_def)
  qed
qed simp

definition a_claim :: "blob_guid set \<Rightarrow> tracking \<Rightarrow> tracking" where
  "a_claim G T = T\<lparr>tr_flushing := (\<lambda>g. if g \<in> G
     then Some ((case tr_flushing T g of None \<Rightarrow> 0 | Some c \<Rightarrow> c) + 1) else tr_flushing T g)\<rparr>"

lemma claim_dirty_spec:
  "bm_wf bm \<Longrightarrow> placed i m \<Longrightarrow> claim_dirty i m bm = (out, bm') \<Longrightarrow>
     out = filter (\<lambda>(g, _). tr_pending (track bm) g = None) m
     \<and> track bm' = a_claim (fst ` set out) (track bm) \<and> bm_wf bm'"
proof (induction i m bm arbitrary: out rule: claim_dirty.induct)
  case (2 i g seq rest bm)
  have i: "bookkeeping_shard_idx g = i" "placed i rest" "g \<notin> fst ` set rest"
    using "2.prems"(2) by (auto simp: placed_def)
  have pe: "map_of (ms_pending_deletes (bm_mutation bm i)) g = tr_pending (track bm) g"
    using i(1) by (simp add: track_sel mutation_shard_def)
  show ?case
  proof (cases "tr_pending (track bm) g = None")
    case False
    let ?b = "upd_cached g clear_dirty_hint bm"
    have t: "track ?b = track bm" by (simp add: track_upd_hint)
    have "claim_dirty i rest ?b = (out, bm')" using "2.prems"(3) False pe by simp
    from "2.IH"(1) [OF _ _ i(2) this] "2.prems"(1) show ?thesis using False pe t by simp
  next
    case True
    let ?b = "set_shard i (add_flushing g (bm_mutation bm i)) bm"
    have t: "track ?b = (track bm)\<lparr>tr_flushing := (tr_flushing (track bm))(g \<mapsto> (case tr_flushing (track bm) g of None \<Rightarrow> 0 | Some c \<Rightarrow> c) + 1)\<rparr>"
      using i(1) by (intro tracking_eqI) (auto simp: track_set_shard track_sel fun_eq_iff mutation_shard_def)
    have wb: "bm_wf ?b"
      using "2.prems"(1) i(1) by (intro bm_wf_set_shard) (auto simp: bm_wf_def intro!: shard_wf_ops)
    obtain o' where o': "claim_dirty i rest ?b = (o', bm')" "out = (g, seq) # o'"
      using "2.prems"(3) True pe by (auto split: prod.splits)
    have IH: "o' = filter (\<lambda>(g, _). tr_pending (track ?b) g = None) rest"
        "track bm' = a_claim (fst ` set o') (track ?b)" "bm_wf bm'"
      using "2.IH"(2) [OF _ wb i(2) o'(1)] True pe by auto
    have ng: "g \<notin> fst ` set o'" using i(3) IH(1) by auto
    have "track bm' = a_claim (fst ` set out) (track bm)"
      unfolding IH(2) t o'(2) using ng by (intro tracking_eqI) (auto simp: a_claim_def fun_eq_iff)
    then show ?thesis using True IH(1,3) o'(2) t by simp
  qed
qed (simp add: a_claim_def)

definition a_snapshot_shard :: "nat \<Rightarrow> tracking \<Rightarrow> tracking" where
  "a_snapshot_shard i T = T\<lparr>tr_dirty := (\<lambda>g. if bookkeeping_shard_idx g = i then None else tr_dirty T g),
     tr_flushing := (\<lambda>g. if bookkeeping_shard_idx g = i \<and> tr_dirty T g \<noteq> None \<and> tr_pending T g = None
       then Some ((case tr_flushing T g of None \<Rightarrow> 0 | Some c \<Rightarrow> c) + 1) else tr_flushing T g)\<rparr>"

text \<open>The blobs a snapshot claims.\<close>

definition claimable :: "tracking \<Rightarrow> blob_guid set" where
  "claimable T = {g. tr_dirty T g \<noteq> None \<and> tr_pending T g = None}"

lemma snapshot_dirty_shard_spec:
  assumes wf: "bm_wf bm" and run: "snapshot_dirty_shard i bm = (out, bm')"
  shows "track bm' = a_snapshot_shard i (track bm) \<and> bm_wf bm' \<and> distinct (map fst out)
    \<and> fst ` set out = {g \<in> claimable (track bm). bookkeeping_shard_idx g = i}"
proof -
  let ?d = "ms_dirty (bm_mutation bm i)"
  have pl: "placed i ?d" using wf by (simp add: bm_wf_def shard_wf_def)
  obtain snap b1 where th: "take_hints ?d bm = (snap, b1)" by force
  have th': "map fst snap = map fst ?d" "track b1 = track bm" "bm_mutation b1 = bm_mutation bm" "bm_wf b1"
    using take_hints_spec [OF wf th] by auto
  let ?b2 = "set_shard i ((bm_mutation b1 i)\<lparr>ms_dirty := []\<rparr>) b1"
  have w2: "bm_wf ?b2" using th'(3,4) by (intro bm_wf_set_shard) (simp_all add: bm_wf_def shard_wf_def)
  have "fst ` set snap = fst ` set ?d" using arg_cong [OF th'(1), of set] by simp
  then have ps: "placed i snap" using pl th'(1) by (simp add: placed_def)
  have c: "out = filter (\<lambda>(g, _). tr_pending (track ?b2) g = None) snap"
      "track bm' = a_claim (fst ` set out) (track ?b2)" "bm_wf bm'"
    using claim_dirty_spec [OF w2 ps] run th by (auto simp: snapshot_dirty_shard_def)
  have t2: "track ?b2 = (track bm)\<lparr>tr_dirty := (\<lambda>g. if bookkeeping_shard_idx g = i then None else tr_dirty (track bm) g)\<rparr>"
    using th'(2,3) unfolding th'(2) [symmetric]
    by (intro tracking_eqI) (auto simp: track_set_shard track_sel fun_eq_iff mutation_shard_def)
  have dom: "g \<in> fst ` set ?d \<longleftrightarrow> bookkeeping_shard_idx g = i \<and> tr_dirty (track bm) g \<noteq> None" for g
    using placed_lookup [OF pl, of g] pl
    by (auto simp: track_sel mutation_shard_def placed_def map_of_eq_None_iff)
  have fo: "fst ` set out = {g \<in> claimable (track bm). bookkeeping_shard_idx g = i}"
  proof -
    have "fst ` set out = {g \<in> fst ` set snap. tr_pending (track bm) g = None}" unfolding c(1) t2 by force
    also have "fst ` set snap = fst ` set ?d" by fact
    finally show ?thesis using dom by (auto simp: claimable_def)
  qed
  have "track bm' = a_snapshot_shard i (track bm)"
    unfolding c(2) t2 fo by (intro tracking_eqI) (auto simp: a_claim_def a_snapshot_shard_def claimable_def fun_eq_iff)
  moreover have "distinct (map fst out)" using ps c(1) by (simp add: placed_def distinct_map_filter)
  ultimately show ?thesis using c(3) fo by blast
qed

lemma snapshot_shards_dirty:
  assumes "bm_wf bm" and "snapshot_shards snapshot_dirty_shard is bm = (out, bm')" and "distinct is"
  shows "track bm' = fold a_snapshot_shard is (track bm) \<and> bm_wf bm' \<and> distinct (map fst out)
    \<and> fst ` set out = {g \<in> claimable (track bm). bookkeeping_shard_idx g \<in> set is}"
  using assms
proof (induction "is" arbitrary: bm out)
  case (Cons i "is")
  obtain o1 b1 o2 where r: "snapshot_dirty_shard i bm = (o1, b1)"
      "snapshot_shards snapshot_dirty_shard is b1 = (o2, bm')" "out = o1 @ o2"
    using Cons.prems(2) by (auto split: prod.splits)
  note s1 = snapshot_dirty_shard_spec [OF Cons.prems(1) r(1)]
  have IH: "track bm' = fold a_snapshot_shard is (track b1)" "bm_wf bm'" "distinct (map fst o2)"
      "fst ` set o2 = {g \<in> claimable (track b1). bookkeeping_shard_idx g \<in> set is}"
    using Cons.IH [of b1 o2] s1 r(2) Cons.prems(3) by auto
  have cl: "claimable (track b1) = {g \<in> claimable (track bm). bookkeeping_shard_idx g \<noteq> i}"
    using s1 by (auto simp: claimable_def a_snapshot_shard_def split: if_splits)
  have "fst ` set o1 \<inter> fst ` set o2 = {}" using s1 IH(4) Cons.prems(3) by auto
  then have "distinct (map fst out)" using s1 IH(3) r(3) by simp
  moreover have "fst ` set out = {g \<in> claimable (track bm). bookkeeping_shard_idx g \<in> set (i # is)}"
    using s1 IH(4) cl r(3) Cons.prems(3) by auto
  ultimately show ?case using IH s1 by simp
qed simp

lemma fold_snapshot_shard:
  "distinct is \<Longrightarrow> fold a_snapshot_shard is T = T\<lparr>
     tr_dirty := (\<lambda>g. if bookkeeping_shard_idx g \<in> set is then None else tr_dirty T g),
     tr_flushing := (\<lambda>g. if bookkeeping_shard_idx g \<in> set is \<and> tr_dirty T g \<noteq> None \<and> tr_pending T g = None
       then Some ((case tr_flushing T g of None \<Rightarrow> 0 | Some c \<Rightarrow> c) + 1) else tr_flushing T g)\<rparr>"
proof (induction "is" arbitrary: T)
  case (Cons i "is")
  then show ?case by (intro tracking_eqI) (auto simp: a_snapshot_shard_def fun_eq_iff)
qed simp

lemma snapshot_dirty_refines:
  assumes "bm_wf bm" and "snapshot_dirty bm = (snap, bm')"
  shows "track bm' = a_snapshot_dirty (track bm)" and "bm_wf bm'" and "distinct (map fst snap)"
    and "fst ` set snap = claimable (track bm)"
proof -
  have d: "distinct [0..<BOOKKEEPING_SHARDS]" by simp
  have *: "track bm' = fold a_snapshot_shard [0..<BOOKKEEPING_SHARDS] (track bm)" "bm_wf bm'" "distinct (map fst snap)"
      "fst ` set snap = {g \<in> claimable (track bm). bookkeeping_shard_idx g \<in> set [0..<BOOKKEEPING_SHARDS]}"
    using snapshot_shards_dirty [OF assms(1) _ d, of snap bm'] assms(2) unfolding snapshot_dirty_def by auto
  show "track bm' = a_snapshot_dirty (track bm)"
    unfolding *(1) fold_snapshot_shard [OF d]
    by (intro tracking_eqI) (simp_all add: a_snapshot_dirty_def bookkeeping_shard_idx_bound)
  show "fst ` set snap = claimable (track bm)" using *(4) by (simp add: bookkeeping_shard_idx_bound)
qed (use snapshot_shards_dirty [OF assms(1), of "[0..<BOOKKEEPING_SHARDS]" snap bm'] assms(2) in \<open>auto simp: snapshot_dirty_def\<close>)

section \<open>Pending deletes\<close>

lemma bm_wf_set_pending:
  assumes wf: "bm_wf bm" and "i < BOOKKEEPING_SHARDS" and "shard_wf i s"
    and "n + length (ms_pending_deletes (bm_mutation bm i)) = bm_pending_delete_total bm + length (ms_pending_deletes s)"
  shows "bm_wf (set_shard i s (bm\<lparr>bm_pending_delete_total := n\<rparr>))"
  using assms sum_shard [OF assms(2), of "\<lambda>s. length (ms_pending_deletes s)" "bm_mutation bm" s]
  by (auto simp: bm_wf_def)

lemma track_total [simp]: "track (bm\<lparr>bm_pending_delete_total := n\<rparr>) = track bm"
  by (simp add: track_def mutation_shard_def)

lemma total_sel [simp]:
  "bm_mutation (bm\<lparr>bm_pending_delete_total := n\<rparr>) = bm_mutation bm"
  "mutation_shard g (bm\<lparr>bm_pending_delete_total := n\<rparr>) = mutation_shard g bm"
  by (simp_all add: mutation_shard_def)

lemma sum_shard_le: "i < BOOKKEEPING_SHARDS \<Longrightarrow> bm_wf bm \<Longrightarrow> length (ms_pending_deletes (bm_mutation bm i)) \<le> bm_pending_delete_total bm"
  by (auto simp: bm_wf_def intro: member_le_sum)

lemma snapshot_pending_shard_spec:
  assumes wf: "bm_wf bm" and i: "i < BOOKKEEPING_SHARDS" and run: "snapshot_pending_shard i bm = (out, bm')"
  shows "bm_wf bm' \<and> placed i out \<and> (\<forall>g. bookkeeping_shard_idx g = i \<longrightarrow> map_of out g = tr_pending (track bm) g)
    \<and> track bm' = (track bm)\<lparr>tr_pending := (\<lambda>g. if bookkeeping_shard_idx g = i then None else tr_pending (track bm) g)\<rparr>"
proof -
  have sw: "shard_wf i (bm_mutation bm i)" using wf by (simp add: bm_wf_def)
  have b: "bm' = set_shard i ((bm_mutation bm i)\<lparr>ms_pending_deletes := []\<rparr>)
      (bm\<lparr>bm_pending_delete_total := bm_pending_delete_total bm - length (ms_pending_deletes (bm_mutation bm i))\<rparr>)"
    and o: "out = ms_pending_deletes (bm_mutation bm i)"
    using run by (auto simp: snapshot_pending_shard_def Let_def)
  have "bm_wf bm'" unfolding b
    by (intro bm_wf_set_pending wf i) (use sw sum_shard_le [OF i wf] in \<open>simp_all add: shard_wf_def\<close>)
  moreover have "track bm' = (track bm)\<lparr>tr_pending := (\<lambda>g. if bookkeeping_shard_idx g = i then None else tr_pending (track bm) g)\<rparr>"
    unfolding b by (intro tracking_eqI) (auto simp: track_set_shard track_sel fun_eq_iff mutation_shard_def)
  ultimately show ?thesis using sw o by (auto simp: shard_wf_def track_sel mutation_shard_def)
qed

lemma snapshot_shards_pending:
  assumes "bm_wf bm" and "snapshot_shards snapshot_pending_shard is bm = (out, bm')"
    and "distinct is" and "\<forall>i \<in> set is. i < BOOKKEEPING_SHARDS"
  shows "bm_wf bm' \<and> distinct (map fst out) \<and> fst ` set out \<subseteq> {g. bookkeeping_shard_idx g \<in> set is}
    \<and> (\<forall>g. bookkeeping_shard_idx g \<in> set is \<longrightarrow> map_of out g = tr_pending (track bm) g)
    \<and> track bm' = (track bm)\<lparr>tr_pending := (\<lambda>g. if bookkeeping_shard_idx g \<in> set is then None else tr_pending (track bm) g)\<rparr>"
  using assms
proof (induction "is" arbitrary: bm out)
  case (Cons i "is")
  obtain o1 b1 o2 where r: "snapshot_pending_shard i bm = (o1, b1)"
      "snapshot_shards snapshot_pending_shard is b1 = (o2, bm')" "out = o1 @ o2"
    using Cons.prems(2) by (auto split: prod.splits)
  have s1: "bm_wf b1" "placed i o1" "\<And>g. bookkeeping_shard_idx g = i \<Longrightarrow> map_of o1 g = tr_pending (track bm) g"
      "track b1 = (track bm)\<lparr>tr_pending := (\<lambda>g. if bookkeeping_shard_idx g = i then None else tr_pending (track bm) g)\<rparr>"
    using snapshot_pending_shard_spec [OF Cons.prems(1) _ r(1)] Cons.prems(4) by auto
  have IH: "bm_wf bm'" "distinct (map fst o2)" "fst ` set o2 \<subseteq> {g. bookkeeping_shard_idx g \<in> set is}"
      "\<And>g. bookkeeping_shard_idx g \<in> set is \<Longrightarrow> map_of o2 g = tr_pending (track b1) g"
      "track bm' = (track b1)\<lparr>tr_pending := (\<lambda>g. if bookkeeping_shard_idx g \<in> set is then None else tr_pending (track b1) g)\<rparr>"
    using Cons.IH [OF s1(1) r(2)] Cons.prems(3,4) by auto
  have i: "i \<notin> set is" using Cons.prems(3) by simp
  have "fst ` set o1 \<inter> fst ` set o2 = {}" using s1(2) IH(3) i by (auto simp: placed_def)
  then have d: "distinct (map fst out)" using s1(2) IH(2) r(3) by (simp add: placed_def)
  have sub: "fst ` set out \<subseteq> {g. bookkeeping_shard_idx g \<in> set (i # is)}"
    using s1(2) IH(3) r(3) by (auto simp: placed_def)
  have n2: "map_of o2 g = None" if "bookkeeping_shard_idx g = i" for g
    using IH(3) i that by (auto simp: map_of_eq_None_iff)
  have m: "map_of out g = tr_pending (track bm) g" if "bookkeeping_shard_idx g \<in> set (i # is)" for g
  proof (cases "bookkeeping_shard_idx g = i")
    case True
    then show ?thesis using s1(3) [OF True] n2 [OF True] r(3) by (simp add: map_add_def split: option.split)
  next
    case False
    then have "map_of o1 g = None" "map_of o2 g = tr_pending (track bm) g"
      using placed_other [OF s1(2)] IH(4) [of g] that s1(4) by auto
    then show ?thesis using r(3) by (simp add: map_add_def split: option.split)
  qed
  have "track bm' = (track bm)\<lparr>tr_pending := (\<lambda>g. if bookkeeping_shard_idx g \<in> set (i # is) then None else tr_pending (track bm) g)\<rparr>"
    unfolding IH(5) s1(4) by (intro tracking_eqI) (auto simp: fun_eq_iff)
  then show ?case using IH(1) d sub m by blast
qed simp

lemma snapshot_pending_refines:
  assumes "bm_wf bm" and "snapshot_pending_deletes bm = (snap, bm')"
  shows "track bm' = (track bm)\<lparr>tr_pending := (\<lambda>_. None)\<rparr>" and "bm_wf bm'" and "distinct (map fst snap)"
    and "map_of snap = tr_pending (track bm)"
  using snapshot_shards_pending [OF assms(1), of "[0..<BOOKKEEPING_SHARDS]" snap bm'] assms(2)
  by (auto simp: snapshot_pending_deletes_def bookkeeping_shard_idx_bound fun_eq_iff)

lemma merge_min_length:
  "length (merge_min g t m) = length m + (if map_of m g = None then 1 else 0)"
  by (induction m) (auto simp: merge_min_def)

lemma restore_pending_refines:
  "bm_wf bm \<Longrightarrow> track (restore_pending_deletes es bm) = fold a_restore_pending es (track bm) \<and> bm_wf (restore_pending_deletes es bm)"
proof (induction es bm rule: restore_pending_deletes.induct)
  case (2 g t rest bm)
  let ?n = "bm_pending_delete_total bm + (if map_of (ms_pending_deletes (mutation_shard g bm)) g = None then 1 else 0)"
  let ?b = "bm\<lparr>bm_pending_delete_total := ?n\<rparr>"
  let ?b' = "upd_shard g (\<lambda>s. s\<lparr>ms_pending_deletes := merge_min g t (ms_pending_deletes s)\<rparr>) ?b"
  have eq: "(if map_of (ms_pending_deletes (mutation_shard g bm)) g = None
      then bm\<lparr>bm_pending_delete_total := bm_pending_delete_total bm + 1\<rparr> else bm) = ?b" by simp
  have w: "bm_wf ?b'"
    using shard_wf_ops(2) [OF shard_wf_at [OF "2.prems"], of g t] "2.prems"
    by (intro bm_wf_set_pending) (simp_all add: bookkeeping_shard_idx_bound merge_min_length mutation_shard_def)
  have "track ?b' = a_restore_pending (g, t) (track bm)"
    unfolding track_upd_simple(3) by (simp add: a_restore_pending_def)
  then show ?case using "2.IH" [OF eq [symmetric] w] unfolding restore_pending_deletes.simps eq Let_def by simp
qed simp

lemma drop_cached_track:
  "track (drop_cached g bm) = (track bm)\<lparr>tr_cache := (tr_cache (track bm))(g := None)\<rparr>"
  "bm_wf bm \<Longrightarrow> bm_wf (drop_cached g bm)"
  "bm_mutation (drop_cached g bm) = bm_mutation bm"
  "bm_store (drop_cached g bm) = bm_store bm"
  by (auto simp: track_def drop_cached_def mutation_shard_def fun_eq_iff bm_wf_def)

lemma decrement_track [simp]:
  "track (decrement_candidate_totals r bm) = track bm" "bm_wf (decrement_candidate_totals r bm) = bm_wf bm"
  by (simp_all add: track_def decrement_candidate_totals_def mutation_shard_def bm_wf_def)

lemma shard_wf_maintenance [simp]: "shard_wf i (snd (remove_maintenance_candidates g s)) = shard_wf i s"
  by (simp add: shard_wf_def)

lemma mark_for_delete_refines:
  assumes wf: "bm_wf bm"
  shows "track (mark_for_delete g s bm) = a_mark_for_delete g s (track bm)" and "bm_wf (mark_for_delete g s bm)"
proof -
  let ?st = "mutation_shard g bm"
  let ?n = "bm_pending_delete_total bm + (if map_of (ms_pending_deletes ?st) g = None then 1 else 0)"
  let ?st' = "remove_dirty g (?st\<lparr>ms_pending_deletes := merge_min g s (ms_pending_deletes ?st)\<rparr>)"
  let ?b = "set_shard (bookkeeping_shard_idx g) (snd (remove_maintenance_candidates g ?st')) (bm\<lparr>bm_pending_delete_total := ?n\<rparr>)"
  have eq: "mark_for_delete g s bm = drop_cached g (decrement_candidate_totals (fst (remove_maintenance_candidates g ?st')) ?b)"
    by (simp add: mark_for_delete_def Let_def)
  have "shard_wf (bookkeeping_shard_idx g) ?st'"
    by (intro shard_wf_ops shard_wf_at wf)
  then have "bm_wf ?b" using wf
    by (intro bm_wf_set_pending) (simp_all add: bookkeeping_shard_idx_bound merge_min_length mutation_shard_def)
  then show "bm_wf (mark_for_delete g s bm)" unfolding eq by (simp add: drop_cached_track)
  show "track (mark_for_delete g s bm) = a_mark_for_delete g s (track bm)"
    unfolding eq drop_cached_track decrement_track
    by (intro tracking_eqI)
      (auto simp: track_set_shard a_mark_for_delete_def min_into_def track_sel fun_eq_iff mutation_shard_def remove_dirty_def)
qed

section \<open>Retiring and installing\<close>

lemma retire_refines:
  assumes wf: "bm_wf bm"
  shows "track (retire_write_through g q bm) = a_retire g q (track bm)" and "bm_wf (retire_write_through g q bm)"
proof -
  let ?s = "mutation_shard g bm"
  let ?d = "if q \<noteq> STRUCTURAL_SEQ \<and> map_of (ms_dirty ?s) g = Some q then ?s\<lparr>ms_dirty := AList.delete g (ms_dirty ?s)\<rparr> else ?s"
  let ?b = "set_shard (bookkeeping_shard_idx g) (remove_one_flushing g ?d) bm"
  have t: "track ?b = a_retire g q (track bm)"
    by (intro tracking_eqI)
      (auto simp: track_set_shard a_retire_def unref_def track_sel fun_eq_iff mutation_shard_def split: option.split)
  have "shard_wf (bookkeeping_shard_idx g) ?d" using shard_wf_ops(3) [OF shard_wf_at [OF wf]] shard_wf_at [OF wf] by simp
  then have w: "bm_wf ?b" by (intro bm_wf_set_shard wf shard_wf_ops) (auto simp: mutation_shard_def)
  have t': "track (upd_cached g clear_dirty_hint ?b) = track ?b" by (simp add: track_upd_hint)
  show "track (retire_write_through g q bm) = a_retire g q (track bm)"
    using t t' by (simp add: retire_write_through_def Let_def)
  show "bm_wf (retire_write_through g q bm)" using w by (simp add: retire_write_through_def Let_def)
qed

lemma retire_all_refines:
  "bm_wf bm \<Longrightarrow> track (retire_all ws bm) = fold (\<lambda>w. a_retire (wt_guid w) (wt_expected_seq w)) ws (track bm)
     \<and> bm_wf (retire_all ws bm)"
  unfolding retire_all_def by (induction ws arbitrary: bm) (simp_all add: retire_refines)

lemma install_refines:
  assumes wf: "bm_wf bm"
  shows "track (install_new_blob g b s bm) = a_install g b s (track bm)" and "bm_wf (install_new_blob g b s bm)"
proof -
  let ?e = "snd (dirty_hint_needs_map_publish s ((cached_blob_new b)\<lparr>last_touched := bm_clock bm\<rparr>))"
  let ?b = "bm\<lparr>bm_clock := bm_clock bm + 1, bm_cache := AList.update g ?e (bm_cache bm)\<rparr>"
  have w: "bm_wf ?b" using wf by (simp add: bm_wf_def distinct_update)
  have t: "track ?b = (track bm)\<lparr>tr_cache := (tr_cache (track bm))(g \<mapsto> core (cached_blob_new b))\<rparr>"
    by (intro tracking_eqI) (auto simp: track_def mutation_shard_def fun_eq_iff)
  have eq: "install_new_blob g b s bm = upd_shard g (\<lambda>st. st\<lparr>ms_dirty := merge_min g s (ms_dirty st)\<rparr>) ?b"
    by (simp add: install_new_blob_def Let_def)
  show "track (install_new_blob g b s bm) = a_install g b s (track bm)"
    unfolding eq track_upd_simple(2) t by (simp add: a_install_def)
  show "bm_wf (install_new_blob g b s bm)" unfolding eq by (rule bm_wf_upd_simple(2) [OF w])
qed

end
