(* ===== verification/Bm_Cache.thy ===== *)
theory Bm_Cache
  imports Bm_Spec
begin

text \<open>
  Cache accesses on the view: a pin may load a blob from the store and may evict others, and it
  evicts only blobs that are unpinned and neither dirty, in flight nor pending deletion.
\<close>

definition evictable :: "tracking \<Rightarrow> blob_guid \<Rightarrow> bool" where
  "evictable T g \<longleftrightarrow> (\<exists>e. tr_cache T g = Some e \<and> cb_pins e = 0) \<and> tr_dirty T g = None \<and> tr_flushing T g = None
     \<and> tr_pending T g = None"

definition without :: "blob_guid set \<Rightarrow> tracking \<Rightarrow> tracking" where
  "without V T = T\<lparr>tr_cache := (\<lambda>g. if g \<in> V then None else tr_cache T g)\<rparr>"

definition evicted :: "buffer_manager \<Rightarrow> buffer_manager \<Rightarrow> bool" where
  "evicted bm bm' \<longleftrightarrow> bm_wf bm' \<and> (\<exists>V. (\<forall>g \<in> V. evictable (track bm) g) \<and> track bm' = without V (track bm))"

lemma evicted_refl: "bm_wf bm \<Longrightarrow> evicted bm bm"
  by (auto simp: evicted_def without_def intro!: exI [of _ "{}"])

lemma evicted_trans:
  assumes "evicted bm bm1" and "evicted bm1 bm2"
  shows "evicted bm bm2"
proof -
  obtain V where V: "\<forall>g \<in> V. evictable (track bm) g" "track bm1 = without V (track bm)" using assms(1) by (auto simp: evicted_def)
  obtain U where U: "\<forall>g \<in> U. evictable (track bm1) g" "track bm2 = without U (track bm1)" using assms(2) by (auto simp: evicted_def)
  have "\<forall>g \<in> V \<union> U. evictable (track bm) g" using V(1) U(1) unfolding V(2) by (auto simp: evictable_def without_def split: if_splits)
  moreover have "track bm2 = without (V \<union> U) (track bm)" unfolding U(2) V(2) by (intro tracking_eqI) (auto simp: without_def fun_eq_iff)
  ultimately show ?thesis using assms(2) unfolding evicted_def by blast
qed

lemma removable_evictable: "removable g bm \<Longrightarrow> evictable (track bm) g"
  by (auto simp: removable_def evictable_def track_sel is_protected_or_pending_def is_protected_def split: option.splits)

lemma drop_cached_evicted: "bm_wf bm \<Longrightarrow> removable g bm \<Longrightarrow> evicted bm (drop_cached g bm)"
  unfolding evicted_def
  by (intro conjI drop_cached_track(2) exI [of _ "{g}"])
    (auto simp: removable_evictable drop_cached_track without_def fun_eq_iff)

lemma evict_for_evicted: "bm_wf bm \<Longrightarrow> evict_for g a bm = (r, bm') \<Longrightarrow> evicted bm bm'"
  using evict_for_cases [of g a bm] drop_cached_evicted evicted_refl by auto

lemma evict_overflow_evicted: "bm_wf bm \<Longrightarrow> evicted bm (evict_overflow g a r s bm)"
proof (induction g a r s bm rule: evict_overflow.induct)
  case (1 g a r s bm)
  obtain ok bm1 where e: "evict_for g a bm = (ok, bm1)" by force
  note ev = evict_for_evicted [OF "1.prems" e]
  have wf: "bm_wf bm1" using ev by (simp add: evicted_def)
  show ?case
  proof (cases "length (bm_cache bm) > bm_capacity bm \<and> ok")
    case True
    then show ?thesis using "1.IH"(1) [OF _ e [symmetric]] wf evicted_trans [OF ev] e by (subst evict_overflow.simps) simp
  next
    case False
    then show ?thesis
      using "1.IH"(2) [OF _ e [symmetric]] "1.prems" ev evicted_refl [OF "1.prems"] e
      by (subst evict_overflow.simps) auto
  qed
qed

lemma try_evict_cold_evicted: "bm_wf bm \<Longrightarrow> try_evict_cold g bm = (r, bm') \<Longrightarrow> evicted bm bm'"
  using drop_cached_evicted evicted_refl by (auto simp: try_evict_cold_def split: if_splits)

section \<open>Pinning\<close>

definition same_disk :: "blob_store \<Rightarrow> blob_store \<Rightarrow> bool" where
  "same_disk st st' \<longleftrightarrow> bs_blobs st' = bs_blobs st \<and> bs_unsynced st' = bs_unsynced st"

text \<open>The entry a pin returns.\<close>

definition pinned :: "tracking \<Rightarrow> blob_guid \<Rightarrow> cached_blob \<Rightarrow> bool" where
  "pinned T g e \<longleftrightarrow> (case tr_cache T g of
      Some e0 \<Rightarrow> e = e0\<lparr>cb_pins := cb_pins e0 + 1\<rparr>
    | None \<Rightarrow> (\<exists>b. bs_blobs (tr_store T) g = Some b \<and> e = (core (cached_blob_new b))\<lparr>cb_pins := 1\<rparr>))"

lemma core_upd [simp]: "core (e\<lparr>cb_pins := n\<rparr>) = (core e)\<lparr>cb_pins := n\<rparr>"
  by (simp add: core_def)

lemma track_admission [simp]:
  "track (bm\<lparr>bm_admission := a\<rparr>) = track bm" "track (bm\<lparr>bm_clock := c\<rparr>) = track bm"
  "bm_wf (bm\<lparr>bm_admission := a\<rparr>) = bm_wf bm" "bm_wf (bm\<lparr>bm_clock := c\<rparr>) = bm_wf bm"
  by (simp_all add: track_def mutation_shard_def bm_wf_def)

lemma get_cached_track:
  assumes "bm_wf bm" and "get_cached_with_access g a bm = (r, bm')"
  shows "bm_wf bm'" and "track bm' = track bm" and "r = None \<longleftrightarrow> cached_at bm g = None" and "cached_at bm' g = None \<longleftrightarrow> cached_at bm g = None"
proof -
  have "bm_wf bm' \<and> track bm' = track bm \<and> (r = None \<longleftrightarrow> cached_at bm g = None) \<and> (cached_at bm' g = None \<longleftrightarrow> cached_at bm g = None)"
  proof (cases "cached_at bm g")
    case None
    then show ?thesis using assms by (auto simp: get_cached_with_access_def)
  next
    case (Some e)
    show ?thesis
    proof (cases "a = Point")
      case True
      let ?e = "e\<lparr>last_touched := bm_clock bm\<rparr>"
      have b: "bm' = bm\<lparr>bm_admission := lfu_record g (bm_admission bm), bm_clock := bm_clock bm + 1,
          bm_cache := AList.update g ?e (bm_cache bm)\<rparr>" and r: "r = Some ?e"
        using assms(2) Some True by (auto simp: get_cached_with_access_def Let_def)
      have "track bm' = track bm"
        unfolding b using Some by (auto simp: track_def mutation_shard_def fun_eq_iff)
      then show ?thesis using assms(1) Some r by (simp add: b bm_wf_def distinct_update)
    qed (use assms Some in \<open>auto simp: get_cached_with_access_def\<close>)
  qed
  then show "bm_wf bm'" "track bm' = track bm" "r = None \<longleftrightarrow> cached_at bm g = None" "cached_at bm' g = None \<longleftrightarrow> cached_at bm g = None"
    by blast+
qed

lemma store_read_same: "store_read_blob g st = (r, st') \<Longrightarrow> same_disk st st' \<and> (\<forall>b. r = Inr b \<longrightarrow> bs_blobs st g = Some b)"
  by (auto simp: store_read_blob_def io_next_def same_disk_def ok_or_def split: list.splits io_outcome.splits option.splits)

lemma insert_owned_refines:
  assumes wf: "bm_wf bm" and miss: "cached_at bm g = None"
  obtains V where "bm_wf (insert_owned_into_cache g b a bm)" and "\<forall>h \<in> V. evictable (track bm) h" and "g \<notin> V"
    and "track (insert_owned_into_cache g b a bm)
      = without V ((track bm)\<lparr>tr_cache := (tr_cache (track bm))(g \<mapsto> (core (cached_blob_new b))\<lparr>cb_pins := 1\<rparr>)\<rparr>)"
proof -
  define tick where "tick = (if a = Point then Some (bm_clock bm) else None)"
  define b0 where "b0 = (if a = Point then bm\<lparr>bm_clock := bm_clock bm + 1\<rparr> else bm)"
  define e0 where "e0 = (cached_blob_new b)\<lparr>last_touched := case tick of None \<Rightarrow> 0 | Some t \<Rightarrow> t\<rparr>"
  define b1 where "b1 = b0\<lparr>bm_cache := AList.update g e0 (bm_cache b0)\<rparr>"
  define f where "f = (\<lambda>e :: cached_blob. e\<lparr>last_touched := (case tick of None \<Rightarrow> last_touched e | Some t \<Rightarrow> t), cb_pins := cb_pins e + 1\<rparr>)"
  define b2 where "b2 = upd_cached g f b1"
  have m0: "cached_at b0 g = None" and w0: "bm_wf b0" and t0: "track b0 = track bm" using wf miss by (simp_all add: b0_def)
  have run: "insert_owned_into_cache g b a bm = evict_overflow g a RETRY_BUDGET (length (bm_cache b2)) b2"
    unfolding insert_owned_into_cache_def Let_def b2_def f_def b1_def e0_def tick_def b0_def using m0 by (simp add: b0_def)
  have w1: "bm_wf b1" using w0 by (simp add: b1_def bm_wf_def distinct_update)
  have t1: "track b1 = (track bm)\<lparr>tr_cache := (tr_cache (track bm))(g \<mapsto> core (cached_blob_new b))\<rparr>"
    unfolding t0 [symmetric] by (intro tracking_eqI) (auto simp: b1_def e0_def track_def mutation_shard_def fun_eq_iff)
  have c1: "cached_at b1 g = Some e0" by (simp add: b1_def)
  have "core (f e0) = (core (cached_blob_new b))\<lparr>cb_pins := 1\<rparr>" by (simp add: f_def e0_def core_def cached_blob_new_def)
  then have t2: "track b2 = (track bm)\<lparr>tr_cache := (tr_cache (track bm))(g \<mapsto> (core (cached_blob_new b))\<lparr>cb_pins := 1\<rparr>)\<rparr>"
    unfolding b2_def track_upd_cached c1 t1 by (intro tracking_eqI) (simp_all add: fun_eq_iff)
  have w2: "bm_wf b2" using w1 by (simp add: b2_def)
  have ev: "evicted b2 (insert_owned_into_cache g b a bm)" unfolding run by (rule evict_overflow_evicted [OF w2])
  then obtain V where V: "\<forall>h \<in> V. evictable (track b2) h" "track (insert_owned_into_cache g b a bm) = without V (track b2)"
      "bm_wf (insert_owned_into_cache g b a bm)" by (auto simp: evicted_def)
  have "\<not> evictable (track b2) g" by (simp add: evictable_def t2)
  then have "g \<notin> V" using V(1) by blast
  moreover have "\<forall>h \<in> V. evictable (track bm) h" using V(1) \<open>g \<notin> V\<close> by (auto simp: evictable_def t2 split: if_splits)
  ultimately show thesis using that [OF V(3)] V(2) t2 by simp
qed

lemma pin_refines:
  assumes wf: "bm_wf bm" and run: "pin_with_access g a bm = (r, bm')"
  shows "bm_wf bm' \<and> (\<exists>st. same_disk (bm_store bm) st \<and>
     (case r of
        Inl _ \<Rightarrow> track bm' = (track bm)\<lparr>tr_store := st\<rparr>
      | Inr _ \<Rightarrow> tr_pending (track bm) g = None \<and> (\<exists>e V. pinned (track bm) g e \<and> g \<notin> V \<and> (\<forall>h \<in> V. evictable (track bm) h)
          \<and> track bm' = without V ((track bm)\<lparr>tr_store := st, tr_cache := (tr_cache (track bm))(g \<mapsto> e)\<rparr>))))"
proof (cases "is_pending_delete g bm")
  case True
  then have "r = Inl pending_delete_not_found" "bm' = bm" using run by (simp_all add: pin_with_access_def)
  then show ?thesis using wf by (auto simp: same_disk_def track_sel intro!: exI [of _ "bm_store bm"])
next
  case np: False
  obtain c b1 where gc: "get_cached_with_access g a bm = (c, b1)" by force
  note g1 = get_cached_track [OF wf gc]
  have pend: "tr_pending (track bm) g = None"
  proof (rule ccontr)
    assume "tr_pending (track bm) g \<noteq> None"
    then have ne: "ms_pending_deletes (mutation_shard g bm) \<noteq> []" by (auto simp: track_sel)
    have "length (ms_pending_deletes (mutation_shard g bm)) \<le> bm_pending_delete_total bm"
      unfolding mutation_shard_def by (rule sum_shard_le [OF bookkeeping_shard_idx_bound wf])
    then have "bm_pending_delete_total bm \<noteq> 0" using ne by (cases "ms_pending_deletes (mutation_shard g bm)") auto
    then show False using np \<open>tr_pending (track bm) g \<noteq> None\<close> by (simp add: is_pending_delete_def track_sel)
  qed
  show ?thesis
  proof (cases "cached_at bm g")
    case (Some e0)
    then obtain e where c: "c = Some e" using g1(3) by auto
    let ?b2 = "upd_cached g (\<lambda>e. e\<lparr>cb_pins := cb_pins e + 1\<rparr>) b1"
    have r: "r = Inr ()" "bm' = ?b2" using run np gc c by (simp_all add: pin_with_access_def)
    obtain e1 where e1: "cached_at b1 g = Some e1" using g1(4) Some by auto
    have ce: "core e1 = core e0" using arg_cong [OF g1(2), of "\<lambda>T. tr_cache T g"] e1 Some by (simp add: track_sel)
    have t: "track ?b2 = (track bm)\<lparr>tr_cache := (tr_cache (track bm))(g \<mapsto> (core e0)\<lparr>cb_pins := cb_pins (core e0) + 1\<rparr>)\<rparr>"
      unfolding track_upd_cached e1 g1(2) using ce by (intro tracking_eqI) (auto simp: fun_eq_iff simp flip: ce)
    let ?e = "(core e0)\<lparr>cb_pins := cb_pins (core e0) + 1\<rparr>"
    have "pinned (track bm) g ?e" using Some by (simp add: pinned_def track_sel)
    moreover have "track bm' = without {} ((track bm)\<lparr>tr_store := bm_store bm, tr_cache := (tr_cache (track bm))(g \<mapsto> ?e)\<rparr>)"
      unfolding r(2) t by (intro tracking_eqI) (simp_all add: without_def track_sel fun_eq_iff)
    moreover have "bm_wf bm'" using g1(1) r(2) by simp
    moreover have "same_disk (bm_store bm) (bm_store bm)" by (simp add: same_disk_def)
    ultimately show ?thesis using r(1) pend by (auto intro!: exI [of _ "bm_store bm"] exI [of _ ?e] exI [of _ "{}"])
  next
    case None
    then have c: "c = None" "cached_at b1 g = None" using g1(3,4) by auto
    obtain q st where rd: "store_read_blob g (bm_store b1) = (q, st)" by force
    have st1: "bm_store b1 = bm_store bm" using arg_cong [OF g1(2), of tr_store] by (simp add: track_sel)
    have sd: "same_disk (bm_store bm) st" using store_read_same [OF rd] st1 by simp
    let ?b2 = "b1\<lparr>bm_store := st\<rparr>"
    have w2: "bm_wf ?b2" using g1(1) by (simp add: bm_wf_def)
    have t2: "track ?b2 = (track bm)\<lparr>tr_store := st\<rparr>" using g1(2) by (simp add: track_def mutation_shard_def)
    have m2: "cached_at ?b2 g = None" using c(2) by simp
    show ?thesis
    proof (cases q)
      case (Inl e)
      then have "r = Inl e" "bm' = ?b2" using run np gc c rd by (simp_all add: pin_with_access_def on_store_def)
      then show ?thesis using w2 t2 sd by auto
    next
      case (Inr b)
      have blob: "bs_blobs (bm_store bm) g = Some b" using store_read_same [OF rd] Inr st1 by simp
      have np2: "\<not> is_pending_delete g ?b2"
        using arg_cong [OF t2, of "\<lambda>T. tr_pending T g"] pend by (simp add: is_pending_delete_def track_sel)
      have r: "r = Inr ()" "bm' = insert_owned_into_cache g b a ?b2"
        using run np gc c rd Inr np2 by (simp_all add: pin_with_access_def on_store_def)
      obtain V where V: "bm_wf bm'" "\<forall>h \<in> V. evictable (track ?b2) h" "g \<notin> V"
          "track bm' = without V ((track ?b2)\<lparr>tr_cache := (tr_cache (track ?b2))(g \<mapsto> (core (cached_blob_new b))\<lparr>cb_pins := 1\<rparr>)\<rparr>)"
        using insert_owned_refines [OF w2 m2, of b a] r(2) by metis
      have "pinned (track bm) g ((core (cached_blob_new b))\<lparr>cb_pins := 1\<rparr>)" using None blob by (simp add: pinned_def track_sel)
      moreover have "\<forall>h \<in> V. evictable (track bm) h" using V(2) unfolding t2 by (simp add: evictable_def)
      moreover have "track bm' = without V ((track bm)\<lparr>tr_store := st, tr_cache := (tr_cache (track bm))(g \<mapsto> (core (cached_blob_new b))\<lparr>cb_pins := 1\<rparr>)\<rparr>)"
        using V(4) unfolding t2 by simp
      ultimately show ?thesis using r(1) V(1,3) pend sd by auto
    qed
  qed
qed

end
