(* ===== verification/Blob_Children.thy ===== *)
theory Blob_Children
  imports Lookup
begin

text \<open>
  The walk that collects the blobs a blob refers to (\<^verbatim>\<open>src/engine/walker/scan.rs\<close>): it visits
  every node of a frame and returns the guids of its blob nodes in key order.  Fuel stands for
  the call stack.
\<close>

section \<open>The walk\<close>

fun scan_each :: "(nat \<Rightarrow> blob_guid list res) \<Rightarrow> nat list \<Rightarrow> blob_guid list res" where
  "scan_each rec [] = Inr []"
| "scan_each rec (c # cs) = rbind (rec (as_u16 c)) (\<lambda>out. rbind (scan_each rec cs) (\<lambda>outs. Inr (out @ outs)))"

fun scan_index48 :: "(nat \<Rightarrow> blob_guid list res) \<Rightarrow> node48 \<Rightarrow> nat list \<Rightarrow> blob_guid list res" where
  "scan_index48 rec n [] = Inr []"
| "scan_index48 rec n (next_byte # rest) =
     (let ci = unat (n48_index n ! next_byte) - 1
      in if ci \<ge> 48 then Inl (node_corrupt ''walker::scan::scan_subtree: Node48 index out of range'')
         else rbind (rec (as_u16 (n48_children n ! ci))) (\<lambda>out.
              rbind (scan_index48 rec n rest) (\<lambda>outs. Inr (out @ outs))))"

fun scan_subtree :: "nat \<Rightarrow> buf \<Rightarrow> nat \<Rightarrow> blob_guid list res" where
  "scan_subtree 0 frame slot = Inl StackOverflow"
| "scan_subtree (Suc fuel) frame slot =
     rbind (resolve_typed frame slot) (\<lambda>(ntype, body).
     let rec = scan_subtree fuel frame
     in case ntype of
          Invalid \<Rightarrow> Inl (node_corrupt ''walker::scan::scan_subtree: hit NodeType::Invalid'')
        | EmptyRoot \<Rightarrow> Inr []
        | LeafT \<Rightarrow> Inr []
        | PrefixT \<Rightarrow> rec (as_u16 (pfx_child (dec_prefix (rd frame body 128))))
        | Node4T \<Rightarrow> (let n = dec_node4 (rd frame body 24) in scan_each rec (take (min (n4_count n) 4) (n4_children n)))
        | Node16T \<Rightarrow> (let n = dec_node16 (rd frame body 88) in scan_each rec (take (min (n16_count n) 16) (n16_children n)))
        | Node48T \<Rightarrow>
            (let n = dec_node48 (rd frame body 456)
             in scan_index48 rec n (scan_positions (find_next_nonzero_byte host (n48_index n)) SCAN_ROUNDS 0))
        | Node256T \<Rightarrow>
            (let n = dec_node256 (rd frame body 1032)
             in scan_each rec (map (\<lambda>next_byte. n256_children n ! next_byte)
                  (scan_positions (find_next_nonzero_u32 host (n256_children n)) SCAN_ROUNDS 0)))
        | BlobT \<Rightarrow>
            (let b = dec_blob_node (rd frame body 128)
             in if bn_prefix_len b > BLOB_MAX_INLINE
                then Inl (node_corrupt ''walker::scan::scan_subtree: BlobNode prefix_len exceeds inline'')
                else Inr [child_blob_guid b]))"

definition collect_blob_children_from_frame :: "nat \<Rightarrow> buf \<Rightarrow> blob_guid list res" where
  "collect_blob_children_from_frame fuel frame = scan_subtree fuel frame (root_slot frame)"

section \<open>What it finds\<close>

primrec blob_children :: "art \<Rightarrow> blob_guid list" where
  "blob_children AEmpty = []"
| "blob_children (ALeaf k v s dead) = []"
| "blob_children (APrefix p t) = blob_children t"
| "blob_children (AInner nt ts) = concat (map snd (map (map_prod id blob_children) ts))"
| "blob_children (ABlob p g) = [g]"

lemma scan_positions_all:
  "length xs - byte < n \<Longrightarrow> scan_positions (first_from P xs) n byte = filter (\<lambda>i. P (xs ! i)) [byte..<length xs]"
proof (induction n arbitrary: byte)
  case (Suc n)
  show ?case
  proof (cases "first_from P xs byte")
    case None
    then have "filter (\<lambda>i. P (xs ! i)) [byte..<length xs] = []" by (auto simp: first_from_def find_None_iff filter_empty_conv)
    with None show ?thesis by simp
  next
    case (Some p)
    then have p: "byte \<le> p" "p < length xs" "P (xs ! p)" "\<And>k. byte \<le> k \<Longrightarrow> k < p \<Longrightarrow> \<not> P (xs ! k)"
      by (auto simp: first_from_iff)
    have "[byte..<length xs] = [byte..<p] @ p # [p + 1..<length xs]"
      using p(1,2) by (metis Suc_eq_plus1 le_Suc_ex less_or_eq_imp_le upt_add_eq_append upt_conv_Cons)
    moreover have "filter (\<lambda>i. P (xs ! i)) [byte..<p] = []" using p(4) by (auto simp: filter_empty_conv)
    ultimately show ?thesis using Some p Suc by simp
  qed
qed simp

lemma scan_each_ok:
  assumes "list_all2 (\<lambda>c out. as_u16 c = c \<and> rec c = Inr out) cs outs"
  shows "scan_each rec cs = Inr (concat outs)"
  using assms by (induction cs outs rule: list_all2_induct) auto

lemma table_kids_slots: "map snd (table_kids f) = map (\<lambda>i. the (f i)) (filter (\<lambda>i. f i \<noteq> None) [0..<256])"
proof -
  have "map snd (List.map_filter (\<lambda>i. map_option (Pair (h i)) (f i)) is) = map (\<lambda>i. the (f i)) (filter (\<lambda>i. f i \<noteq> None) is)"
    for h :: "nat \<Rightarrow> u8" and "is"
    by (induction "is") (auto simp: List.map_filter_def)
  then show ?thesis by (simp add: table_kids_def)
qed

lemma scan_index48_each:
  assumes "\<forall>p \<in> set ps. unat (n48_index n ! p) - 1 < 48"
  shows "scan_index48 rec n ps = scan_each rec (map (\<lambda>p. n48_children n ! (unat (n48_index n ! p) - 1)) ps)"
  using assms by (induction ps) (auto simp: Let_def)

lemma scan_kids48:
  assumes n: "inv48 n"
  shows "scan_index48 rec n (scan_positions (find_next_nonzero_byte host (n48_index n)) SCAN_ROUNDS 0) = scan_each rec (map snd (kids48 n))"
proof -
  let ?ps = "filter (\<lambda>i. n48_index n ! i \<noteq> 0) [0..<256]"
  have l: "length (n48_index n) = 256" using inv48_lengths [OF n] by simp
  have "scan_positions (find_next_nonzero_byte host (n48_index n)) SCAN_ROUNDS 0 = ?ps"
    using scan_positions_all [of "n48_index n" 0 SCAN_ROUNDS "\<lambda>x. x \<noteq> 0"] l
    by (simp add: find_next_nonzero_byte_first [abs_def] SCAN_ROUNDS_def)
  moreover have "\<forall>p \<in> set ?ps. unat (n48_index n ! p) - 1 < 48"
    using n by (auto simp: inv48_def)
  moreover have "map snd (kids48 n) = map (\<lambda>p. n48_children n ! (unat (n48_index n ! p) - 1)) ?ps"
    unfolding kids48_def table_kids_slots
    by (rule map_cong [OF filter_cong]) (auto simp: slot48_def Let_def unat_eq_0)
  ultimately show ?thesis using scan_index48_each by simp
qed

lemma scan_kids256:
  assumes n: "inv256 n"
  shows "map (\<lambda>p. n256_children n ! p) (scan_positions (find_next_nonzero_u32 host (n256_children n)) SCAN_ROUNDS 0) = map snd (kids256 n)"
proof -
  have l: "length (n256_children n) = 256" using inv256_lengths [OF n] by simp
  have "scan_positions (find_next_nonzero_u32 host (n256_children n)) SCAN_ROUNDS 0 = filter (\<lambda>i. n256_children n ! i \<noteq> 0) [0..<256]"
    using scan_positions_all [of "n256_children n" 0 SCAN_ROUNDS "\<lambda>x. x \<noteq> 0"] l
    by (simp add: find_next_nonzero_u32_first [abs_def] SCAN_ROUNDS_def)
  then show ?thesis unfolding kids256_def table_kids_slots
    by (auto simp: slot256_def Let_def intro!: map_cong [OF filter_cong])
qed

lemma scan_inner:
  assumes n: "node_at b s nt off" and i: "inode b off nt ks"
  shows "scan_subtree (Suc fuel) b s = scan_each (scan_subtree fuel b) (map snd ks)"
proof -
  have arr: "map snd (arr_kids kk cc c) = take c cc" if "length kk = length cc" for kk :: bytes and cc :: "nat list" and c
    using that by (simp add: arr_kids_def)
  show ?thesis
    using i n inode_nt [OF i]
    by (auto simp: inode_def Let_def resolve_typed_node_at kids4_def kids16_def arr inv4_lengths inv16_lengths
        scan_kids48 scan_kids256 min_absorb1)
qed

lemma scan_subtree_tree:
  assumes "tree b s t F" and "height t < fuel"
  shows "scan_subtree fuel b s = Inr (blob_children t)"
  using assms
proof (induction fuel arbitrary: s t F)
  case (Suc fuel)
  note hf = Suc.prems(2)
  from Suc.prems(1) show ?case
  proof (cases rule: tree.cases)
    case (tree_prefix off p t' F')
    have "as_u16 (pfx_child p) = pfx_child p" using tree_slot_ok [OF tree_prefix(6)] by (simp add: as_u16_def)
    then show ?thesis
      using tree_prefix(1,3,4) Suc.IH [OF tree_prefix(6)] hf by (simp add: resolve_typed_node_at)
  next
    case (tree_inner nt off ks ts F')
    have IH: "list_all2 (\<lambda>c out. as_u16 c = c \<and> scan_subtree fuel b c = Inr out) (map snd ks) (map (blob_children \<circ> snd) ts)"
      if "forest b ks ts F'" "\<forall>t \<in> snd ` set ts. height t < fuel" for ks ts F'
      using that
    proof (induction ks arbitrary: ts F')
      case Nil
      then show ?case by (auto elim: forest_NilE)
    next
      case (Cons kc ks)
      obtain k c where kc: "kc = (k, c)" by force
      from Cons.prems(1) [unfolded kc] obtain t ts' F1 F2 where
        t: "ts = (k, t) # ts'" "tree b c t F1" "forest b ks ts' F2" by (auto elim: forest_ConsE)
      have "as_u16 c = c" using tree_slot_ok [OF t(2)] by (simp add: as_u16_def)
      moreover have "scan_subtree fuel b c = Inr (blob_children t)"
        using Suc.IH [OF t(2)] Cons.prems(2) t(1) by simp
      ultimately show ?case using Cons.IH [OF t(3)] Cons.prems(2) t(1) kc by simp
    qed
    have "\<forall>t \<in> snd ` set ts. height t < fuel"
    proof
      fix t' assume "t' \<in> snd ` set ts"
      then obtain k where k: "(k, t') \<in> set ts" by auto
      have "distinct (map fst ts)" using forest_sorted [OF tree_inner(5)] inode_table(1) [OF tree_inner(4)]
        by (simp add: keys_sorted_distinct)
      then have "map_of ts k = Some t'" using k by simp
      then show "height t' < fuel" using height_child [of ts k t' nt] hf tree_inner(1) by simp
    qed
    from scan_each_ok [OF IH [OF tree_inner(5) this]]
    show ?thesis unfolding scan_inner [OF tree_inner(3,4)] tree_inner(1) by (simp add: comp_def map_prod_def split_def)
  qed (simp_all add: resolve_typed_node_at Let_def not_less)
qed simp

end
