(* ===== verification/Checkpoint_IO.thy ===== *)
theory Checkpoint_IO
  imports Bm_Spec Blob_Children
begin

text \<open>
  The I/O worker of the checkpointer (\<^verbatim>\<open>src/checkpoint/io.rs\<close>): it commits a batch of checkpoint
  epochs by writing the images in waves, a blob after the blobs it refers to, syncing the store
  after every wave, and then applies the pending deletes.  Fuel stands for the call stack of the
  walk that finds the children of an image.
\<close>

section \<open>Data\<close>

record checkpoint_epoch =
  ce_entries :: "write_through_entry list"
  ce_pending :: seq_map

record checkpoint_epoch_report =
  er_dirty_total :: nat
  er_dirty_flushed :: nat
  er_pending_total :: nat
  er_applied_deletes :: nat
  er_result :: "unit res"

record epoch_progress =
  ep_dirty_total :: nat
  ep_pending_total :: nat

record batch_entry =
  be_epoch_idx :: nat
  be_guid :: blob_guid
  be_expected_seq :: nat
  be_entry :: "write_through_entry option"
  be_children :: "blob_guid list"
  be_flushed :: bool

record batch_write_report =
  bw_dirty_flushed_by_epoch :: "nat list"
  bw_deferred :: bool

section \<open>Writing in dependency order\<close>

definition collect_entry_children :: "nat \<Rightarrow> write_through_entry \<Rightarrow> blob_guid list res" where
  "collect_entry_children fuel w = collect_blob_children_from_frame fuel (wt_bytes w)"

text \<open>The working state of the write loop.\<close>

record wave_state =
  ws_entries :: "batch_entry list"
  ws_remaining_by_guid :: "blob_guid \<Rightarrow> nat option"
  ws_durable_this_batch :: "blob_guid set"
  ws_dirty_flushed_by_epoch :: "nat list"

definition count_remaining :: "batch_entry list \<Rightarrow> blob_guid \<Rightarrow> nat option" where
  "count_remaining entries =
     fold (\<lambda>e m. m(be_guid e \<mapsto> (case m (be_guid e) of None \<Rightarrow> 0 | Some n \<Rightarrow> n) + 1)) entries (\<lambda>_. None)"

fun children_ready :: "buffer_manager \<Rightarrow> blob_guid list \<Rightarrow> (blob_guid \<Rightarrow> nat option) \<Rightarrow> blob_guid set \<Rightarrow> bool" where
  "children_ready bm [] remaining_by_guid durable_this_batch \<longleftrightarrow> True"
| "children_ready bm (child # rest) remaining_by_guid durable_this_batch \<longleftrightarrow>
     (if child \<in> durable_this_batch then children_ready bm rest remaining_by_guid durable_this_batch
      else if remaining_by_guid child \<noteq> None \<or> has_unflushed_blob child bm then False
      else if \<not> store_has_blob child bm then False
      else children_ready bm rest remaining_by_guid durable_this_batch)"

definition ready_wave :: "wave_state \<Rightarrow> buffer_manager \<Rightarrow> nat list" where
  "ready_wave ws bm = filter (\<lambda>idx. let entry = ws_entries ws ! idx in \<not> be_flushed entry
       \<and> children_ready bm (be_children entry) (ws_remaining_by_guid ws) (ws_durable_this_batch ws))
     [0..<length (ws_entries ws)]"

text \<open>The entries of a wave are taken out of their slots.\<close>

fun take_wave :: "nat list \<Rightarrow> batch_entry list \<Rightarrow> write_through_entry list res \<times> batch_entry list" where
  "take_wave [] entries = (Inr [], entries)"
| "take_wave (idx # rest) entries =
     (case be_entry (entries ! idx) of
        None \<Rightarrow> (Inl (Panic ''unflushed batch entry owns its write''), entries)
      | Some w \<Rightarrow>
          (case take_wave rest (entries[idx := (entries ! idx)\<lparr>be_entry := None\<rparr>]) of
             (Inl e, entries') \<Rightarrow> (Inl e, entries')
           | (Inr ws, entries') \<Rightarrow> (Inr (w # ws), entries')))"

definition decrement_remaining :: "blob_guid \<Rightarrow> (blob_guid \<Rightarrow> nat option) \<Rightarrow> blob_guid \<Rightarrow> nat option" where
  "decrement_remaining guid m =
     (case m guid of None \<Rightarrow> m | Some count \<Rightarrow> if count - 1 = 0 then m(guid := None) else m(guid \<mapsto> count - 1))"

definition note_written :: "nat \<Rightarrow> wave_state \<Rightarrow> wave_state" where
  "note_written idx ws =
     (let entry = ws_entries ws ! idx; e = be_epoch_idx entry; flushed = ws_dirty_flushed_by_epoch ws
      in ws\<lparr>ws_entries := (ws_entries ws)[idx := entry\<lparr>be_flushed := True\<rparr>],
           ws_dirty_flushed_by_epoch := flushed[e := flushed ! e + 1],
           ws_remaining_by_guid := decrement_remaining (be_guid entry) (ws_remaining_by_guid ws),
           ws_durable_this_batch := insert (be_guid entry) (ws_durable_this_batch ws)\<rparr>)"

fun apply_statuses :: "(nat \<times> write_through_status) list \<Rightarrow> wave_state \<Rightarrow> bool \<times> wave_state" where
  "apply_statuses [] ws = (False, ws)"
| "apply_statuses ((idx, status) # rest) ws =
     (case status of
        Written \<Rightarrow> apply_statuses rest (note_written idx ws)
      | Stale \<Rightarrow> (case apply_statuses rest ws of (_, ws') \<Rightarrow> (True, ws')))"

definition unflushed :: "batch_entry list \<Rightarrow> nat" where
  "unflushed entries = length (filter (\<lambda>e. \<not> be_flushed e) entries)"

lemma unflushed_Cons: "unflushed (e # es) = (if be_flushed e then 0 else 1) + unflushed es"
  by (simp add: unflushed_def)

lemma unflushed_set:
  "unflushed (es[i := e\<lparr>be_flushed := True\<rparr>]) \<le> unflushed es"
  "i < length es \<Longrightarrow> \<not> be_flushed (es ! i) \<Longrightarrow> unflushed (es[i := e\<lparr>be_flushed := True\<rparr>]) < unflushed es"
proof -
  show "unflushed (es[i := e\<lparr>be_flushed := True\<rparr>]) \<le> unflushed es"
    by (induction es arbitrary: i) (auto simp: unflushed_Cons split: nat.split)
  show "unflushed (es[i := e\<lparr>be_flushed := True\<rparr>]) < unflushed es" if "i < length es" "\<not> be_flushed (es ! i)"
    using that by (induction es arbitrary: i) (auto simp: unflushed_Cons nth_Cons split: nat.split nat.splits)
qed

lemma apply_statuses_unflushed: "unflushed (ws_entries (snd (apply_statuses ps ws))) \<le> unflushed (ws_entries ws)"
proof (induction ps ws rule: apply_statuses.induct)
  case (2 idx status rest ws)
  have "unflushed (ws_entries (note_written idx ws)) \<le> unflushed (ws_entries ws)"
    by (simp add: note_written_def Let_def unflushed_set)
  then show ?case using 2 by (fastforce split: write_through_status.split prod.split)
qed simp

lemma apply_statuses_progress:
  assumes "apply_statuses (zip (i # is) sts) ws = (False, ws')" and "length sts = Suc (length is)"
    and "i < length (ws_entries ws)" and "\<not> be_flushed (ws_entries ws ! i)"
  shows "unflushed (ws_entries ws') < unflushed (ws_entries ws)"
proof -
  obtain st sts' where s: "sts = st # sts'" using assms(2) by (cases sts) auto
  then have "st = Written" using assms(1) by (cases st) (auto split: prod.splits)
  then have "ws' = snd (apply_statuses (zip is sts') (note_written i ws))" using assms(1) s by simp
  then have "unflushed (ws_entries ws') \<le> unflushed (ws_entries (note_written i ws))"
    using apply_statuses_unflushed by simp
  also have "\<dots> < unflushed (ws_entries ws)"
    using assms(3,4) by (simp add: note_written_def Let_def unflushed_set)
  finally show ?thesis .
qed

text \<open>Taking the writes out leaves the rest of the entries alone.\<close>

definition bare :: "batch_entry \<Rightarrow> batch_entry" where
  "bare e = e\<lparr>be_entry := None\<rparr>"

lemma bare_sel [simp]:
  "be_flushed (bare e) = be_flushed e" "be_guid (bare e) = be_guid e" "be_children (bare e) = be_children e"
  "be_expected_seq (bare e) = be_expected_seq e" "be_epoch_idx (bare e) = be_epoch_idx e"
  "bare (e\<lparr>be_entry := w\<rparr>) = bare e"
  by (simp_all add: bare_def)

lemma take_wave_keeps: "map bare (snd (take_wave is es)) = map bare es"
proof (induction "is" es rule: take_wave.induct)
  case (2 idx rest es)
  have "map bare (es[idx := (es ! idx)\<lparr>be_entry := None\<rparr>]) = map bare es"
    by (cases "idx < length es") (simp_all add: map_update list_update_same_conv list_update_beyond)
  then show ?case using 2 by (auto split: option.split prod.splits sum.split)
qed simp

lemma bare_nth:
  assumes "map bare es' = map bare es" and "i < length es"
  shows "bare (es' ! i) = bare (es ! i)"
  using assms by (metis length_map nth_map)

lemma bare_eqD:
  assumes "bare e' = bare e"
  shows "be_flushed e' = be_flushed e" "be_guid e' = be_guid e" "be_children e' = be_children e"
    "be_expected_seq e' = be_expected_seq e" "be_epoch_idx e' = be_epoch_idx e"
  using assms bare_sel by metis+

lemma unflushed_bare: "unflushed (map bare es) = unflushed es"
  by (simp add: unflushed_def filter_map comp_def)

lemma take_wave_length: "take_wave is es = (Inr ws, es') \<Longrightarrow> length ws = length is"
  by (induction "is" es arbitrary: ws es' rule: take_wave.induct) (auto split: option.splits prod.splits sum.splits)

lemma current_flags_length: "current_flags ws bm = Inr fs \<Longrightarrow> length fs = length ws"
  by (induction ws arbitrary: fs) (auto simp: rbind_def split: sum.splits)

lemma write_through_batch_length: "write_through_batch ws bm = (Inr sts, bm') \<Longrightarrow> length sts = length ws"
  by (auto simp: write_through_batch_def Let_def current_flags_length split: if_splits sum.splits prod.splits)

lemma wave_round:
  assumes "ready_wave ws bm \<noteq> []" and "take_wave (ready_wave ws bm) (ws_entries ws) = (Inr wes, es)"
    and "write_through_batch wes bm = (Inr sts, bm1)"
    and "apply_statuses (zip (ready_wave ws bm) sts) (ws\<lparr>ws_entries := es\<rparr>) = (False, ws')"
  shows "unflushed (ws_entries ws') < unflushed (ws_entries ws)"
proof -
  obtain i "is" where w: "ready_wave ws bm = i # is" using assms(1) by (cases "ready_wave ws bm") auto
  have "i \<in> set (ready_wave ws bm)" using w by simp
  then have i: "i < length (ws_entries ws)" "\<not> be_flushed (ws_entries ws ! i)"
    by (auto simp: ready_wave_def Let_def)
  have k: "map bare es = map bare (ws_entries ws)"
    using take_wave_keeps [of "ready_wave ws bm" "ws_entries ws"] assms(2) by simp
  have i': "i < length es" "\<not> be_flushed (es ! i)"
    using arg_cong [OF k, of length] i bare_eqD(1) [OF bare_nth [OF k i(1)]] by simp_all
  have "length sts = Suc (length is)"
    using write_through_batch_length [OF assms(3)] take_wave_length [OF assms(2)] w by simp
  then have "unflushed (ws_entries ws') < unflushed es"
    using apply_statuses_progress [OF assms(4) [unfolded w]] i' by simp
  also have "\<dots> = unflushed (ws_entries ws)" using k by (metis unflushed_bare)
  finally show ?thesis .
qed

function write_waves :: "wave_state \<Rightarrow> buffer_manager \<Rightarrow> batch_write_report res \<times> wave_state \<times> buffer_manager" where
  "write_waves ws bm =
     (let wave = ready_wave ws bm
      in if wave = []
         then (Inr \<lparr>bw_dirty_flushed_by_epoch = ws_dirty_flushed_by_epoch ws,
                 bw_deferred = list_ex (\<lambda>e. \<not> be_flushed e) (ws_entries ws)\<rparr>, ws, bm)
         else case take_wave wave (ws_entries ws) of
             (Inl e, entries) \<Rightarrow> (Inl e, ws\<lparr>ws_entries := entries\<rparr>, bm)
           | (Inr wave_entries, entries) \<Rightarrow>
               (case write_through_batch wave_entries bm of
                  (Inl e, bm1) \<Rightarrow> (Inl e, ws\<lparr>ws_entries := entries\<rparr>, bm1)
                | (Inr statuses, bm1) \<Rightarrow>
                    (case flush_inner bm1 of
                       (Inl e, bm2) \<Rightarrow> (Inl e, ws\<lparr>ws_entries := entries\<rparr>, bm2)
                     | (Inr _, bm2) \<Rightarrow>
                         (case apply_statuses (zip wave statuses) (ws\<lparr>ws_entries := entries\<rparr>) of
                            (True, ws') \<Rightarrow> (Inr \<lparr>bw_dirty_flushed_by_epoch = ws_dirty_flushed_by_epoch ws',
                              bw_deferred = True\<rparr>, ws', bm2)
                          | (False, ws') \<Rightarrow> write_waves ws' bm2))))"
  by pat_completeness auto

termination
  by (relation "measure (\<lambda>(ws, bm). unflushed (ws_entries ws))") (auto intro: wave_round [OF _ sym sym sym])

declare write_waves.simps [simp del]

definition write_entries_in_dependency_order ::
    "batch_entry list \<Rightarrow> nat \<Rightarrow> buffer_manager \<Rightarrow> batch_write_report res \<times> batch_entry list \<times> buffer_manager" where
  "write_entries_in_dependency_order entries epoch_count bm =
     (case write_waves \<lparr>ws_entries = entries, ws_remaining_by_guid = count_remaining entries,
          ws_durable_this_batch = {}, ws_dirty_flushed_by_epoch = replicate epoch_count 0\<rparr> bm of
        (r, ws, bm') \<Rightarrow> (r, ws_entries ws, bm'))"

section \<open>Restoring what did not land\<close>

text \<open>The entries pass through a map keyed by blob; a later entry replaces an earlier one.\<close>

definition entries_map :: "batch_entry list \<Rightarrow> seq_map" where
  "entries_map entries = fold (\<lambda>e m. AList.update (be_guid e) (be_expected_seq e) m) entries []"

definition restore_batch_entries :: "batch_entry list \<Rightarrow> buffer_manager \<Rightarrow> buffer_manager" where
  "restore_batch_entries entries bm = (if entries = [] then bm else restore_dirty (entries_map entries) bm)"

definition restore_unflushed_batch_entries :: "batch_entry list \<Rightarrow> buffer_manager \<Rightarrow> buffer_manager" where
  "restore_unflushed_batch_entries entries bm = restore_dirty (entries_map (filter (\<lambda>e. \<not> be_flushed e) entries)) bm"

definition extend_map :: "seq_map \<Rightarrow> seq_map \<Rightarrow> seq_map" where
  "extend_map m m2 = fold (\<lambda>(g, s) m. AList.update g s m) m2 m"

definition restore_all_pending :: "checkpoint_epoch list \<Rightarrow> buffer_manager \<Rightarrow> buffer_manager" where
  "restore_all_pending epochs bm = restore_pending_deletes (fold (\<lambda>ep m. extend_map m (ce_pending ep)) epochs []) bm"

definition restore_applied_pending :: "checkpoint_epoch list \<Rightarrow> seq_map list \<Rightarrow> buffer_manager \<Rightarrow> buffer_manager" where
  "restore_applied_pending epochs per_epoch_failed bm =
     restore_pending_deletes (fold (\<lambda>(ep, failed) m.
       extend_map m (filter (\<lambda>(g, _). map_of failed g = None) (ce_pending ep))) (zip epochs per_epoch_failed) []) bm"

definition reports_with_error :: "epoch_progress list \<Rightarrow> nat list \<Rightarrow> error \<Rightarrow> checkpoint_epoch_report list" where
  "reports_with_error progresses flushed first_error =
     map (\<lambda>(i, p, n). \<lparr>er_dirty_total = ep_dirty_total p, er_dirty_flushed = n, er_pending_total = ep_pending_total p,
         er_applied_deletes = 0,
         er_result = Inl (if i = 0 then first_error else Internal ''checkpoint epoch group failed'')\<rparr>)
       (enumerate 0 (zip progresses flushed))"

definition reports_without_delete_phase :: "epoch_progress list \<Rightarrow> nat list \<Rightarrow> checkpoint_epoch_report list" where
  "reports_without_delete_phase progresses flushed =
     map (\<lambda>(p, n). \<lparr>er_dirty_total = ep_dirty_total p, er_dirty_flushed = n, er_pending_total = ep_pending_total p,
         er_applied_deletes = 0, er_result = Inr ()\<rparr>) (zip progresses flushed)"

section \<open>Committing a batch of epochs\<close>

definition progress_of :: "checkpoint_epoch \<Rightarrow> epoch_progress" where
  "progress_of ep = \<lparr>ep_dirty_total = length (ce_entries ep), ep_pending_total = length (ce_pending ep)\<rparr>"

definition batch_entry_of :: "nat \<Rightarrow> nat \<Rightarrow> write_through_entry \<Rightarrow> batch_entry" where
  "batch_entry_of fuel epoch_idx w = \<lparr>be_epoch_idx = epoch_idx, be_guid = wt_guid w, be_expected_seq = wt_expected_seq w,
     be_entry = Some w, be_children = (case collect_entry_children fuel w of Inr children \<Rightarrow> children | Inl _ \<Rightarrow> []),
     be_flushed = False\<rparr>"

definition collect_entries :: "nat \<Rightarrow> checkpoint_epoch list \<Rightarrow> batch_entry list" where
  "collect_entries fuel epochs =
     concat (map (\<lambda>(epoch_idx, ep). map (batch_entry_of fuel epoch_idx) (ce_entries ep)) (enumerate 0 epochs))"

fun first_error :: "'a res list \<Rightarrow> error option" where
  "first_error [] = None"
| "first_error (Inl e # rest) = Some e"
| "first_error (Inr x # rest) = first_error rest"

definition collect_error :: "nat \<Rightarrow> checkpoint_epoch list \<Rightarrow> error option" where
  "collect_error fuel epochs = first_error (map (collect_entry_children fuel) (concat (map ce_entries epochs)))"

fun delete_pending :: "seq_map \<Rightarrow> buffer_manager \<Rightarrow> (seq_map \<times> error option) \<times> buffer_manager" where
  "delete_pending [] bm = (([], None), bm)"
| "delete_pending ((guid, seq) # rest) bm =
     (case execute_pending_delete guid bm of
        (Inr _, bm1) \<Rightarrow> delete_pending rest bm1
      | (Inl e, bm1) \<Rightarrow> (case delete_pending rest bm1 of ((failed, _), bm2) \<Rightarrow> (((guid, seq) # failed, Some e), bm2)))"

fun delete_epochs :: "checkpoint_epoch list \<Rightarrow> buffer_manager \<Rightarrow> (seq_map \<times> error option) list \<times> buffer_manager" where
  "delete_epochs [] bm = ([], bm)"
| "delete_epochs (ep # rest) bm =
     (case delete_pending (ce_pending ep) bm of ((failed, err), bm1) \<Rightarrow>
      let bm2 = (if failed = [] then bm1 else restore_pending_deletes failed bm1)
      in case delete_epochs rest bm2 of (out, bm3) \<Rightarrow> ((failed, err) # out, bm3))"

definition finish_deletes :: "checkpoint_epoch list \<Rightarrow> nat list \<Rightarrow> buffer_manager \<Rightarrow> checkpoint_epoch_report list \<times> buffer_manager" where
  "finish_deletes epochs flushed bm =
     (case delete_epochs epochs bm of (outcomes, bm1) \<Rightarrow>
      let failed = map fst outcomes;
          applied_total = sum_list (map2 (\<lambda>ep f. length (ce_pending ep) - length f) epochs failed);
          reports = map2 (\<lambda>(ep, n) (f, err). \<lparr>er_dirty_total = length (ce_entries ep), er_dirty_flushed = n,
              er_pending_total = length (ce_pending ep), er_applied_deletes = length (ce_pending ep) - length f,
              er_result = (case err of None \<Rightarrow> Inr () | Some e \<Rightarrow> Inl e)\<rparr>) (zip epochs flushed) outcomes
      in if applied_total > 0
         then case flush_inner bm1 of
                (Inl e, bm2) \<Rightarrow> (reports_with_error (map progress_of epochs) flushed e, restore_applied_pending epochs failed bm2)
              | (Inr _, bm2) \<Rightarrow> (reports, bm2)
         else (reports, bm1))"

definition commit_epoch_batch :: "nat \<Rightarrow> checkpoint_epoch list \<Rightarrow> buffer_manager \<Rightarrow> checkpoint_epoch_report list \<times> buffer_manager" where
  "commit_epoch_batch fuel epochs bm =
     (let progresses = map progress_of epochs; entries = collect_entries fuel epochs; zeros = replicate (length epochs) 0
      in case collect_error fuel epochs of
           Some e \<Rightarrow> (reports_with_error progresses zeros e, restore_all_pending epochs (restore_batch_entries entries bm))
         | None \<Rightarrow>
             if entries = []
             then case flush_inner bm of
                    (Inl e, bm1) \<Rightarrow> (reports_with_error progresses zeros e, restore_all_pending epochs bm1)
                  | (Inr _, bm1) \<Rightarrow> finish_deletes epochs zeros bm1
             else case write_entries_in_dependency_order entries (length epochs) bm of
                    (Inl e, entries', bm1) \<Rightarrow>
                      (reports_with_error progresses zeros e, restore_all_pending epochs (restore_batch_entries entries' bm1))
                  | (Inr report, entries', bm1) \<Rightarrow>
                      if bw_deferred report
                      then (reports_without_delete_phase progresses (bw_dirty_flushed_by_epoch report),
                            restore_all_pending epochs (restore_unflushed_batch_entries entries' bm1))
                      else finish_deletes epochs (bw_dirty_flushed_by_epoch report) bm1)"

end
