(* ===== verification/Wal_Codec.thy ===== *)
theory Wal_Codec
  imports Prelude
begin

text \<open>
  The write-ahead log codec of \<^verbatim>\<open>src/journal/codec.rs\<close> and the operations of
  \<^verbatim>\<open>src/journal/wal_op.rs\<close>: record framing, the per-variant encoders, the streaming batch
  encoder and the decoder.  The checksum comes from the crate \<^verbatim>\<open>crc32fast\<close> and is the
  parameter \<open>crc\<close> of every definition that uses it; nothing is assumed about it.  A record
  decodes to the operation it was encoded from, whatever follows it, and every proper prefix
  of a record is reported as truncated.
\<close>

section \<open>Operations\<close>

datatype wal_op =
    WInsert nat bytes bytes
  | WErase nat bytes
  | WRename nat bytes bytes bool
  | WBatch "wal_op list"

fun op_tree_id :: "wal_op \<Rightarrow> nat option" where
  "op_tree_id (WInsert tree_id _ _) = Some tree_id"
| "op_tree_id (WErase tree_id _) = Some tree_id"
| "op_tree_id (WRename tree_id _ _ _) = Some tree_id"
| "op_tree_id (WBatch _) = None"

section \<open>Constants\<close>

definition RECORD_MAGIC :: nat where "RECORD_MAGIC = 0x52434552"
definition RECORD_HEADER_SIZE :: nat where "RECORD_HEADER_SIZE = 4 + 4 + 8 + 1"
definition RECORD_FOOTER_SIZE :: nat where "RECORD_FOOTER_SIZE = 4"
definition FILE_MAGIC :: nat where "FILE_MAGIC = 0x414C4157"
definition FORMAT_VERSION :: nat where "FORMAT_VERSION = 3"
definition FILE_HEADER_SIZE :: nat where "FILE_HEADER_SIZE = 32"

definition TY_INSERT :: u8 where "TY_INSERT = 0"
definition TY_ERASE :: u8 where "TY_ERASE = 1"
definition TY_RENAME_OBJECT :: u8 where "TY_RENAME_OBJECT = 5"
definition TY_BATCH :: u8 where "TY_BATCH = 10"
definition TY_BATCH_INSERT_RUN :: u8 where "TY_BATCH_INSERT_RUN = 11"

lemmas ty_defs = TY_INSERT_def TY_ERASE_def TY_RENAME_OBJECT_def TY_BATCH_def TY_BATCH_INSERT_RUN_def

lemmas record_sizes = RECORD_HEADER_SIZE_def RECORD_FOOTER_SIZE_def FILE_HEADER_SIZE_def

definition sanity :: "string \<Rightarrow> error" where
  "sanity context = ReplaySanityFailed context 0"

section \<open>File header\<close>

record file_header =
  fh_tree_id :: nat
  fh_created_at :: nat

definition encode_file_header :: "file_header \<Rightarrow> bytes \<Rightarrow> bytes" where
  "encode_file_header h out =
     out @ nat_le 4 FILE_MAGIC @ nat_le 4 FORMAT_VERSION @ nat_le 8 (fh_tree_id h)
       @ nat_le 8 (fh_created_at h) @ nat_le 8 0"

definition decode_file_header :: "bytes \<Rightarrow> file_header res" where
  "decode_file_header b =
     (if length b < FILE_HEADER_SIZE then Inl (sanity ''WAL file header truncated'')
      else if le_nat (take 4 b) \<noteq> FILE_MAGIC then Inl (sanity ''WAL file magic mismatch'')
      else if le_nat (take 4 (drop 4 b)) \<noteq> FORMAT_VERSION
      then Inl (sanity ''WAL file format version unsupported'')
      else Inr \<lparr>fh_tree_id = le_nat (take 8 (drop 8 b)), fh_created_at = le_nat (take 8 (drop 16 b))\<rparr>)"

section \<open>Encoding\<close>

text \<open>Overwriting part of a buffer: \<^verbatim>\<open>out[i..i+n].copy_from_slice(bs)\<close>.\<close>

definition patch :: "bytes \<Rightarrow> nat \<Rightarrow> bytes \<Rightarrow> bytes" where
  "patch out i bs = take i out @ bs @ drop (i + length bs) out"

definition write_record ::
  "(bytes \<Rightarrow> u32) \<Rightarrow> nat \<Rightarrow> u8 \<Rightarrow> (bytes \<Rightarrow> bytes res) \<Rightarrow> bytes \<Rightarrow> bytes res" where
  "write_record crc seq ty write_body out =
     (let start = length out;
          out1 = out @ nat_le 4 RECORD_MAGIC;
          len_pos = length out1;
          out2 = out1 @ replicate 4 0 @ nat_le 8 seq @ [ty];
          body_start = length out2
      in rbind (write_body out2) (\<lambda>out3.
         let body_end = length out3
         in if body_end - body_start \<ge> 2 ^ 32 then Inl (Panic ''body fits in u32'')
            else
              (let out4 = patch out3 len_pos (nat_le 4 (body_end - body_start));
                   c = crc (drop start (take body_end out4))
               in Inr (out4 @ nat_le 4 (unat c)))))"

definition write_bytes :: "bytes \<Rightarrow> bytes \<Rightarrow> bytes res" where
  "write_bytes b out =
     (if length b \<ge> 2 ^ 32 then Inl (Panic ''byte string fits in u32'')
      else Inr (out @ nat_le 4 (length b) @ b))"

definition encode_insert_record :: "(bytes \<Rightarrow> u32) \<Rightarrow> nat \<Rightarrow> nat \<Rightarrow> bytes \<Rightarrow> bytes \<Rightarrow> bytes \<Rightarrow> bytes res" where
  "encode_insert_record crc seq tree_id key value out =
     write_record crc seq TY_INSERT (\<lambda>buf.
       rbind (write_bytes key (buf @ nat_le 8 tree_id)) (write_bytes value)) out"

definition encoded_insert_record_len :: "nat \<Rightarrow> nat \<Rightarrow> nat" where
  "encoded_insert_record_len key_len value_len =
     RECORD_HEADER_SIZE + 8 + 4 + key_len + 4 + value_len + RECORD_FOOTER_SIZE"

definition encode_erase_record :: "(bytes \<Rightarrow> u32) \<Rightarrow> nat \<Rightarrow> nat \<Rightarrow> bytes \<Rightarrow> bytes \<Rightarrow> bytes res" where
  "encode_erase_record crc seq tree_id key out =
     write_record crc seq TY_ERASE (\<lambda>buf. write_bytes key (buf @ nat_le 8 tree_id)) out"

definition encoded_erase_record_len :: "nat \<Rightarrow> nat" where
  "encoded_erase_record_len key_len = RECORD_HEADER_SIZE + 8 + 4 + key_len + RECORD_FOOTER_SIZE"

definition encode_rename_object_record ::
  "(bytes \<Rightarrow> u32) \<Rightarrow> nat \<Rightarrow> nat \<Rightarrow> bytes \<Rightarrow> bytes \<Rightarrow> bool \<Rightarrow> bytes \<Rightarrow> bytes res" where
  "encode_rename_object_record crc seq tree_id src_key dst_key force out =
     write_record crc seq TY_RENAME_OBJECT (\<lambda>buf.
       rbind (write_bytes src_key (buf @ nat_le 8 tree_id)) (\<lambda>buf.
       rbind (write_bytes dst_key buf) (\<lambda>buf.
       Inr (buf @ [if force then 1 else 0])))) out"

definition encoded_rename_object_record_len :: "nat \<Rightarrow> nat \<Rightarrow> nat" where
  "encoded_rename_object_record_len src_key_len dst_key_len =
     RECORD_HEADER_SIZE + 8 + 4 + src_key_len + 4 + dst_key_len + 1 + RECORD_FOOTER_SIZE"

subsection \<open>The generic encoder\<close>

fun variant_tag :: "wal_op \<Rightarrow> u8" where
  "variant_tag (WInsert _ _ _) = TY_INSERT"
| "variant_tag (WErase _ _) = TY_ERASE"
| "variant_tag (WRename _ _ _ _) = TY_RENAME_OBJECT"
| "variant_tag (WBatch _) = TY_BATCH"

fun encode_primitive :: "wal_op \<Rightarrow> bytes \<Rightarrow> bytes res" where
  "encode_primitive (WInsert tree_id key value) out =
     rbind (write_bytes key (out @ nat_le 8 tree_id)) (write_bytes value)"
| "encode_primitive (WErase tree_id key) out = write_bytes key (out @ nat_le 8 tree_id)"
| "encode_primitive (WRename tree_id src_key dst_key force) out =
     rbind (write_bytes src_key (out @ nat_le 8 tree_id)) (\<lambda>out.
     rbind (write_bytes dst_key out) (\<lambda>out.
     Inr (out @ [if force then 1 else 0])))"
| "encode_primitive (WBatch _) out = Inl (Panic ''nested Batch is rejected'')"

fun encode_inner :: "wal_op list \<Rightarrow> bytes \<Rightarrow> bytes res" where
  "encode_inner [] out = Inr out"
| "encode_inner (op # ops) out =
     (if variant_tag op = TY_BATCH then Inl (Panic ''nested Batch is rejected'')
      else rbind (encode_primitive op (out @ [variant_tag op])) (encode_inner ops))"

fun encode_body :: "wal_op \<Rightarrow> bytes \<Rightarrow> bytes res" where
  "encode_body (WBatch ops) out =
     (if length ops \<ge> 2 ^ 32 then Inl (Panic ''batch ops fit in u32'')
      else encode_inner ops (out @ nat_le 8 0 @ nat_le 4 (length ops)))"
| "encode_body op out = encode_primitive op out"

definition encode_record :: "(bytes \<Rightarrow> u32) \<Rightarrow> wal_op \<Rightarrow> nat \<Rightarrow> bytes \<Rightarrow> bytes res" where
  "encode_record crc op seq out = write_record crc seq (variant_tag op) (encode_body op) out"

subsection \<open>The streaming batch encoder\<close>

record batch_encoder =
  be_out :: bytes
  be_start :: nat
  be_len_pos :: nat
  be_body_start :: nat
  be_count_pos :: nat
  be_inner_count :: nat
  be_finished :: bool

definition batch_begin :: "bytes \<Rightarrow> nat \<Rightarrow> nat \<Rightarrow> batch_encoder" where
  "batch_begin out seq tree_id =
     (let start = length out;
          out1 = out @ nat_le 4 RECORD_MAGIC;
          len_pos = length out1;
          out2 = out1 @ replicate 4 0 @ nat_le 8 seq @ [TY_BATCH];
          body_start = length out2;
          out3 = out2 @ nat_le 8 tree_id;
          count_pos = length out3;
          out4 = out3 @ replicate 4 0
      in \<lparr>be_out = out4, be_start = start, be_len_pos = len_pos, be_body_start = body_start,
          be_count_pos = count_pos, be_inner_count = 0, be_finished = False\<rparr>)"

definition be_push :: "(bytes \<Rightarrow> bytes res) \<Rightarrow> nat \<Rightarrow> batch_encoder \<Rightarrow> batch_encoder res" where
  "be_push w n e =
     rbind (w (be_out e)) (\<lambda>out.
     Inr (e\<lparr>be_out := out, be_inner_count := as_u32 (be_inner_count e + n)\<rparr>))"

definition push_insert :: "nat \<Rightarrow> bytes \<Rightarrow> bytes \<Rightarrow> batch_encoder \<Rightarrow> batch_encoder res" where
  "push_insert tree_id key value =
     be_push (\<lambda>out. rbind (write_bytes key (out @ [TY_INSERT] @ nat_le 8 tree_id)) (write_bytes value)) 1"

definition push_insert_run ::
  "nat \<Rightarrow> nat \<Rightarrow> nat \<Rightarrow> nat \<Rightarrow> (bytes \<times> bytes) list \<Rightarrow> batch_encoder \<Rightarrow> batch_encoder res" where
  "push_insert_run tree_id count key_len value_len items e =
     (if count = 1
      then (case items of
              [] \<Rightarrow> Inl (Panic ''single insert run has one item'')
            | (key, value) # _ \<Rightarrow> push_insert tree_id key value e)
      else if count \<ge> 2 ^ 32 then Inl (Panic ''insert run count fits in u32'')
      else if key_len \<ge> 2 ^ 32 then Inl (Panic ''key length fits in u32'')
      else if value_len \<ge> 2 ^ 32 then Inl (Panic ''value length fits in u32'')
      else be_push (\<lambda>out.
             if length items \<noteq> count then Inl (Panic ''insert run item count mismatch'')
             else Inr (out @ [TY_BATCH_INSERT_RUN] @ nat_le 8 tree_id @ nat_le 4 count @ nat_le 4 key_len
                        @ nat_le 4 value_len @ concat (map (\<lambda>(k, v). k @ v) items))) count e)"

definition push_erase :: "nat \<Rightarrow> bytes \<Rightarrow> batch_encoder \<Rightarrow> batch_encoder res" where
  "push_erase tree_id key =
     be_push (\<lambda>out. write_bytes key (out @ [TY_ERASE] @ nat_le 8 tree_id)) 1"

definition push_rename_object :: "nat \<Rightarrow> bytes \<Rightarrow> bytes \<Rightarrow> bool \<Rightarrow> batch_encoder \<Rightarrow> batch_encoder res" where
  "push_rename_object tree_id src dst force =
     be_push (\<lambda>out. rbind (write_bytes src (out @ [TY_RENAME_OBJECT] @ nat_le 8 tree_id)) (\<lambda>out.
                     rbind (write_bytes dst out) (\<lambda>out. Inr (out @ [if force then 1 else 0])))) 1"

definition batch_finish :: "(bytes \<Rightarrow> u32) \<Rightarrow> batch_encoder \<Rightarrow> (nat \<times> batch_encoder) res" where
  "batch_finish crc e =
     (let body_end = length (be_out e);
          body_len = body_end - be_body_start e
      in if body_len \<ge> 2 ^ 32 then Inl (Panic ''batch body fits in u32'')
         else
           (let out1 = patch (be_out e) (be_count_pos e) (nat_le 4 (be_inner_count e));
                out2 = patch out1 (be_len_pos e) (nat_le 4 body_len);
                c = crc (drop (be_start e) (take body_end out2))
            in Inr (be_inner_count e, e\<lparr>be_out := out2 @ nat_le 4 (unat c), be_finished := True\<rparr>)))"

text \<open>Dropping the encoder rolls an unfinished record back.\<close>

definition batch_drop :: "batch_encoder \<Rightarrow> bytes" where
  "batch_drop e = (if be_finished e then be_out e else take (be_start e) (be_out e))"

section \<open>Decoding\<close>

record decoded_record =
  dr_op :: wal_op
  dr_seq :: nat
  bytes_consumed :: nat

text \<open>The readers advance a cursor, here the state of the monad.\<close>

definition take_bytes :: "nat \<Rightarrow> (bytes, bytes) st" where
  "take_bytes n = (\<lambda>body. if length body < n then (Inl (sanity ''body truncated''), body)
     else (Inr (take n body), drop n body))"

definition read_u8 :: "(bytes, u8) st" where
  "read_u8 = sbind (take_bytes 1) (\<lambda>front. sret (hd front))"

definition read_u32 :: "(bytes, nat) st" where
  "read_u32 = sbind (take_bytes 4) (\<lambda>front. sret (le_nat front))"

definition read_u64 :: "(bytes, nat) st" where
  "read_u64 = sbind (take_bytes 8) (\<lambda>front. sret (le_nat front))"

definition read_bytes :: "(bytes, bytes) st" where
  "read_bytes = sbind read_u32 take_bytes"

fun decode_run_items :: "nat \<Rightarrow> nat \<Rightarrow> nat \<Rightarrow> nat \<Rightarrow> wal_op list \<Rightarrow> (bytes, wal_op list) st" where
  "decode_run_items 0 tree_id key_len value_len ops = sret ops"
| "decode_run_items (Suc n) tree_id key_len value_len ops =
     sbind (take_bytes key_len) (\<lambda>key.
     sbind (take_bytes value_len) (\<lambda>value.
     decode_run_items n tree_id key_len value_len (ops @ [WInsert tree_id key value])))"

definition decode_insert_run :: "nat \<Rightarrow> wal_op list \<Rightarrow> (bytes, wal_op list) st" where
  "decode_insert_run batch_count ops =
     sbind read_u64 (\<lambda>tree_id.
     sbind read_u32 (\<lambda>count.
       if count = 0 then sfail (sanity ''empty BatchInsertRun is rejected'')
       else if length ops + count > batch_count
       then sfail (sanity ''BatchInsertRun exceeds batch inner count'')
       else sbind read_u32 (\<lambda>key_len.
            sbind read_u32 (\<lambda>value_len.
            decode_run_items count tree_id key_len value_len ops))))"

definition decode_primitive :: "u8 \<Rightarrow> (bytes, wal_op) st" where
  "decode_primitive ty =
     (if ty = TY_INSERT then
        sbind read_u64 (\<lambda>tree_id. sbind read_bytes (\<lambda>key. sbind read_bytes (\<lambda>value.
        sret (WInsert tree_id key value))))
      else if ty = TY_ERASE then
        sbind read_u64 (\<lambda>tree_id. sbind read_bytes (\<lambda>key. sret (WErase tree_id key)))
      else if ty = TY_RENAME_OBJECT then
        sbind read_u64 (\<lambda>tree_id. sbind read_bytes (\<lambda>src_key. sbind read_bytes (\<lambda>dst_key.
        sbind read_u8 (\<lambda>f. sret (WRename tree_id src_key dst_key (f \<noteq> 0))))))
      else sfail (sanity ''unknown WalOp variant tag''))"

definition decode_inner :: "nat \<Rightarrow> wal_op list \<Rightarrow> (bytes, wal_op list) st" where
  "decode_inner count ops =
     sbind read_u8 (\<lambda>inner_ty.
       if inner_ty = TY_BATCH then sfail (sanity ''nested Batch is rejected'')
       else if inner_ty = TY_BATCH_INSERT_RUN then decode_insert_run count ops
       else sbind (decode_primitive inner_ty) (\<lambda>inner. sret (ops @ [inner])))"

lemma decode_run_items_length:
  "decode_run_items n tree_id key_len value_len ops body = (Inr ops', body') \<Longrightarrow> length ops' = length ops + n"
  by (induction n arbitrary: ops body)
    (auto simp: sret_def sbind_Inr_iff split: prod.splits)

lemma decode_inner_grows:
  "decode_inner count ops body = (Inr ops', body') \<Longrightarrow> length ops < length ops'"
  by (auto simp: decode_inner_def decode_insert_run_def sbind_Inr_iff sret_def sfail_def
      dest!: decode_run_items_length split: if_splits)

function decode_batch_loop :: "nat \<Rightarrow> wal_op list \<Rightarrow> bytes \<Rightarrow> wal_op list res \<times> bytes" where
  "decode_batch_loop count ops body =
     (if length ops < count
      then (case decode_inner count ops body of
              (Inl e, body') \<Rightarrow> (Inl e, body')
            | (Inr ops', body') \<Rightarrow> decode_batch_loop count ops' body')
      else (Inr ops, body))"
  by pat_completeness auto
termination
  by (relation "measure (\<lambda>(count, ops, body). count - length ops)") (auto dest!: decode_inner_grows [OF sym])

declare decode_batch_loop.simps [simp del]

definition decode_body_into :: "u8 \<Rightarrow> (bytes, wal_op) st" where
  "decode_body_into ty =
     (if ty = TY_BATCH then
        sbind read_u64 (\<lambda>_.
        sbind read_u32 (\<lambda>count.
        sbind (decode_batch_loop count []) (\<lambda>ops. sret (WBatch ops))))
      else decode_primitive ty)"

definition decode_body :: "u8 \<Rightarrow> bytes \<Rightarrow> wal_op res" where
  "decode_body ty body =
     (case decode_body_into ty body of
        (Inl e, cursor) \<Rightarrow> Inl e
      | (Inr op, cursor) \<Rightarrow>
          if cursor \<noteq> [] then Inl (sanity ''trailing bytes after variant body'') else Inr op)"

definition decode_record :: "(bytes \<Rightarrow> u32) \<Rightarrow> bytes \<Rightarrow> decoded_record res" where
  "decode_record crc b =
     (if length b < RECORD_HEADER_SIZE then Inl (sanity ''record header truncated'')
      else if le_nat (take 4 b) \<noteq> RECORD_MAGIC then Inl (sanity ''record magic mismatch'')
      else
        (let body_len = le_nat (take 4 (drop 4 b));
             seq = le_nat (take 8 (drop 8 b));
             ty = b ! 16;
             total = RECORD_HEADER_SIZE + body_len + RECORD_FOOTER_SIZE
         in if length b < total then Inl (sanity ''record body truncated'')
            else
              (let body_end = RECORD_HEADER_SIZE + body_len;
                   crc_expected = le_nat (take 4 (drop body_end b));
                   crc_computed = crc (take body_end b)
               in if unat crc_computed \<noteq> crc_expected then Inl (sanity ''record CRC mismatch'')
                  else rbind (decode_body ty (take body_len (drop RECORD_HEADER_SIZE b))) (\<lambda>op.
                       Inr \<lparr>dr_op = op, dr_seq = seq, bytes_consumed = total\<rparr>))))"

section \<open>Frames\<close>

text \<open>A record as the concatenation of its parts.\<close>

definition frame_head :: "nat \<Rightarrow> u8 \<Rightarrow> bytes \<Rightarrow> bytes" where
  "frame_head seq ty body = nat_le 4 RECORD_MAGIC @ nat_le 4 (length body) @ nat_le 8 seq @ [ty] @ body"

definition frame :: "(bytes \<Rightarrow> u32) \<Rightarrow> nat \<Rightarrow> u8 \<Rightarrow> bytes \<Rightarrow> bytes" where
  "frame crc seq ty body = frame_head seq ty body @ nat_le 4 (unat (crc (frame_head seq ty body)))"

lemma length_frame_head [simp]: "length (frame_head seq ty body) = RECORD_HEADER_SIZE + length body"
  by (simp add: frame_head_def record_sizes)

lemma length_frame [simp]: "length (frame crc seq ty body) = RECORD_HEADER_SIZE + length body + RECORD_FOOTER_SIZE"
  by (simp add: frame_def record_sizes)

lemma patch_middle: "length bs = length old \<Longrightarrow> patch (a @ old @ c) (length a) bs = a @ bs @ c"
  by (simp add: patch_def)

lemma write_record_frame:
  assumes w: "\<And>out2. write_body out2 = Inr (out2 @ body)" and len: "length body < 2 ^ 32"
  shows "write_record crc seq ty write_body out = Inr (out @ frame crc seq ty body)"
proof -
  let ?m = "nat_le 4 RECORD_MAGIC" and ?t = "nat_le 8 seq @ [ty] @ body"
  have "patch (out @ ?m @ replicate 4 0 @ ?t) (length out + 4) (nat_le 4 (length body))
      = (out @ ?m) @ nat_le 4 (length body) @ ?t"
    using patch_middle [of "nat_le 4 (length body)" "replicate 4 0" "out @ ?m" ?t] by simp
  then show ?thesis
    using len by (simp add: write_record_def w Let_def frame_def frame_head_def)
qed

lemma le_nat_4 [simp]: "x < 2 ^ 32 \<Longrightarrow> le_nat (nat_le 4 x) = x"
  by simp

lemma le_nat_8 [simp]: "x < 2 ^ 64 \<Longrightarrow> le_nat (nat_le 8 x) = x"
  by simp

lemma frame_head_parts:
  "take 4 (frame_head seq ty body @ rest) = nat_le 4 RECORD_MAGIC"
  "take 4 (drop 4 (frame_head seq ty body @ rest)) = nat_le 4 (length body)"
  "take 8 (drop 8 (frame_head seq ty body @ rest)) = nat_le 8 seq"
  "(frame_head seq ty body @ rest) ! 16 = ty"
  "take (length body) (drop 17 (frame_head seq ty body @ rest)) = body"
  by (simp_all add: frame_head_def nth_append)

lemma magic_fits: "RECORD_MAGIC < 2 ^ 32"
  by (simp add: RECORD_MAGIC_def)

lemma crc_fits: "unat (c :: u32) < 2 ^ 32"
  using unsigned_less [of c] by simp

lemma decode_frame:
  assumes "seq < 2 ^ 64" and "length body < 2 ^ 32" and "decode_body ty body = Inr op"
  shows "decode_record crc (frame crc seq ty body @ rest)
    = Inr \<lparr>dr_op = op, dr_seq = seq, bytes_consumed = length (frame crc seq ty body)\<rparr>"
proof -
  let ?h = "frame_head seq ty body" and ?b = "frame crc seq ty body @ rest"
  have b: "?b = ?h @ nat_le 4 (unat (crc ?h)) @ rest" by (simp add: frame_def)
  have "take (17 + length body) ?b = ?h" and "take 4 (drop (17 + length body) ?b) = nat_le 4 (unat (crc ?h))"
    unfolding b by (simp_all add: record_sizes)
  moreover have "take 4 ?b = nat_le 4 RECORD_MAGIC" "take 4 (drop 4 ?b) = nat_le 4 (length body)"
    "take 8 (drop 8 ?b) = nat_le 8 seq" "?b ! 16 = ty" "take (length body) (drop 17 ?b) = body"
    unfolding b by (rule frame_head_parts)+
  moreover have "le_nat (nat_le 4 (unat (crc ?h))) = unat (crc ?h)" "le_nat (nat_le 4 RECORD_MAGIC) = RECORD_MAGIC"
    by (simp_all only: le_nat_4 crc_fits magic_fits)
  ultimately show ?thesis
    using assms by (simp add: decode_record_def Let_def record_sizes del: le_nat_nat_le)
qed

lemma decode_cut:
  assumes "n < length (frame crc seq ty body)" and "length body < 2 ^ 32"
  shows "decode_record crc (take n (frame crc seq ty body))
    = Inl (sanity (if n < RECORD_HEADER_SIZE then ''record header truncated'' else ''record body truncated''))"
proof (cases "n < RECORD_HEADER_SIZE")
  case True
  then show ?thesis using assms by (simp add: decode_record_def)
next
  case False
  let ?b = "take n (frame crc seq ty body)"
  have n: "17 \<le> n" using False by (simp add: record_sizes)
  have f: "take 4 (frame crc seq ty body) = nat_le 4 RECORD_MAGIC"
      "take 4 (drop 4 (frame crc seq ty body)) = nat_le 4 (length body)"
    unfolding frame_def by (rule frame_head_parts)+
  have part: "take 4 ?b = take 4 (frame crc seq ty body)" "take 4 (drop 4 ?b) = take 4 (drop 4 (frame crc seq ty body))"
    using n by (simp_all add: drop_take min_def)
  note part [unfolded f]
  moreover have "le_nat (nat_le 4 RECORD_MAGIC) = RECORD_MAGIC" by (simp only: le_nat_4 magic_fits)
  moreover have "length ?b = n" using assms(1) by simp
  ultimately show ?thesis
    using assms False by (simp add: decode_record_def Let_def del: le_nat_nat_le)
qed

section \<open>Bodies\<close>

definition bstr :: "bytes \<Rightarrow> bytes" where
  "bstr b = nat_le 4 (length b) @ b"

fun prim_body :: "wal_op \<Rightarrow> bytes" where
  "prim_body (WInsert tree_id key value) = nat_le 8 tree_id @ bstr key @ bstr value"
| "prim_body (WErase tree_id key) = nat_le 8 tree_id @ bstr key"
| "prim_body (WRename tree_id src dst force) = nat_le 8 tree_id @ bstr src @ bstr dst @ [if force then 1 else 0]"
| "prim_body (WBatch _) = []"

fun wf_prim :: "wal_op \<Rightarrow> bool" where
  "wf_prim (WInsert tree_id key value) \<longleftrightarrow> tree_id < 2 ^ 64 \<and> length key < 2 ^ 32 \<and> length value < 2 ^ 32"
| "wf_prim (WErase tree_id key) \<longleftrightarrow> tree_id < 2 ^ 64 \<and> length key < 2 ^ 32"
| "wf_prim (WRename tree_id src dst force) \<longleftrightarrow> tree_id < 2 ^ 64 \<and> length src < 2 ^ 32 \<and> length dst < 2 ^ 32"
| "wf_prim (WBatch _) \<longleftrightarrow> False"

lemma write_bytes_bstr: "length b < 2 ^ 32 \<Longrightarrow> write_bytes b out = Inr (out @ bstr b)"
  by (simp add: write_bytes_def bstr_def)

lemma encode_primitive_body: "wf_prim op \<Longrightarrow> encode_primitive op out = Inr (out @ prim_body op)"
  by (cases op) (simp_all add: write_bytes_bstr)

lemma read_u64_nat_le: "x < 2 ^ 64 \<Longrightarrow> read_u64 (nat_le 8 x @ rest) = (Inr x, rest)"
  by (simp add: read_u64_def take_bytes_def sbind_def sret_def del: le_nat_nat_le)

lemma read_u32_nat_le: "x < 2 ^ 32 \<Longrightarrow> read_u32 (nat_le 4 x @ rest) = (Inr x, rest)"
  by (simp add: read_u32_def take_bytes_def sbind_def sret_def del: le_nat_nat_le)

lemma take_bytes_append: "length bs = n \<Longrightarrow> take_bytes n (bs @ rest) = (Inr bs, rest)"
  by (simp add: take_bytes_def)

lemma read_bytes_bstr: "length b < 2 ^ 32 \<Longrightarrow> read_bytes (bstr b @ rest) = (Inr b, rest)"
  by (simp add: read_bytes_def bstr_def sbind_def read_u32_nat_le take_bytes_append)

lemma read_u8_Cons: "read_u8 (x # rest) = (Inr x, rest)"
  by (simp add: read_u8_def take_bytes_def sbind_def sret_def)

lemmas reads = read_u64_nat_le read_u32_nat_le read_bytes_bstr read_u8_Cons

lemma decode_primitive_body:
  assumes "wf_prim op"
  shows "decode_primitive (variant_tag op) (prim_body op @ rest) = (Inr op, rest)"
  using assms by (cases op) (simp_all add: decode_primitive_def ty_defs sbind_def reads sret_def)

lemma variant_tag_prim: "wf_prim op \<Longrightarrow> variant_tag op \<noteq> TY_BATCH \<and> variant_tag op \<noteq> TY_BATCH_INSERT_RUN"
  by (cases op) (simp_all add: ty_defs)

lemma decode_body_prim:
  assumes "wf_prim op"
  shows "decode_body (variant_tag op) (prim_body op) = Inr op"
  using decode_primitive_body [OF assms, of "[]"] variant_tag_prim [OF assms]
  by (simp add: decode_body_def decode_body_into_def)

section \<open>Batches\<close>

text \<open>What a caller pushes onto the batch encoder.\<close>

datatype push = PushOp wal_op | PushRun nat nat nat "(bytes \<times> bytes) list"

fun do_push :: "push \<Rightarrow> batch_encoder \<Rightarrow> batch_encoder res" where
  "do_push (PushOp (WInsert tree_id key value)) e = push_insert tree_id key value e"
| "do_push (PushOp (WErase tree_id key)) e = push_erase tree_id key e"
| "do_push (PushOp (WRename tree_id src dst force)) e = push_rename_object tree_id src dst force e"
| "do_push (PushOp (WBatch ops)) e = Inl (Panic ''nested Batch'')"
| "do_push (PushRun tree_id key_len value_len items) e =
     push_insert_run tree_id (length items) key_len value_len items e"

fun do_pushes :: "push list \<Rightarrow> batch_encoder \<Rightarrow> batch_encoder res" where
  "do_pushes [] e = Inr e"
| "do_pushes (p # ps) e = rbind (do_push p e) (do_pushes ps)"

fun push_ops :: "push \<Rightarrow> wal_op list" where
  "push_ops (PushOp op) = [op]"
| "push_ops (PushRun tree_id key_len value_len items) = map (\<lambda>(k, v). WInsert tree_id k v) items"

definition pushed :: "push list \<Rightarrow> wal_op list" where
  "pushed ps = concat (map push_ops ps)"

fun push_enc :: "push \<Rightarrow> bytes" where
  "push_enc (PushOp op) = variant_tag op # prim_body op"
| "push_enc (PushRun tree_id key_len value_len items) =
     (case items of
        [(k, v)] \<Rightarrow> TY_INSERT # prim_body (WInsert tree_id k v)
      | _ \<Rightarrow> TY_BATCH_INSERT_RUN # nat_le 8 tree_id @ nat_le 4 (length items) @ nat_le 4 key_len
               @ nat_le 4 value_len @ concat (map (\<lambda>(k, v). k @ v) items))"

fun wf_push :: "push \<Rightarrow> bool" where
  "wf_push (PushOp op) \<longleftrightarrow> wf_prim op"
| "wf_push (PushRun tree_id key_len value_len items) \<longleftrightarrow> tree_id < 2 ^ 64 \<and> items \<noteq> []
     \<and> length items < 2 ^ 32 \<and> key_len < 2 ^ 32 \<and> value_len < 2 ^ 32
     \<and> (\<forall>(k, v) \<in> set items. length k = key_len \<and> length v = value_len)"

lemma push_enc_run:
  assumes "length items \<noteq> 1"
  shows "push_enc (PushRun tree_id key_len value_len items)
    = TY_BATCH_INSERT_RUN # nat_le 8 tree_id @ nat_le 4 (length items) @ nat_le 4 key_len
        @ nat_le 4 value_len @ concat (map (\<lambda>(k, v). k @ v) items)"
  using assms by (auto split: list.splits)

lemma decode_run_items_enc:
  assumes "\<forall>(k, v) \<in> set items. length k = key_len \<and> length v = value_len"
  shows "decode_run_items (length items) tree_id key_len value_len ops (concat (map (\<lambda>(k, v). k @ v) items) @ rest)
    = (Inr (ops @ map (\<lambda>(k, v). WInsert tree_id k v) items), rest)"
  using assms
proof (induction items arbitrary: ops)
  case (Cons kv items)
  obtain k v where "kv = (k, v)" by force
  then show ?case using Cons by (simp add: sbind_def take_bytes_append)
qed (simp add: sret_def)

lemma decode_inner_op:
  assumes "wf_prim op"
  shows "decode_inner count ops (variant_tag op # prim_body op @ rest) = (Inr (ops @ [op]), rest)"
  using variant_tag_prim [OF assms] decode_primitive_body [OF assms, of rest]
  by (simp add: decode_inner_def sbind_def reads sret_def)

lemma decode_inner_enc:
  assumes wf: "wf_push p" and room: "length ops + length (push_ops p) \<le> count"
  shows "decode_inner count ops (push_enc p @ rest) = (Inr (ops @ push_ops p), rest)"
proof (cases p)
  case (PushOp op)
  then show ?thesis using wf decode_inner_op [of op count ops rest] by simp
next
  case (PushRun tree_id key_len value_len items)
  show ?thesis
  proof (cases "length items = 1")
    case True
    then obtain k v where "items = [(k, v)]" by (cases items) auto
    then show ?thesis
      using PushRun wf decode_inner_op [of "WInsert tree_id k v" count ops rest] by simp
  next
    case False
    then show ?thesis
      using PushRun wf room push_enc_run [OF False] decode_run_items_enc [of items key_len value_len tree_id ops rest]
      by (simp add: decode_inner_def decode_insert_run_def ty_defs sbind_def reads del: push_enc.simps)
  qed
qed

lemma push_ops_pos: "wf_push p \<Longrightarrow> 0 < length (push_ops p)"
  by (cases p) auto

lemma decode_batch_loop_enc:
  assumes "\<forall>p \<in> set ps. wf_push p" and "count = length ops + length (pushed ps)"
  shows "decode_batch_loop count ops (concat (map push_enc ps) @ rest) = (Inr (ops @ pushed ps), rest)"
  using assms
proof (induction ps arbitrary: ops)
  case Nil
  then show ?case by (subst decode_batch_loop.simps) (simp add: pushed_def)
next
  case (Cons p ps)
  have wf: "wf_push p" and lt: "length ops < count"
    and room: "length ops + length (push_ops p) \<le> count"
    using Cons.prems push_ops_pos [of p] by (simp_all add: pushed_def)
  then show ?case
    using Cons decode_inner_enc [OF wf room, of "concat (map push_enc ps) @ rest"]
    by (subst decode_batch_loop.simps) (simp add: pushed_def)
qed

definition batch_body :: "nat \<Rightarrow> push list \<Rightarrow> bytes" where
  "batch_body tree_id ps = nat_le 8 tree_id @ nat_le 4 (length (pushed ps)) @ concat (map push_enc ps)"

lemma decode_body_batch:
  assumes "\<forall>p \<in> set ps. wf_push p" and "tree_id < 2 ^ 64" and "length (pushed ps) < 2 ^ 32"
  shows "decode_body TY_BATCH (batch_body tree_id ps) = Inr (WBatch (pushed ps))"
  using assms decode_batch_loop_enc [OF assms(1), of "length (pushed ps)" "[]" "[]"]
  by (simp add: decode_body_def decode_body_into_def batch_body_def sbind_def reads sret_def)

subsection \<open>The streaming encoder writes that body\<close>

lemma do_push_enc:
  assumes "wf_push p" and "be_inner_count e + length (push_ops p) < 2 ^ 32"
  shows "do_push p e = Inr (e\<lparr>be_out := be_out e @ push_enc p,
     be_inner_count := be_inner_count e + length (push_ops p)\<rparr>)"
proof (cases p)
  case (PushOp op)
  then show ?thesis
    using assms by (cases op)
      (simp_all add: push_insert_def push_erase_def push_rename_object_def be_push_def write_bytes_bstr)
next
  case (PushRun tree_id key_len value_len items)
  show ?thesis
  proof (cases "length items = 1")
    case True
    then obtain k v where "items = [(k, v)]" by (cases items) auto
    then show ?thesis
      using PushRun assms by (simp add: push_insert_run_def push_insert_def be_push_def write_bytes_bstr)
  next
    case False
    then show ?thesis
      using PushRun assms push_enc_run [OF False]
      by (simp add: push_insert_run_def be_push_def del: push_enc.simps)
  qed
qed

lemma do_pushes_enc:
  assumes "\<forall>p \<in> set ps. wf_push p" and "be_inner_count e + length (pushed ps) < 2 ^ 32"
  shows "do_pushes ps e = Inr (e\<lparr>be_out := be_out e @ concat (map push_enc ps),
     be_inner_count := be_inner_count e + length (pushed ps)\<rparr>)"
  using assms
proof (induction ps arbitrary: e)
  case (Cons p ps)
  then show ?case using do_push_enc [of p e] by (simp add: pushed_def add.assoc)
qed (simp add: pushed_def)

lemma batch_encoder_frame:
  assumes "\<forall>p \<in> set ps. wf_push p" and "length (batch_body tree_id ps) < 2 ^ 32" and "length (pushed ps) < 2 ^ 32"
  shows "\<exists>e e'. do_pushes ps (batch_begin out seq tree_id) = Inr e \<and> batch_drop e = out
     \<and> batch_finish crc e = Inr (length (pushed ps), e')
     \<and> batch_drop e' = out @ frame crc seq TY_BATCH (batch_body tree_id ps)"
proof -
  let ?m = "nat_le 4 RECORD_MAGIC" and ?n = "length (pushed ps)" and ?c = "concat (map push_enc ps)"
  let ?h = "nat_le 8 seq @ [TY_BATCH] @ nat_le 8 tree_id" and ?b = "batch_body tree_id ps"
  let ?l = "nat_le 4 (length ?b)"
  let ?e = "\<lparr>be_out = out @ ?m @ replicate 4 0 @ ?h @ replicate 4 0 @ ?c, be_start = length out,
     be_len_pos = length out + 4, be_body_start = length out + 17, be_count_pos = length out + 25,
     be_inner_count = ?n, be_finished = False\<rparr>"
  have run: "do_pushes ps (batch_begin out seq tree_id) = Inr ?e"
    using do_pushes_enc [OF assms(1), of "batch_begin out seq tree_id"] assms(3)
    by (simp add: batch_begin_def Let_def)
  have len: "length (be_out ?e) - be_body_start ?e = length ?b" by (simp add: batch_body_def)
  have p1: "patch (be_out ?e) (be_count_pos ?e) (nat_le 4 ?n)
      = out @ ?m @ replicate 4 0 @ ?h @ nat_le 4 ?n @ ?c"
    using patch_middle [of "nat_le 4 ?n" "replicate 4 0" "out @ ?m @ replicate 4 0 @ ?h" ?c] by simp
  have p2: "patch (out @ ?m @ replicate 4 0 @ ?h @ nat_le 4 ?n @ ?c) (be_len_pos ?e) ?l
      = out @ frame_head seq TY_BATCH ?b"
    using patch_middle [of ?l "replicate 4 0" "out @ ?m" "?h @ nat_le 4 ?n @ ?c"]
    by (simp add: frame_head_def batch_body_def)
  have "length (be_out ?e) = length out + length (frame_head seq TY_BATCH ?b)"
    by (simp add: batch_body_def record_sizes)
  then have "batch_finish crc ?e = Inr (?n, ?e\<lparr>be_out := out @ frame crc seq TY_BATCH ?b, be_finished := True\<rparr>)"
    using assms(2) len unfolding batch_finish_def Let_def
    by (simp add: frame_def p1 [simplified] p2 [simplified])
  then show ?thesis using run by (simp add: batch_drop_def)
qed

lemma encode_inner_enc:
  "\<forall>op \<in> set ops. wf_prim op \<Longrightarrow> encode_inner ops out = Inr (out @ concat (map push_enc (map PushOp ops)))"
  by (induction ops arbitrary: out) (auto simp: encode_primitive_body dest: variant_tag_prim)

lemma encode_record_frame:
  assumes "wf_prim op" and "length (prim_body op) < 2 ^ 32"
  shows "encode_record crc op seq out = Inr (out @ frame crc seq (variant_tag op) (prim_body op))"
proof -
  have "encode_body op out2 = Inr (out2 @ prim_body op)" for out2
    using assms(1) encode_primitive_body [OF assms(1)] by (cases op) auto
  then show ?thesis unfolding encode_record_def using assms(2) by (rule write_record_frame)
qed

lemma pushed_ops [simp]: "pushed (map PushOp ops) = ops"
  by (induction ops) (simp_all add: pushed_def)

lemma encode_batch_frame:
  assumes "\<forall>op \<in> set ops. wf_prim op" and "length ops < 2 ^ 32" and "length (batch_body 0 (map PushOp ops)) < 2 ^ 32"
  shows "encode_record crc (WBatch ops) seq out = Inr (out @ frame crc seq TY_BATCH (batch_body 0 (map PushOp ops)))"
proof -
  have "encode_body (WBatch ops) out2 = Inr (out2 @ batch_body 0 (map PushOp ops))" for out2
    using assms(1,2) encode_inner_enc by (simp add: batch_body_def)
  then show ?thesis unfolding encode_record_def using assms(3) by (simp add: write_record_frame)
qed

section \<open>Properties of the codec\<close>

text \<open>The production encoder of a primitive operation, and the length it reserves.\<close>

fun fast_record :: "(bytes \<Rightarrow> u32) \<Rightarrow> nat \<Rightarrow> wal_op \<Rightarrow> bytes \<Rightarrow> bytes res" where
  "fast_record crc seq (WInsert tree_id key value) out = encode_insert_record crc seq tree_id key value out"
| "fast_record crc seq (WErase tree_id key) out = encode_erase_record crc seq tree_id key out"
| "fast_record crc seq (WRename tree_id src dst force) out = encode_rename_object_record crc seq tree_id src dst force out"
| "fast_record crc seq (WBatch ops) out = Inl (Panic ''not a primitive'')"

fun record_len :: "wal_op \<Rightarrow> nat" where
  "record_len (WInsert tree_id key value) = encoded_insert_record_len (length key) (length value)"
| "record_len (WErase tree_id key) = encoded_erase_record_len (length key)"
| "record_len (WRename tree_id src dst force) = encoded_rename_object_record_len (length src) (length dst)"
| "record_len (WBatch ops) = 0"

lemma fast_record_generic: "wf_prim op \<Longrightarrow> fast_record crc seq op out = encode_record crc op seq out"
  by (cases op) (auto simp: encode_record_def encode_insert_record_def encode_erase_record_def
      encode_rename_object_record_def write_record_def write_bytes_bstr Let_def)

lemma length_record: "wf_prim op \<Longrightarrow> length (frame crc seq (variant_tag op) (prim_body op)) = record_len op"
  by (cases op) (simp_all add: bstr_def record_sizes encoded_insert_record_len_def
      encoded_erase_record_len_def encoded_rename_object_record_len_def)

text \<open>C10. An insert, erase or rename record survives the log: its production encoder appends
  exactly the reserved number of bytes, the same bytes as the generic encoder, and decoding
  them, whatever bytes follow, gives back the operation and its sequence number and consumes
  exactly the record.\<close>

theorem wal_record_roundtrip:
  assumes "wf_prim op" and "seq < 2 ^ 64" and "length (prim_body op) < 2 ^ 32"
  shows "\<exists>r. fast_record crc seq op out = Inr (out @ r) \<and> encode_record crc op seq out = Inr (out @ r)
     \<and> length r = record_len op
     \<and> (\<forall>rest. decode_record crc (r @ rest) = Inr \<lparr>dr_op = op, dr_seq = seq, bytes_consumed = length r\<rparr>)"
proof (intro exI conjI allI)
  let ?r = "frame crc seq (variant_tag op) (prim_body op)"
  show "encode_record crc op seq out = Inr (out @ ?r)" by (rule encode_record_frame [OF assms(1,3)])
  then show "fast_record crc seq op out = Inr (out @ ?r)" by (simp only: fast_record_generic [OF assms(1)])
  show "length ?r = record_len op" by (rule length_record [OF assms(1)])
  show "decode_record crc (?r @ rest) = Inr \<lparr>dr_op = op, dr_seq = seq, bytes_consumed = length ?r\<rparr>" for rest
    by (rule decode_frame [OF assms(2,3) decode_body_prim [OF assms(1)]])
qed

theorem wal_record_roundtrip_witness:
  "wf_prim (WInsert 0 [97] [1, 2]) \<and> (7 :: nat) < 2 ^ 64 \<and> length (prim_body (WInsert 0 [97] [1, 2])) < 2 ^ 32
   \<and> (\<exists>r. fast_record (\<lambda>_. 5) 7 (WInsert 0 [97] [1, 2]) [] = Inr ([] @ r)
     \<and> encode_record (\<lambda>_. 5) (WInsert 0 [97] [1, 2]) 7 [] = Inr ([] @ r)
     \<and> length r = record_len (WInsert 0 [97] [1, 2])
     \<and> (\<forall>rest. decode_record (\<lambda>_. 5) (r @ rest)
          = Inr \<lparr>dr_op = WInsert 0 [97] [1, 2], dr_seq = 7, bytes_consumed = length r\<rparr>))"
proof -
  have h: "wf_prim (WInsert 0 [97] [1, 2])" "(7 :: nat) < 2 ^ 64" "length (prim_body (WInsert 0 [97] [1, 2])) < 2 ^ 32"
    by (simp_all add: bstr_def)
  show ?thesis using wal_record_roundtrip [OF h, of "\<lambda>_. 5" "[]"] h by blast
qed

text \<open>C11. A batch survives the log as one record: the streaming encoder, fed any mix of single
  operations and compact runs of inserts, appends one record that decodes to the batch of all
  pushed operations in order; an encoder dropped before it is finished leaves the buffer as it
  was before the batch began.\<close>

theorem wal_batch_roundtrip:
  assumes "\<forall>p \<in> set ps. wf_push p" and "seq < 2 ^ 64" and "tree_id < 2 ^ 64"
    and "length (pushed ps) < 2 ^ 32" and "length (batch_body tree_id ps) < 2 ^ 32"
  shows "\<exists>e e' r. do_pushes ps (batch_begin out seq tree_id) = Inr e \<and> batch_drop e = out
     \<and> batch_finish crc e = Inr (length (pushed ps), e') \<and> batch_drop e' = out @ r
     \<and> (\<forall>rest. decode_record crc (r @ rest)
          = Inr \<lparr>dr_op = WBatch (pushed ps), dr_seq = seq, bytes_consumed = length r\<rparr>)"
  using batch_encoder_frame [OF assms(1,5,4), of out seq crc]
    decode_frame [OF assms(2,5) decode_body_batch [OF assms(1,3,4)], of crc] by blast

theorem wal_batch_roundtrip_witness:
  "wf_push (PushRun 0 1 1 [([97], [1]), ([98], [2])]) \<and> wf_push (PushOp (WErase 0 [99]))
   \<and> pushed [PushRun 0 1 1 [([97], [1]), ([98], [2])], PushOp (WErase 0 [99])]
     = [WInsert 0 [97] [1], WInsert 0 [98] [2], WErase 0 [99]]
   \<and> (\<exists>e e' r. do_pushes [PushRun 0 1 1 [([97], [1]), ([98], [2])], PushOp (WErase 0 [99])] (batch_begin [] 7 0) = Inr e
     \<and> batch_drop e = [] \<and> batch_finish (\<lambda>_. 5) e = Inr (3, e') \<and> batch_drop e' = [] @ r
     \<and> (\<forall>rest. decode_record (\<lambda>_. 5) (r @ rest)
          = Inr \<lparr>dr_op = WBatch [WInsert 0 [97] [1], WInsert 0 [98] [2], WErase 0 [99]], dr_seq = 7,
              bytes_consumed = length r\<rparr>))"
proof -
  let ?ps = "[PushRun 0 1 1 [([97], [1]), ([98], [2])], PushOp (WErase 0 [99])]"
  have p: "pushed ?ps = [WInsert 0 [97] [1], WInsert 0 [98] [2], WErase 0 [99]]" by (simp add: pushed_def)
  have n: "length (pushed ?ps) = 3" unfolding p by simp
  have h: "\<forall>p \<in> set ?ps. wf_push p" "(7 :: nat) < 2 ^ 64" "(0 :: nat) < 2 ^ 64" "length (pushed ?ps) < 2 ^ 32"
    "length (batch_body 0 ?ps) < 2 ^ 32"
    unfolding n by (simp_all add: batch_body_def bstr_def)
  show ?thesis using wal_batch_roundtrip [OF h, of "[]" "\<lambda>_. 5"] h(1) p unfolding n unfolding p by auto
qed

end
