(* ===== verification/Wal_Replay.thy ===== *)
theory Wal_Replay
  imports Wal_Codec
begin

text \<open>
  The log scanner of \<^verbatim>\<open>src/journal/reader.rs\<close> and the log writer of \<^verbatim>\<open>src/journal/writer.rs\<close>.
  The scanner's callback is any code over a state of its own.  The writer's file is a byte
  string with the length that is known to be durable; the results of the system calls are
  arguments, so that a failing write is a branch like any other.
\<close>

section \<open>Reader\<close>

record replay_stats =
  records_seen :: nat
  highest_seq :: "nat option"
  torn_tail_at :: "nat option"

definition is_torn_tail :: "string \<Rightarrow> bool" where
  "is_torn_tail context \<longleftrightarrow> context = ''record header truncated'' \<or> context = ''record body truncated''"

fun patch_offset :: "error \<Rightarrow> nat \<Rightarrow> error" where
  "patch_offset (ReplaySanityFailed context _) offset = ReplaySanityFailed context offset"
| "patch_offset e offset = e"

type_synonym 's callback = "wal_op \<Rightarrow> nat \<Rightarrow> nat \<Rightarrow> ('s, unit) st"

definition smap_err :: "(error \<Rightarrow> error) \<Rightarrow> ('s, 'a) st \<Rightarrow> ('s, 'a) st" where
  "smap_err f m = (\<lambda>s. case m s of (Inl e, s') \<Rightarrow> (Inl (f e), s') | (Inr x, s') \<Rightarrow> (Inr x, s'))"

definition bump_seq :: "nat option \<Rightarrow> nat \<Rightarrow> nat option" where
  "bump_seq h seq = Some (case h of None \<Rightarrow> seq | Some x \<Rightarrow> max x seq)"

text \<open>One callback, and the flattened operations of a batch with their derived sequences.\<close>

definition replay_one :: "'s callback \<Rightarrow> wal_op \<Rightarrow> nat \<Rightarrow> nat \<Rightarrow> nat option \<Rightarrow> ('s, nat option) st" where
  "replay_one callback op seq offset highest =
     sbind (smap_err (\<lambda>e. patch_offset e offset) (callback op seq offset)) (\<lambda>_.
     sret (bump_seq highest seq))"

fun replay_inner :: "'s callback \<Rightarrow> wal_op list \<Rightarrow> nat \<Rightarrow> nat \<Rightarrow> nat \<Rightarrow> nat option \<Rightarrow> ('s, nat option) st" where
  "replay_inner callback [] i seq offset highest = sret highest"
| "replay_inner callback (inner # ops) i seq offset highest =
     sbind (replay_one callback inner ((seq + i) mod 2 ^ 64) offset highest) (\<lambda>highest.
     replay_inner callback ops (i + 1) seq offset highest)"

fun replay_op :: "'s callback \<Rightarrow> wal_op \<Rightarrow> nat \<Rightarrow> nat \<Rightarrow> nat option \<Rightarrow> ('s, nat option) st" where
  "replay_op callback (WBatch ops) seq offset highest = replay_inner callback ops 0 seq offset highest"
| "replay_op callback op seq offset highest = replay_one callback op seq offset highest"

lemma decode_record_consumes: "decode_record crc b = Inr r \<Longrightarrow> 0 < bytes_consumed r \<and> bytes_consumed r \<le> length b"
  by (auto simp: decode_record_def Let_def record_sizes rbind_Inr_iff split: if_splits)

function replay_loop ::
  "(bytes \<Rightarrow> u32) \<Rightarrow> 's callback \<Rightarrow> bytes \<Rightarrow> nat \<Rightarrow> nat \<Rightarrow> nat option \<Rightarrow> ('s, replay_stats) st" where
  "replay_loop crc callback bs offset seen highest =
     (if offset < length bs
      then (case decode_record crc (drop offset bs) of
              Inr r \<Rightarrow>
                sbind (replay_op callback (dr_op r) (dr_seq r) offset highest) (\<lambda>highest'.
                replay_loop crc callback bs (offset + bytes_consumed r) (seen + 1) highest')
            | Inl e \<Rightarrow>
                (case e of
                   ReplaySanityFailed context _ \<Rightarrow>
                     if is_torn_tail context
                     then sret \<lparr>records_seen = seen, highest_seq = highest, torn_tail_at = Some offset\<rparr>
                     else sfail (patch_offset e offset)
                 | _ \<Rightarrow> sfail (patch_offset e offset)))
      else sret \<lparr>records_seen = seen, highest_seq = highest, torn_tail_at = None\<rparr>)"
  by pat_completeness auto
termination
proof (relation "measure (\<lambda>(crc, callback, bs, offset, seen, highest). length bs - offset)", simp)
  fix crc :: "bytes \<Rightarrow> u32" and callback :: "'s callback" and bs :: bytes and offset seen :: nat
    and highest h' :: "nat option" and r
  assume lt: "offset < length bs" and r: "decode_record crc (drop offset bs) = Inr r"
  show "((crc, callback, bs, offset + bytes_consumed r, seen + 1, h'), crc, callback, bs, offset, seen, highest)
    \<in> measure (\<lambda>(crc, callback, bs, offset, seen, highest). length bs - offset)"
    using decode_record_consumes [OF r] lt by (auto intro!: diff_less_mono2)
qed

declare replay_loop.simps [simp del]

definition replay_bytes :: "(bytes \<Rightarrow> u32) \<Rightarrow> 's callback \<Rightarrow> bytes \<Rightarrow> ('s, file_header \<times> replay_stats) st" where
  "replay_bytes crc callback bs =
     (if length bs < FILE_HEADER_SIZE
      then sfail (ReplaySanityFailed ''WAL too short - missing file header'' 0)
      else sbind (sread (\<lambda>_. decode_file_header (take FILE_HEADER_SIZE bs))) (\<lambda>header.
           sbind (replay_loop crc callback bs FILE_HEADER_SIZE 0 None) (\<lambda>stats.
           sret (header, stats))))"

section \<open>Writer\<close>

record wal_writer =
  ww_file :: bytes
  ww_synced :: nat
  ww_pending :: bytes
  bytes_written :: nat
  ww_header :: file_header

definition AUTO_FLUSH_THRESHOLD :: nat where "AUTO_FLUSH_THRESHOLD = 64 * 1024"

text \<open>A write of the whole buffer succeeds, or fails after some of its bytes reached the file.\<close>

datatype write_outcome = WriteOk | WriteFailed nat

definition wal_create :: "nat \<Rightarrow> nat \<Rightarrow> wal_writer" where
  "wal_create tree_id created_at =
     (let header = \<lparr>fh_tree_id = tree_id, fh_created_at = created_at\<rparr>; buf = encode_file_header header []
      in \<lparr>ww_file = buf, ww_synced = length buf, ww_pending = [], bytes_written = FILE_HEADER_SIZE,
          ww_header = header\<rparr>)"

definition wal_open_existing :: "bytes \<Rightarrow> wal_writer res" where
  "wal_open_existing file =
     (if length file < FILE_HEADER_SIZE then Inl (BlobStoreIo ''failed to fill whole buffer'')
      else rbind (decode_file_header (take FILE_HEADER_SIZE file)) (\<lambda>header.
           Inr \<lparr>ww_file = file, ww_synced = length file, ww_pending = [], bytes_written = length file,
             ww_header = header\<rparr>))"

definition wal_open_or_create :: "bytes option \<Rightarrow> nat \<Rightarrow> nat \<Rightarrow> wal_writer res" where
  "wal_open_or_create file tree_id now =
     (case file of
        Some bs \<Rightarrow> rbind (wal_open_existing bs) (\<lambda>w.
          if fh_tree_id (ww_header w) \<noteq> tree_id
          then Inl (ReplaySanityFailed ''WAL file tree_id mismatch on open'' 0) else Inr w)
      | None \<Rightarrow> Inr (wal_create tree_id now))"

definition has_records :: "wal_writer \<Rightarrow> bool" where
  "has_records w \<longleftrightarrow> bytes_written w + length (ww_pending w) > FILE_HEADER_SIZE"

definition drain_to_os :: "write_outcome \<Rightarrow> (wal_writer, unit) st" where
  "drain_to_os io = (\<lambda>w.
     if ww_pending w = [] then (Inr (), w)
     else case io of
       WriteFailed n \<Rightarrow> (Inl (BlobStoreIo ''write_all''), w\<lparr>ww_file := ww_file w @ take n (ww_pending w)\<rparr>)
     | WriteOk \<Rightarrow> (Inr (), w\<lparr>ww_file := ww_file w @ ww_pending w,
         bytes_written := bytes_written w + length (ww_pending w), ww_pending := []\<rparr>))"

definition maybe_drain :: "write_outcome \<Rightarrow> (wal_writer, unit) st" where
  "maybe_drain io = (\<lambda>w.
     if length (ww_pending w) \<ge> AUTO_FLUSH_THRESHOLD then drain_to_os io w else (Inr (), w))"

definition append_encoded :: "write_outcome \<Rightarrow> bytes \<Rightarrow> (wal_writer, unit) st" where
  "append_encoded io rec =
     sbind (smod (\<lambda>w. w\<lparr>ww_pending := ww_pending w @ rec\<rparr>)) (\<lambda>_. maybe_drain io)"

definition wal_flush :: "write_outcome \<Rightarrow> bool \<Rightarrow> (wal_writer, unit) st" where
  "wal_flush io sync_ok =
     sbind (drain_to_os io) (\<lambda>_.
       if sync_ok then smod (\<lambda>w. w\<lparr>ww_synced := length (ww_file w)\<rparr>)
       else sfail (BlobStoreIo ''sync_data''))"

definition wal_truncate :: "bool \<Rightarrow> bool \<Rightarrow> (wal_writer, unit) st" where
  "wal_truncate set_len_ok sync_ok =
     sbind (smod (\<lambda>w. w\<lparr>ww_pending := []\<rparr>)) (\<lambda>_.
       if \<not> set_len_ok then sfail (BlobStoreIo ''set_len'')
       else sbind (smod (\<lambda>w. w\<lparr>ww_file := take FILE_HEADER_SIZE (ww_file w),
                 ww_synced := min (ww_synced w) FILE_HEADER_SIZE\<rparr>)) (\<lambda>_.
            if \<not> sync_ok then sfail (BlobStoreIo ''sync_data'')
            else smod (\<lambda>w. w\<lparr>ww_synced := length (ww_file w), bytes_written := FILE_HEADER_SIZE\<rparr>)))"

section \<open>Scanning a log\<close>

text \<open>
  A log entry: the sequence and operation of a record, with the bytes that encode them.  A
  batch counts as one entry.
\<close>

record log_entry =
  le_seq :: nat
  le_op :: wal_op
  le_bytes :: bytes

definition wf_entry :: "(bytes \<Rightarrow> u32) \<Rightarrow> log_entry \<Rightarrow> bool" where
  "wf_entry crc e \<longleftrightarrow> (\<exists>ty body. le_bytes e = frame crc (le_seq e) ty body \<and> le_seq e < 2 ^ 64
     \<and> length body < 2 ^ 32 \<and> decode_body ty body = Inr (le_op e))"

definition log_bytes :: "log_entry list \<Rightarrow> bytes" where
  "log_bytes es = concat (map le_bytes es)"

lemma log_bytes_simps [simp]:
  "log_bytes [] = []" "log_bytes (e # es) = le_bytes e @ log_bytes es" "log_bytes (es @ fs) = log_bytes es @ log_bytes fs"
  by (simp_all add: log_bytes_def)

text \<open>What the callback is run on: every entry in order, at its offset.\<close>

fun apply_log :: "'s callback \<Rightarrow> log_entry list \<Rightarrow> nat \<Rightarrow> nat option \<Rightarrow> ('s, nat option) st" where
  "apply_log callback [] offset highest = sret highest"
| "apply_log callback (e # es) offset highest =
     sbind (replay_op callback (le_op e) (le_seq e) offset highest) (\<lambda>highest.
     apply_log callback es (offset + length (le_bytes e)) highest)"

lemma entry_decodes:
  assumes "wf_entry crc e"
  shows "decode_record crc (le_bytes e @ rest)
    = Inr \<lparr>dr_op = le_op e, dr_seq = le_seq e, bytes_consumed = length (le_bytes e)\<rparr>"
  using assms decode_frame by (fastforce simp: wf_entry_def)

lemma entry_cut:
  assumes "wf_entry crc e" and "n < length (le_bytes e)"
  shows "\<exists>context. decode_record crc (take n (le_bytes e)) = Inl (sanity context) \<and> is_torn_tail context"
  using assms decode_cut by (fastforce simp: wf_entry_def is_torn_tail_def)

lemma entry_pos: "wf_entry crc e \<Longrightarrow> 17 \<le> length (le_bytes e)"
  by (auto simp: wf_entry_def record_sizes)

lemma sbind_assoc_st: "sbind (sbind m f) g = sbind m (\<lambda>x. sbind (f x) g)"
  by (rule ext) (auto simp: sbind_def split: prod.splits sum.splits)

lemma sbind_sret_st: "sbind (sret x) f = f x"
  by (rule ext) (simp add: sbind_def sret_def)

lemma replay_entries:
  assumes "\<forall>e \<in> set es. wf_entry crc e"
  shows "replay_loop crc callback (pre @ log_bytes es @ tail) (length pre) seen highest
    = sbind (apply_log callback es (length pre) highest) (\<lambda>highest'.
      replay_loop crc callback (pre @ log_bytes es @ tail) (length pre + length (log_bytes es)) (seen + length es) highest')"
  using assms
proof (induction es arbitrary: pre seen highest)
  case (Cons e es)
  define bs where "bs = pre @ log_bytes (e # es) @ tail"
  have wf: "wf_entry crc e" using Cons.prems by simp
  have lt: "length pre < length bs" using entry_pos [OF wf] by (cases "le_bytes e") (simp_all add: bs_def)
  have "decode_record crc (drop (length pre) bs)
      = Inr \<lparr>dr_op = le_op e, dr_seq = le_seq e, bytes_consumed = length (le_bytes e)\<rparr>"
    using entry_decodes [OF wf, of "log_bytes es @ tail"] by (simp add: bs_def)
  then have step: "replay_loop crc callback bs (length pre) seen highest
      = sbind (replay_op callback (le_op e) (le_seq e) (length pre) highest)
          (replay_loop crc callback bs (length pre + length (le_bytes e)) (seen + 1))"
    using lt by (subst replay_loop.simps) simp
  have "replay_loop crc callback bs (length pre + length (le_bytes e)) (seen + 1)
     = (\<lambda>h. sbind (apply_log callback es (length pre + length (le_bytes e)) h)
       (replay_loop crc callback bs (length pre + length (log_bytes (e # es))) (seen + length (e # es))))"
    using Cons.IH [of "pre @ le_bytes e" "seen + 1"] Cons.prems by (intro ext) (simp add: add.assoc bs_def)
  then show ?case unfolding bs_def [symmetric] step by (simp add: sbind_assoc_st)
qed (simp add: sbind_sret_st)

lemma replay_end: "replay_loop crc callback bs (length bs) seen highest
    = sret \<lparr>records_seen = seen, highest_seq = highest, torn_tail_at = None\<rparr>"
  by (subst replay_loop.simps) simp

lemma replay_torn:
  assumes "decode_record crc (drop off bs) = Inl (sanity context)" and "is_torn_tail context" and "off < length bs"
  shows "replay_loop crc callback bs off seen highest
    = sret \<lparr>records_seen = seen, highest_seq = highest, torn_tail_at = Some off\<rparr>"
  using assms by (subst replay_loop.simps) (simp add: sanity_def)

definition wf_header :: "file_header \<Rightarrow> bool" where
  "wf_header h \<longleftrightarrow> fh_tree_id h < 2 ^ 64 \<and> fh_created_at h < 2 ^ 64"

lemma length_file_header [simp]: "length (encode_file_header h []) = FILE_HEADER_SIZE"
  by (simp add: encode_file_header_def FILE_HEADER_SIZE_def)

lemma file_header_roundtrip:
  assumes "wf_header h"
  shows "decode_file_header (encode_file_header h []) = Inr h"
proof -
  have "FILE_MAGIC < 2 ^ 32" "FORMAT_VERSION < 2 ^ 32" by (simp_all add: FILE_MAGIC_def FORMAT_VERSION_def)
  then have "le_nat (nat_le 4 FILE_MAGIC) = FILE_MAGIC" "le_nat (nat_le 4 FORMAT_VERSION) = FORMAT_VERSION"
    by (simp_all only: le_nat_4)
  then show ?thesis
    using assms by (simp add: decode_file_header_def wf_header_def del: le_nat_nat_le)
      (simp add: encode_file_header_def FILE_HEADER_SIZE_def del: le_nat_nat_le)
qed

lemma replay_bytes_header:
  assumes "wf_header h"
  shows "replay_bytes crc callback (encode_file_header h [] @ bs)
    = sbind (replay_loop crc callback (encode_file_header h [] @ bs) FILE_HEADER_SIZE 0 None) (\<lambda>stats. sret (h, stats))"
  using file_header_roundtrip [OF assms] by (simp add: replay_bytes_def)

text \<open>The number of entries that lie entirely in the first \<open>n\<close> bytes of the log.\<close>

fun whole :: "log_entry list \<Rightarrow> nat \<Rightarrow> nat" where
  "whole [] n = 0"
| "whole (e # es) n = (if length (le_bytes e) \<le> n then Suc (whole es (n - length (le_bytes e))) else 0)"

lemma whole_le: "whole es n \<le> length es"
  by (induction es arbitrary: n) auto

lemma whole_fits: "length (log_bytes (take (whole es n) es)) \<le> n"
proof (induction es arbitrary: n)
  case (Cons e es)
  from Cons [of "n - length (le_bytes e)"] show ?case by auto
qed simp

lemma whole_next:
  "whole es n < length es
   \<Longrightarrow> n - length (log_bytes (take (whole es n) es)) < length (le_bytes (es ! whole es n))"
proof (induction es arbitrary: n)
  case (Cons e es)
  then show ?case using Cons.IH [of "n - length (le_bytes e)"] by (auto split: if_splits)
qed simp

text \<open>Cutting a log keeps the whole entries and at most a proper prefix of the next one.\<close>

lemma log_cut:
  obtains rest where "take n (log_bytes es) = log_bytes (take (whole es n) es) @ rest"
    and "rest = [] \<or> (\<exists>m. whole es n < length es \<and> m < length (le_bytes (es ! whole es n))
      \<and> rest = take m (le_bytes (es ! whole es n)))"
proof -
  let ?k = "whole es n"
  let ?w = "log_bytes (take ?k es)"
  let ?m = "n - length ?w"
  have split: "log_bytes es = ?w @ log_bytes (drop ?k es)"
    by (metis append_take_drop_id log_bytes_simps(3))
  have cut: "take n (log_bytes es) = ?w @ take ?m (log_bytes (drop ?k es))"
    using whole_fits [of es n] by (subst split) simp
  show thesis
  proof (cases "?k < length es")
    case True
    then have "take ?m (log_bytes (drop ?k es)) = take ?m (le_bytes (es ! ?k))"
      using whole_next [OF True] by (simp add: Cons_nth_drop_Suc [symmetric])
    then show thesis using that cut True whole_next [OF True] by blast
  next
    case False
    then show thesis using that cut by simp
  qed
qed

text \<open>
  Recovery after a crash: whatever prefix of the log reached the disk, replay runs the
  callback on exactly the entries that are whole in it, in order, and reports where the
  rest starts.
\<close>

lemma replay_cut:
  assumes h: "wf_header h" and es: "\<forall>e \<in> set es. wf_entry crc e"
  shows "\<exists>torn. replay_bytes crc callback (encode_file_header h [] @ take n (log_bytes es))
    = sbind (apply_log callback (take (whole es n) es) FILE_HEADER_SIZE None) (\<lambda>highest.
      sret (h, \<lparr>records_seen = whole es n, highest_seq = highest, torn_tail_at = torn\<rparr>))"
proof -
  let ?k = "whole es n"
  let ?ws = "take ?k es"
  let ?pre = "encode_file_header h []"
  obtain rest where cut: "take n (log_bytes es) = log_bytes ?ws @ rest"
    and rest: "rest = [] \<or> (\<exists>m. ?k < length es \<and> m < length (le_bytes (es ! ?k)) \<and> rest = take m (le_bytes (es ! ?k)))"
    by (rule log_cut)
  let ?bs = "?pre @ log_bytes ?ws @ rest"
  have ws: "\<forall>e \<in> set ?ws. wf_entry crc e" using es by (auto dest: in_set_takeD)
  have k: "length ?ws = ?k" using whole_le [of es n] by simp
  have run: "replay_loop crc callback ?bs FILE_HEADER_SIZE 0 None
      = sbind (apply_log callback ?ws FILE_HEADER_SIZE None) (\<lambda>h'.
        replay_loop crc callback ?bs (length ?pre + length (log_bytes ?ws)) ?k h')"
    using replay_entries [OF ws, of callback ?pre rest 0 None] unfolding k by simp
  obtain torn where "replay_loop crc callback ?bs (length ?pre + length (log_bytes ?ws)) ?k h'
      = sret \<lparr>records_seen = ?k, highest_seq = h', torn_tail_at = torn\<rparr>" for h'
  proof (cases "rest = []")
    case True
    then show ?thesis using that [of None] replay_end [of crc callback ?bs] by simp
  next
    case False
    then obtain m where m: "?k < length es" "m < length (le_bytes (es ! ?k))" "rest = take m (le_bytes (es ! ?k))"
      using rest by blast
    have "wf_entry crc (es ! ?k)" using es m(1) by simp
    then obtain ctxt where c: "decode_record crc rest = Inl (sanity ctxt)" "is_torn_tail ctxt"
      using entry_cut m(2,3) by blast
    have "decode_record crc (drop (length ?pre + length (log_bytes ?ws)) ?bs) = Inl (sanity ctxt)"
      using c(1) by simp
    then show ?thesis using that replay_torn [OF _ c(2), of crc _ ?bs callback] False by simp
  qed
  then show ?thesis
    unfolding cut replay_bytes_header [OF h] run sbind_assoc_st by (simp only: sbind_sret_st) blast
qed

lemma replay_whole:
  assumes "wf_header h" and "\<forall>e \<in> set es. wf_entry crc e"
  shows "replay_bytes crc callback (encode_file_header h [] @ log_bytes es)
    = sbind (apply_log callback es FILE_HEADER_SIZE None) (\<lambda>highest.
      sret (h, \<lparr>records_seen = length es, highest_seq = highest, torn_tail_at = None\<rparr>))"
proof -
  let ?bs = "encode_file_header h [] @ log_bytes es"
  have "replay_loop crc callback ?bs FILE_HEADER_SIZE 0 None
      = sbind (apply_log callback es FILE_HEADER_SIZE None)
          (replay_loop crc callback ?bs (length ?bs) (length es))"
    using replay_entries [OF assms(2), of callback "encode_file_header h []" "[]" 0 None] by simp
  then show ?thesis
    unfolding replay_bytes_header [OF assms(1)] by (simp only: replay_end sbind_assoc_st sbind_sret_st)
qed

section \<open>Bytes that look like a torn record\<close>

lemma decode_record_short:
  assumes "take 4 b = nat_le 4 RECORD_MAGIC" and "take 4 (drop 4 b) = nat_le 4 n" and "n < 2 ^ 32"
    and "17 \<le> length b" and "length b < 21 + n"
  shows "decode_record crc b = Inl (sanity ''record body truncated'')"
proof -
  have "le_nat (nat_le 4 RECORD_MAGIC) = RECORD_MAGIC" "le_nat (nat_le 4 n) = n"
    using assms(3) by (simp_all only: le_nat_4 magic_fits)
  then show ?thesis using assms by (simp add: decode_record_def Let_def record_sizes del: le_nat_nat_le)
qed

lemma replay_stops:
  assumes h: "wf_header h" and es: "\<forall>e \<in> set es. wf_entry crc e"
    and b: "take 4 b = nat_le 4 RECORD_MAGIC" "take 4 (drop 4 b) = nat_le 4 n" "n < 2 ^ 32" "17 \<le> length b" "length b < 21 + n"
  shows "replay_bytes crc callback (encode_file_header h [] @ log_bytes es @ b)
    = sbind (apply_log callback es FILE_HEADER_SIZE None) (\<lambda>highest.
      sret (h, \<lparr>records_seen = length es, highest_seq = highest,
        torn_tail_at = Some (FILE_HEADER_SIZE + length (log_bytes es))\<rparr>))"
proof -
  let ?pre = "encode_file_header h []"
  let ?bs = "?pre @ log_bytes es @ b" and ?o = "FILE_HEADER_SIZE + length (log_bytes es)"
  have run: "replay_loop crc callback ?bs FILE_HEADER_SIZE 0 None
      = sbind (apply_log callback es FILE_HEADER_SIZE None) (replay_loop crc callback ?bs ?o (length es))"
    using replay_entries [OF es, of callback ?pre b 0 None] by simp
  have lt: "?o < length ?bs" using b(4) by (cases b) simp_all
  have "decode_record crc (drop ?o ?bs) = Inl (sanity ''record body truncated'')"
    using decode_record_short [OF b] by simp
  then have stop: "replay_loop crc callback ?bs ?o (length es) h'
      = sret \<lparr>records_seen = length es, highest_seq = h', torn_tail_at = Some ?o\<rparr>" for h'
    using replay_torn lt by (fastforce simp: is_torn_tail_def)
  show ?thesis unfolding replay_bytes_header [OF h] run sbind_assoc_st by (simp only: stop sbind_sret_st)
qed

lemma entry_head:
  assumes "wf_entry crc e"
  obtains n where "length (le_bytes e) = 21 + n" and "n < 2 ^ 32"
    and "\<And>m rest. 17 \<le> m \<Longrightarrow> take 4 (take m (le_bytes e) @ rest) = nat_le 4 RECORD_MAGIC"
    and "\<And>m rest. 17 \<le> m \<Longrightarrow> take 4 (drop 4 (take m (le_bytes e) @ rest)) = nat_le 4 n"
proof -
  obtain ty body where e: "le_bytes e = frame crc (le_seq e) ty body" "length body < 2 ^ 32"
    using assms by (auto simp: wf_entry_def)
  have f: "take 4 (le_bytes e) = nat_le 4 RECORD_MAGIC" "take 4 (drop 4 (le_bytes e)) = nat_le 4 (length body)"
    unfolding e(1) frame_def by (rule frame_head_parts)+
  have len: "length (le_bytes e) = 21 + length body" by (simp add: e(1) record_sizes)
  have 8: "take 4 xs = take 4 (take 8 xs)" "take 4 (drop 4 xs) = drop 4 (take 8 xs)" for xs :: bytes
    by (simp_all add: drop_take)
  have "take 8 (take m (le_bytes e) @ rest) = take 8 (le_bytes e)" if "17 \<le> m" for m rest
    using that len by (simp add: min_def)
  then have "take 4 (take m (le_bytes e) @ rest) = take 4 (le_bytes e)"
    "take 4 (drop 4 (take m (le_bytes e) @ rest)) = take 4 (drop 4 (le_bytes e))" if "17 \<le> m" for m rest
    using that 8 by metis+
  then show thesis using that [OF len e(2)] f by presburger
qed

section \<open>Durability\<close>

text \<open>
  Runs of the writer: the entries appended since the last truncation, how many of them the
  last successful flush covers, and the state of the writer.
\<close>

inductive writer_run :: "(bytes \<Rightarrow> u32) \<Rightarrow> file_header \<Rightarrow> log_entry list \<Rightarrow> nat \<Rightarrow> wal_writer \<Rightarrow> bool"
  for crc :: "bytes \<Rightarrow> u32" and h :: file_header where
  wr_create: "wf_header h \<Longrightarrow> writer_run crc h [] 0 (wal_create (fh_tree_id h) (fh_created_at h))"
| wr_append: "writer_run crc h es k w \<Longrightarrow> wf_entry crc e \<Longrightarrow> append_encoded WriteOk (le_bytes e) w = (Inr (), w')
    \<Longrightarrow> writer_run crc h (es @ [e]) k w'"
| wr_flush: "writer_run crc h es k w \<Longrightarrow> wal_flush WriteOk True w = (Inr (), w') \<Longrightarrow> writer_run crc h es (length es) w'"
| wr_unsynced: "writer_run crc h es k w \<Longrightarrow> wal_flush WriteOk False w = (Inl x, w') \<Longrightarrow> writer_run crc h es k w'"
| wr_truncate: "writer_run crc h es k w \<Longrightarrow> wal_truncate True True w = (Inr (), w') \<Longrightarrow> writer_run crc h [] 0 w'"

definition writer_inv :: "(bytes \<Rightarrow> u32) \<Rightarrow> file_header \<Rightarrow> log_entry list \<Rightarrow> nat \<Rightarrow> wal_writer \<Rightarrow> bool" where
  "writer_inv crc h es k w \<longleftrightarrow> wf_header h \<and> (\<forall>e \<in> set es. wf_entry crc e) \<and> k \<le> length es
     \<and> ww_file w @ ww_pending w = encode_file_header h [] @ log_bytes es
     \<and> bytes_written w = length (ww_file w) \<and> FILE_HEADER_SIZE \<le> length (ww_file w)
     \<and> FILE_HEADER_SIZE + length (log_bytes (take k es)) \<le> ww_synced w \<and> ww_synced w \<le> length (ww_file w)"

lemma drain_ok: "drain_to_os WriteOk w = (Inr (), w\<lparr>ww_file := ww_file w @ ww_pending w,
   bytes_written := bytes_written w + length (ww_pending w), ww_pending := []\<rparr>)"
  by (cases w) (simp add: drain_to_os_def)

lemma append_ok: "\<exists>w'. append_encoded WriteOk r w = (Inr (), w')"
  by (simp add: append_encoded_def maybe_drain_def sbind_def smod_def drain_ok)

lemma flush_ok: "\<exists>w'. wal_flush WriteOk True w = (Inr (), w')"
  by (simp add: wal_flush_def sbind_def smod_def drain_ok)

lemma writer_inv_length:
  "writer_inv crc h es k w \<Longrightarrow> length (ww_file w) + length (ww_pending w) = FILE_HEADER_SIZE + length (log_bytes es)"
  unfolding writer_inv_def by (metis length_append length_file_header)

lemma writer_inv_append:
  assumes "writer_inv crc h es k w" and "wf_entry crc e" and "append_encoded WriteOk (le_bytes e) w = (Inr (), w')"
  shows "writer_inv crc h (es @ [e]) k w'"
proof -
  have w': "w' = w\<lparr>ww_pending := ww_pending w @ le_bytes e\<rparr>
      \<or> w' = snd (drain_to_os WriteOk (w\<lparr>ww_pending := ww_pending w @ le_bytes e\<rparr>))"
    using assms(3) by (auto simp: append_encoded_def maybe_drain_def sbind_def smod_def drain_ok split: if_splits)
  then have "ww_file w' @ ww_pending w' = (ww_file w @ ww_pending w) @ le_bytes e" by (auto simp: drain_ok)
  then have "ww_file w' @ ww_pending w' = encode_file_header h [] @ log_bytes (es @ [e])"
    using assms(1) by (simp add: writer_inv_def)
  then show ?thesis using assms(1,2) w' by (auto simp: writer_inv_def drain_ok)
qed

lemma writer_inv_truncate:
  assumes "writer_inv crc h es k w" and "wal_truncate True True w = (Inr (), w')"
  shows "writer_inv crc h [] 0 w'"
proof -
  have eq: "ww_file w @ ww_pending w = encode_file_header h [] @ log_bytes es"
    using assms(1) by (simp add: writer_inv_def)
  have le: "FILE_HEADER_SIZE \<le> length (ww_file w)" using assms(1) by (simp add: writer_inv_def)
  then have "take FILE_HEADER_SIZE (ww_file w) = take FILE_HEADER_SIZE (ww_file w @ ww_pending w)" by simp
  also have "\<dots> = encode_file_header h []" unfolding eq by simp
  finally have "take FILE_HEADER_SIZE (ww_file w) = encode_file_header h []" .
  then show ?thesis
    using assms by (auto simp: writer_inv_def wal_truncate_def sbind_def smod_def)
qed

lemma writer_run_inv: "writer_run crc h es k w \<Longrightarrow> writer_inv crc h es k w"
proof (induction rule: writer_run.induct)
  case wr_create
  then show ?case by (cases h) (simp add: writer_inv_def wal_create_def Let_def)
next
  case (wr_append es k w e w')
  then show ?case using writer_inv_append by blast
next
  case (wr_flush es k w w')
  then show ?case
    using writer_inv_length [OF wr_flush.IH] by (auto simp: writer_inv_def wal_flush_def drain_ok sbind_def smod_def)
next
  case (wr_unsynced es k w x w')
  then show ?case
    using writer_inv_length [OF wr_unsynced.IH] by (auto simp: writer_inv_def wal_flush_def drain_ok sbind_def sfail_def)
next
  case (wr_truncate es k w w')
  then show ?case using writer_inv_truncate by blast
qed

lemma whole_ge: "length (log_bytes (take k es)) \<le> n \<Longrightarrow> k \<le> length es \<Longrightarrow> k \<le> whole es n"
proof (induction es arbitrary: k n)
  case (Cons e es)
  then show ?case using Cons.IH [of "k - 1" "n - length (le_bytes e)"] by (cases k) auto
qed simp

lemma recovery:
  assumes "writer_run crc h es k w" and "ww_synced w \<le> n"
  shows "\<exists>m torn. k \<le> m \<and> m \<le> length es
    \<and> replay_bytes crc callback (take n (ww_file w))
      = sbind (apply_log callback (take m es) FILE_HEADER_SIZE None) (\<lambda>highest.
        sret (h, \<lparr>records_seen = m, highest_seq = highest, torn_tail_at = torn\<rparr>))"
proof -
  note inv = writer_run_inv [OF assms(1), unfolded writer_inv_def]
  let ?n = "min n (length (ww_file w))"
  let ?m = "whole es (?n - FILE_HEADER_SIZE)"
  have "take n (ww_file w) = take ?n (ww_file w @ ww_pending w)" by (simp add: min_def)
  also have "\<dots> = encode_file_header h [] @ take (?n - FILE_HEADER_SIZE) (log_bytes es)"
    using inv assms(2) by simp
  finally have content: "take n (ww_file w) = encode_file_header h [] @ take (?n - FILE_HEADER_SIZE) (log_bytes es)" .
  have "k \<le> ?m" using inv assms(2) by (intro whole_ge) auto
  moreover have "?m \<le> length es" by (rule whole_le)
  ultimately show ?thesis
    using replay_cut [of h es crc callback "?n - FILE_HEADER_SIZE"] inv unfolding content by blast
qed

section \<open>Properties of the log\<close>


text \<open>An entry and a run with it, for the instances below.\<close>

definition demo_entry :: log_entry where
  "demo_entry = \<lparr>le_seq = 7, le_op = WErase 0 [97], le_bytes = frame (\<lambda>_. 5) 7 TY_ERASE (prim_body (WErase 0 [97]))\<rparr>"

definition demo_header :: file_header where
  "demo_header = \<lparr>fh_tree_id = 0, fh_created_at = 0\<rparr>"

lemma demo_wf: "wf_entry (\<lambda>_. 5) demo_entry" "wf_header demo_header"
proof -
  show "wf_entry (\<lambda>_. 5) demo_entry"
    using decode_body_prim [of "WErase 0 [97]"] unfolding wf_entry_def demo_entry_def
    by (intro exI [of _ TY_ERASE] exI [of _ "prim_body (WErase 0 [97])"]) (simp add: bstr_def)
qed (simp add: wf_header_def demo_header_def)

lemma demo_run: "\<exists>w. writer_run (\<lambda>_. 5) demo_header [demo_entry] 1 w"
proof -
  let ?w = "wal_create (fh_tree_id demo_header) (fh_created_at demo_header)"
  have start: "writer_run (\<lambda>_. 5) demo_header [] 0 ?w" by (rule wr_create [OF demo_wf(2)])
  obtain w1 where w1: "append_encoded WriteOk (le_bytes demo_entry) ?w = (Inr (), w1)"
    using append_ok by blast
  obtain w2 where w2: "wal_flush WriteOk True w1 = (Inr (), w2)"
    using flush_ok by blast
  show ?thesis using wr_flush [OF wr_append [OF start demo_wf(1) w1] w2] by auto
qed




text \<open>C34. Reopening a log with a torn tail does not remove the tail, and a record appended and
  synced behind it can be lost: when the torn record announces more bytes than follow, the
  next replay takes the appended record for the missing part of the torn one, reports a torn
  tail and never runs the callback on it.\<close>

theorem torn_tail_swallows:
  assumes "wf_header h" and "\<forall>e \<in> set es. wf_entry crc e" and "wf_entry crc e" and "17 \<le> m"
    and "m + length r < length (le_bytes e)"
    and "wal_open_existing (encode_file_header h [] @ log_bytes es @ take m (le_bytes e)) = Inr w"
    and "append_encoded WriteOk r w = (Inr (), w1)" and "wal_flush WriteOk True w1 = (Inr (), w2)"
  shows "ww_synced w2 = length (ww_file w2)
    \<and> replay_bytes crc callback (ww_file w2)
      = sbind (apply_log callback es FILE_HEADER_SIZE None) (\<lambda>highest.
        sret (h, \<lparr>records_seen = length es, highest_seq = highest,
          torn_tail_at = Some (FILE_HEADER_SIZE + length (log_bytes es))\<rparr>))"
proof -
  have w: "ww_file w = encode_file_header h [] @ log_bytes es @ take m (le_bytes e)" "ww_pending w = []"
    using assms(6) by (auto simp: wal_open_existing_def rbind_Inr_iff split: if_splits)
  have "ww_file w1 @ ww_pending w1 = ww_file w @ r"
    using assms(7) w(2) by (auto simp: append_encoded_def maybe_drain_def sbind_def smod_def drain_ok split: if_splits)
  then have w2: "ww_file w2 = encode_file_header h [] @ log_bytes es @ (take m (le_bytes e) @ r)"
    using assms(8) w(1) by (auto simp: wal_flush_def sbind_def smod_def drain_ok)
  have sync: "ww_synced w2 = length (ww_file w2)"
    using assms(8) by (auto simp: wal_flush_def sbind_def smod_def drain_ok)
  obtain n where n: "length (le_bytes e) = 21 + n" "n < 2 ^ 32"
      "take 4 (take m (le_bytes e) @ r) = nat_le 4 RECORD_MAGIC" "take 4 (drop 4 (take m (le_bytes e) @ r)) = nat_le 4 n"
    using entry_head [OF assms(3)] assms(4) by metis
  have "17 \<le> length (take m (le_bytes e) @ r)" "length (take m (le_bytes e) @ r) < 21 + n"
    using assms(4,5) n(1) by simp_all
  then show ?thesis
    using replay_stops [OF assms(1,2) n(3,4,2), of callback] sync unfolding w2 by simp
qed

theorem torn_tail_swallows_witness:
  "\<exists>w w1 w2. wf_header demo_header \<and> wf_entry (\<lambda>_. 5) demo_entry \<and> (17 :: nat) \<le> 17
   \<and> 17 + length [1 :: u8, 2, 3] < length (le_bytes demo_entry)
   \<and> wal_open_existing (encode_file_header demo_header [] @ log_bytes [] @ take 17 (le_bytes demo_entry)) = Inr w
   \<and> append_encoded WriteOk [1, 2, 3] w = (Inr (), w1) \<and> wal_flush WriteOk True w1 = (Inr (), w2)
   \<and> ww_synced w2 = length (ww_file w2)
   \<and> replay_bytes (\<lambda>_. 5) (\<lambda>op seq off s. (Inr (), s + 1 :: nat)) (ww_file w2)
      = sbind (apply_log (\<lambda>op seq off s. (Inr (), s + 1)) [] FILE_HEADER_SIZE None) (\<lambda>highest.
        sret (demo_header, \<lparr>records_seen = length ([] :: log_entry list), highest_seq = highest,
          torn_tail_at = Some (FILE_HEADER_SIZE + length (log_bytes []))\<rparr>))"
proof -
  have e: "\<forall>e \<in> set []. wf_entry (\<lambda>_. 5) e" and m: "(17 :: nat) \<le> 17"
    and r: "17 + length [1 :: u8, 2, 3] < length (le_bytes demo_entry)"
    by (simp_all add: demo_entry_def record_sizes bstr_def)
  obtain w where w: "wal_open_existing (encode_file_header demo_header [] @ log_bytes [] @ take 17 (le_bytes demo_entry)) = Inr w"
    using file_header_roundtrip [OF demo_wf(2)] by (auto simp: wal_open_existing_def)
  obtain w1 where w1: "append_encoded WriteOk [1, 2, 3] w = (Inr (), w1)"
    using append_ok by blast
  obtain w2 where w2: "wal_flush WriteOk True w1 = (Inr (), w2)"
    using flush_ok by blast
  show ?thesis
    using torn_tail_swallows [OF demo_wf(2) e demo_wf(1) m r w w1 w2, of "\<lambda>op seq off s. (Inr (), s + 1)"]
      demo_wf e m r w w1 w2 by blast
qed

text \<open>C35. A damaged length field in the middle of the log passes for a torn tail: when it
  points past the end of the file, replay succeeds, ignores that record and every intact
  record behind it, and does not report corruption.\<close>

theorem damaged_length_is_torn:
  assumes "wf_header h" and "\<forall>e \<in> set es. wf_entry crc e" and "wf_entry crc e" and "n < 2 ^ 32"
    and "length (le_bytes e) + length (log_bytes fs) < 21 + n"
  shows "replay_bytes crc callback
      (encode_file_header h [] @ log_bytes es @ patch (le_bytes e) 4 (nat_le 4 n) @ log_bytes fs)
    = sbind (apply_log callback es FILE_HEADER_SIZE None) (\<lambda>highest.
      sret (h, \<lparr>records_seen = length es, highest_seq = highest,
        torn_tail_at = Some (FILE_HEADER_SIZE + length (log_bytes es))\<rparr>))"
proof -
  let ?b = "patch (le_bytes e) 4 (nat_le 4 n) @ log_bytes fs"
  obtain k where k: "length (le_bytes e) = 21 + k" "take 4 (take 17 (le_bytes e) @ []) = nat_le 4 RECORD_MAGIC"
    using entry_head [OF assms(3)] by (metis order_refl)
  then have 4: "take 4 (le_bytes e) = nat_le 4 RECORD_MAGIC" by (simp add: min_def)
  have "take 4 ?b = nat_le 4 RECORD_MAGIC" "take 4 (drop 4 ?b) = nat_le 4 n"
    by (simp_all add: patch_def 4 del: nat_le.simps)
  moreover have "length ?b = length (le_bytes e) + length (log_bytes fs)" using k(1) by (simp add: patch_def)
  ultimately show ?thesis
    using replay_stops [OF assms(1,2), of ?b n callback] assms(4,5) k(1) by simp
qed

theorem damaged_length_is_torn_witness:
  "wf_header demo_header \<and> wf_entry (\<lambda>_. 5) demo_entry \<and> (1000 :: nat) < 2 ^ 32
   \<and> length (le_bytes demo_entry) + length (log_bytes [demo_entry]) < 21 + 1000
   \<and> replay_bytes (\<lambda>_. 5) (\<lambda>op seq off s. (Inr (), s + 1 :: nat))
      (encode_file_header demo_header [] @ log_bytes [] @ patch (le_bytes demo_entry) 4 (nat_le 4 1000) @ log_bytes [demo_entry])
    = sbind (apply_log (\<lambda>op seq off s. (Inr (), s + 1)) [] FILE_HEADER_SIZE None) (\<lambda>highest.
      sret (demo_header, \<lparr>records_seen = length ([] :: log_entry list), highest_seq = highest,
        torn_tail_at = Some (FILE_HEADER_SIZE + length (log_bytes []))\<rparr>))"
proof -
  have e: "\<forall>e \<in> set []. wf_entry (\<lambda>_. 5) e" and n: "(1000 :: nat) < 2 ^ 32"
    and l: "length (le_bytes demo_entry) + length (log_bytes [demo_entry]) < 21 + 1000"
    by (simp_all add: demo_entry_def record_sizes bstr_def)
  show ?thesis
    using damaged_length_is_torn [OF demo_wf(2) e demo_wf(1) n l, of "\<lambda>op seq off s. (Inr (), s + 1)"] demo_wf e n l by blast
qed

text \<open>A write that fails half way is repeated from its start: the bytes that reached the
  file stay there, the buffer is kept, and the next drain appends the whole buffer behind the
  fragment.\<close>

theorem failed_drain_repeats:
  assumes "ww_pending w \<noteq> []" and "drain_to_os (WriteFailed n) w = (r, w1)" and "drain_to_os WriteOk w1 = (r2, w2)"
  shows "(\<exists>x. r = Inl x) \<and> r2 = Inr () \<and> ww_file w2 = ww_file w @ take n (ww_pending w) @ ww_pending w"
  using assms by (auto simp: drain_to_os_def drain_ok)

theorem failed_drain_repeats_witness:
  "\<exists>w w1 w2 r r2. ww_pending w \<noteq> [] \<and> drain_to_os (WriteFailed 2) w = (r, w1) \<and> drain_to_os WriteOk w1 = (r2, w2)
   \<and> (\<exists>x. r = Inl x) \<and> r2 = Inr () \<and> ww_file w2 = ww_file w @ take 2 (ww_pending w) @ ww_pending w"
proof -
  let ?w = "(wal_create 0 0)\<lparr>ww_pending := [1, 2, 3]\<rparr>"
  have p: "ww_pending ?w \<noteq> []" by simp
  obtain r w1 where r: "drain_to_os (WriteFailed 2) ?w = (r, w1)" by force
  obtain r2 w2 where r2: "drain_to_os WriteOk w1 = (r2, w2)" by force
  show ?thesis using failed_drain_repeats [OF p r r2] p r r2 by blast
qed

end
