(* ===== verification/Journal.thy ===== *)
theory Journal
  imports Wal_Replay
begin

text \<open>
  The journal (\<^verbatim>\<open>src/journal/group_commit.rs\<close>): the worker thread that batches appends, over the
  buffered writer of \<^verbatim>\<open>Wal_Replay\<close>.  The outcomes of the system calls that the writer makes are a
  list in the state, one for each call; an empty list stands for calls that succeed.
\<close>

section \<open>The writer with its device\<close>

record log_device =
  dv_writer :: wal_writer
  dv_faults :: "io_outcome list"

definition dv_next :: "log_device \<Rightarrow> io_outcome \<times> log_device" where
  "dv_next d = (case dv_faults d of [] \<Rightarrow> (IoOk, d) | f # fs \<Rightarrow> (f, d\<lparr>dv_faults := fs\<rparr>))"

definition write_io :: "io_outcome \<Rightarrow> write_outcome" where
  "write_io io = (case io of IoOk \<Rightarrow> WriteOk | IoError n \<Rightarrow> WriteFailed n)"

definition on_writer :: "(wal_writer, 'a) st \<Rightarrow> (log_device, 'a) st" where
  "on_writer m d = (case m (dv_writer d) of (r, w) \<Rightarrow> (r, d\<lparr>dv_writer := w\<rparr>))"

text \<open>The outcome of a call that takes place only if the condition holds.\<close>

definition dv_call :: "bool \<Rightarrow> log_device \<Rightarrow> io_outcome \<times> log_device" where
  "dv_call made d = (if made then dv_next d else (IoOk, d))"

definition dev_append :: "bytes \<Rightarrow> (log_device, unit) st" where
  "dev_append record d =
     (case dv_call (length (ww_pending (dv_writer d) @ record) \<ge> AUTO_FLUSH_THRESHOLD) d of
        (io, d') \<Rightarrow> on_writer (append_encoded (write_io io) record) d')"

definition dev_flush :: "(log_device, unit) st" where
  "dev_flush d =
     (case dv_call (ww_pending (dv_writer d) \<noteq> []) d of (drain, d1) \<Rightarrow>
      case dv_call (drain = IoOk) d1 of (sync, d2) \<Rightarrow> on_writer (wal_flush (write_io drain) (sync = IoOk)) d2)"

definition dev_truncate :: "(log_device, unit) st" where
  "dev_truncate d =
     (case dv_next d of (set_len, d1) \<Rightarrow>
      case dv_call (set_len = IoOk) d1 of (sync, d2) \<Rightarrow> on_writer (wal_truncate (set_len = IoOk) (sync = IoOk)) d2)"

text \<open>The records of the file, those still buffered, and those that a power failure leaves.\<close>

definition dv_file :: "log_device \<Rightarrow> bytes" where
  "dv_file d = drop FILE_HEADER_SIZE (ww_file (dv_writer d))"

definition dv_pending :: "log_device \<Rightarrow> bytes" where
  "dv_pending d = ww_pending (dv_writer d)"

definition crash_image :: "log_device \<Rightarrow> bytes" where
  "crash_image d = take (ww_synced (dv_writer d)) (ww_file (dv_writer d))"

definition dv_synced :: "log_device \<Rightarrow> bytes" where
  "dv_synced d = drop FILE_HEADER_SIZE (crash_image d)"

section \<open>The journal\<close>

datatype journal_command = Append bytes nat bool | Flush nat | Truncate

text \<open>An append with \<^verbatim>\<open>sync\<close> waits for its acknowledgement; the acknowledgements are kept in the order they were sent.\<close>

datatype journal_ack = AppendAck nat "unit res" | FlushAck nat "unit res" | TruncateAck "unit res"

record append_request =
  ar_bytes :: bytes
  ar_seq :: nat
  ar_sync :: bool

record journal =
  jn_queue :: "journal_command list"
  jn_backlog :: "journal_command list"
  jn_acks :: "journal_ack list"
  jn_writer :: log_device
  next_work :: nat
  queued_work :: nat
  written_work :: nat
  flushed_work :: nat
  checkpointed_work :: nat

definition GROUP_COMMIT_MAX_BYTES :: nat where
  "GROUP_COMMIT_MAX_BYTES = 256 * 1024"

definition journal_open :: "log_device \<Rightarrow> journal" where
  "journal_open d = (let initial_queued_work = (if has_records (dv_writer d) then 1 else 0)
     in \<lparr>jn_queue = [], jn_backlog = [], jn_acks = [], jn_writer = d, next_work = initial_queued_work,
         queued_work = initial_queued_work, written_work = initial_queued_work,
         flushed_work = (if initial_queued_work = 0 then 0 else initial_queued_work - 1), checkpointed_work = 0\<rparr>)"

text \<open>\<^verbatim>\<open>submit\<close> in its three atomic steps: reserve a number, send the command, publish the number.\<close>

definition submit_reserve :: "journal \<Rightarrow> nat \<times> journal" where
  "submit_reserve j = (let seq = next_work j + 1 in (seq, j\<lparr>next_work := seq\<rparr>))"

definition submit_send :: "bytes \<Rightarrow> nat \<Rightarrow> bool \<Rightarrow> journal \<Rightarrow> journal" where
  "submit_send record seq sync j = j\<lparr>jn_queue := jn_queue j @ [Append record seq sync]\<rparr>"

definition submit_publish :: "nat \<Rightarrow> journal \<Rightarrow> journal" where
  "submit_publish seq j = j\<lparr>queued_work := max (queued_work j) seq\<rparr>"

definition submit :: "bytes \<Rightarrow> bool \<Rightarrow> journal \<Rightarrow> nat \<times> journal" where
  "submit record sync j = (case submit_reserve j of (seq, j) \<Rightarrow> (seq, submit_publish seq (submit_send record seq sync j)))"

text \<open>The barrier: \<open>None\<close> when nothing has to be sent, otherwise the command is queued and its acknowledgement awaited.\<close>

definition flush_up_to :: "nat \<Rightarrow> journal \<Rightarrow> bool \<times> journal" where
  "flush_up_to observed j =
     (if observed \<le> flushed_work j then (False, j) else (True, j\<lparr>jn_queue := jn_queue j @ [Flush observed]\<rparr>))"

definition truncate_send :: "journal \<Rightarrow> bool \<times> journal" where
  "truncate_send j =
     (if queued_work j = checkpointed_work j then (False, j) else (True, j\<lparr>jn_queue := jn_queue j @ [Truncate]\<rparr>))"

definition truncate_acked :: "nat \<Rightarrow> journal \<Rightarrow> journal" where
  "truncate_acked observed j = j\<lparr>checkpointed_work := max (checkpointed_work j) observed\<rparr>"

definition needs_checkpoint :: "journal \<Rightarrow> bool" where
  "needs_checkpoint j \<longleftrightarrow> queued_work j \<noteq> checkpointed_work j"

section \<open>The worker\<close>

text \<open>
  \<open>gather limit bytes q\<close>: the appends that join a batch, at most \<open>limit\<close> of them, since the group
  window ends at some moment.  A command that is not an append goes to the backlog.
\<close>

fun gather :: "nat \<Rightarrow> nat \<Rightarrow> journal_command list \<Rightarrow> append_request list \<times> journal_command list \<times> journal_command list" where
  "gather 0 bytes q = ([], [], q)"
| "gather (Suc limit) bytes [] = ([], [], [])"
| "gather (Suc limit) bytes (c # q) =
     (if bytes \<ge> GROUP_COMMIT_MAX_BYTES then ([], [], c # q)
      else case c of
          Append record seq sync \<Rightarrow>
            (case gather limit (bytes + length record) q of
               (batch, held, rest) \<Rightarrow> (\<lparr>ar_bytes = record, ar_seq = seq, ar_sync = sync\<rparr> # batch, held, rest))
        | _ \<Rightarrow> ([], [c], q))"

fun append_all :: "append_request list \<Rightarrow> nat \<Rightarrow> (log_device, nat) st" where
  "append_all [] written_seq w = (Inr written_seq, w)"
| "append_all (req # rest) written_seq w =
     (case dev_append (ar_bytes req) w of
        (Inl e, w') \<Rightarrow> (Inl e, w')
      | (Inr _, w') \<Rightarrow> append_all rest (max written_seq (ar_seq req)) w')"

definition max_seq :: "append_request list \<Rightarrow> nat" where
  "max_seq batch = fold (max \<circ> ar_seq) batch 0"

definition write_append_batch :: "append_request list \<Rightarrow> bool \<Rightarrow> (journal, unit) st" where
  "write_append_batch batch needs_sync j =
     (case append_all batch 0 (jn_writer j) of
        (Inl e, w) \<Rightarrow> (Inl e, j\<lparr>jn_writer := w\<rparr>)
      | (Inr written_seq, w) \<Rightarrow>
          let j = j\<lparr>jn_writer := w\<rparr>;
              j = (if written_seq \<noteq> 0 then j\<lparr>written_work := max (written_work j) written_seq\<rparr> else j)
          in if needs_sync
             then case dev_flush w of
                    (Inl e, w') \<Rightarrow> (Inl e, j\<lparr>jn_writer := w'\<rparr>)
                  | (Inr _, w') \<Rightarrow> (Inr (), j\<lparr>jn_writer := w', flushed_work := max (flushed_work j) (max_seq batch)\<rparr>)
             else (Inr (), j))"

definition notify_append_batch :: "append_request list \<Rightarrow> unit res \<Rightarrow> journal \<Rightarrow> journal" where
  "notify_append_batch batch result j =
     j\<lparr>jn_acks := jn_acks j @ map (\<lambda>req. AppendAck (ar_seq req) result) (filter ar_sync batch)\<rparr>"

definition process_append_batch :: "append_request \<Rightarrow> nat \<Rightarrow> journal \<Rightarrow> journal" where
  "process_append_batch first limit j =
     (case gather limit (length (ar_bytes first)) (jn_queue j) of (more_appends, held, rest) \<Rightarrow>
      let batch = first # more_appends; j = j\<lparr>jn_backlog := jn_backlog j @ held, jn_queue := rest\<rparr>
      in case write_append_batch batch (list_ex ar_sync batch) j of (result, j) \<Rightarrow> notify_append_batch batch result j)"

definition run_command :: "nat \<Rightarrow> journal_command \<Rightarrow> journal \<Rightarrow> journal" where
  "run_command limit cmd j =
     (case cmd of
        Append record seq sync \<Rightarrow> process_append_batch \<lparr>ar_bytes = record, ar_seq = seq, ar_sync = sync\<rparr> limit j
      | Flush up_to \<Rightarrow>
          (case dev_flush (jn_writer j) of (res, w) \<Rightarrow>
           let j = j\<lparr>jn_writer := w\<rparr>;
               j = (case res of Inr _ \<Rightarrow> j\<lparr>flushed_work := max (flushed_work j) up_to\<rparr> | Inl _ \<Rightarrow> j)
           in j\<lparr>jn_acks := jn_acks j @ [FlushAck up_to res]\<rparr>)
      | Truncate \<Rightarrow>
          (case dev_truncate (jn_writer j) of (res, w) \<Rightarrow>
           j\<lparr>jn_writer := w, jn_acks := jn_acks j @ [TruncateAck res]\<rparr>))"

definition run_worker :: "nat \<Rightarrow> journal \<Rightarrow> journal" where
  "run_worker limit j =
     (case jn_backlog j of
        cmd # rest \<Rightarrow> run_command limit cmd (j\<lparr>jn_backlog := rest\<rparr>)
      | [] \<Rightarrow> (case jn_queue j of [] \<Rightarrow> j | cmd # rest \<Rightarrow> run_command limit cmd (j\<lparr>jn_queue := rest\<rparr>)))"

end
