(* ===== verification/Checkpoint_Plan.thy ===== *)
theory Checkpoint_Plan
  imports Checkpoint_IO Journal
begin

text \<open>
  The planner of the checkpointer (\<^verbatim>\<open>src/checkpoint/round.rs\<close>) and the manual checkpoint
  (\<^verbatim>\<open>Tree::checkpoint\<close> in \<^verbatim>\<open>src/api/tree.rs\<close>): capture of the dirty state, log flush, clone, commit,
  truncation.  Each phase is a definition of its own, since other threads run between the phases.
  The state is the buffer manager with the journal; a tree without a journal has \<open>None\<close>.
\<close>

section \<open>The journal seen by a caller that waits\<close>

text \<open>The worker handles what is queued, one command per turn.\<close>

definition worker_drain :: "journal \<Rightarrow> journal" where
  "worker_drain j = (run_worker 0 ^^ length (jn_backlog j @ jn_queue j)) j"

definition last_result :: "journal \<Rightarrow> unit res" where
  "last_result j = (case last (jn_acks j) of AppendAck _ r \<Rightarrow> r | FlushAck _ r \<Rightarrow> r | TruncateAck r \<Rightarrow> r)"

definition journal_flush :: "nat \<Rightarrow> (journal, unit) st" where
  "journal_flush observed j =
     (case flush_up_to observed j of
        (False, j') \<Rightarrow> (Inr (), j')
      | (True, j') \<Rightarrow> let j'' = worker_drain j' in (last_result j'', j''))"

definition journal_truncate :: "(journal, unit) st" where
  "journal_truncate j =
     (case truncate_send j of
        (False, j') \<Rightarrow> (Inr (), j')
      | (True, j') \<Rightarrow> let j'' = worker_drain j'
          in case last_result j'' of Inl e \<Rightarrow> (Inl e, j'') | Inr _ \<Rightarrow> (Inr (), truncate_acked (queued_work j) j''))"

record shared =
  sh_bm :: buffer_manager
  sh_journal :: "journal option"

definition on_bm :: "(buffer_manager \<Rightarrow> buffer_manager) \<Rightarrow> shared \<Rightarrow> shared" where
  "on_bm f sh = sh\<lparr>sh_bm := f (sh_bm sh)\<rparr>"

definition in_bm :: "(buffer_manager, 'a) st \<Rightarrow> (shared, 'a) st" where
  "in_bm m sh = (case m (sh_bm sh) of (r, bm) \<Rightarrow> (r, sh\<lparr>sh_bm := bm\<rparr>))"

definition in_journal :: "(journal, unit) st \<Rightarrow> (shared, unit) st" where
  "in_journal m sh =
     (case sh_journal sh of
        None \<Rightarrow> (Inr (), sh)
      | Some j \<Rightarrow> (case m j of (r, j') \<Rightarrow> (r, sh\<lparr>sh_journal := Some j'\<rparr>)))"

text \<open>The guard of truncation, evaluated inside the exclusive side of the commit gate.\<close>

definition all_settled :: "buffer_manager \<Rightarrow> bool" where
  "all_settled bm \<longleftrightarrow> dirty_count bm = 0 \<and> flushing_count bm = 0 \<and> pending_delete_count bm = 0"

definition maybe_truncate :: "(shared, unit) st" where
  "maybe_truncate sh =
     (case sh_journal sh of
        None \<Rightarrow> (Inr (), sh)
      | Some j \<Rightarrow>
          if \<not> needs_checkpoint j then (Inr (), sh)
          else if all_settled (sh_bm sh) then in_journal journal_truncate sh
          else (Inr (), sh))"

section \<open>Capture and clone\<close>

text \<open>The capture runs inside the exclusive side of the commit gate.\<close>

definition capture_intent :: "(shared, seq_map \<times> seq_map \<times> dirty_snapshot_entry list \<times> nat option) st" where
  "capture_intent sh =
     (case snapshot_dirty (sh_bm sh) of (snap, bm1) \<Rightarrow>
      case snapshot_pending_deletes bm1 of (pending, bm2) \<Rightarrow>
      let wal_up_to = map_option queued_work (sh_journal sh)
      in case snapshot_dirty_versions snap bm2 of
           Inl e \<Rightarrow> (Inl e, sh\<lparr>sh_bm := restore_dirty snap (restore_pending_deletes pending bm2)\<rparr>)
         | Inr versioned \<Rightarrow> (Inr (snap, pending, versioned, wal_up_to), sh\<lparr>sh_bm := bm2\<rparr>))"

definition restore_capture :: "seq_map \<Rightarrow> seq_map \<Rightarrow> shared \<Rightarrow> shared" where
  "restore_capture snap pending = on_bm (\<lambda>bm. restore_dirty snap (restore_pending_deletes pending bm))"

definition flush_wal :: "nat option \<Rightarrow> (shared, unit) st" where
  "flush_wal wal_up_to = (case wal_up_to of None \<Rightarrow> sret () | Some up_to \<Rightarrow> in_journal (journal_flush up_to))"

type_synonym cloned_bytes = "(blob_guid \<times> nat \<times> nat \<times> buf) list"

fun clone_versioned_dirty :: "dirty_snapshot_entry list \<Rightarrow> buffer_manager \<Rightarrow> (cloned_bytes \<times> seq_map) res" where
  "clone_versioned_dirty [] bm = Inr ([], [])"
| "clone_versioned_dirty (d # rest) bm =
     rbind (snapshot_bytes_if_version (ds_guid d) (ds_content_version d) bm) (\<lambda>got.
     rbind (clone_versioned_dirty rest bm) (\<lambda>(snap_bytes, stale).
       case got of
         Some b \<Rightarrow> Inr ((ds_guid d, ds_expected_seq d, ds_content_version d, b) # snap_bytes, stale)
       | None \<Rightarrow> Inr (snap_bytes, AList.update (ds_guid d) (ds_expected_seq d) stale)))"

definition entry_of_clone :: "blob_guid \<times> nat \<times> nat \<times> buf \<Rightarrow> write_through_entry" where
  "entry_of_clone c = (case c of (guid, seq, content_version, b) \<Rightarrow>
     \<lparr>wt_guid = guid, wt_bytes = b, wt_expected_seq = seq, wt_content_version = Some content_version\<rparr>)"

section \<open>One round of the planner\<close>

definition drop_keys :: "seq_map \<Rightarrow> seq_map \<Rightarrow> seq_map" where
  "drop_keys gone m = fold (\<lambda>(g, _) m. AList.delete g m) gone m"

text \<open>The commit of the epoch, for a caller that waits for the report (\<^verbatim>\<open>run_round_sync\<close>).\<close>

definition commit_and_reap :: "nat \<Rightarrow> checkpoint_epoch \<Rightarrow> (shared, unit) st" where
  "commit_and_reap fuel ep =
     sbind (\<lambda>sh. case commit_epoch_batch fuel [ep] (sh_bm sh) of (reports, bm) \<Rightarrow> (er_result (hd reports), sh\<lparr>sh_bm := bm\<rparr>))
       (\<lambda>_. maybe_truncate)"

definition submit_epoch :: "nat \<Rightarrow> seq_map \<Rightarrow> seq_map \<Rightarrow> cloned_bytes \<Rightarrow> seq_map \<Rightarrow> (shared, unit) st" where
  "submit_epoch fuel snap pending snap_bytes stale_dirty sh =
     (let (snap, pending, sh) = (if stale_dirty = [] then (snap, pending, sh)
            else (drop_keys stale_dirty snap, [], on_bm (\<lambda>bm. restore_pending_deletes pending (restore_dirty stale_dirty bm)) sh))
      in if snap = [] \<and> pending = [] \<and> \<not> bm_needs_flush (sh_bm sh)
         then maybe_truncate sh
         else commit_and_reap fuel \<lparr>ce_entries = map entry_of_clone snap_bytes, ce_pending = pending\<rparr> sh)"

definition run_round_sync :: "nat \<Rightarrow> (shared, unit) st" where
  "run_round_sync fuel =
     sbind maybe_truncate (\<lambda>_.
     sbind capture_intent (\<lambda>(snap, pending, versioned, wal_up_to). \<lambda>sh.
       case flush_wal wal_up_to sh of
         (Inl e, sh1) \<Rightarrow> (Inl e, restore_capture snap pending sh1)
       | (Inr _, sh1) \<Rightarrow>
           (case clone_versioned_dirty versioned (sh_bm sh1) of
              Inl e \<Rightarrow> (Inl e, restore_capture snap pending sh1)
            | Inr (snap_bytes, stale_dirty) \<Rightarrow> submit_epoch fuel snap pending snap_bytes stale_dirty sh1)))"

section \<open>The manual checkpoint\<close>

fun clone_checkpoint_bytes :: "dirty_snapshot_entry list \<Rightarrow> buffer_manager \<Rightarrow> cloned_bytes option res" where
  "clone_checkpoint_bytes [] bm = Inr (Some [])"
| "clone_checkpoint_bytes (d # rest) bm =
     rbind (snapshot_bytes_if_version (ds_guid d) (ds_content_version d) bm) (\<lambda>got.
       case got of
         None \<Rightarrow> Inr None
       | Some b \<Rightarrow> rbind (clone_checkpoint_bytes rest bm) (\<lambda>r.
           Inr (map_option ((#) (ds_guid d, ds_expected_seq d, ds_content_version d, b)) r)))"

record dirty_write_outcome =
  dw_wrote_any :: bool
  dw_failed :: seq_map
  dw_first_err :: "error option"

definition write_checkpoint_bytes :: "cloned_bytes \<Rightarrow> buffer_manager \<Rightarrow> dirty_write_outcome \<times> buffer_manager" where
  "write_checkpoint_bytes snap_bytes bm =
     (let entries = map entry_of_clone snap_bytes
      in if entries = [] then (\<lparr>dw_wrote_any = False, dw_failed = [], dw_first_err = None\<rparr>, bm)
         else case write_through_batch entries bm of
             (Inl e, bm') \<Rightarrow> (\<lparr>dw_wrote_any = True,
                 dw_failed = fold (\<lambda>w m. AList.update (wt_guid w) (wt_expected_seq w) m) entries [], dw_first_err = Some e\<rparr>, bm')
           | (Inr _, bm') \<Rightarrow> (\<lparr>dw_wrote_any = True, dw_failed = [], dw_first_err = None\<rparr>, bm'))"

definition finish_checkpoint_snapshot :: "seq_map \<Rightarrow> cloned_bytes \<Rightarrow> (shared, unit) st" where
  "finish_checkpoint_snapshot snap_pending snap_bytes sh =
     (case write_checkpoint_bytes snap_bytes (sh_bm sh) of (w, bm1) \<Rightarrow>
      let had_dirty_failure = dw_failed w \<noteq> [];
          sh1 = sh\<lparr>sh_bm := if had_dirty_failure then restore_dirty (dw_failed w) bm1 else bm1\<rparr>
      in if \<not> dw_wrote_any w \<and> snap_pending = [] \<and> \<not> bm_needs_flush (sh_bm sh1) then maybe_truncate sh1
         else case in_bm flush_inner sh1 of
             (Inl e, sh2) \<Rightarrow> (Inl e, on_bm (restore_pending_deletes snap_pending) sh2)
           | (Inr _, sh2) \<Rightarrow>
               if had_dirty_failure
               then (Inl (the (dw_first_err w)), on_bm (restore_pending_deletes snap_pending) sh2)
               else case delete_pending snap_pending (sh_bm sh2) of ((failed, err), bm3) \<Rightarrow>
                 let bm4 = (if failed = [] then bm3 else restore_pending_deletes failed bm3);
                     sh4 = sh2\<lparr>sh_bm := bm4\<rparr>
                 in case (if length snap_pending > length failed then in_bm flush_inner sh4 else (Inr (), sh4)) of
                      (Inl e, sh5) \<Rightarrow> (Inl e, on_bm (restore_pending_deletes
                          (filter (\<lambda>(g, _). map_of failed g = None) snap_pending)) sh5)
                    | (Inr _, sh5) \<Rightarrow> (case err of Some e \<Rightarrow> (Inl e, sh5) | None \<Rightarrow> maybe_truncate sh5))"

text \<open>The retry loop; \<open>fuel\<close> bounds the number of attempts that meet a changed blob.\<close>

fun checkpoint_attempts :: "nat \<Rightarrow> (shared, unit) st" where
  "checkpoint_attempts 0 sh = (Inl StackOverflow, sh)"
| "checkpoint_attempts (Suc fuel) sh =
     (case capture_intent sh of
        (Inl e, sh0) \<Rightarrow> (Inl e, sh0)
      | (Inr (snap, pending, versioned, wal_up_to), sh0) \<Rightarrow>
          (case flush_wal wal_up_to sh0 of
             (Inl e, sh1) \<Rightarrow> (Inl e, restore_capture snap pending sh1)
           | (Inr _, sh1) \<Rightarrow>
               (case clone_checkpoint_bytes versioned (sh_bm sh1) of
                  Inl e \<Rightarrow> (Inl e, restore_capture snap pending sh1)
                | Inr None \<Rightarrow> checkpoint_attempts fuel (restore_capture snap pending sh1)
                | Inr (Some snap_bytes) \<Rightarrow> finish_checkpoint_snapshot pending snap_bytes sh1)))"

section \<open>Flushing inline, for trees without a log\<close>

fun inline_entries :: "seq_map \<Rightarrow> buffer_manager \<Rightarrow> write_through_entry list \<times> seq_map" where
  "inline_entries [] bm = ([], [])"
| "inline_entries ((guid, expected_seq) # rest) bm =
     (case inline_entries rest bm of (entries, failed) \<Rightarrow>
      (case snapshot_bytes guid bm of
         Some b \<Rightarrow> (\<lparr>wt_guid = guid, wt_bytes = b, wt_expected_seq = expected_seq, wt_content_version = None\<rparr> # entries, failed)
       | None \<Rightarrow> (entries, AList.update guid expected_seq failed)))"

definition lost_image :: error where
  "lost_image = Internal ''flush_dirty_inline: dirty entry lost cache image''"

definition flush_dirty_inline :: "(buffer_manager, unit) st" where
  "flush_dirty_inline bm =
     (case snapshot_dirty bm of (snap, bm1) \<Rightarrow>
      case inline_entries snap bm1 of (entries, failed) \<Rightarrow>
      let first_err = (if failed = [] then None else Some lost_image)
      in case (if entries = [] then (Inr [], bm1) else write_through_batch entries bm1) of
           (Inl e, bm2) \<Rightarrow>
             (Inl (case first_err of Some f \<Rightarrow> f | None \<Rightarrow> e),
              restore_dirty (fold (\<lambda>w m. AList.update (wt_guid w) (wt_expected_seq w) m) entries failed) bm2)
         | (Inr _, bm2) \<Rightarrow>
             (case first_err of None \<Rightarrow> (Inr (), bm2) | Some f \<Rightarrow> (Inl f, restore_dirty failed bm2)))"

definition flush_pending_deletes_inline :: "(buffer_manager, unit) st" where
  "flush_pending_deletes_inline bm =
     (case snapshot_pending_deletes bm of (pending, bm1) \<Rightarrow>
      case delete_pending pending bm1 of ((failed, err), bm2) \<Rightarrow>
      let bm3 = (if failed = [] then bm2 else restore_pending_deletes failed bm2)
      in (case err of None \<Rightarrow> (Inr (), bm3) | Some e \<Rightarrow> (Inl e, bm3)))"

end
