(* ===== verification/Checkpoint_Order.thy ===== *)
theory Checkpoint_Order
  imports Checkpoint_IO
begin

text \<open>
  What the order of the waves gives: at every moment of a commit, and whichever write or sync
  fails, each image in the store refers only to blobs that are in the store or that the epochs
  were asked to delete.
\<close>

section \<open>References resolve\<close>

text \<open>\<open>refs_ok fuel D m\<close>: an image of \<open>m\<close> refers to blobs of \<open>m\<close>, or to blobs of \<open>D\<close>.\<close>

definition refs_ok :: "nat \<Rightarrow> blob_guid set \<Rightarrow> (blob_guid \<Rightarrow> buf option) \<Rightarrow> bool" where
  "refs_ok fuel D m \<longleftrightarrow> (\<forall>g img cs. m g = Some img \<longrightarrow> collect_blob_children_from_frame fuel img = Inr cs \<longrightarrow> set cs \<subseteq> dom m \<union> D)"

definition put_all :: "(blob_guid \<times> buf) list \<Rightarrow> (blob_guid \<Rightarrow> buf option) \<Rightarrow> blob_guid \<Rightarrow> buf option" where
  "put_all writes m = m ++ map_of (rev writes)"

lemma fold_put_all: "fold (\<lambda>(guid, src) m. m(guid \<mapsto> src)) ws m = put_all ws m"
proof (induction ws arbitrary: m)
  case (Cons w ws)
  obtain g b where w: "w = (g, b)" by force
  have "fold (\<lambda>(guid, src) m. m(guid \<mapsto> src)) (w # ws) m = fold (\<lambda>(guid, src) m. m(guid \<mapsto> src)) ws (m(g \<mapsto> b))"
    using w by simp
  also have "\<dots> = put_all ws (m(g \<mapsto> b))" by (rule Cons.IH)
  also have "\<dots> = m ++ ([g \<mapsto> b] ++ map_of (rev ws))" unfolding map_add_assoc by (simp add: put_all_def)
  also have "\<dots> = put_all (w # ws) m" using w by (simp add: put_all_def)
  finally show ?case .
qed (simp add: put_all_def)

lemma put_all_Nil [simp]: "put_all [] m = m"
  by (simp add: put_all_def)

lemma put_all_dom: "dom (put_all ws m) = fst ` set ws \<union> dom m"
  by (simp add: put_all_def dom_map_of_conv_image_fst)

lemma put_all_cases: "put_all ws m g = Some b \<Longrightarrow> (g, b) \<in> set ws \<or> m g = Some b"
  by (auto simp: put_all_def map_add_Some_iff dest: map_of_SomeD)

lemma put_all_other: "g \<notin> fst ` set ws \<Longrightarrow> put_all ws m g = m g"
  using map_of_eq_None_iff [of "rev ws" g] by (simp add: put_all_def map_add_def)

lemma put_all_in: "distinct (map fst ws) \<Longrightarrow> (g, b) \<in> set ws \<Longrightarrow> put_all ws m g = Some b"
  by (auto simp: put_all_def map_add_Some_iff rev_map [symmetric])

lemma refs_ok_put:
  assumes "refs_ok fuel D m"
    and "\<And>g b cs. (g, b) \<in> set ws \<Longrightarrow> collect_blob_children_from_frame fuel b = Inr cs \<Longrightarrow> set cs \<subseteq> dom m"
  shows "refs_ok fuel D (put_all ws m)"
  unfolding refs_ok_def
proof (intro allI impI)
  fix g img cs
  assume "put_all ws m g = Some img" and c: "collect_blob_children_from_frame fuel img = Inr cs"
  then consider "(g, img) \<in> set ws" | "m g = Some img" using put_all_cases by blast
  then have "set cs \<subseteq> dom m \<union> D"
  proof cases
    case 1
    then show ?thesis using assms(2) c by blast
  next
    case 2
    then show ?thesis using assms(1) c by (simp add: refs_ok_def)
  qed
  then show "set cs \<subseteq> dom (put_all ws m) \<union> D" unfolding put_all_dom by blast
qed

section \<open>The store under a write-through\<close>

abbreviation blobs_of :: "buffer_manager \<Rightarrow> blob_guid \<Rightarrow> buf option" where
  "blobs_of bm \<equiv> bs_blobs (bm_store bm)"

lemma retire_all_store [simp]: "bm_store (retire_all ws bm) = bm_store bm"
  unfolding retire_all_def
  by (induction ws arbitrary: bm) (simp_all add: retire_write_through_def Let_def)

lemma store_write_cases:
  "store_write_blobs ws st = (r, st') \<Longrightarrow> \<exists>n. bs_blobs st' = put_all (take n ws) (bs_blobs st) \<and> (r = Inr () \<longrightarrow> take n ws = ws)"
  by (auto simp: store_write_blobs_def io_next_def put_images_def fold_put_all split: list.splits io_outcome.splits
      intro: exI [of _ "length ws"])

text \<open>The images that a batch may put: those whose snapshot is current.\<close>

definition current_of :: "write_through_entry list \<Rightarrow> bool list \<Rightarrow> write_through_entry list" where
  "current_of ws flags = map fst (filter snd (zip ws flags))"

definition stale_of :: "write_through_entry list \<Rightarrow> bool list \<Rightarrow> write_through_entry list" where
  "stale_of ws flags = map fst (filter (Not \<circ> snd) (zip ws flags))"

abbreviation image_of :: "write_through_entry \<Rightarrow> blob_guid \<times> buf" where
  "image_of w \<equiv> (wt_guid w, wt_bytes w)"

lemma write_through_cases:
  assumes "write_through_batch ws bm = (r, bm')"
  obtains (rejected) e where "r = Inl e" and "bm' = bm" and "current_flags ws bm = Inl e"
  | (failed) flags e n st where "current_flags ws bm = Inr flags" and "r = Inl e" and "bm' = bm\<lparr>bm_store := st\<rparr>"
      and "bs_blobs st = put_all (take n (map image_of (current_of ws flags))) (blobs_of bm)"
  | (stored) flags st where "current_flags ws bm = Inr flags" and "r = Inr (map (\<lambda>c. if c then Written else Stale) flags)"
      and "bm' = retire_all (stale_of ws flags) (retire_all (current_of ws flags) (bm\<lparr>bm_store := st\<rparr>))"
      and "bs_blobs st = put_all (map image_of (current_of ws flags)) (blobs_of bm)"
proof (cases "ws = []")
  case True
  then have "r = Inr []" "bm' = bm" using assms by (simp_all add: write_through_batch_def)
  with True stored [of "[]" "bm_store bm"] show thesis by (simp add: current_of_def stale_of_def retire_all_def)
next
  case False
  note run = assms [unfolded write_through_batch_def]
  show thesis
  proof (cases "current_flags ws bm")
    case (Inl e)
    then show thesis using run False rejected by auto
  next
    case (Inr flags)
    let ?cur = "current_of ws flags" and ?im = "map image_of (current_of ws flags)"
    have eqs: "map fst (filter snd (zip ws flags)) = ?cur" "map fst (filter (Not \<circ> snd) (zip ws flags)) = stale_of ws flags"
      by (simp_all add: current_of_def stale_of_def)
    show thesis
    proof (cases "?im = []")
      case True
      have "bm\<lparr>bm_store := bm_store bm\<rparr> = bm" by simp
      then show thesis using run False Inr True stored [of flags "bm_store bm"] by (simp add: eqs Let_def)
    next
      case ne: False
      obtain q st where w: "store_write_blobs ?im (bm_store bm) = (q, st)" by force
      obtain n where n: "bs_blobs st = put_all (take n ?im) (blobs_of bm)" "q = Inr () \<longrightarrow> take n ?im = ?im"
        using store_write_cases [OF w] by blast
      have os: "on_store (store_write_blobs ?im) bm = (q, bm\<lparr>bm_store := st\<rparr>)" using w by (simp add: on_store_def)
      show thesis
      proof (cases q)
        case (Inl e)
        then have "r = Inl e" "bm' = bm\<lparr>bm_store := st\<rparr>" using run False Inr ne os by (simp_all add: eqs Let_def)
        then show thesis using failed [OF Inr _ _ n(1)] by blast
      next
        case i2: (Inr u)
        then have "take n ?im = ?im" using n(2) by simp
        then have "bs_blobs st = put_all ?im (blobs_of bm)" using n(1) by simp
        moreover have "r = Inr (map (\<lambda>c. if c then Written else Stale) flags)"
            "bm' = retire_all (stale_of ws flags) (retire_all ?cur (bm\<lparr>bm_store := st\<rparr>))"
          using run False Inr ne os i2 by (simp_all add: eqs Let_def)
        ultimately show thesis using stored [OF Inr] by blast
      qed
    qed
  qed
qed

lemma flush_inner_cases:
  assumes "flush_inner bm = (r, bm')"
  obtains st where "bm' = bm\<lparr>bm_store := st\<rparr>" and "bs_blobs st = blobs_of bm" and "r = Inr () \<Longrightarrow> bs_unsynced st = False"
  using assms by (auto simp: flush_inner_def on_store_def store_flush_def io_next_def split: list.splits io_outcome.splits prod.splits)

lemma flush_inner_blobs: "flush_inner bm = (r, bm') \<Longrightarrow> blobs_of bm' = blobs_of bm"
  by (erule flush_inner_cases) simp

lemma set_current_of: "set (current_of ws flags) \<subseteq> set ws"
  by (auto simp: current_of_def dest: set_zip_leftD)

text \<open>Whatever happens, the store gains images of the batch only.\<close>

lemma write_through_puts:
  assumes "write_through_batch ws bm = (r, bm')"
  obtains im where "blobs_of bm' = put_all im (blobs_of bm)" and "set im \<subseteq> image_of ` set ws"
  using assms
proof (cases rule: write_through_cases)
  case (rejected e)
  then have "blobs_of bm' = put_all [] (blobs_of bm)" by simp
  then show thesis by (rule that) simp
next
  case (failed flags e n st)
  have "set (take n (map image_of (current_of ws flags))) \<subseteq> image_of ` set ws"
    using set_current_of [of ws flags] set_take_subset [of n "map image_of (current_of ws flags)"]
    by (simp add: subset_iff image_iff) blast
  moreover have "blobs_of bm' = put_all (take n (map image_of (current_of ws flags))) (blobs_of bm)"
    using failed by simp
  ultimately show thesis using that by blast
next
  case (stored flags st)
  then have "blobs_of bm' = put_all (map image_of (current_of ws flags)) (blobs_of bm)" by simp
  then show thesis by (rule that) (use set_current_of [of ws flags] in auto)
qed

section \<open>Every wave keeps the references resolved\<close>

lemma children_ready_sound:
  "children_ready bm cs rem dur \<Longrightarrow> dur \<subseteq> dom (blobs_of bm) \<Longrightarrow> set cs \<subseteq> dom (blobs_of bm)"
  by (induction cs) (auto simp: store_has_blob_def split: if_splits)

definition wave_ok :: "nat \<Rightarrow> blob_guid set \<Rightarrow> wave_state \<Rightarrow> buffer_manager \<Rightarrow> bool" where
  "wave_ok fuel D ws bm \<longleftrightarrow> refs_ok fuel D (blobs_of bm) \<and> ws_durable_this_batch ws \<subseteq> dom (blobs_of bm)
     \<and> (\<forall>e \<in> set (ws_entries ws). \<forall>w. be_entry e = Some w \<longrightarrow>
          wt_guid w = be_guid e \<and> collect_entry_children fuel w = Inr (be_children e))"

lemma take_wave_entries:
  "take_wave is es = (r, es') \<Longrightarrow> \<forall>i \<in> set is. i < length es \<Longrightarrow>
     (\<forall>ws. r = Inr ws \<longrightarrow> (\<forall>j < length is. \<exists>e. bare e = bare (es ! (is ! j)) \<and> e \<in> set es \<and> be_entry e = Some (ws ! j)))
     \<and> (\<forall>e' \<in> set es'. \<forall>w. be_entry e' = Some w \<longrightarrow> e' \<in> set es)"
proof (induction "is" es arbitrary: r es' rule: take_wave.induct)
  case (2 idx rest es)
  show ?case
  proof (cases "be_entry (es ! idx)")
    case (Some w)
    let ?e = "(es ! idx)\<lparr>be_entry := None\<rparr>"
    let ?es = "es[idx := ?e]"
    have idx: "idx < length es" using "2.prems"(2) by simp
    obtain r' where r': "take_wave rest ?es = (r', es')" and r: "r = (case r' of Inl e \<Rightarrow> Inl e | Inr ws \<Rightarrow> Inr (w # ws))"
      using "2.prems"(1) Some by (auto split: prod.splits sum.splits)
    have IH: "\<And>ws j. r' = Inr ws \<Longrightarrow> j < length rest \<Longrightarrow> \<exists>e. bare e = bare (?es ! (rest ! j)) \<and> e \<in> set ?es \<and> be_entry e = Some (ws ! j)"
        "\<And>e' w. e' \<in> set es' \<Longrightarrow> be_entry e' = Some w \<Longrightarrow> e' \<in> set ?es"
      using "2.IH" [OF Some r'] "2.prems"(2) by auto
    have sub: "e \<in> set es" if "e \<in> set ?es" "be_entry e = Some v" for e v
      using that set_update_subset_insert [of es idx ?e] by auto
    have bare_upd: "bare (?es ! i) = bare (es ! i)" if "i < length es" for i
      using that by (cases "i = idx") simp_all
    have "\<exists>e. bare e = bare (es ! ((idx # rest) ! j)) \<and> e \<in> set es \<and> be_entry e = Some (ws ! j)"
      if ws: "r = Inr ws" and j: "j < length (idx # rest)" for ws j
    proof (cases j)
      case 0
      then show ?thesis using ws r Some idx by (intro exI [of _ "es ! idx"]) (auto split: sum.splits)
    next
      case (Suc k)
      obtain ws' where ws': "r' = Inr ws'" "ws = w # ws'" using ws r by (auto split: sum.splits)
      have "rest ! k < length es" using "2.prems"(2) Suc j by auto
      then show ?thesis using IH(1) [OF ws'(1), of k] Suc j ws'(2) sub bare_upd by auto
    qed
    moreover have "\<forall>e' \<in> set es'. \<forall>w. be_entry e' = Some w \<longrightarrow> e' \<in> set es" using IH(2) sub by blast
    ultimately show ?thesis by blast
  qed (use "2.prems" in auto)
qed auto

lemma wave_member:
  assumes ok: "wave_ok fuel D ws bm" and t: "take_wave (ready_wave ws bm) (ws_entries ws) = (Inr wes, es)" and w: "w \<in> set wes"
  shows "\<exists>cs. collect_entry_children fuel w = Inr cs \<and> set cs \<subseteq> dom (blobs_of bm)"
proof -
  have len: "length wes = length (ready_wave ws bm)" using take_wave_length [OF t] .
  obtain j where j: "j < length wes" "w = wes ! j" using w by (auto simp: in_set_conv_nth)
  let ?i = "ready_wave ws bm ! j"
  have i: "?i \<in> set (ready_wave ws bm)" using j len by simp
  have "\<forall>i \<in> set (ready_wave ws bm). i < length (ws_entries ws)" by (auto simp: ready_wave_def)
  from take_wave_entries [OF t this] j len obtain e where
    e: "bare e = bare (ws_entries ws ! ?i)" "e \<in> set (ws_entries ws)" "be_entry e = Some w" by auto
  have "collect_entry_children fuel w = Inr (be_children e)" using ok e by (auto simp: wave_ok_def)
  moreover have "children_ready bm (be_children e) (ws_remaining_by_guid ws) (ws_durable_this_batch ws)"
    using i bare_eqD(3) [OF e(1)] by (auto simp: ready_wave_def Let_def)
  then have "set (be_children e) \<subseteq> dom (blobs_of bm)"
    using ok children_ready_sound by (simp add: wave_ok_def)
  ultimately show ?thesis by blast
qed

text \<open>Recording a status touches the flag of its entry only.\<close>

definition plain :: "batch_entry \<Rightarrow> batch_entry" where
  "plain e = e\<lparr>be_flushed := False\<rparr>"

lemma plain_sel [simp]:
  "be_guid (plain e) = be_guid e" "be_children (plain e) = be_children e" "be_entry (plain e) = be_entry e"
  "be_expected_seq (plain e) = be_expected_seq e" "plain (e\<lparr>be_flushed := f\<rparr>) = plain e"
  by (simp_all add: plain_def)

lemma note_written_plain: "map plain (ws_entries (note_written i ws)) = map plain (ws_entries ws)"
  by (cases "i < length (ws_entries ws)")
    (simp_all add: note_written_def Let_def map_update list_update_same_conv list_update_beyond)

lemma apply_statuses_plain: "map plain (ws_entries (snd (apply_statuses ps ws))) = map plain (ws_entries ws)"
  by (induction ps ws rule: apply_statuses.induct) (auto simp: note_written_plain split: write_through_status.split prod.splits)

lemma plain_guid: "map plain es' = map plain es \<Longrightarrow> i < length es \<Longrightarrow> be_guid (es' ! i) = be_guid (es ! i)"
  by (metis length_map nth_map plain_sel(1))

lemma apply_statuses_durable:
  "\<forall>i \<in> fst ` set ps. i < length (ws_entries ws) \<Longrightarrow>
     ws_durable_this_batch (snd (apply_statuses ps ws))
       = ws_durable_this_batch ws \<union> {be_guid (ws_entries ws ! i) | i. (i, Written) \<in> set ps}"
proof (induction ps ws rule: apply_statuses.induct)
  case (2 idx status rest ws)
  show ?case
  proof (cases status)
    case Written
    let ?ws = "note_written idx ws"
    note pl = note_written_plain [of idx ws]
    have len: "length (ws_entries ?ws) = length (ws_entries ws)" using arg_cong [OF pl, of length] by simp
    have g: "be_guid (ws_entries ?ws ! i) = be_guid (ws_entries ws ! i)" if "(i, Written) \<in> set rest" for i
      using that "2.prems" by (intro plain_guid [OF pl]) force
    have "ws_durable_this_batch (snd (apply_statuses rest ?ws))
        = ws_durable_this_batch ?ws \<union> {be_guid (ws_entries ?ws ! i) | i. (i, Written) \<in> set rest}"
      using "2.IH"(1) [OF Written] "2.prems" len by simp
    also have "{be_guid (ws_entries ?ws ! i) | i. (i, Written) \<in> set rest} = {be_guid (ws_entries ws ! i) | i. (i, Written) \<in> set rest}"
      using g by (auto intro!: Collect_cong) metis+
    also have "ws_durable_this_batch ?ws = insert (be_guid (ws_entries ws ! idx)) (ws_durable_this_batch ws)"
      by (simp add: note_written_def Let_def)
    finally show ?thesis using Written by auto
  next
    case Stale
    then show ?thesis using "2.IH"(2) [OF Stale] "2.prems" by (auto split: prod.splits)
  qed
qed simp

lemma written_current:
  assumes "length flags = length ws" and "j < length ws" and "flags ! j"
  shows "ws ! j \<in> set (current_of ws flags)"
proof -
  have "(ws ! j, True) \<in> set (zip ws flags)" using assms by (auto simp: set_zip intro!: exI [of _ j])
  then show ?thesis by (force simp: current_of_def)
qed

lemma wave_puts_ok:
  assumes ok: "wave_ok fuel D ws bm" and t: "take_wave (ready_wave ws bm) (ws_entries ws) = (Inr wes, es)"
    and w: "write_through_batch wes bm = (r, bm1)"
  shows "refs_ok fuel D (blobs_of bm1)"
proof -
  obtain im where im: "blobs_of bm1 = put_all im (blobs_of bm)" "set im \<subseteq> image_of ` set wes"
    using write_through_puts [OF w] by blast
  show ?thesis
    unfolding im(1)
  proof (rule refs_ok_put)
    show "refs_ok fuel D (blobs_of bm)" using ok by (simp add: wave_ok_def)
    fix g i cs assume "(g, i) \<in> set im" "collect_blob_children_from_frame fuel i = Inr cs"
    then obtain v where "v \<in> set wes" "collect_entry_children fuel v = Inr cs"
      using im(2) by (auto simp: collect_entry_children_def)
    then show "set cs \<subseteq> dom (blobs_of bm)" using wave_member [OF ok t] by fastforce
  qed
qed

lemma wave_ok_step:
  assumes ok: "wave_ok fuel D ws bm"
    and t: "take_wave (ready_wave ws bm) (ws_entries ws) = (Inr wes, es)"
    and w: "write_through_batch wes bm = (Inr sts, bm1)" and f: "flush_inner bm1 = (Inr u, bm2)"
    and a: "apply_statuses (zip (ready_wave ws bm) sts) (ws\<lparr>ws_entries := es\<rparr>) = (b, ws')"
  shows "wave_ok fuel D ws' bm2"
proof -
  let ?wave = "ready_wave ws bm"
  have wl: "\<forall>i \<in> set ?wave. i < length (ws_entries ws)" by (auto simp: ready_wave_def)
  have blobs: "blobs_of bm2 = blobs_of bm1" using flush_inner_blobs [OF f] .
  obtain im where im: "blobs_of bm1 = put_all im (blobs_of bm)" "set im \<subseteq> image_of ` set wes"
    using write_through_puts [OF w] by blast
  have refs: "refs_ok fuel D (blobs_of bm2)" unfolding blobs by (rule wave_puts_ok [OF ok t w])
  have bk: "map bare es = map bare (ws_entries ws)" using take_wave_keeps [of ?wave "ws_entries ws"] t by simp
  then have les: "length es = length (ws_entries ws)" by (rule map_eq_imp_length_eq)
  have lw: "length wes = length ?wave" "length sts = length wes"
    using take_wave_length [OF t] write_through_batch_length [OF w] by auto
  have dur: "ws_durable_this_batch ws' = ws_durable_this_batch ws \<union> {be_guid (es ! i) | i. (i, Written) \<in> set (zip ?wave sts)}"
  proof -
    have "\<forall>i \<in> fst ` set (zip ?wave sts). i < length (ws_entries (ws\<lparr>ws_entries := es\<rparr>))"
      using wl les by (auto dest: set_zip_leftD)
    from apply_statuses_durable [OF this] show ?thesis using a by simp
  qed
  have new: "be_guid (es ! i) \<in> dom (blobs_of bm1)" if i: "(i, Written) \<in> set (zip ?wave sts)" for i
  proof -
    obtain j where j: "j < length ?wave" "?wave ! j = i" "sts ! j = Written" using i lw by (auto simp: set_zip)
    have wi: "i < length (ws_entries ws)" using j wl nth_mem by blast
    obtain e where e: "bare e = bare (ws_entries ws ! i)" "e \<in> set (ws_entries ws)" "be_entry e = Some (wes ! j)"
      using take_wave_entries [OF t wl] j by auto
    have "wt_guid (wes ! j) = be_guid e" using ok e by (auto simp: wave_ok_def)
    also have "\<dots> = be_guid (es ! i)" using bare_eqD(2) [OF e(1)] bare_eqD(2) [OF bare_nth [OF bk wi]] by simp
    finally have g: "wt_guid (wes ! j) = be_guid (es ! i)" .
    from w show ?thesis
    proof (cases rule: write_through_cases)
      case (stored flags st)
      have lf: "length flags = length wes" using current_flags_length [OF stored(1)] .
      have "flags ! j" using stored(2) j lw lf by (auto split: if_splits)
      then have "wes ! j \<in> set (current_of wes flags)" using written_current [OF lf] j lw by simp
      then have "be_guid (es ! i) \<in> fst ` set (map image_of (current_of wes flags))" using g by force
      then show ?thesis using stored by (auto simp: put_all_dom)
    qed auto
  qed
  have sub: "dom (blobs_of bm) \<subseteq> dom (blobs_of bm1)" unfolding im(1) by (simp add: put_all_dom)
  have "ws_durable_this_batch ws' \<subseteq> dom (blobs_of bm2)"
    unfolding blobs dur using new ok [unfolded wave_ok_def, THEN conjunct2, THEN conjunct1] sub by blast
  moreover have "\<forall>e \<in> set (ws_entries ws'). \<forall>v. be_entry e = Some v \<longrightarrow>
      wt_guid v = be_guid e \<and> collect_entry_children fuel v = Inr (be_children e)"
  proof (intro ballI allI impI)
    fix e v assume e: "e \<in> set (ws_entries ws')" "be_entry e = Some v"
    have "map plain (ws_entries ws') = map plain es"
      using apply_statuses_plain [of "zip ?wave sts" "ws\<lparr>ws_entries := es\<rparr>"] a by simp
    then have "plain e \<in> plain ` set es" using e(1) by (metis image_eqI set_map)
    then obtain e' where e': "e' \<in> set es" "plain e' = plain e" by auto
    then have eq: "be_guid e' = be_guid e" "be_children e' = be_children e" "be_entry e' = Some v"
      using e(2) plain_sel(1-3) by metis+
    then have "e' \<in> set (ws_entries ws)" using take_wave_entries [OF t wl] e'(1) by blast
    then show "wt_guid v = be_guid e \<and> collect_entry_children fuel v = Inr (be_children e)"
      using ok eq by (auto simp: wave_ok_def)
  qed
  ultimately show ?thesis using refs by (simp add: wave_ok_def)
qed

text \<open>The write loop, by an invariant of its rounds.\<close>

lemma write_waves_rule:
  assumes "I ws bm" and "write_waves ws bm = (r, ws', bm')"
    and idle: "\<And>ws bm. I ws bm \<Longrightarrow> ready_wave ws bm = [] \<Longrightarrow>
      Q (Inr \<lparr>bw_dirty_flushed_by_epoch = ws_dirty_flushed_by_epoch ws,
          bw_deferred = list_ex (\<lambda>e. \<not> be_flushed e) (ws_entries ws)\<rparr>) ws bm"
    and taken: "\<And>ws bm e es. I ws bm \<Longrightarrow> take_wave (ready_wave ws bm) (ws_entries ws) = (Inl e, es) \<Longrightarrow>
      Q (Inl e) (ws\<lparr>ws_entries := es\<rparr>) bm"
    and unwritten: "\<And>ws bm wes es e bm1. I ws bm \<Longrightarrow> take_wave (ready_wave ws bm) (ws_entries ws) = (Inr wes, es) \<Longrightarrow>
      write_through_batch wes bm = (Inl e, bm1) \<Longrightarrow> Q (Inl e) (ws\<lparr>ws_entries := es\<rparr>) bm1"
    and unsynced: "\<And>ws bm wes es e sts bm1 bm2. I ws bm \<Longrightarrow> take_wave (ready_wave ws bm) (ws_entries ws) = (Inr wes, es) \<Longrightarrow>
      write_through_batch wes bm = (Inr sts, bm1) \<Longrightarrow> flush_inner bm1 = (Inl e, bm2) \<Longrightarrow> Q (Inl e) (ws\<lparr>ws_entries := es\<rparr>) bm2"
    and stale: "\<And>ws bm wes es sts bm1 bm2 ws1. I ws bm \<Longrightarrow> take_wave (ready_wave ws bm) (ws_entries ws) = (Inr wes, es) \<Longrightarrow>
      write_through_batch wes bm = (Inr sts, bm1) \<Longrightarrow> flush_inner bm1 = (Inr (), bm2) \<Longrightarrow>
      apply_statuses (zip (ready_wave ws bm) sts) (ws\<lparr>ws_entries := es\<rparr>) = (True, ws1) \<Longrightarrow>
      Q (Inr \<lparr>bw_dirty_flushed_by_epoch = ws_dirty_flushed_by_epoch ws1, bw_deferred = True\<rparr>) ws1 bm2"
    and round: "\<And>ws bm wes es sts bm1 bm2 ws1. I ws bm \<Longrightarrow> ready_wave ws bm \<noteq> [] \<Longrightarrow>
      take_wave (ready_wave ws bm) (ws_entries ws) = (Inr wes, es) \<Longrightarrow>
      write_through_batch wes bm = (Inr sts, bm1) \<Longrightarrow> flush_inner bm1 = (Inr (), bm2) \<Longrightarrow>
      apply_statuses (zip (ready_wave ws bm) sts) (ws\<lparr>ws_entries := es\<rparr>) = (False, ws1) \<Longrightarrow> I ws1 bm2"
  shows "Q r ws' bm'"
  using assms(1,2)
proof (induction ws bm arbitrary: r ws' bm' rule: write_waves.induct)
  case (1 ws bm)
  let ?wave = "ready_wave ws bm"
  note I = "1.prems"(1) and run = "1.prems"(2) [unfolded write_waves.simps [of ws bm] Let_def]
  obtain q es where t: "take_wave ?wave (ws_entries ws) = (q, es)" by force
  consider "?wave = []" | e where "?wave \<noteq> []" "q = Inl e" | wes where "?wave \<noteq> []" "q = Inr wes" by (cases q) auto
  then show ?case
  proof cases
    case 1
    then show ?thesis using run idle [OF I] by auto
  next
    case 2
    then show ?thesis using run t taken [OF I, of e es] by simp
  next
    case (3 wes)
    note t = t [unfolded 3(2)]
    obtain q1 bm1 where w: "write_through_batch wes bm = (q1, bm1)" by force
    obtain q2 bm2 where f: "flush_inner bm1 = (q2, bm2)" by force
    consider e where "q1 = Inl e" | e sts where "q1 = Inr sts" "q2 = Inl e" | sts where "q1 = Inr sts" "q2 = Inr ()"
      by (cases q1; cases q2) auto
    then show ?thesis
    proof cases
      case 1
      then show ?thesis using run 3 t w unwritten [OF I t, of e bm1] by simp
    next
      case 2
      then show ?thesis using run 3 t w f unsynced [OF I t, of sts bm1 e bm2] by simp
    next
      case (3 sts)
      note w = w [unfolded 3(1)] and f = f [unfolded 3(2)]
      obtain b ws1 where a: "apply_statuses (zip ?wave sts) (ws\<lparr>ws_entries := es\<rparr>) = (b, ws1)" by force
      show ?thesis
      proof (cases b)
        case True
        then show ?thesis using run \<open>?wave \<noteq> []\<close> t w f a stale [OF I t w f, of ws1] by auto
      next
        case False
        note a = a [unfolded False eq_False [THEN iffD2]]
        have "write_waves ws1 bm2 = (r, ws', bm')" using run \<open>?wave \<noteq> []\<close> t w f a False by simp
        moreover have "I ws1 bm2" using round [OF I \<open>?wave \<noteq> []\<close> t w f] a False by simp
        ultimately show ?thesis
          using "1.IH" [OF refl \<open>?wave \<noteq> []\<close> t [symmetric] refl w [symmetric] refl f [symmetric] refl a [symmetric]] False by simp
      qed
    qed
  qed
qed

lemma wave_flush_ok:
  "wave_ok fuel D ws bm \<Longrightarrow> take_wave (ready_wave ws bm) (ws_entries ws) = (Inr wes, es) \<Longrightarrow>
     write_through_batch wes bm = (r, bm1) \<Longrightarrow> flush_inner bm1 = (q, bm2) \<Longrightarrow> refs_ok fuel D (blobs_of bm2)"
  using wave_puts_ok flush_inner_blobs by metis

lemma write_waves_refs:
  assumes "wave_ok fuel D ws bm" and "write_waves ws bm = (r, ws', bm')"
  shows "refs_ok fuel D (blobs_of bm')"
  by (rule write_waves_rule [where I = "wave_ok fuel D" and Q = "\<lambda>_ _ bm'. refs_ok fuel D (blobs_of bm')", OF assms])
    (blast intro: wave_ok_step wave_puts_ok wave_flush_ok wave_ok_def [THEN iffD1, THEN conjunct1])+

section \<open>A batch of epochs\<close>

lemma first_error_None: "first_error rs = None \<Longrightarrow> r \<in> set rs \<Longrightarrow> \<exists>x. r = Inr x"
  by (induction rs rule: first_error.induct) auto

lemma collect_entries_ok:
  assumes "collect_error fuel epochs = None" and "e \<in> set (collect_entries fuel epochs)"
  shows "\<exists>w. be_entry e = Some w \<and> wt_guid w = be_guid e \<and> wt_expected_seq w = be_expected_seq e
    \<and> collect_entry_children fuel w = Inr (be_children e) \<and> \<not> be_flushed e"
proof -
  obtain i ep w where w: "(i, ep) \<in> set (enumerate 0 epochs)" "w \<in> set (ce_entries ep)" "e = batch_entry_of fuel i w"
    using assms(2) by (auto simp: collect_entries_def)
  have "ep \<in> set epochs" using w(1) by (auto simp: in_set_enumerate_eq)
  then have "collect_entry_children fuel w \<in> set (map (collect_entry_children fuel) (concat (map ce_entries epochs)))"
    using w(2) by auto
  then obtain cs where "collect_entry_children fuel w = Inr cs"
    using first_error_None assms(1) unfolding collect_error_def by metis
  then show ?thesis using w(3) by (simp add: batch_entry_of_def)
qed

lemma write_entries_refs:
  assumes "refs_ok fuel D (blobs_of bm)" and "collect_error fuel epochs = None"
    and "write_entries_in_dependency_order (collect_entries fuel epochs) n bm = (r, es, bm')"
  shows "refs_ok fuel D (blobs_of bm')"
proof -
  let ?ws = "\<lparr>ws_entries = collect_entries fuel epochs, ws_remaining_by_guid = count_remaining (collect_entries fuel epochs),
    ws_durable_this_batch = {}, ws_dirty_flushed_by_epoch = replicate n 0\<rparr>"
  have ok: "wave_ok fuel D ?ws bm"
    using assms(1) collect_entries_ok [OF assms(2)] by (fastforce simp: wave_ok_def)
  obtain ws' where "write_waves ?ws bm = (r, ws', bm')"
    using assms(3) by (auto simp: write_entries_in_dependency_order_def split: prod.splits)
  from write_waves_refs [OF ok this] show ?thesis .
qed

lemma restore_dirty_store [simp]: "bm_store (restore_dirty es bm) = bm_store bm"
  by (induction es bm rule: restore_dirty.induct) (simp_all add: Let_def)

lemma restore_pending_store [simp]: "bm_store (restore_pending_deletes es bm) = bm_store bm"
  by (induction es bm rule: restore_pending_deletes.induct) (simp_all add: Let_def)

lemma restores_store [simp]:
  "bm_store (restore_all_pending eps bm) = bm_store bm" "bm_store (restore_batch_entries es bm) = bm_store bm"
  "bm_store (restore_unflushed_batch_entries es bm) = bm_store bm"
  "bm_store (restore_applied_pending eps fs bm) = bm_store bm"
  by (simp_all add: restore_all_pending_def restore_batch_entries_def restore_unflushed_batch_entries_def restore_applied_pending_def)

lemma refs_ok_delete:
  assumes "refs_ok fuel D m" and "g \<in> D"
  shows "refs_ok fuel D (m(g := None))"
  using assms unfolding refs_ok_def by (fastforce split: if_splits)

lemma execute_pending_delete_blobs:
  "execute_pending_delete g bm = (r, bm') \<Longrightarrow> blobs_of bm' = blobs_of bm \<or> blobs_of bm' = (blobs_of bm)(g := None)"
  by (auto simp: execute_pending_delete_def on_store_def store_delete_blob_def io_next_def
      split: prod.splits list.splits io_outcome.splits)

lemma delete_pending_refs:
  "refs_ok fuel D (blobs_of bm) \<Longrightarrow> fst ` set pend \<subseteq> D \<Longrightarrow> refs_ok fuel D (blobs_of (snd (delete_pending pend bm)))"
proof (induction pend bm rule: delete_pending.induct)
  case (2 g seq rest bm)
  obtain r bm1 where e: "execute_pending_delete g bm = (r, bm1)" by force
  have "refs_ok fuel D (blobs_of bm1)"
    using execute_pending_delete_blobs [OF e] refs_ok_delete [of fuel D "blobs_of bm" g] "2.prems" by auto
  then show ?case using 2 e by (cases r) (auto split: prod.splits)
qed simp

lemma delete_epochs_refs:
  "refs_ok fuel D (blobs_of bm) \<Longrightarrow> \<forall>ep \<in> set eps. fst ` set (ce_pending ep) \<subseteq> D \<Longrightarrow>
     refs_ok fuel D (blobs_of (snd (delete_epochs eps bm)))"
proof (induction eps bm rule: delete_epochs.induct)
  case (2 ep rest bm)
  obtain f err bm1 where d: "delete_pending (ce_pending ep) bm = ((f, err), bm1)" by (metis prod.exhaust)
  have "refs_ok fuel D (blobs_of bm1)" using delete_pending_refs [of fuel D bm "ce_pending ep"] "2.prems" d by simp
  then show ?case using "2.IH" [OF d [symmetric] refl refl] "2.prems"(2) d by (auto simp: Let_def split: prod.splits)
qed simp

lemma finish_deletes_refs:
  assumes "refs_ok fuel D (blobs_of bm)" and "\<forall>ep \<in> set eps. fst ` set (ce_pending ep) \<subseteq> D"
  shows "refs_ok fuel D (blobs_of (snd (finish_deletes eps fl bm)))"
proof -
  obtain out bm1 where d: "delete_epochs eps bm = (out, bm1)" by force
  have "refs_ok fuel D (blobs_of bm1)" using delete_epochs_refs [OF assms] d by simp
  then show ?thesis using d flush_inner_blobs by (auto simp: finish_deletes_def Let_def split: prod.splits sum.splits)
qed

definition doomed :: "checkpoint_epoch list \<Rightarrow> blob_guid set" where
  "doomed epochs = (\<Union>ep \<in> set epochs. fst ` set (ce_pending ep))"

lemma commit_refs:
  assumes "refs_ok fuel (doomed epochs) (blobs_of bm)"
  shows "refs_ok fuel (doomed epochs) (blobs_of (snd (commit_epoch_batch fuel epochs bm)))"
proof -
  have d: "\<forall>ep \<in> set epochs. fst ` set (ce_pending ep) \<subseteq> doomed epochs" by (auto simp: doomed_def)
  show ?thesis
  proof (cases "collect_error fuel epochs")
    case (Some e)
    then show ?thesis using assms by (simp add: commit_epoch_batch_def Let_def)
  next
    case None
    show ?thesis
    proof (cases "collect_entries fuel epochs = []")
      case True
      obtain r bm1 where f: "flush_inner bm = (r, bm1)" by force
      have r: "refs_ok fuel (doomed epochs) (blobs_of bm1)" using assms flush_inner_blobs [OF f] by simp
      show ?thesis using None True f r finish_deletes_refs [OF r d] by (cases r) (simp_all add: commit_epoch_batch_def Let_def)
    next
      case False
      obtain r es bm1 where w: "write_entries_in_dependency_order (collect_entries fuel epochs) (length epochs) bm = (r, es, bm1)"
        by (metis prod_cases3)
      note r = write_entries_refs [OF assms None w]
      show ?thesis using None False w r finish_deletes_refs [OF r d] by (cases r) (simp_all add: commit_epoch_batch_def Let_def)
    qed
  qed
qed

end
