(* ===== verification/Checkpoint_Settle.thy ===== *)
theory Checkpoint_Settle
  imports Checkpoint_Order
begin

text \<open>
  What a commit leaves behind: after the worker has handled an epoch, whatever happened, none of
  its blobs is in flight any more, and each of them is in the store as it was cloned or is dirty
  again for a later epoch.
\<close>

section \<open>Folds on the view\<close>

lemma track_store [simp]: "track (bm\<lparr>bm_store := st\<rparr>) = (track bm)\<lparr>tr_store := st\<rparr>"
  by (simp add: track_def mutation_shard_def)

lemma bm_wf_store [simp]: "bm_wf (bm\<lparr>bm_store := st\<rparr>) = bm_wf bm"
  by (simp add: bm_wf_def)

definition drop_ref :: "nat option \<Rightarrow> nat option" where
  "drop_ref c = (case c of None \<Rightarrow> None | Some n \<Rightarrow> if n - 1 = 0 then None else Some (n - 1))"

lemma unref_apply: "unref g m = m(g := drop_ref (m g))"
  by (simp add: unref_def drop_ref_def)

lemma drop_ref_one: "c \<in> {None, Some 1} \<Longrightarrow> drop_ref c = None"
  by (auto simp: drop_ref_def)

abbreviation retire_entries :: "write_through_entry list \<Rightarrow> tracking \<Rightarrow> tracking" where
  "retire_entries \<equiv> fold (\<lambda>w. a_retire (wt_guid w) (wt_expected_seq w))"

lemma retire_entries_sel:
  assumes "distinct (map wt_guid ws)"
  shows "tr_flushing (retire_entries ws T) g = (if g \<in> wt_guid ` set ws then drop_ref (tr_flushing T g) else tr_flushing T g)"
    and "tr_pending (retire_entries ws T) = tr_pending T" and "tr_cache (retire_entries ws T) = tr_cache T"
    and "tr_store (retire_entries ws T) = tr_store T"
    and "g \<notin> wt_guid ` set ws \<Longrightarrow> tr_dirty (retire_entries ws T) g = tr_dirty T g"
  using assms by (induction ws arbitrary: T) (auto simp: a_retire_def unref_apply)

lemma restored_sel:
  assumes "distinct (map fst es)"
  shows "tr_flushing (fold a_restore_one es T) g = (if g \<in> fst ` set es then drop_ref (tr_flushing T g) else tr_flushing T g)"
    and "tr_pending (fold a_restore_one es T) = tr_pending T"
    and "tr_store (fold a_restore_one es T) = tr_store T"
    and "g \<in> fst ` set es \<Longrightarrow> tr_pending T g = None \<Longrightarrow> tr_dirty (fold a_restore_one es T) g \<noteq> None"
    and "g \<notin> fst ` set es \<Longrightarrow> tr_dirty (fold a_restore_one es T) g = tr_dirty T g"
proof -
  show "tr_flushing (fold a_restore_one es T) g = (if g \<in> fst ` set es then drop_ref (tr_flushing T g) else tr_flushing T g)"
    "tr_pending (fold a_restore_one es T) = tr_pending T" "tr_store (fold a_restore_one es T) = tr_store T"
    "g \<notin> fst ` set es \<Longrightarrow> tr_dirty (fold a_restore_one es T) g = tr_dirty T g"
    using assms by (induction es arbitrary: T) (auto simp: a_restore_one_def unref_apply min_into_def image_iff split: if_splits)
  show "tr_dirty (fold a_restore_one es T) g \<noteq> None" if "g \<in> fst ` set es" "tr_pending T g = None"
  proof -
    have keep: "tr_dirty (fold a_restore_one es T) g \<noteq> None" if "tr_dirty T g \<noteq> None" for T es
      using that
    proof (induction es arbitrary: T)
      case (Cons x xs)
      have "tr_dirty (a_restore_one x T) g \<noteq> None"
        using Cons.prems by (cases x) (auto simp: a_restore_one_def min_into_def)
      then show ?case using Cons.IH by simp
    qed simp
    from that show ?thesis
    proof (induction es arbitrary: T)
      case (Cons x xs)
      obtain h t where x: "x = (h, t)" by force
      show ?case
      proof (cases "h = g")
        case True
        then have "tr_dirty (a_restore_one x T) g \<noteq> None"
          using Cons.prems(2) x by (simp add: a_restore_one_def min_into_def)
        then show ?thesis using keep by simp
      next
        case False
        then show ?thesis using Cons x by (simp add: a_restore_one_def)
      qed
    qed simp
  qed
qed

lemma restored_pending_sel:
  "tr_flushing (fold a_restore_pending ps T) = tr_flushing T" "tr_dirty (fold a_restore_pending ps T) = tr_dirty T"
  "tr_store (fold a_restore_pending ps T) = tr_store T" "tr_cache (fold a_restore_pending ps T) = tr_cache T"
  by (induction ps arbitrary: T) (simp_all add: a_restore_pending_def)

section \<open>A write-through on the view\<close>

lemma split_flags [simp]:
  "current_of [] [] = []" "stale_of [] [] = []"
  "current_of (w # ws) (f # fs) = (if f then w # current_of ws fs else current_of ws fs)"
  "stale_of (w # ws) (f # fs) = (if f then stale_of ws fs else w # stale_of ws fs)"
  by (simp_all add: current_of_def stale_of_def)

lemma current_stale:
  assumes "length flags = length ws"
  shows "set (current_of ws flags) \<union> set (stale_of ws flags) = set ws"
    and "distinct (map wt_guid ws) \<Longrightarrow> distinct (map wt_guid (current_of ws flags @ stale_of ws flags))"
proof -
  show set: "set (current_of ws flags) \<union> set (stale_of ws flags) = set ws"
    using assms by (induction flags ws rule: list_induct2) auto
  have "set (current_of ws flags) \<subseteq> set ws \<and> set (stale_of ws flags) \<subseteq> set ws \<and> (distinct (map wt_guid ws) \<longrightarrow>
      distinct (map wt_guid (current_of ws flags)) \<and> distinct (map wt_guid (stale_of ws flags))
      \<and> wt_guid ` set (current_of ws flags) \<inter> wt_guid ` set (stale_of ws flags) = {})"
    using assms
  proof (induction flags ws rule: list_induct2)
    case (Cons f fs w ws)
    have "wt_guid w \<notin> wt_guid ` set ws" if "distinct (map wt_guid (w # ws))" using that by simp
    then show ?case using Cons.IH by (cases f) (simp; blast)+
  qed simp
  then show "distinct (map wt_guid (current_of ws flags @ stale_of ws flags))" if "distinct (map wt_guid ws)"
    using that by simp
qed

lemma write_through_track:
  assumes wf: "bm_wf bm" and d: "distinct (map wt_guid ws)" and run: "write_through_batch ws bm = (r, bm')"
  shows "bm_wf bm'" and "tr_pending (track bm') = tr_pending (track bm)" and "tr_cache (track bm') = tr_cache (track bm)"
    and "tr_flushing (track bm') g = (if (\<exists>sts. r = Inr sts) \<and> g \<in> wt_guid ` set ws
      then drop_ref (tr_flushing (track bm) g) else tr_flushing (track bm) g)"
    and "g \<notin> wt_guid ` set ws \<Longrightarrow> tr_dirty (track bm') g = tr_dirty (track bm) g"
proof -
  have "bm_wf bm' \<and> tr_pending (track bm') = tr_pending (track bm) \<and> tr_cache (track bm') = tr_cache (track bm)
      \<and> tr_flushing (track bm') g = (if (\<exists>sts. r = Inr sts) \<and> g \<in> wt_guid ` set ws
          then drop_ref (tr_flushing (track bm) g) else tr_flushing (track bm) g)
      \<and> (g \<notin> wt_guid ` set ws \<longrightarrow> tr_dirty (track bm') g = tr_dirty (track bm) g)" for g
    using run
  proof (cases rule: write_through_cases)
    case (stored flags st)
    let ?vs = "current_of ws flags @ stale_of ws flags"
    note l = current_flags_length [OF stored(1)]
    have v: "distinct (map wt_guid ?vs)" "set ?vs = set ws" using current_stale [OF l] d by auto
    have "bm' = retire_all ?vs (bm\<lparr>bm_store := st\<rparr>)" using stored(3) by (simp add: retire_all_def)
    then have "track bm' = retire_entries ?vs ((track bm)\<lparr>tr_store := st\<rparr>)" "bm_wf bm'"
      using retire_all_refines [of "bm\<lparr>bm_store := st\<rparr>" ?vs] wf by simp_all
    then show ?thesis using retire_entries_sel [OF v(1)] v(2) stored(2) by simp
  qed (use wf in auto)
  then show "bm_wf bm'" "tr_pending (track bm') = tr_pending (track bm)" "tr_cache (track bm') = tr_cache (track bm)"
    "tr_flushing (track bm') g = (if (\<exists>sts. r = Inr sts) \<and> g \<in> wt_guid ` set ws
      then drop_ref (tr_flushing (track bm) g) else tr_flushing (track bm) g)"
    "g \<notin> wt_guid ` set ws \<Longrightarrow> tr_dirty (track bm') g = tr_dirty (track bm) g"
    by blast+
qed

lemma flush_inner_track:
  assumes "flush_inner bm = (r, bm')"
  shows "bm_wf bm' = bm_wf bm" and "tr_pending (track bm') = tr_pending (track bm)"
    and "tr_flushing (track bm') = tr_flushing (track bm)" and "tr_dirty (track bm') = tr_dirty (track bm)"
    and "tr_cache (track bm') = tr_cache (track bm)"
  using assms by (auto elim: flush_inner_cases)

section \<open>The write loop on one epoch\<close>

text \<open>\<open>img\<close> gives the clones of the epoch.\<close>

definition settled :: "(blob_guid \<Rightarrow> buf) \<Rightarrow> batch_entry list \<Rightarrow> buffer_manager \<Rightarrow> bool" where
  "settled img es bm \<longleftrightarrow> bm_wf bm \<and> distinct (map be_guid es) \<and> (\<forall>e \<in> set es. let g = be_guid e in
     tr_pending (track bm) g = None \<and> tr_flushing (track bm) g \<in> {None, Some 1}
     \<and> (be_flushed e \<longrightarrow> blobs_of bm g = Some (img g) \<and> tr_flushing (track bm) g = None))"

definition settling :: "(blob_guid \<Rightarrow> buf) \<Rightarrow> batch_entry list \<Rightarrow> buffer_manager \<Rightarrow> bool" where
  "settling img es bm \<longleftrightarrow> settled img es bm \<and> (\<forall>e \<in> set es. \<not> be_flushed e \<longrightarrow>
     (\<exists>w. be_entry e = Some w \<and> wt_guid w = be_guid e \<and> wt_bytes w = img (be_guid e)))"

lemma apply_statuses_flushed:
  "\<forall>i \<in> fst ` set ps. i < length (ws_entries ws) \<Longrightarrow> j < length (ws_entries ws) \<Longrightarrow>
     be_flushed (ws_entries (snd (apply_statuses ps ws)) ! j) \<longleftrightarrow> be_flushed (ws_entries ws ! j) \<or> (j, Written) \<in> set ps"
proof (induction ps ws rule: apply_statuses.induct)
  case (2 idx status rest ws)
  show ?case
  proof (cases status)
    case Written
    let ?ws = "note_written idx ws"
    have len: "length (ws_entries ?ws) = length (ws_entries ws)" by (simp add: note_written_def Let_def)
    have "be_flushed (ws_entries ?ws ! j) \<longleftrightarrow> be_flushed (ws_entries ws ! j) \<or> j = idx"
      using "2.prems" by (auto simp: note_written_def Let_def nth_list_update)
    then show ?thesis using "2.IH"(1) [OF Written] "2.prems" len Written by auto
  next
    case Stale
    then show ?thesis using "2.IH"(2) [OF Stale] "2.prems" by (auto split: prod.splits)
  qed
qed simp

lemma ready_waveD: "i \<in> set (ready_wave ws bm) \<Longrightarrow> i < length (ws_entries ws) \<and> \<not> be_flushed (ws_entries ws ! i)"
  by (auto simp: ready_wave_def Let_def)

lemma distinct_ready_wave: "distinct (ready_wave ws bm)"
  by (simp add: ready_wave_def)

text \<open>The writes of a wave belong to the unflushed entries the wave selected.\<close>

lemma wave_writes:
  assumes s: "settling img (ws_entries ws) bm" and t: "take_wave (ready_wave ws bm) (ws_entries ws) = (Inr wes, es)"
  shows "map wt_guid wes = map (\<lambda>i. be_guid (ws_entries ws ! i)) (ready_wave ws bm)"
    and "\<forall>w \<in> set wes. wt_bytes w = img (wt_guid w)" and "distinct (map wt_guid wes)"
proof -
  let ?wave = "ready_wave ws bm" and ?es = "ws_entries ws"
  have wl: "\<forall>i \<in> set ?wave. i < length ?es" using ready_waveD by blast
  have lw: "length wes = length ?wave" using take_wave_length [OF t] .
  have each: "wt_guid (wes ! j) = be_guid (?es ! (?wave ! j)) \<and> wt_bytes (wes ! j) = img (wt_guid (wes ! j))"
    if j: "j < length ?wave" for j
  proof -
    obtain e where e: "bare e = bare (?es ! (?wave ! j))" "e \<in> set ?es" "be_entry e = Some (wes ! j)"
      using take_wave_entries [OF t wl] j by auto
    have "\<not> be_flushed e" using bare_eqD(1) [OF e(1)] ready_waveD nth_mem [OF j] by blast
    then show ?thesis using s e(2,3) bare_eqD(2) [OF e(1)] by (auto simp: settling_def)
  qed
  show eq: "map wt_guid wes = map (\<lambda>i. be_guid (?es ! i)) ?wave"
    using each lw by (intro nth_equalityI) auto
  show "\<forall>w \<in> set wes. wt_bytes w = img (wt_guid w)" using each lw by (metis in_set_conv_nth)
  have "distinct (map be_guid ?es)" using s by (simp add: settling_def settled_def)
  then have "inj_on (\<lambda>i. be_guid (?es ! i)) (set ?wave)"
    using wl by (force simp: inj_on_def distinct_conv_nth)
  then show "distinct (map wt_guid wes)" unfolding eq by (simp add: distinct_map distinct_ready_wave)
qed

text \<open>A wave that was written: \<open>es\<close> are the entries after their writes were taken.\<close>

definition wave_run :: "(blob_guid \<Rightarrow> buf) \<Rightarrow> wave_state \<Rightarrow> buffer_manager \<Rightarrow> write_through_entry list \<Rightarrow> batch_entry list
    \<Rightarrow> write_through_status list \<Rightarrow> buffer_manager \<Rightarrow> bool" where
  "wave_run img ws bm wes es sts bm2 \<longleftrightarrow> settling img (ws_entries ws) bm
     \<and> take_wave (ready_wave ws bm) (ws_entries ws) = (Inr wes, es)
     \<and> (\<exists>bm1 q. write_through_batch wes bm = (Inr sts, bm1) \<and> flush_inner bm1 = (q, bm2))"

lemma wave_run_old:
  assumes "wave_run img ws bm wes es sts bm2" and "i < length (ws_entries ws)"
  defines "g \<equiv> be_guid (ws_entries ws ! i)"
  shows "tr_pending (track bm) g = None" and "tr_flushing (track bm) g \<in> {None, Some 1}"
    and "be_flushed (ws_entries ws ! i) \<Longrightarrow> blobs_of bm g = Some (img g) \<and> tr_flushing (track bm) g = None"
  using assms by (simp_all add: wave_run_def settling_def settled_def Let_def)

lemma wave_guid:
  assumes s: "settling img (ws_entries ws) bm" and t: "take_wave (ready_wave ws bm) (ws_entries ws) = (Inr wes, es)"
    and i: "i < length (ws_entries ws)"
  shows "be_guid (ws_entries ws ! i) \<in> wt_guid ` set wes \<longleftrightarrow> i \<in> set (ready_wave ws bm)"
proof -
  have "wt_guid ` set wes = (\<lambda>i. be_guid (ws_entries ws ! i)) ` set (ready_wave ws bm)"
    using arg_cong [OF wave_writes(1) [OF s t], of set] by simp
  moreover have "distinct (map be_guid (ws_entries ws))" using s by (simp add: settling_def settled_def)
  ultimately show ?thesis using i ready_waveD by (auto simp: distinct_conv_nth) metis
qed

lemma wave_run_guid:
  "wave_run img ws bm wes es sts bm2 \<Longrightarrow> i < length (ws_entries ws) \<Longrightarrow>
     be_guid (ws_entries ws ! i) \<in> wt_guid ` set wes \<longleftrightarrow> i \<in> set (ready_wave ws bm)"
  unfolding wave_run_def using wave_guid by blast

lemma wave_run_track:
  assumes r: "wave_run img ws bm wes es sts bm2" and i: "i < length (ws_entries ws)"
  defines "g \<equiv> be_guid (ws_entries ws ! i)"
  shows "bm_wf bm2" and "tr_pending (track bm2) g = None" and "tr_flushing (track bm2) g \<in> {None, Some 1}"
    and "i \<in> set (ready_wave ws bm) \<or> be_flushed (ws_entries ws ! i) \<Longrightarrow> tr_flushing (track bm2) g = None"
proof -
  obtain bm1 q where s: "settling img (ws_entries ws) bm" and t: "take_wave (ready_wave ws bm) (ws_entries ws) = (Inr wes, es)"
    and w: "write_through_batch wes bm = (Inr sts, bm1)" and f: "flush_inner bm1 = (q, bm2)"
    using r by (auto simp: wave_run_def)
  have wf: "bm_wf bm" using s by (simp add: settling_def settled_def)
  note wt = write_through_track [OF wf wave_writes(3) [OF s t] w] and ft = flush_inner_track [OF f]
  note old = wave_run_old [OF r i, folded g_def] and mem = wave_run_guid [OF r i, folded g_def]
  show "bm_wf bm2" "tr_pending (track bm2) g = None" using old(1) wt(1,2) ft(1,2) by simp_all
  show "tr_flushing (track bm2) g \<in> {None, Some 1}"
    "i \<in> set (ready_wave ws bm) \<or> be_flushed (ws_entries ws ! i) \<Longrightarrow> tr_flushing (track bm2) g = None"
    using wt(4) [of g] old(2,3) drop_ref_one [OF old(2)] mem ft(3) by auto
qed

lemma wave_run_put:
  assumes r: "wave_run img ws bm wes es sts bm2" and i: "i < length (ws_entries ws)"
    and landed: "be_flushed (ws_entries ws ! i) \<or> (i, Written) \<in> set (zip (ready_wave ws bm) sts)"
  defines "g \<equiv> be_guid (ws_entries ws ! i)"
  shows "blobs_of bm2 g = Some (img g)"
proof -
  obtain bm1 q where s: "settling img (ws_entries ws) bm" and t: "take_wave (ready_wave ws bm) (ws_entries ws) = (Inr wes, es)"
    and w: "write_through_batch wes bm = (Inr sts, bm1)" and f: "flush_inner bm1 = (q, bm2)"
    using r by (auto simp: wave_run_def)
  note ww = wave_writes [OF s t]
  have lw: "length wes = length (ready_wave ws bm)" "length sts = length wes"
    using take_wave_length [OF t] write_through_batch_length [OF w] by auto
  from w show ?thesis
  proof (cases rule: write_through_cases)
    case (stored flags st)
    let ?im = "map image_of (current_of wes flags)"
    have lf: "length flags = length wes" using current_flags_length [OF stored(1)] .
    have blobs: "blobs_of bm2 = put_all ?im (blobs_of bm)" using stored flush_inner_blobs [OF f] by simp
    have dim: "distinct (map fst ?im)" using current_stale(2) [OF lf ww(3)] by (simp add: comp_def)
    show ?thesis
    proof (cases "(i, Written) \<in> set (zip (ready_wave ws bm) sts)")
      case True
      then obtain j where j: "j < length (ready_wave ws bm)" "ready_wave ws bm ! j = i" "sts ! j = Written"
        using lw by (auto simp: set_zip)
      have "flags ! j" using stored(2) j lw lf by (auto split: if_splits)
      then have "wes ! j \<in> set (current_of wes flags)" using written_current [OF lf] j lw by simp
      moreover have "wt_guid (wes ! j) = g" using arg_cong [OF ww(1), of "\<lambda>l. l ! j"] j lw by (simp add: g_def)
      moreover have "wt_bytes (wes ! j) = img (wt_guid (wes ! j))" using ww(2) j lw by simp
      ultimately have "(g, img g) \<in> set ?im" by force
      then show ?thesis unfolding blobs by (rule put_all_in [OF dim])
    next
      case False
      then have fi: "be_flushed (ws_entries ws ! i)" using landed by blast
      then have "i \<notin> set (ready_wave ws bm)" using ready_waveD by blast
      then have "g \<notin> fst ` set ?im" using wave_run_guid [OF r i] set_current_of [of wes flags] by (auto simp: g_def)
      then show ?thesis unfolding blobs using wave_run_old(3) [OF r i fi] by (simp add: put_all_other g_def)
    qed
  qed auto
qed

text \<open>The entries of a wave, after the take and after the statuses.\<close>

lemma settledI:
  assumes "bm_wf bm" and "map be_guid es' = map be_guid es" and "distinct (map be_guid es)"
    and "\<And>i. i < length es \<Longrightarrow> tr_pending (track bm) (be_guid (es ! i)) = None
      \<and> tr_flushing (track bm) (be_guid (es ! i)) \<in> {None, Some 1}
      \<and> (be_flushed (es' ! i) \<longrightarrow> blobs_of bm (be_guid (es ! i)) = Some (img (be_guid (es ! i)))
          \<and> tr_flushing (track bm) (be_guid (es ! i)) = None)"
  shows "settled img es' bm"
  unfolding settled_def Let_def
proof (intro conjI ballI)
  fix e assume "e \<in> set es'"
  then obtain i where i: "i < length es'" "e = es' ! i" by (auto simp: in_set_conv_nth)
  have "length es' = length es" using assms(2) by (rule map_eq_imp_length_eq)
  then have "be_guid e = be_guid (es ! i)" "i < length es" using i assms(2) by (metis nth_map)+
  then show "tr_pending (track bm) (be_guid e) = None" "tr_flushing (track bm) (be_guid e) \<in> {None, Some 1}"
    "be_flushed e \<longrightarrow> blobs_of bm (be_guid e) = Some (img (be_guid e)) \<and> tr_flushing (track bm) (be_guid e) = None"
    using assms(4) i(2) by auto
qed (use assms in simp_all)

lemma bare_guids: "map bare es' = map bare es \<Longrightarrow> map be_guid es' = map be_guid es"
  by (metis (no_types, lifting) bare_sel(2) map_map comp_def map_eq_conv)

lemma plain_guids: "map plain es' = map plain es \<Longrightarrow> map be_guid es' = map be_guid es"
  by (metis (no_types, lifting) plain_sel(1) map_map comp_def map_eq_conv)

lemma take_wave_other: "i \<notin> set is \<Longrightarrow> snd (take_wave is es) ! i = es ! i"
proof (induction "is" es rule: take_wave.induct)
  case (2 idx rest es)
  then show ?case by (auto split: option.split prod.splits sum.splits)
qed simp

lemma apply_statuses_written: "apply_statuses ps ws = (False, ws') \<Longrightarrow> p \<in> set ps \<Longrightarrow> snd p = Written"
  by (induction ps ws rule: apply_statuses.induct) (auto split: write_through_status.splits prod.splits)

lemma settle_round:
  assumes r: "wave_run img ws bm wes es sts bm2" and wf2: "bm_wf bm2"
    and a: "apply_statuses (zip (ready_wave ws bm) sts) (ws\<lparr>ws_entries := es\<rparr>) = (b, ws')"
  shows "settled img (ws_entries ws') bm2" and "settled img es bm2" and "\<not> b \<Longrightarrow> settling img (ws_entries ws') bm2"
proof -
  let ?wave = "ready_wave ws bm" and ?es = "ws_entries ws" and ?ps = "zip (ready_wave ws bm) sts"
  have s: "settling img ?es bm" and t: "take_wave ?wave ?es = (Inr wes, es)" using r by (auto simp: wave_run_def)
  have d: "distinct (map be_guid ?es)" using s by (simp add: settling_def settled_def)
  have bk: "map bare es = map bare ?es" using take_wave_keeps [of ?wave ?es] t by simp
  have pk: "map plain (ws_entries ws') = map plain es"
    using apply_statuses_plain [of ?ps "ws\<lparr>ws_entries := es\<rparr>"] a by simp
  have len: "length es = length ?es" using bk by (rule map_eq_imp_length_eq)
  have guids: "map be_guid es = map be_guid ?es" "map be_guid (ws_entries ws') = map be_guid ?es"
    using bare_guids [OF bk] plain_guids [OF pk] by simp_all
  have wl: "\<forall>i \<in> fst ` set ?ps. i < length (ws_entries (ws\<lparr>ws_entries := es\<rparr>))"
    using len ready_waveD by (auto dest: set_zip_leftD)
  have fl: "be_flushed (es ! i) = be_flushed (?es ! i)" if "i < length ?es" for i
    using bare_eqD(1) [OF bare_nth [OF bk that]] .
  have fl': "be_flushed (ws_entries ws' ! i) \<longleftrightarrow> be_flushed (?es ! i) \<or> (i, Written) \<in> set ?ps" if "i < length ?es" for i
    using apply_statuses_flushed [OF wl, of i] a that len fl by simp
  have inw: "i \<in> set ?wave" if "(i, Written) \<in> set ?ps" for i using that by (rule set_zip_leftD)
  show st: "settled img (ws_entries ws') bm2"
    by (rule settledI [OF wf2 guids(2) d]) (use wave_run_track [OF r] wave_run_put [OF r] fl' inw in blast)
  show "settled img es bm2"
    by (rule settledI [OF wf2 guids(1) d]) (use wave_run_track [OF r] wave_run_put [OF r] fl in blast)
  show "settling img (ws_entries ws') bm2" if nb: "\<not> b"
    unfolding settling_def
  proof (intro conjI ballI impI st)
    fix e assume e: "e \<in> set (ws_entries ws')" and nf: "\<not> be_flushed e"
    then obtain i where i: "i < length ?es" "e = ws_entries ws' ! i"
      using map_eq_imp_length_eq [OF guids(2)] by (auto simp: in_set_conv_nth)
    have lw: "length sts = length ?wave"
      using r take_wave_length [OF t] write_through_batch_length by (auto simp: wave_run_def)
    have "i \<notin> set ?wave"
    proof
      assume "i \<in> set ?wave"
      then obtain st where "(i, st) \<in> set ?ps" using lw by (metis in_set_impl_in_set_zip1)
      then show False using apply_statuses_written [of ?ps _ ws'] a nb nf fl' [OF i(1)] i(2) by fastforce
    qed
    then have "es ! i = ?es ! i" using take_wave_other [of i ?wave ?es] t by simp
    moreover have "plain e = plain (es ! i)" using pk i len by (metis length_map nth_map)
    ultimately have eq: "be_entry e = be_entry (?es ! i)" "be_guid e = be_guid (?es ! i)"
      using plain_sel(1,3) by metis+
    moreover have "\<not> be_flushed (?es ! i)" using nf i fl' by blast
    ultimately show "\<exists>v. be_entry e = Some v \<and> wt_guid v = be_guid e \<and> wt_bytes v = img (be_guid e)"
      using s i(1) by (simp add: settling_def)
  qed
qed

section \<open>The loop\<close>

lemma settled_bare:
  assumes "settled img es bm" and "map bare es' = map bare es"
  shows "settled img es' bm"
proof (rule settledI)
  show "bm_wf bm" "distinct (map be_guid es)" using assms(1) by (simp_all add: settled_def)
  show "map be_guid es' = map be_guid es" by (rule bare_guids [OF assms(2)])
  fix i assume "i < length es"
  then show "tr_pending (track bm) (be_guid (es ! i)) = None \<and> tr_flushing (track bm) (be_guid (es ! i)) \<in> {None, Some 1}
      \<and> (be_flushed (es' ! i) \<longrightarrow> blobs_of bm (be_guid (es ! i)) = Some (img (be_guid (es ! i)))
          \<and> tr_flushing (track bm) (be_guid (es ! i)) = None)"
    using assms(1) bare_eqD(1) [OF bare_nth [OF assms(2)]] by (simp add: settled_def Let_def)
qed

lemma settle_unwritten:
  assumes s: "settling img (ws_entries ws) bm" and t: "take_wave (ready_wave ws bm) (ws_entries ws) = (Inr wes, es)"
    and w: "write_through_batch wes bm = (Inl e, bm1)"
  shows "settled img es bm1"
proof (rule settled_bare)
  let ?es = "ws_entries ws"
  have wf: "bm_wf bm" and d: "distinct (map be_guid ?es)" using s by (simp_all add: settling_def settled_def)
  note wt = write_through_track [OF wf wave_writes(3) [OF s t] w]
  obtain im where im: "blobs_of bm1 = put_all im (blobs_of bm)" "set im \<subseteq> image_of ` set wes"
    using write_through_puts [OF w] by blast
  show "settled img ?es bm1"
  proof (rule settledI [OF wt(1) refl d])
    fix i assume i: "i < length ?es"
    let ?g = "be_guid (?es ! i)"
    have old: "tr_pending (track bm) ?g = None" "tr_flushing (track bm) ?g \<in> {None, Some 1}"
      "be_flushed (?es ! i) \<Longrightarrow> blobs_of bm ?g = Some (img ?g) \<and> tr_flushing (track bm) ?g = None"
      using s i by (simp_all add: settling_def settled_def Let_def)
    have "blobs_of bm1 ?g = blobs_of bm ?g" if "be_flushed (?es ! i)"
    proof -
      have "?g \<notin> wt_guid ` set wes" using wave_guid [OF s t i] ready_waveD that by blast
      then have "?g \<notin> fst ` set im" using im(2) by force
      then show ?thesis unfolding im(1) by (rule put_all_other)
    qed
    then show "tr_pending (track bm1) ?g = None \<and> tr_flushing (track bm1) ?g \<in> {None, Some 1}
        \<and> (be_flushed (?es ! i) \<longrightarrow> blobs_of bm1 ?g = Some (img ?g) \<and> tr_flushing (track bm1) ?g = None)"
      using old wt(2,4) by auto
  qed
  show "map bare es = map bare ?es" using take_wave_keeps [of "ready_wave ws bm" ?es] t by simp
qed

lemma wave_runI:
  assumes "settling img (ws_entries ws) bm" and "take_wave (ready_wave ws bm) (ws_entries ws) = (Inr wes, es)"
    and "write_through_batch wes bm = (Inr sts, bm1)" and "flush_inner bm1 = (q, bm2)"
  shows "wave_run img ws bm wes es sts bm2" and "bm_wf bm2"
  using assms write_through_track(1) [OF _ wave_writes(3) [OF assms(1,2)] assms(3)] flush_inner_track(1) [OF assms(4)]
  by (auto simp: wave_run_def settling_def settled_def)

definition loop_result :: "(blob_guid \<Rightarrow> buf) \<Rightarrow> blob_guid list \<Rightarrow> batch_write_report res \<Rightarrow> wave_state \<Rightarrow> buffer_manager \<Rightarrow> bool" where
  "loop_result img gs r ws bm \<longleftrightarrow> settled img (ws_entries ws) bm \<and> map be_guid (ws_entries ws) = gs
     \<and> (\<forall>rep. r = Inr rep \<longrightarrow> \<not> bw_deferred rep \<longrightarrow> (\<forall>e \<in> set (ws_entries ws). be_flushed e))"

lemma take_wave_guids: "take_wave (ready_wave ws bm) (ws_entries ws) = (r, es) \<Longrightarrow> map be_guid es = map be_guid (ws_entries ws)"
  using bare_guids take_wave_keeps by (metis snd_conv)

lemma apply_statuses_guids: "apply_statuses ps (ws\<lparr>ws_entries := es\<rparr>) = (b, ws') \<Longrightarrow> map be_guid (ws_entries ws') = map be_guid es"
  using plain_guids [OF apply_statuses_plain [of ps "ws\<lparr>ws_entries := es\<rparr>"]] by simp

lemma write_waves_settle:
  assumes "settling img (ws_entries ws) bm" and run: "write_waves ws bm = (r, ws', bm')"
  shows "loop_result img (map be_guid (ws_entries ws)) r ws' bm'"
proof -
  define gs where "gs = map be_guid (ws_entries ws)"
  let ?I = "\<lambda>ws bm. settling img (ws_entries ws) bm \<and> map be_guid (ws_entries ws) = gs"
  have I: "?I ws bm" using assms(1) gs_def by simp
  show ?thesis
    unfolding gs_def [symmetric]
  proof (rule write_waves_rule [where I = ?I and Q = "loop_result img gs", OF I run], goal_cases idle taken unwritten unsynced stale round)
    case (idle ws bm)
    then show ?case by (auto simp: loop_result_def settling_def list_ex_iff)
  next
    case (taken ws bm e es)
    then have "map bare es = map bare (ws_entries ws)" using take_wave_keeps by (metis snd_conv)
    then show ?case using taken settled_bare take_wave_guids [OF taken(2)] by (auto simp: loop_result_def settling_def)
  next
    case (unwritten ws bm wes es e bm1)
    then show ?case using settle_unwritten take_wave_guids [OF unwritten(2)] by (auto simp: loop_result_def)
  next
    case (unsynced ws bm wes es e sts bm1 bm2)
    obtain b ws' where a: "apply_statuses (zip (ready_wave ws bm) sts) (ws\<lparr>ws_entries := es\<rparr>) = (b, ws')" by force
    note r = wave_runI [OF unsynced(1) [THEN conjunct1] unsynced(2-4)]
    show ?case using settle_round(2) [OF r a] take_wave_guids [OF unsynced(2)] unsynced(1) by (simp add: loop_result_def)
  next
    case (stale ws bm wes es sts bm1 bm2 ws1)
    note r = wave_runI [OF stale(1) [THEN conjunct1] stale(2-4)]
    show ?case
      using settle_round(1) [OF r stale(5)] take_wave_guids [OF stale(2)] apply_statuses_guids [OF stale(5)] stale(1)
      by (simp add: loop_result_def)
  next
    case (round ws bm wes es sts bm1 bm2 ws1)
    note r = wave_runI [OF round(1) [THEN conjunct1] round(3-5)]
    show ?case
      using settle_round(3) [OF r round(6)] take_wave_guids [OF round(3)] apply_statuses_guids [OF round(6)] round(1) by simp
  qed
qed

section \<open>The commit of one epoch\<close>

lemma entries_map_keys: "fst ` set (entries_map es) = be_guid ` set es" "distinct (map fst (entries_map es))"
proof -
  have "fst ` set (fold (\<lambda>e m. AList.update (be_guid e) (be_expected_seq e) m) es m) = be_guid ` set es \<union> fst ` set m
      \<and> (distinct (map fst m) \<longrightarrow> distinct (map fst (fold (\<lambda>e m. AList.update (be_guid e) (be_expected_seq e) m) es m)))" for m :: seq_map
    by (induction es arbitrary: m) (auto simp: dom_update distinct_update)
  from this [of "[]"] show "fst ` set (entries_map es) = be_guid ` set es" "distinct (map fst (entries_map es))"
    by (simp_all add: entries_map_def)
qed

text \<open>\<open>landed\<close>: nothing of the epoch is in flight, and each blob is stored or dirty.\<close>

definition landed :: "(blob_guid \<Rightarrow> buf) \<Rightarrow> blob_guid set \<Rightarrow> buffer_manager \<Rightarrow> bool" where
  "landed img G bm \<longleftrightarrow> bm_wf bm \<and> (\<forall>g \<in> G. tr_flushing (track bm) g = None
     \<and> (blobs_of bm g = Some (img g) \<or> tr_dirty (track bm) g \<noteq> None))"

lemma restore_landed:
  assumes s: "settled img es bm" and sub: "es' = filter P es" and all: "\<forall>e \<in> set es. \<not> P e \<longrightarrow> be_flushed e"
  shows "landed img (be_guid ` set es) (restore_dirty (entries_map es') bm)"
proof -
  have wf: "bm_wf bm" using s by (simp add: settled_def)
  let ?m = "entries_map es'"
  have t: "track (restore_dirty ?m bm) = fold a_restore_one ?m (track bm)" "bm_wf (restore_dirty ?m bm)"
    using restore_dirty_refines [OF wf] by auto
  note sel = restored_sel [OF entries_map_keys(2) [of es']] and keys = entries_map_keys(1) [of es']
  have "tr_flushing (track (restore_dirty ?m bm)) (be_guid e) = None
      \<and> (blobs_of bm (be_guid e) = Some (img (be_guid e)) \<or> tr_dirty (track (restore_dirty ?m bm)) (be_guid e) \<noteq> None)"
    if e: "e \<in> set es" for e
  proof -
    have p: "tr_pending (track bm) (be_guid e) = None" and f: "tr_flushing (track bm) (be_guid e) \<in> {None, Some 1}"
      and d: "be_flushed e \<Longrightarrow> blobs_of bm (be_guid e) = Some (img (be_guid e)) \<and> tr_flushing (track bm) (be_guid e) = None"
      using s e by (simp_all add: settled_def Let_def)
    show ?thesis
    proof (cases "be_guid e \<in> fst ` set ?m")
      case True
      then show ?thesis using sel(1) [of "track bm" "be_guid e"] sel(4) [OF True p] drop_ref_one [OF f] t(1) by simp
    next
      case False
      then have "e \<notin> set es'" using keys by blast
      then have "be_flushed e" using sub all e by auto
      then show ?thesis using d sel(1) [of "track bm" "be_guid e"] False t(1) by simp
    qed
  qed
  then show ?thesis using t(2) by (auto simp: landed_def)
qed

lemma landed_pending:
  assumes "landed img G bm"
  shows "landed img G (restore_pending_deletes ps bm)"
  using assms restore_pending_refines [of bm ps] by (simp add: landed_def restored_pending_sel)

lemma execute_pending_delete_track:
  assumes "execute_pending_delete g bm = (r, bm')"
  shows "bm_wf bm' = bm_wf bm" and "tr_flushing (track bm') = tr_flushing (track bm)" and "tr_dirty (track bm') = tr_dirty (track bm)"
  using assms by (auto simp: execute_pending_delete_def on_store_def split: prod.splits)

lemma landed_delete:
  assumes "landed img G bm" and "execute_pending_delete g bm = (r, bm')" and "g \<notin> G"
  shows "landed img G bm'"
  using assms execute_pending_delete_track [OF assms(2)] execute_pending_delete_blobs [OF assms(2)]
  by (auto simp: landed_def)

lemma delete_pending_landed:
  "landed img G bm \<Longrightarrow> fst ` set ps \<inter> G = {} \<Longrightarrow> landed img G (snd (delete_pending ps bm))"
proof (induction ps bm rule: delete_pending.induct)
  case (2 g seq rest bm)
  obtain r bm1 where e: "execute_pending_delete g bm = (r, bm1)" by force
  have "landed img G bm1" using landed_delete [OF "2.prems"(1) e] "2.prems"(2) by auto
  then show ?case using 2 e by (cases r) (auto split: prod.splits)
qed simp

lemma delete_epochs_landed:
  "landed img G bm \<Longrightarrow> doomed eps \<inter> G = {} \<Longrightarrow> landed img G (snd (delete_epochs eps bm))"
proof (induction eps bm rule: delete_epochs.induct)
  case (2 ep rest bm)
  obtain f err bm1 where d: "delete_pending (ce_pending ep) bm = ((f, err), bm1)" by (metis prod.exhaust)
  have "fst ` set (ce_pending ep) \<inter> G = {}" "doomed rest \<inter> G = {}" using "2.prems"(2) by (auto simp: doomed_def)
  then have "landed img G bm1" using delete_pending_landed [OF "2.prems"(1)] d by (metis snd_conv)
  then have "landed img G (if f = [] then bm1 else restore_pending_deletes f bm1)" by (simp add: landed_pending)
  then show ?case using "2.IH" [OF d [symmetric] refl refl] \<open>doomed rest \<inter> G = {}\<close> d by (auto simp: Let_def split: prod.splits)
qed simp

lemma landed_flush:
  assumes "landed img G bm" and "flush_inner bm = (r, bm')"
  shows "landed img G bm'"
  using assms(1) flush_inner_track [OF assms(2)] flush_inner_blobs [OF assms(2)] by (simp add: landed_def)

lemma finish_deletes_landed:
  assumes "landed img G bm" and "doomed eps \<inter> G = {}"
  shows "landed img G (snd (finish_deletes eps fl bm))"
proof -
  obtain out bm1 where d: "delete_epochs eps bm = (out, bm1)" by force
  have l: "landed img G bm1" using delete_epochs_landed [OF assms] d by simp
  obtain r bm2 where f: "flush_inner bm1 = (r, bm2)" by force
  have "landed img G bm2" by (rule landed_flush [OF l f])
  then show ?thesis using d f l
    by (cases r) (auto simp: finish_deletes_def Let_def restore_applied_pending_def intro: landed_pending)
qed

lemma commit_landed:
  assumes wf: "bm_wf bm" and d: "distinct (map wt_guid (ce_entries ep))" and D: "fst ` set (ce_pending ep) \<inter> wt_guid ` set (ce_entries ep) = {}"
    and claimed: "\<And>w. w \<in> set (ce_entries ep) \<Longrightarrow> tr_flushing (track bm) (wt_guid w) = Some 1
      \<and> tr_pending (track bm) (wt_guid w) = None \<and> wt_bytes w = img (wt_guid w)"
  shows "landed img (wt_guid ` set (ce_entries ep)) (snd (commit_epoch_batch fuel [ep] bm))"
proof -
  let ?es = "collect_entries fuel [ep]" and ?G = "wt_guid ` set (ce_entries ep)"
  have es: "?es = map (batch_entry_of fuel 0) (ce_entries ep)" by (simp add: collect_entries_def)
  have guids: "map be_guid ?es = map wt_guid (ce_entries ep)" by (simp add: es batch_entry_of_def comp_def)
  have G: "be_guid ` set ?es = ?G" using arg_cong [OF guids, of set] by simp
  have s: "settling img ?es bm"
    unfolding settling_def settled_def Let_def guids using wf d claimed by (auto simp: es batch_entry_of_def)
  have dm: "doomed [ep] \<inter> ?G = {}" using D by (auto simp: doomed_def)
  note fin = finish_deletes_landed [OF _ dm]
  show ?thesis
  proof (cases "collect_error fuel [ep]")
    case (Some e)
    have "landed img (be_guid ` set ?es) (restore_dirty (entries_map ?es) bm)"
      by (rule restore_landed [where P = "\<lambda>_. True"]) (use s in \<open>simp_all add: settling_def\<close>)
    then have "landed img ?G (restore_batch_entries ?es bm)" using G wf by (auto simp: restore_batch_entries_def landed_def)
    from landed_pending [OF this] show ?thesis using Some by (simp add: commit_epoch_batch_def Let_def restore_all_pending_def)
  next
    case None
    show ?thesis
    proof (cases "?es = []")
      case True
      obtain r bm1 where f: "flush_inner bm = (r, bm1)" by force
      have l: "landed img ?G bm1" using True G wf flush_inner_track(1) [OF f] by (auto simp: landed_def)
      then show ?thesis using None True f fin [OF l] landed_pending [OF l]
        by (cases r) (simp_all add: commit_epoch_batch_def Let_def restore_all_pending_def)
    next
      case ne: False
      obtain r es' bm1 where w: "write_entries_in_dependency_order ?es (length [ep]) bm = (r, es', bm1)" by (metis prod_cases3)
      obtain ws' where ww: "write_waves \<lparr>ws_entries = ?es, ws_remaining_by_guid = count_remaining ?es,
          ws_durable_this_batch = {}, ws_dirty_flushed_by_epoch = replicate (length [ep]) 0\<rparr> bm = (r, ws', bm1)" "es' = ws_entries ws'"
        using w by (auto simp: write_entries_in_dependency_order_def split: prod.splits)
      have lr: "loop_result img (map be_guid ?es) r ws' bm1" using write_waves_settle [OF _ ww(1)] s by simp
      then have s': "settled img es' bm1" and m': "map be_guid es' = map be_guid ?es" using ww(2) by (simp_all add: loop_result_def)
      have g': "be_guid ` set es' = ?G" using arg_cong [OF m', of set] G by simp
      have ne': "es' \<noteq> []" using m' ne by auto
      have all: "landed img ?G (restore_batch_entries es' bm1)"
        using restore_landed [OF s', of es' "\<lambda>_. True"] g' ne' by (simp add: restore_batch_entries_def)
      have some: "landed img ?G (restore_unflushed_batch_entries es' bm1)"
        using restore_landed [OF s' refl, of "\<lambda>e. \<not> be_flushed e"] g' by (simp add: restore_unflushed_batch_entries_def)
      have none: "landed img ?G bm1" if "r = Inr rep" "\<not> bw_deferred rep" for rep
      proof -
        have f: "\<forall>e \<in> set es'. be_flushed e" using lr that ww(2) by (simp add: loop_result_def)
        then have "landed img (be_guid ` set es') bm1" using s' by (simp add: settled_def landed_def Let_def)
        then show ?thesis using g' by simp
      qed
      show ?thesis
      proof (cases r)
        case (Inl e)
        then show ?thesis using None ne w landed_pending [OF all] by (simp add: commit_epoch_batch_def Let_def restore_all_pending_def)
      next
        case (Inr rep)
        then show ?thesis using None ne w landed_pending [OF some] fin [OF none [OF Inr]]
          by (simp add: commit_epoch_batch_def Let_def restore_all_pending_def)
      qed
    qed
  qed
qed

end
