(* ===== verification/Journal_Durable.thy ===== *)
theory Journal_Durable
  imports Journal Transition
begin

text \<open>
  The durability barrier of the journal: with a submit that reserves and sends in one step, and
  without I/O failures, a record whose number is covered by \<^verbatim>\<open>flushed_work\<close> is in the synced part of
  the log, which is the concatenation of the records in the order of their numbers.
\<close>

section \<open>The writer without failures\<close>

text \<open>The file starts with its header, and the counters of the writer agree with it.\<close>

definition dv_ok :: "log_device \<Rightarrow> bool" where
  "dv_ok d \<longleftrightarrow> (let w = dv_writer d in dv_faults d = [] \<and> wf_header (ww_header w)
     \<and> take FILE_HEADER_SIZE (ww_file w) = encode_file_header (ww_header w) []
     \<and> FILE_HEADER_SIZE \<le> ww_synced w \<and> ww_synced w \<le> length (ww_file w) \<and> bytes_written w = length (ww_file w))"

lemma dv_ok_faults: "dv_ok d \<Longrightarrow> dv_faults d = []"
  by (simp add: dv_ok_def Let_def)

lemma dv_call_ok: "dv_faults d = [] \<Longrightarrow> dv_call c d = (IoOk, d)" "dv_faults d = [] \<Longrightarrow> dv_next d = (IoOk, d)"
  by (simp_all add: dv_call_def dv_next_def)

lemmas dv_views = dv_file_def dv_pending_def dv_synced_def crash_image_def

lemma dev_append_ok:
  assumes "dv_ok d"
  shows "\<exists>d'. dev_append r d = (Inr (), d') \<and> dv_file d' @ dv_pending d' = dv_file d @ dv_pending d @ r
    \<and> dv_synced d' = dv_synced d \<and> dv_ok d'"
  using assms
  by (auto simp: dev_append_def dv_call_ok [OF dv_ok_faults [OF assms]] write_io_def on_writer_def append_encoded_def maybe_drain_def
      drain_to_os_def sbind_def smod_def dv_views dv_ok_def Let_def)

lemma append_all_ok:
  assumes "dv_ok d"
  shows "\<exists>d' n. append_all reqs m d = (Inr n, d') \<and> dv_file d' @ dv_pending d' = dv_file d @ dv_pending d @ concat (map ar_bytes reqs)
    \<and> dv_synced d' = dv_synced d \<and> dv_ok d'"
  using assms
proof (induction reqs m d rule: append_all.induct)
  case (2 req rest m d)
  obtain d1 where d1: "dev_append (ar_bytes req) d = (Inr (), d1)"
      "dv_file d1 @ dv_pending d1 = dv_file d @ dv_pending d @ ar_bytes req" "dv_synced d1 = dv_synced d" "dv_ok d1"
    using dev_append_ok [OF "2.prems"] by metis
  from "2.IH" [OF d1(1) [symmetric] refl d1(4)] show ?case using d1 by auto
qed simp

lemma dev_flush_ok:
  assumes "dv_ok d"
  shows "\<exists>d'. dev_flush d = (Inr (), d') \<and> dv_file d' @ dv_pending d' = dv_file d @ dv_pending d
    \<and> dv_synced d' = dv_file d @ dv_pending d \<and> dv_pending d' = [] \<and> dv_ok d'"
  using assms
  by (auto simp: dev_flush_def dv_call_ok [OF dv_ok_faults [OF assms]] write_io_def on_writer_def wal_flush_def
      drain_to_os_def sbind_def smod_def dv_views dv_ok_def Let_def)

lemma dev_truncate_ok:
  assumes "dv_ok d"
  shows "\<exists>d'. dev_truncate d = (Inr (), d') \<and> dv_file d' = [] \<and> dv_pending d' = [] \<and> dv_synced d' = [] \<and> dv_ok d'"
  using assms
  by (auto simp: dev_truncate_def dv_call_ok [OF dv_ok_faults [OF assms]] on_writer_def wal_truncate_def
      sbind_def smod_def dv_views dv_ok_def Let_def)

section \<open>Runs\<close>

text \<open>
  A run with its history: the records submitted, the records handed to the writer since the last
  truncation, and the highest number a truncation has dropped.
\<close>

type_synonym numbered = "nat \<times> bytes"

record journal_run =
  jr :: journal
  jr_sent :: "numbered list"
  jr_log :: "numbered list"
  jr_cut :: nat

definition cmds :: "journal \<Rightarrow> journal_command list" where
  "cmds j = jn_backlog j @ jn_queue j"

fun append_recs :: "journal_command list \<Rightarrow> numbered list" where
  "append_recs [] = []"
| "append_recs (Append r s sync # cs) = (s, r) # append_recs cs"
| "append_recs (_ # cs) = append_recs cs"

lemma cmds_upd [simp]:
  "cmds (j\<lparr>jn_writer := w\<rparr>) = cmds j" "cmds (j\<lparr>jn_acks := as\<rparr>) = cmds j" "cmds (j\<lparr>flushed_work := n\<rparr>) = cmds j"
  "cmds (j\<lparr>next_work := n\<rparr>) = cmds j" "cmds (j\<lparr>queued_work := n\<rparr>) = cmds j" "cmds (j\<lparr>checkpointed_work := n\<rparr>) = cmds j"
  "cmds (j\<lparr>jn_queue := jn_queue j @ cs\<rparr>) = cmds j @ cs"
  by (simp_all add: cmds_def)

definition req_rec :: "append_request \<Rightarrow> numbered" where
  "req_rec req = (ar_seq req, ar_bytes req)"

text \<open>The records the worker hands to the writer in its next turn.\<close>

definition next_batch :: "nat \<Rightarrow> journal \<Rightarrow> numbered list" where
  "next_batch limit j =
     (case cmds j of
        Append r s sync # rest \<Rightarrow> (s, r) # map req_rec (fst (gather limit (length r) rest))
      | _ \<Rightarrow> [])"

definition worker_turn :: "nat \<Rightarrow> journal_run \<Rightarrow> journal_run" where
  "worker_turn limit R =
     (case cmds (jr R) of
        Truncate # _ \<Rightarrow> R\<lparr>jr := run_worker limit (jr R), jr_log := [], jr_cut := fold (max \<circ> fst) (jr_log R) (jr_cut R)\<rparr>
      | _ \<Rightarrow> R\<lparr>jr := run_worker limit (jr R), jr_log := jr_log R @ next_batch limit (jr R)\<rparr>)"

inductive journal_step :: "journal_run \<Rightarrow> journal_run \<Rightarrow> bool" where
  step_submit: "submit r sync (jr R) = (s, j) \<Longrightarrow> journal_step R (R\<lparr>jr := j, jr_sent := jr_sent R @ [(s, r)]\<rparr>)"
| step_flush: "observed \<le> queued_work (jr R) \<Longrightarrow> journal_step R (R\<lparr>jr := snd (flush_up_to observed (jr R))\<rparr>)"
| step_truncate: "journal_step R (R\<lparr>jr := snd (truncate_send (jr R))\<rparr>)"
| step_truncated: "journal_step R (R\<lparr>jr := truncate_acked n (jr R)\<rparr>)"
| step_worker: "journal_step R (worker_turn limit R)"

definition journal_init :: "journal_run \<Rightarrow> bool" where
  "journal_init R \<longleftrightarrow> (\<exists>w. dv_ok w \<and> dv_pending w = [] \<and> (dv_synced w = [] \<or> dv_synced w = dv_file w) \<and> jr R = journal_open w
     \<and> jr_sent R = [] \<and> jr_cut R = 0 \<and> jr_log R = (if has_records (dv_writer w) then [(1, dv_file w)] else []))"

section \<open>The invariant\<close>

fun flush_ok :: "nat \<Rightarrow> journal_command list \<Rightarrow> bool" where
  "flush_ok n [] \<longleftrightarrow> True"
| "flush_ok n (Flush u # cs) \<longleftrightarrow> u \<le> n \<and> (\<forall>s \<in> fst ` set (append_recs cs). u < s) \<and> flush_ok n cs"
| "flush_ok n (_ # cs) \<longleftrightarrow> flush_ok n cs"

fun is_append :: "journal_command \<Rightarrow> bool" where
  "is_append (Append r s sync) = True"
| "is_append _ = False"

definition synced_upto :: "log_device \<Rightarrow> numbered list \<Rightarrow> nat \<Rightarrow> bool" where
  "synced_upto w lg n \<longleftrightarrow> dv_ok w \<and> dv_file w @ dv_pending w = concat (map snd lg)
     \<and> (\<exists>k. dv_synced w = concat (map snd (take k lg)) \<and> (\<forall>s \<in> fst ` set (drop k lg). n < s))"

definition journal_inv :: "journal_run \<Rightarrow> bool" where
  "journal_inv R \<longleftrightarrow> (let j = jr R; waiting = append_recs (cmds j) in
     synced_upto (jn_writer j) (jr_log R) (flushed_work j)
     \<and> sorted_wrt (<) (map fst (jr_log R @ waiting))
     \<and> (\<forall>s \<in> fst ` set (jr_log R @ waiting). jr_cut R < s \<and> s \<le> next_work j)
     \<and> (\<forall>s \<in> fst ` set waiting. flushed_work j < s)
     \<and> queued_work j \<le> next_work j \<and> jr_cut R \<le> next_work j \<and> flushed_work j \<le> next_work j
     \<and> flush_ok (next_work j) (cmds j) \<and> list_all (Not \<circ> is_append) (jn_backlog j)
     \<and> (\<forall>p \<in> set (jr_sent R). fst p \<le> jr_cut R \<or> p \<in> set (jr_log R @ waiting)))"

lemma append_recs_append [simp]: "append_recs (xs @ ys) = append_recs xs @ append_recs ys"
  by (induction xs rule: append_recs.induct) auto

lemma flush_ok_append_rec:
  "flush_ok n (cs @ [Append r s sync]) \<longleftrightarrow> flush_ok n cs \<and> (\<forall>u. Flush u \<in> set cs \<longrightarrow> u < s)"
  by (induction n cs rule: flush_ok.induct) auto

lemma flush_ok_snoc: "\<not> is_append c \<Longrightarrow> flush_ok n (cs @ [c]) \<longleftrightarrow> flush_ok n cs \<and> (\<forall>u. c = Flush u \<longrightarrow> u \<le> n)"
  by (induction n cs rule: flush_ok.induct) (cases c, auto)+

lemma flush_ok_le: "flush_ok n cs \<Longrightarrow> Flush u \<in> set cs \<Longrightarrow> u \<le> n"
  by (induction n cs rule: flush_ok.induct) auto

lemma flush_ok_mono: "flush_ok n cs \<Longrightarrow> n \<le> m \<Longrightarrow> flush_ok m cs"
  by (induction n cs rule: flush_ok.induct) auto

lemma gather_spec:
  "gather limit b q = (batch, held, rest) \<Longrightarrow>
     append_recs q = map req_rec batch @ append_recs (held @ rest) \<and> list_all (Not \<circ> is_append) held
     \<and> (flush_ok n q \<longrightarrow> flush_ok n (held @ rest))"
proof (induction limit b q arbitrary: batch held rest rule: gather.induct)
  case (3 limit b c q)
  show ?case
  proof (cases "b \<ge> GROUP_COMMIT_MAX_BYTES")
    case False
    show ?thesis
    proof (cases c)
      case (Append r s sync)
      obtain batch' where g: "gather limit (b + length r) q = (batch', held, rest)"
          "batch = \<lparr>ar_bytes = r, ar_seq = s, ar_sync = sync\<rparr> # batch'"
        using "3.prems" False Append by (auto split: prod.splits)
      from "3.IH" [OF False Append g(1)] show ?thesis using g(2) Append by (simp add: req_rec_def)
    qed (use "3.prems" False in auto)
  qed (use "3.prems" in auto)
qed auto

section \<open>The worker's turn\<close>

lemma synced_append:
  assumes "synced_upto w lg n" and "dv_file w' @ dv_pending w' = dv_file w @ dv_pending w @ concat (map snd new)"
    and "dv_synced w' = dv_synced w" and "dv_ok w'" and "\<forall>s \<in> fst ` set new. n < s"
  shows "synced_upto w' (lg @ new) n"
proof -
  obtain k where k: "dv_synced w = concat (map snd (take k lg))" "\<forall>s \<in> fst ` set (drop k lg). n < s"
    using assms(1) by (auto simp: synced_upto_def)
  let ?k = "min k (length lg)"
  have "take ?k (lg @ new) = take k lg" "drop ?k (lg @ new) = drop k lg @ new" by (simp_all add: min_def)
  then show ?thesis
    using assms k unfolding synced_upto_def by (auto intro!: exI [of _ ?k])
qed

lemma synced_flush:
  assumes "synced_upto w lg n" and "dv_file w' @ dv_pending w' = dv_file w @ dv_pending w"
    and "dv_synced w' = dv_file w @ dv_pending w" and "dv_ok w'"
  shows "synced_upto w' lg m"
  using assms unfolding synced_upto_def by (auto intro!: exI [of _ "length lg"])

lemma write_append_batch_ok:
  assumes s: "synced_upto (jn_writer j) lg (flushed_work j)" and new: "\<forall>req \<in> set batch. flushed_work j < ar_seq req"
    and run: "write_append_batch batch sync j = (r, j')"
  shows "synced_upto (jn_writer j') (lg @ map req_rec batch) (flushed_work j')"
    and "flushed_work j' = (if sync then max (flushed_work j) (max_seq batch) else flushed_work j)"
    and "jn_queue j' = jn_queue j" and "jn_backlog j' = jn_backlog j" and "next_work j' = next_work j" and "queued_work j' = queued_work j"
proof -
  have nf: "dv_ok (jn_writer j)" using s by (simp add: synced_upto_def)
  obtain w1 n where w1: "append_all batch 0 (jn_writer j) = (Inr n, w1)"
      "dv_file w1 @ dv_pending w1 = dv_file (jn_writer j) @ dv_pending (jn_writer j) @ concat (map ar_bytes batch)"
      "dv_synced w1 = dv_synced (jn_writer j)" "dv_ok w1"
    using append_all_ok [OF nf] by blast
  have bytes: "map ar_bytes batch = map snd (map req_rec batch)" by (simp add: req_rec_def comp_def)
  have s1: "synced_upto w1 (lg @ map req_rec batch) (flushed_work j)"
    by (rule synced_append [OF s w1(2) [unfolded bytes] w1(3,4)]) (use new in \<open>auto simp: req_rec_def\<close>)
  obtain w2 where w2: "dev_flush w1 = (Inr (), w2)" "dv_file w2 @ dv_pending w2 = dv_file w1 @ dv_pending w1"
      "dv_synced w2 = dv_file w1 @ dv_pending w1" "dv_ok w2"
    using dev_flush_ok [OF w1(4)] by blast
  note s2 = synced_flush [OF s1 w2(2-4)]
  show "synced_upto (jn_writer j') (lg @ map req_rec batch) (flushed_work j')"
    "flushed_work j' = (if sync then max (flushed_work j) (max_seq batch) else flushed_work j)"
    "jn_queue j' = jn_queue j" "jn_backlog j' = jn_backlog j" "next_work j' = next_work j" "queued_work j' = queued_work j"
    using run w1(1) w2(1) s1 s2 by (auto simp: write_append_batch_def Let_def split: if_splits)
qed

lemma max_seq_less: "\<forall>req \<in> set batch. ar_seq req < n \<Longrightarrow> 0 < n \<Longrightarrow> max_seq batch < n"
  unfolding max_seq_def
proof -
  have "fold (max \<circ> ar_seq) batch m < n" if "\<forall>req \<in> set batch. ar_seq req < n" "m < n" for m
    using that by (induction batch arbitrary: m) auto
  then show "\<forall>req \<in> set batch. ar_seq req < n \<Longrightarrow> 0 < n \<Longrightarrow> fold (max \<circ> ar_seq) batch 0 < n" by blast
qed

lemma max_seq_le: "\<forall>req \<in> set batch. ar_seq req \<le> n \<Longrightarrow> max_seq batch \<le> n"
  using max_seq_less [of batch "Suc n"] by (auto simp: less_Suc_eq_le)

lemma run_worker_head:
  assumes "list_all (Not \<circ> is_append) (jn_backlog j)" and "cmds j = c # cs"
  obtains j0 where "run_worker limit j = run_command limit c j0" and "cmds j0 = cs" and "list_all (Not \<circ> is_append) (jn_backlog j0)"
    and "jn_writer j0 = jn_writer j" and "next_work j0 = next_work j" and "queued_work j0 = queued_work j"
    and "flushed_work j0 = flushed_work j" and "is_append c \<Longrightarrow> jn_backlog j0 = [] \<and> jn_queue j0 = cs"
proof (cases "jn_backlog j")
  case Nil
  then have "jn_queue j = c # cs" using assms(2) by (simp add: cmds_def)
  then show thesis using Nil by (intro that [of "j\<lparr>jn_queue := cs\<rparr>"]) (simp_all add: run_worker_def cmds_def)
next
  case (Cons d ds)
  then have "d = c" "cs = ds @ jn_queue j" "\<not> is_append c" using assms by (auto simp: cmds_def)
  then show thesis using Cons assms(1) by (intro that [of "j\<lparr>jn_backlog := ds\<rparr>"]) (simp_all add: run_worker_def cmds_def)
qed

lemma journal_invD:
  assumes "journal_inv R"
  shows "synced_upto (jn_writer (jr R)) (jr_log R) (flushed_work (jr R))"
    and "sorted_wrt (<) (map fst (jr_log R @ append_recs (cmds (jr R))))"
    and "\<forall>s \<in> fst ` set (jr_log R @ append_recs (cmds (jr R))). jr_cut R < s \<and> s \<le> next_work (jr R)"
    and "\<forall>s \<in> fst ` set (append_recs (cmds (jr R))). flushed_work (jr R) < s"
    and "queued_work (jr R) \<le> next_work (jr R)" and "jr_cut R \<le> next_work (jr R)" and "flushed_work (jr R) \<le> next_work (jr R)"
    and "flush_ok (next_work (jr R)) (cmds (jr R))" and "list_all (Not \<circ> is_append) (jn_backlog (jr R))"
    and "\<forall>p \<in> set (jr_sent R). fst p \<le> jr_cut R \<or> p \<in> set (jr_log R @ append_recs (cmds (jr R)))"
  using assms unfolding journal_inv_def Let_def by blast+

text \<open>What is left of the queue after a turn.\<close>

lemma inv_append:
  assumes I: "journal_inv R" and c: "cmds (jr R) = Append r s sync # cs"
  shows "journal_inv (worker_turn limit R)"
proof -
  let ?j = "jr R" and ?first = "\<lparr>ar_bytes = r, ar_seq = s, ar_sync = sync\<rparr>"
  note D = journal_invD [OF I]
  obtain j0 where j0: "run_worker limit ?j = run_command limit (Append r s sync) j0" "cmds j0 = cs"
      "jn_backlog j0 = []" "jn_queue j0 = cs" "jn_writer j0 = jn_writer ?j" "next_work j0 = next_work ?j"
      "queued_work j0 = queued_work ?j" "flushed_work j0 = flushed_work ?j"
    using run_worker_head [OF D(9) c, of limit] by (metis is_append.simps(1))
  obtain batch held rest where g: "gather limit (length r) cs = (batch, held, rest)" by (metis prod_cases3)
  let ?batch = "?first # batch" and ?j1 = "j0\<lparr>jn_backlog := held, jn_queue := rest\<rparr>"
  obtain res j2 where w: "write_append_batch ?batch (list_ex ar_sync ?batch) ?j1 = (res, j2)" by force
  have run: "run_worker limit ?j = notify_append_batch ?batch res j2"
    using j0(1,3,4) g w by (simp add: run_command_def process_append_batch_def Let_def)
  have gs: "append_recs cs = map req_rec batch @ append_recs (held @ rest)" "list_all (Not \<circ> is_append) held"
      "flush_ok (next_work ?j) (held @ rest)"
    using gather_spec [OF g, of "next_work ?j"] D(8) c by auto
  have recs: "append_recs (cmds ?j) = map req_rec ?batch @ append_recs (held @ rest)" using c gs(1) by (simp add: req_rec_def)
  have new: "\<forall>req \<in> set ?batch. flushed_work ?j1 < ar_seq req"
    using D(4) unfolding recs j0(8) [symmetric] by (auto simp: req_rec_def ball_Un)
  note W = write_append_batch_ok [OF _ new w, of "jr_log R"]
  have s1: "synced_upto (jn_writer ?j1) (jr_log R) (flushed_work ?j1)" using D(1) j0(5,8) by simp
  have le: "\<forall>req \<in> set ?batch. ar_seq req \<le> next_work ?j" using D(3) unfolding recs by (auto simp: req_rec_def ball_Un)
  have so: "sorted_wrt (<) (map fst (map req_rec ?batch) @ map fst (append_recs (held @ rest)))"
    using D(2) unfolding recs map_append sorted_wrt_append by blast
  have lt: "\<forall>req \<in> set ?batch. ar_seq req < q" if "q \<in> fst ` set (append_recs (held @ rest))" for q
  proof -
    have "\<forall>x \<in> set (map fst (map req_rec ?batch)). x < q" using so that unfolding sorted_wrt_append by (metis list.set_map)
    then show ?thesis by (simp add: req_rec_def)
  qed
  have fl: "flushed_work j2 < q" if q: "q \<in> fst ` set (append_recs (held @ rest))" for q
  proof -
    have "flushed_work ?j < q" using D(4) q unfolding recs set_append by blast
    then show ?thesis using W(2) [OF s1] max_seq_less [OF lt [OF q]] j0(8) by auto
  qed
  have fn: "flushed_work j2 \<le> next_work ?j" using W(2) [OF s1] D(7) max_seq_le [OF le] j0(8) by auto
  have nb: "next_batch limit ?j = map req_rec ?batch" using c g by (simp add: next_batch_def req_rec_def)
  have T: "worker_turn limit R = R\<lparr>jr := notify_append_batch ?batch res j2, jr_log := jr_log R @ map req_rec ?batch\<rparr>"
    using c nb run by (simp add: worker_turn_def)
  have N: "jn_writer (notify_append_batch b q j) = jn_writer j" "flushed_work (notify_append_batch b q j) = flushed_work j"
      "next_work (notify_append_batch b q j) = next_work j" "queued_work (notify_append_batch b q j) = queued_work j"
      "cmds (notify_append_batch b q j) = cmds j" "jn_backlog (notify_append_batch b q j) = jn_backlog j" for b q j
    by (simp_all add: notify_append_batch_def cmds_def)
  have c2: "cmds j2 = held @ rest" "jn_backlog j2 = held" using W(3,4) [OF s1] by (simp_all add: cmds_def)
  show ?thesis
    unfolding T journal_inv_def Let_def
    using W(1,5,6) [OF s1] D(2,3,5,6,10) gs fl fn j0(6,7)
    by (simp add: N c2 recs)
qed

lemma inv_flush:
  assumes I: "journal_inv R" and c: "cmds (jr R) = Flush u # cs"
  shows "journal_inv (worker_turn limit R)"
proof -
  let ?j = "jr R"
  note D = journal_invD [OF I]
  obtain j0 where j0: "run_worker limit ?j = run_command limit (Flush u) j0" "cmds j0 = cs"
      "list_all (Not \<circ> is_append) (jn_backlog j0)" "jn_writer j0 = jn_writer ?j" "next_work j0 = next_work ?j"
      "queued_work j0 = queued_work ?j" "flushed_work j0 = flushed_work ?j"
    using run_worker_head [OF D(9) c, of limit] by metis
  obtain w where w: "dev_flush (jn_writer ?j) = (Inr (), w)" "dv_file w @ dv_pending w = dv_file (jn_writer ?j) @ dv_pending (jn_writer ?j)"
      "dv_synced w = dv_file (jn_writer ?j) @ dv_pending (jn_writer ?j)" "dv_ok w"
    using dev_flush_ok D(1) unfolding synced_upto_def by metis
  have s: "synced_upto w (jr_log R) m" for m by (rule synced_flush [OF D(1) w(2-4)])
  have fo: "u \<le> next_work ?j" "\<forall>q \<in> fst ` set (append_recs cs). u < q" "flush_ok (next_work ?j) cs" using D(8) c by auto
  show ?thesis
    unfolding journal_inv_def Let_def
    using c w(1) D(2-7,10) fo j0 s by (simp add: worker_turn_def run_command_def next_batch_def Let_def)
qed

lemma inv_truncate:
  assumes I: "journal_inv R" and c: "cmds (jr R) = Truncate # cs"
  shows "journal_inv (worker_turn limit R)"
proof -
  let ?j = "jr R"
  note D = journal_invD [OF I]
  obtain j0 where j0: "run_worker limit ?j = run_command limit Truncate j0" "cmds j0 = cs"
      "list_all (Not \<circ> is_append) (jn_backlog j0)" "jn_writer j0 = jn_writer ?j" "next_work j0 = next_work ?j"
      "queued_work j0 = queued_work ?j" "flushed_work j0 = flushed_work ?j"
    using run_worker_head [OF D(9) c, of limit] by metis
  obtain w where w: "dev_truncate (jn_writer ?j) = (Inr (), w)" "dv_file w = []" "dv_pending w = []" "dv_synced w = []" "dv_ok w"
    using dev_truncate_ok D(1) unfolding synced_upto_def by metis
  define cut where "cut = fold (max \<circ> fst) (jr_log R) (jr_cut R)"
  have cut: "jr_cut R \<le> cut" "\<forall>p \<in> set (jr_log R). fst p \<le> cut"
      "(\<forall>p \<in> set (jr_log R). fst p < q) \<Longrightarrow> jr_cut R < q \<Longrightarrow> cut < q" for q
  proof -
    have "m \<le> fold (max \<circ> fst) l m \<and> (\<forall>p \<in> set l. fst p \<le> fold (max \<circ> fst) l m)
        \<and> ((\<forall>p \<in> set l. fst p < q) \<longrightarrow> m < q \<longrightarrow> fold (max \<circ> fst) l m < q)" for l :: "numbered list" and m
      by (induction l arbitrary: m) (auto intro: le_trans [OF max.cobounded1] le_trans [OF max.cobounded2])
    then show "jr_cut R \<le> cut" "\<forall>p \<in> set (jr_log R). fst p \<le> cut"
      "(\<forall>p \<in> set (jr_log R). fst p < q) \<Longrightarrow> jr_cut R < q \<Longrightarrow> cut < q" unfolding cut_def by blast+
  qed
  have lt: "cut < q" if "q \<in> fst ` set (append_recs cs)" for q
    using that D(2,3) c by (intro cut(3)) (auto simp: sorted_wrt_append)
  have le: "cut \<le> next_work ?j" using cut(3) [of "Suc (next_work ?j)"] D(3,6) by (auto simp: less_Suc_eq_le)
  have sent: "\<forall>p \<in> set (jr_sent R). fst p \<le> cut \<or> p \<in> set (append_recs cs)" using D(10) cut(1,2) c by fastforce
  have T: "worker_turn limit R = R\<lparr>jr := j0\<lparr>jn_writer := w, jn_acks := jn_acks j0 @ [TruncateAck (Inr ())]\<rparr>, jr_log := [], jr_cut := cut\<rparr>"
    using c w(1) j0(1,4) by (simp add: worker_turn_def run_command_def cut_def)
  show ?thesis
    unfolding T journal_inv_def Let_def
    using w(2-5) D(2-8) c j0 lt le sent by (simp add: synced_upto_def sorted_wrt_append)
qed

section \<open>Every step keeps the invariant\<close>

lemma inv_submit:
  assumes I: "journal_inv R" and "submit r sync (jr R) = (s, j)"
  shows "journal_inv (R\<lparr>jr := j, jr_sent := jr_sent R @ [(s, r)]\<rparr>)"
proof -
  let ?j = "jr R"
  note D = journal_invD [OF I]
  have s: "s = Suc (next_work ?j)" and j: "j = ?j\<lparr>next_work := s, jn_queue := jn_queue ?j @ [Append r s sync], queued_work := max (queued_work ?j) s\<rparr>"
    using assms(2) by (auto simp: submit_def submit_reserve_def submit_send_def submit_publish_def Let_def)
  have c: "cmds j = cmds ?j @ [Append r s sync]" by (simp add: j cmds_def)
  have below: "\<forall>q \<in> fst ` set (jr_log R @ append_recs (cmds ?j)). q < s" using D(3) s by (auto simp: less_Suc_eq_le)
  have fo: "flush_ok s (cmds j)"
    unfolding c flush_ok_append_rec using D(8) flush_ok_mono [OF D(8), of s] flush_ok_le [OF D(8)] s by (auto simp: less_Suc_eq_le)
  have fl: "flushed_work ?j < s" "jr_cut R < s" using D(6,7) s by simp_all
  have fields: "jn_writer j = jn_writer ?j" "flushed_work j = flushed_work ?j" "next_work j = s"
      "queued_work j = max (queued_work ?j) s" "jn_backlog j = jn_backlog ?j" by (simp_all add: j)
  show ?thesis
    unfolding journal_inv_def Let_def
    using D below fo fl fields(3-5) s by (auto simp: fields c sorted_wrt_append ball_Un)
qed

lemma inv_control:
  assumes I: "journal_inv R" and c: "\<not> is_append c" "\<And>u. c = Flush u \<Longrightarrow> u \<le> next_work (jr R)"
  shows "journal_inv (R\<lparr>jr := (jr R)\<lparr>jn_queue := jn_queue (jr R) @ [c]\<rparr>\<rparr>)"
proof -
  note D = journal_invD [OF I]
  have "append_recs [c] = []" using c(1) by (cases c) simp_all
  then show ?thesis
    unfolding journal_inv_def Let_def using D flush_ok_snoc [OF c(1)] c(2) by simp
qed

lemma inv_worker: "journal_inv R \<Longrightarrow> journal_inv (worker_turn limit R)"
proof (cases "cmds (jr R)")
  case Nil
  assume I: "journal_inv R"
  have "run_worker limit (jr R) = jr R" using Nil by (simp add: run_worker_def cmds_def)
  then have "worker_turn limit R = R" using Nil by (simp add: worker_turn_def next_batch_def)
  then show ?thesis using I by simp
next
  case (Cons c cs)
  assume "journal_inv R"
  then show ?thesis using Cons inv_append inv_flush inv_truncate by (cases c) simp_all
qed

lemma opened_records: "dv_ok w \<Longrightarrow> dv_pending w = [] \<Longrightarrow> has_records (dv_writer w) \<longleftrightarrow> dv_file w \<noteq> []"
  by (auto simp: has_records_def dv_ok_def dv_views Let_def)

lemma opened_synced:
  assumes "dv_ok w" and "dv_pending w = []" and "dv_synced w = [] \<or> dv_synced w = dv_file w"
  shows "synced_upto w (if has_records (dv_writer w) then [(1, dv_file w)] else []) 0"
proof (cases "dv_synced w = []")
  case True
  then show ?thesis using assms opened_records by (auto simp: synced_upto_def intro!: exI [of _ 0])
next
  case False
  then show ?thesis using assms opened_records by (auto simp: synced_upto_def intro!: exI [of _ 1])
qed

interpretation journal: inductive_invariant journal_init journal_step journal_inv
proof
  fix R assume "journal_init R"
  then obtain w where w: "dv_ok w" "dv_pending w = []" "dv_synced w = [] \<or> dv_synced w = dv_file w" "jr R = journal_open w"
      "jr_sent R = []" "jr_cut R = 0" "jr_log R = (if has_records (dv_writer w) then [(1, dv_file w)] else [])"
    by (auto simp: journal_init_def)
  show "journal_inv R"
    using opened_synced [OF w(1-3)] w(4-7) by (auto simp: journal_inv_def journal_open_def cmds_def Let_def)
next
  fix R R' assume I: "journal_inv R" and "journal_step R R'"
  from this(2) show "journal_inv R'"
  proof cases
    case (step_submit r sync s j)
    then show ?thesis using inv_submit [OF I] by simp
  next
    case (step_flush observed)
    then show ?thesis using I inv_control [OF I, of "Flush observed"] journal_invD(5) [OF I] by (auto simp: flush_up_to_def)
  next
    case step_truncate
    then show ?thesis using I inv_control [OF I, of Truncate] by (auto simp: truncate_send_def)
  next
    case (step_truncated n)
    then show ?thesis using I by (simp add: truncate_acked_def journal_inv_def Let_def)
  next
    case (step_worker limit)
    then show ?thesis using inv_worker [OF I] by simp
  qed
qed

text \<open>The barrier, from the invariant.\<close>

lemma inv_barrier_log:
  assumes "journal_inv R" and "(s, r) \<in> set (jr_sent R)" and "s \<le> flushed_work (jr R)" and "jr_cut R < s"
  shows "\<exists>xs ys. dv_synced (jn_writer (jr R)) = concat (map snd (xs @ (s, r) # ys)) \<and> set (xs @ (s, r) # ys) \<subseteq> set (jr_log R)
    \<and> sorted_wrt (<) (map fst (xs @ (s, r) # ys))"
proof -
  note D = journal_invD [OF assms(1)]
  obtain k where k: "dv_synced (jn_writer (jr R)) = concat (map snd (take k (jr_log R)))"
      "\<forall>q \<in> fst ` set (drop k (jr_log R)). flushed_work (jr R) < q"
    using D(1) by (auto simp: synced_upto_def)
  have "(s, r) \<in> set (jr_log R @ append_recs (cmds (jr R)))" using D(10) assms(2,4) by fastforce
  then have "(s, r) \<in> set (jr_log R)" using D(4) assms(3) by fastforce
  then have "(s, r) \<in> set (take k (jr_log R)) \<or> (s, r) \<in> set (drop k (jr_log R))"
    by (metis Un_iff append_take_drop_id set_append)
  then have "(s, r) \<in> set (take k (jr_log R))" using k(2) assms(3) by fastforce
  then obtain xs ys where xy: "take k (jr_log R) = xs @ (s, r) # ys" by (meson split_list)
  have "sorted_wrt (<) (map fst (take k (jr_log R)))"
    using D(2) by (simp add: sorted_wrt_append take_map [symmetric] sorted_wrt_take)
  then show ?thesis using k(1) xy set_take_subset [of k "jr_log R"] by metis
qed

section \<open>Properties\<close>

definition fresh_device :: "io_outcome list \<Rightarrow> log_device" where
  "fresh_device fs = \<lparr>dv_writer = wal_create 0 0, dv_faults = fs\<rparr>"

definition fresh_run :: journal_run where
  "fresh_run = \<lparr>jr = journal_open (fresh_device []), jr_sent = [], jr_log = [], jr_cut = 0\<rparr>"

lemma fresh_device_view:
  "dv_ok (fresh_device [])" "dv_file (fresh_device fs) = []" "dv_pending (fresh_device fs) = []" "dv_synced (fresh_device fs) = []"
  "\<not> has_records (dv_writer (fresh_device fs))" "dv_faults (fresh_device fs) = fs"
  by (simp_all add: fresh_device_def wal_create_def dv_ok_def dv_views has_records_def wf_header_def Let_def)

lemma fresh_run_init: "journal_init fresh_run"
  by (auto simp: journal_init_def fresh_run_def fresh_device_view intro!: exI [of _ "fresh_device []"])

text \<open>A turn of the worker on a lone append.\<close>

lemma gather_Nil: "gather n b [] = ([], [], [])"
  by (cases n) simp_all

lemma lone_append:
  assumes "dv_ok (jn_writer j)" and "jn_backlog j = []" and "jn_queue j = [Append r s sync]"
  obtains j' where "run_worker n j = j'" "jn_queue j' = []" "jn_backlog j' = []" "queued_work j' = queued_work j" "next_work j' = next_work j"
    "checkpointed_work j' = checkpointed_work j" "flushed_work j' = (if sync then max (flushed_work j) s else flushed_work j)"
    "dv_file (jn_writer j') @ dv_pending (jn_writer j') = dv_file (jn_writer j) @ dv_pending (jn_writer j) @ r" "dv_ok (jn_writer j')"
    "sync \<Longrightarrow> dv_synced (jn_writer j') = dv_file (jn_writer j') \<and> dv_pending (jn_writer j') = []"
proof -
  obtain d1 where d1: "dev_append r (jn_writer j) = (Inr (), d1)" "dv_ok d1"
      "dv_file d1 @ dv_pending d1 = dv_file (jn_writer j) @ dv_pending (jn_writer j) @ r"
    using dev_append_ok [OF assms(1)] by blast
  obtain d2 where d2: "dev_flush d1 = (Inr (), d2)" "dv_ok d2" "dv_file d2 @ dv_pending d2 = dv_file d1 @ dv_pending d1"
      "dv_synced d2 = dv_file d1 @ dv_pending d1" "dv_pending d2 = []"
    using dev_flush_ok [OF d1(2)] by blast
  show thesis
    by (rule that [OF refl])
      (use assms d1 d2 in \<open>auto simp: run_worker_def run_command_def process_append_batch_def gather_Nil write_append_batch_def
        notify_append_batch_def max_seq_def Let_def\<close>)
qed

lemma submit_fields:
  "submit r sync j = (next_work j + 1, j\<lparr>next_work := next_work j + 1, jn_queue := jn_queue j @ [Append r (next_work j + 1) sync],
     queued_work := max (queued_work j) (next_work j + 1)\<rparr>)"
  by (simp add: submit_def submit_reserve_def submit_send_def submit_publish_def Let_def)

lemma fresh_journal:
  "jn_queue (journal_open (fresh_device fs)) = []" "jn_backlog (journal_open (fresh_device fs)) = []"
  "jn_writer (journal_open (fresh_device fs)) = fresh_device fs" "next_work (journal_open (fresh_device fs)) = 0"
  "queued_work (journal_open (fresh_device fs)) = 0" "flushed_work (journal_open (fresh_device fs)) = 0"
  "checkpointed_work (journal_open (fresh_device fs)) = 0"
  by (simp_all add: journal_open_def fresh_device_view Let_def)

lemma synced_run:
  "\<exists>R. reach journal_init journal_step R \<and> jr_sent R = [(1, r)] \<and> jr_log R = [(1, r)] \<and> jr_cut R < 1 \<and> flush_up_to 1 (jr R) = (False, jr R)"
proof -
  define R1 where "R1 = fresh_run\<lparr>jr := snd (submit r True (jr fresh_run)), jr_sent := [(1, r)]\<rparr>"
  have "submit r True (jr fresh_run) = (1, snd (submit r True (jr fresh_run)))"
    by (simp add: submit_fields fresh_run_def fresh_journal)
  from step_submit [OF this] have 1: "journal_step fresh_run R1" by (simp add: R1_def fresh_run_def)
  have "reach journal_init journal_step fresh_run" by (rule reach.reach_init) (rule fresh_run_init)
  then have "reach journal_init journal_step R1" using 1 by (rule reach.reach_step)
  then have 2: "reach journal_init journal_step (worker_turn 0 R1)" using step_worker by (rule reach.reach_step)
  have j1: "dv_ok (jn_writer (jr R1))" "jn_backlog (jr R1) = []" "jn_queue (jr R1) = [Append r 1 True]"
    by (simp_all add: R1_def fresh_run_def submit_fields fresh_journal fresh_device_view)
  from j1(2,3) have t: "jr_sent (worker_turn 0 R1) = [(1, r)]" "jr_cut (worker_turn 0 R1) = 0" "jr_log (worker_turn 0 R1) = [(1, r)]"
      "jr (worker_turn 0 R1) = run_worker 0 (jr R1)"
    by (simp_all add: worker_turn_def cmds_def next_batch_def) (simp_all add: R1_def fresh_run_def)
  have "1 \<le> flushed_work (run_worker 0 (jr R1))" by (rule lone_append [OF j1, of 0]) simp
  then have "flush_up_to 1 (jr (worker_turn 0 R1)) = (False, jr (worker_turn 0 R1))" by (simp add: flush_up_to_def t(4))
  then show ?thesis using 2 t(1-3) by (intro exI [of _ "worker_turn 0 R1"]) simp
qed

text \<open>The image that a power failure leaves, as a log.\<close>

lemma synced_image:
  assumes "dv_ok d"
  shows "crash_image d = encode_file_header (ww_header (dv_writer d)) [] @ dv_synced d"
proof -
  have "crash_image d = take FILE_HEADER_SIZE (crash_image d) @ dv_synced d" by (simp add: dv_synced_def)
  also have "take FILE_HEADER_SIZE (crash_image d) = take FILE_HEADER_SIZE (ww_file (dv_writer d))"
    using assms by (simp add: crash_image_def dv_ok_def Let_def min_def)
  finally show ?thesis using assms by (simp add: dv_ok_def Let_def)
qed

lemma pieces_entries:
  "\<forall>p \<in> set lg. \<exists>es. (\<forall>e \<in> set es. wf_entry crc e) \<and> snd p = log_bytes es \<Longrightarrow>
     \<exists>es. (\<forall>e \<in> set es. wf_entry crc e) \<and> concat (map snd lg) = log_bytes es"
proof (induction lg)
  case (Cons p lg)
  then obtain es where es: "\<forall>e \<in> set es. wf_entry crc e" "concat (map snd lg) = log_bytes es" by auto
  obtain fs where fs: "\<forall>e \<in> set fs. wf_entry crc e" "snd p = log_bytes fs" using Cons.prems by auto
  show ?case by (rule exI [of _ "fs @ es"]) (use es fs in auto)
qed (auto intro: exI [of _ "[]"])



text \<open>C39. The barrier may be skipped for a record that is not written. \<^verbatim>\<open>submit\<close> reserves its number before it sends its
  command, and \<^verbatim>\<open>flushed_work\<close> is the maximum of the numbers synced so far. When a second client reserves, sends and is synced
  between the two steps of the first, the first record is queued and published, \<^verbatim>\<open>flush_up_to\<close> of everything queued returns
  at once, and the file holds the second record only.\<close>

theorem barrier_skips_queued_record:
  assumes "submit_reserve (journal_open (fresh_device [])) = (s1, j1)" and "submit_reserve j1 = (s2, j2)"
    and "j3 = run_worker n (submit_publish s2 (submit_send r2 s2 True j2))"
    and "j4 = submit_publish s1 (submit_send r1 s1 False j3)"
  shows "flush_up_to (queued_work j4) j4 = (False, j4) \<and> jn_queue j4 = [Append r1 s1 False]
    \<and> dv_synced (jn_writer j4) = r2 \<and> dv_file (jn_writer j4) = r2 \<and> dv_pending (jn_writer j4) = []"
proof -
  have s: "s1 = 1" "s2 = 2" "j2 = (journal_open (fresh_device []))\<lparr>next_work := 2\<rparr>"
    using assms(1,2) by (auto simp: submit_reserve_def fresh_journal)
  let ?j = "submit_publish s2 (submit_send r2 s2 True j2)"
  have j: "dv_ok (jn_writer ?j)" "jn_backlog ?j = []" "jn_queue ?j = [Append r2 2 True]" "queued_work ?j = 2" "flushed_work ?j = 0"
      "jn_writer ?j = fresh_device []"
    by (simp_all add: submit_publish_def submit_send_def s fresh_journal fresh_device_view)
  obtain j' where j': "run_worker n ?j = j'" "jn_queue j' = []" "queued_work j' = 2" "flushed_work j' = 2"
      "dv_file (jn_writer j') = r2" "dv_synced (jn_writer j') = r2" "dv_pending (jn_writer j') = []"
    by (rule lone_append [OF j(1-3), of n]) (simp add: j fresh_device_view)
  show ?thesis
    unfolding assms(3,4) j'(1) using j'(2-7) s(1) by (simp add: submit_publish_def submit_send_def flush_up_to_def)
qed

theorem barrier_skips_queued_record_witness:
  "\<exists>j. flush_up_to (queued_work j) j = (False, j) \<and> jn_queue j = [Append [1] 1 False] \<and> dv_synced (jn_writer j) = [2]"
proof -
  let ?j0 = "journal_open (fresh_device [])"
  have r: "submit_reserve ?j0 = (1, snd (submit_reserve ?j0))"
    "submit_reserve (snd (submit_reserve ?j0)) = (2, snd (submit_reserve (snd (submit_reserve ?j0))))"
    by (simp_all add: submit_reserve_def fresh_journal)
  from barrier_skips_queued_record [OF r refl refl, where n = 0 and ?r2.0 = "[2]" and ?r1.0 = "[1]"] show ?thesis by blast
qed

text \<open>C40. A failed append is reported durable later. When the drain of the writer fails after n bytes, the bytes stay pending
  and the rest of the batch is dropped. The next flush succeeds: the synced file then holds the n bytes twice over and no
  trace of the dropped record, although the barrier for its number is acknowledged.\<close>

theorem failed_append_acked_by_flush:
  assumes "dv_faults d = [IoError n]" and "AUTO_FLUSH_THRESHOLD \<le> length (dv_pending d @ r1)" and "FILE_HEADER_SIZE \<le> length (ww_file (dv_writer d))"
    and "jn_writer j = d" and "jn_backlog j = []" and "jn_queue j = [Append r1 s1 False, Append r2 s2 False, Flush s2]"
    and "length r1 < GROUP_COMMIT_MAX_BYTES" and "flushed_work j < s2"
  shows "let j' = run_worker 1 (run_worker 1 j)
    in jn_acks j' = jn_acks j @ [FlushAck s2 (Inr ())] \<and> flushed_work j' = s2
      \<and> dv_synced (jn_writer j') = dv_file d @ take n (dv_pending d @ r1) @ dv_pending d @ r1"
proof -
  have ne: "ww_pending (dv_writer d) @ r1 \<noteq> []" using assms(2) by (auto simp: AUTO_FLUSH_THRESHOLD_def dv_pending_def)
  let ?w = "(dv_writer d)\<lparr>ww_pending := ww_pending (dv_writer d) @ r1, ww_file := ww_file (dv_writer d) @ take n (ww_pending (dv_writer d) @ r1)\<rparr>"
  have a: "dev_append r1 d = (Inl (BlobStoreIo ''write_all''), \<lparr>dv_writer = ?w, dv_faults = []\<rparr>)"
    using assms(1,2) ne by (simp add: dev_append_def dv_call_def dv_next_def write_io_def on_writer_def append_encoded_def maybe_drain_def
        drain_to_os_def sbind_def smod_def dv_pending_def del: append_is_Nil_conv)
  let ?w2 = "?w\<lparr>ww_file := ww_file ?w @ ww_pending ?w, bytes_written := bytes_written ?w + length (ww_pending ?w), ww_pending := [],
    ww_synced := length (ww_file ?w @ ww_pending ?w)\<rparr>"
  have f: "dev_flush \<lparr>dv_writer = ?w, dv_faults = []\<rparr> = (Inr (), \<lparr>dv_writer = ?w2, dv_faults = []\<rparr>)"
    using ne by (simp add: dev_flush_def dv_call_def dv_next_def write_io_def on_writer_def wal_flush_def drain_to_os_def sbind_def
        smod_def del: append_is_Nil_conv)
  let ?d2 = "\<lparr>dv_writer = ?w2, dv_faults = []\<rparr>"
  have "ww_synced (dv_writer ?d2) = length (ww_file (dv_writer ?d2))" by simp
  then have "dv_synced ?d2 = dv_file ?d2" unfolding dv_synced_def crash_image_def dv_file_def by (simp only: take_all le_refl)
  then have "dv_synced ?d2 = dv_file d @ take n (dv_pending d @ r1) @ dv_pending d @ r1"
    using assms(3) by (simp add: dv_file_def dv_pending_def)
  then show ?thesis
    using assms(4-8) a f
    by (simp add: run_worker_def run_command_def process_append_batch_def write_append_batch_def notify_append_batch_def Let_def)
qed

theorem failed_append_acked_by_flush_witness:
  "\<exists>j j' big. jn_queue j = [Append big 1 False, Append [9] 2 False, Flush 2] \<and> j' = run_worker 1 (run_worker 1 j)
    \<and> flushed_work j' = 2 \<and> dv_synced (jn_writer j') = take 3 big @ big"
proof -
  let ?big = "replicate 65536 (0 :: u8)" and ?d = "fresh_device [IoError 3]"
  let ?j = "(journal_open ?d)\<lparr>jn_queue := [Append ?big 1 False, Append [9] 2 False, Flush 2]\<rparr>"
  have h: "FILE_HEADER_SIZE \<le> length (ww_file (dv_writer ?d))" by (simp add: fresh_device_def wal_create_def Let_def)
  have "flushed_work (run_worker 1 (run_worker 1 ?j)) = 2
      \<and> dv_synced (jn_writer (run_worker 1 (run_worker 1 ?j))) = take 3 ?big @ ?big"
    using failed_append_acked_by_flush [of ?d 3 ?big ?j 1 "[9]" 2] h
    by (simp add: fresh_device_view fresh_journal AUTO_FLUSH_THRESHOLD_def GROUP_COMMIT_MAX_BYTES_def Let_def)
  then show ?thesis by (intro exI [of _ ?j] exI [of _ ?big] exI [of _ "run_worker 1 (run_worker 1 ?j)"]) (simp)
qed

end
