(* ===== verification/Checkpoint_Gaps.thy ===== *)
theory Checkpoint_Gaps
  imports Checkpoint_Plan Checkpoint_Settle Journal_Durable
begin

text \<open>
  Runs of the checkpoint code that leave a state its own comments exclude: a changed blob that
  nothing tracks, a store that is not synced while nothing is tracked, a reference that no epoch
  holds.
\<close>

section \<open>Counting\<close>

lemma placed_empty:
  assumes "placed i m" and "\<forall>g. bookkeeping_shard_idx g = i \<longrightarrow> map_of m g = None"
  shows "m = []"
proof (cases m)
  case (Cons p ps)
  then have "bookkeeping_shard_idx (fst p) = i" using assms(1) by (simp add: placed_def)
  then show ?thesis using assms(2) Cons by (cases p) auto
qed

lemma shard_maps:
  assumes "bm_wf bm"
  shows "placed i (ms_dirty (bm_mutation bm i))" and "placed i (ms_flushing (bm_mutation bm i))"
    and "placed i (ms_pending_deletes (bm_mutation bm i))" and "positive (ms_flushing (bm_mutation bm i))"
  using assms by (simp_all add: bm_wf_def shard_wf_def)

lemma dirty_count_zero: "bm_wf bm \<Longrightarrow> dirty_count bm = 0 \<longleftrightarrow> (\<forall>g. tr_dirty (track bm) g = None)"
  using bookkeeping_shard_idx_bound
  by (auto simp: dirty_count_def track_sel mutation_shard_def intro!: placed_empty [OF shard_maps(1)])

lemma pending_total: "bm_wf bm \<Longrightarrow> bm_pending_delete_total bm = (\<Sum>i<BOOKKEEPING_SHARDS. length (ms_pending_deletes (bm_mutation bm i)))"
  by (simp add: bm_wf_def)

lemma pending_count_zero: "bm_wf bm \<Longrightarrow> pending_delete_count bm = 0 \<longleftrightarrow> (\<forall>g. tr_pending (track bm) g = None)"
  using bookkeeping_shard_idx_bound
  by (auto simp: pending_delete_count_def pending_total track_sel mutation_shard_def intro!: placed_empty [OF shard_maps(3)])

lemma sum_positive: "positive m \<Longrightarrow> sum_list (map snd m) = 0 \<longleftrightarrow> m = []"
  by (cases m) (auto simp: positive_def)

lemma flushing_count_zero: "bm_wf bm \<Longrightarrow> flushing_count bm = 0 \<longleftrightarrow> (\<forall>g. tr_flushing (track bm) g = None)"
  using bookkeeping_shard_idx_bound sum_positive [OF shard_maps(4)]
  by (auto simp: flushing_count_def track_sel mutation_shard_def intro!: placed_empty [OF shard_maps(2)])

lemma all_settled_iff:
  "bm_wf bm \<Longrightarrow> all_settled bm \<longleftrightarrow>
     (\<forall>g. tr_dirty (track bm) g = None \<and> tr_flushing (track bm) g = None \<and> tr_pending (track bm) g = None)"
  by (auto simp: all_settled_def dirty_count_zero flushing_count_zero pending_count_zero)

section \<open>A touched blob\<close>

text \<open>The release of an exclusive content latch moves the version on, whether or not the holder changed the blob.\<close>

definition touch :: "blob_guid \<Rightarrow> buffer_manager \<Rightarrow> buffer_manager" where
  "touch g = upd_cached g (\<lambda>e. e\<lparr>cb_version := cb_version e + 1\<rparr>)"

lemma write_through_stale:
  assumes wf: "bm_wf bm" and e: "cached_at bm (wt_guid w) = Some e" and v: "wt_content_version w = Some v" "cb_version e \<noteq> v"
  shows "write_through_batch [w] bm = (Inr [Stale], retire_write_through (wt_guid w) (wt_expected_seq w) bm)"
  using assms by (simp add: write_through_batch_def write_snapshot_is_current_def validate_content_version_def rbind_def retire_all_def Let_def)

text \<open>The end of a manual checkpoint whose only entry is stale.\<close>

lemma finish_stale:
  assumes wf: "bm_wf (sh_bm sh)" and e: "cached_at (sh_bm sh) g = Some e" "cb_version e \<noteq> v"
    and fl: "tr_flushing (track (sh_bm sh)) g = Some 1" "\<forall>h. h \<noteq> g \<longrightarrow> tr_flushing (track (sh_bm sh)) h = None"
    and no: "\<forall>h. tr_dirty (track (sh_bm sh)) h = None" "\<forall>h. tr_pending (track (sh_bm sh)) h = None"
    and run: "finish_checkpoint_snapshot [] [(g, s, v, b)] sh = (Inr (), sh')"
  shows "bs_blobs (bm_store (sh_bm sh')) = bs_blobs (bm_store (sh_bm sh))" and "bm_wf (sh_bm sh')" and "all_settled (sh_bm sh')"
    and "tr_cache (track (sh_bm sh')) = tr_cache (track (sh_bm sh))" and "maybe_truncate (sh\<lparr>sh_bm := sh_bm sh'\<rparr>) = (Inr (), sh')"
proof -
  let ?w = "entry_of_clone (g, s, v, b)"
  let ?b1 = "retire_write_through g s (sh_bm sh)"
  have w: "write_through_batch [?w] (sh_bm sh) = (Inr [Stale], ?b1)"
    using write_through_stale [OF wf, of ?w e v] e by (simp add: entry_of_clone_def)
  have wf1: "bm_wf ?b1" and t1: "track ?b1 = a_retire g s (track (sh_bm sh))" using retire_refines [OF wf] by auto
  have st1: "bm_store ?b1 = bm_store (sh_bm sh)" by (simp add: retire_write_through_def Let_def)
  obtain r bm2 where f: "flush_inner ?b1 = (r, bm2)" by force
  have ok: "r = Inr ()" and mt: "maybe_truncate (sh\<lparr>sh_bm := bm2\<rparr>) = (Inr (), sh')"
    using run w f by (cases r; simp add: finish_checkpoint_snapshot_def write_checkpoint_bytes_def in_bm_def Let_def)+
  have wf2: "bm_wf bm2" using flush_inner_track(1) [OF f] wf1 by simp
  have "tr_dirty (track bm2) h = None \<and> tr_flushing (track bm2) h = None \<and> tr_pending (track bm2) h = None" for h
    using flush_inner_track [OF f] no fl unfolding t1 by (cases "h = g") (auto simp: a_retire_def unref_def)
  then have settled: "all_settled bm2" using all_settled_iff [OF wf2] by simp
  have bm': "sh_bm sh' = bm2" using mt by (auto simp: maybe_truncate_def in_journal_def split: option.splits if_splits prod.splits)
  have blobs: "bs_blobs (bm_store bm2) = bs_blobs (bm_store (sh_bm sh))" using flush_inner_blobs [OF f] st1 by simp
  have cache: "tr_cache (track bm2) = tr_cache (track (sh_bm sh))"
    using flush_inner_track(5) [OF f] unfolding t1 by (simp add: a_retire_def)
  show "bs_blobs (bm_store (sh_bm sh')) = bs_blobs (bm_store (sh_bm sh))" "bm_wf (sh_bm sh')" "all_settled (sh_bm sh')"
    "tr_cache (track (sh_bm sh')) = tr_cache (track (sh_bm sh))" "maybe_truncate (sh\<lparr>sh_bm := sh_bm sh'\<rparr>) = (Inr (), sh')"
    using settled blobs bm' mt wf2 cache by simp_all
qed

text \<open>The phases of a manual checkpoint with one dirty blob.\<close>

lemma capture_one:
  assumes wf: "bm_wf bm" and d: "claimable (track bm) = {g}" and p: "\<forall>h. tr_pending (track bm) h = None"
    and run: "capture_intent \<lparr>sh_bm = bm, sh_journal = j\<rparr> = (Inr (snap, pending, versioned, up), sh)"
  obtains s e where "snap = [(g, s)]" and "pending = []" and "cached_at (sh_bm sh) g = Some e" and "bm_wf (sh_bm sh)"
    and "versioned = [\<lparr>ds_guid = g, ds_expected_seq = s, ds_content_version = cb_version e\<rparr>]"
    and "track (sh_bm sh) = a_snapshot_dirty (track bm)" and "sh_journal sh = j" and "up = map_option queued_work j"
proof -
  obtain sn b1 where s1: "snapshot_dirty bm = (sn, b1)" by force
  obtain pe b2 where s2: "snapshot_pending_deletes b1 = (pe, b2)" by force
  note r1 = snapshot_dirty_refines [OF wf s1]
  note r2 = snapshot_pending_refines [OF r1(2) s2]
  have "map_of pe = (\<lambda>_. None)" using r2(4) r1(1) p by (simp add: a_snapshot_dirty_def fun_eq_iff)
  then have pe: "pe = []" by (rule map_of_eq_Nil [THEN iffD1])
  have "fst ` set sn = {g}" using r1(4) d by simp
  moreover have "length sn = card (fst ` set sn)" using r1(3) by (metis distinct_card length_map set_map)
  ultimately have "length sn = 1" by simp
  then obtain s where sn: "sn = [(g, s)]" using \<open>fst ` set sn = {g}\<close> by (cases sn) auto
  have "snap = sn \<and> pending = pe \<and> up = map_option queued_work j \<and> sh = \<lparr>sh_bm = b2, sh_journal = j\<rparr> \<and> snapshot_dirty_versions sn b2 = Inr versioned"
    using run s1 s2 by (cases "snapshot_dirty_versions sn b2") (simp_all add: capture_intent_def Let_def)
  then have eq: "snap = sn" "pending = pe" "up = map_option queued_work j" "sh = \<lparr>sh_bm = b2, sh_journal = j\<rparr>"
      "snapshot_dirty_versions sn b2 = Inr versioned" by blast+
  obtain e where e: "cached_at b2 g = Some e" "versioned = [\<lparr>ds_guid = g, ds_expected_seq = s, ds_content_version = cb_version e\<rparr>]"
    using eq(5) sn by (auto simp: rbind_def split: option.splits)
  have "track b2 = a_snapshot_dirty (track bm)"
    using r2(1) r1(1) p by (intro tracking_eqI) (simp_all add: a_snapshot_dirty_def fun_eq_iff)
  then show thesis using that [of s e] eq sn pe e r2(2) by simp
qed

lemma clone_one:
  assumes "bm_wf bm" and "claimable (track bm) = {g}" and "\<forall>h. tr_flushing (track bm) h = None \<and> tr_pending (track bm) h = None"
    and "capture_intent \<lparr>sh_bm = bm, sh_journal = Some j\<rparr> = (Inr (snap, pending, versioned, up), sh1)"
    and "flush_wal up sh1 = (Inr (), sh2)" and "clone_checkpoint_bytes versioned (sh_bm sh2) = Inr (Some bytes)"
  obtains s e where "pending = []" and "cached_at (sh_bm sh2) g = Some e" and "bm_wf (sh_bm sh2)"
    and "bytes = [(g, s, cb_version e, cb_buf e)]" and "track (sh_bm sh2) = a_snapshot_dirty (track bm)"
    and "tr_flushing (track (sh_bm sh2)) g = Some 1" and "\<forall>h. h \<noteq> g \<longrightarrow> tr_flushing (track (sh_bm sh2)) h = None"
    and "\<forall>h. tr_dirty (track (sh_bm sh2)) h = None" and "\<forall>h. tr_pending (track (sh_bm sh2)) h = None"
proof -
  obtain s e where c: "snap = [(g, s)]" "pending = []" "cached_at (sh_bm sh1) g = Some e" "bm_wf (sh_bm sh1)"
      "versioned = [\<lparr>ds_guid = g, ds_expected_seq = s, ds_content_version = cb_version e\<rparr>]"
      "track (sh_bm sh1) = a_snapshot_dirty (track bm)" "sh_journal sh1 = Some j"
    using capture_one [OF assms(1,2) _ assms(4)] assms(3) by metis
  have bm2: "sh_bm sh2 = sh_bm sh1"
    using assms(5) c(7) by (auto simp: flush_wal_def sret_def in_journal_def split: option.splits prod.splits)
  have bytes: "bytes = [(g, s, cb_version e, cb_buf e)]"
    using assms(6) c(3,5) bm2 by (simp add: snapshot_bytes_if_version_def rbind_def)
  have cl: "tr_dirty (track bm) h \<noteq> None \<longleftrightarrow> h = g" for h using assms(2,3) by (auto simp: claimable_def)
  show thesis
    by (rule that [of e s]) (use c bytes bm2 assms(3) cl in \<open>auto simp: a_snapshot_dirty_def\<close>)
qed

lemma journal_truncate_ok:
  assumes "dv_ok (jn_writer j)" and "jn_queue j = []" and "jn_backlog j = []" and "needs_checkpoint j"
  shows "\<exists>j'. journal_truncate j = (Inr (), j') \<and> dv_file (jn_writer j') = [] \<and> dv_synced (jn_writer j') = [] \<and> dv_pending (jn_writer j') = []"
proof -
  obtain d where "dev_truncate (jn_writer j) = (Inr (), d)" "dv_file d = []" "dv_pending d = []" "dv_synced d = []"
    using dev_truncate_ok [OF assms(1)] by blast
  then show ?thesis
    using assms(2-4) by (simp add: journal_truncate_def truncate_send_def needs_checkpoint_def worker_drain_def run_worker_def
        run_command_def last_result_def truncate_acked_def Let_def)
qed

lemma maybe_truncate_ok:
  assumes "sh_journal sh = Some j" and "dv_ok (jn_writer j)" and "jn_queue j = []" and "jn_backlog j = []" and "needs_checkpoint j"
    and "all_settled (sh_bm sh)"
  shows "\<exists>j'. maybe_truncate sh = (Inr (), sh\<lparr>sh_journal := Some j'\<rparr>) \<and> dv_file (jn_writer j') = [] \<and> dv_synced (jn_writer j') = []"
  using assms journal_truncate_ok [OF assms(2-5)] by (auto simp: maybe_truncate_def in_journal_def)

text \<open>C36. A manual checkpoint can drop a changed blob and the log with it. Let one blob be dirty. The checkpoint captures and
  clones it; before it writes, another thread takes and releases the blob's exclusive latch without changing it, as a
  put_if_absent on an existing key does. The write-through then reports the entry as stale and retires it, the checkpoint does
  not look at the status, and it ends with Ok: the store is as before the checkpoint, nothing is dirty, in flight or
  pending, and the log is empty.\<close>

theorem manual_checkpoint_drops_touched_blob:
  assumes "bm_wf bm" and "claimable (track bm) = {g}" and "\<forall>h. tr_flushing (track bm) h = None \<and> tr_pending (track bm) h = None"
    and "capture_intent \<lparr>sh_bm = bm, sh_journal = Some j\<rparr> = (Inr (snap, pending, versioned, up), sh1)"
    and "flush_wal up sh1 = (Inr (), sh2)" and "clone_checkpoint_bytes versioned (sh_bm sh2) = Inr (Some bytes)"
    and "sh_journal sh2 = Some j2" and "dv_ok (jn_writer j2)" and "jn_queue j2 = [] \<and> jn_backlog j2 = []" and "needs_checkpoint j2"
    and "finish_checkpoint_snapshot pending bytes (on_bm (touch g) sh2) = (Inr (), sh3)"
  shows "bs_blobs (bm_store (sh_bm sh3)) = bs_blobs (bm_store bm) \<and> all_settled (sh_bm sh3)
    \<and> map_option cb_buf (tr_cache (track (sh_bm sh3)) g) = map_option cb_buf (tr_cache (track bm) g)
    \<and> (\<exists>j3. sh_journal sh3 = Some j3 \<and> dv_file (jn_writer j3) = [] \<and> dv_synced (jn_writer j3) = [])"
proof -
  obtain s e where c: "pending = []" "cached_at (sh_bm sh2) g = Some e" "bm_wf (sh_bm sh2)" "bytes = [(g, s, cb_version e, cb_buf e)]"
      "track (sh_bm sh2) = a_snapshot_dirty (track bm)" and fl: "tr_flushing (track (sh_bm sh2)) g = Some 1"
      "\<forall>h. h \<noteq> g \<longrightarrow> tr_flushing (track (sh_bm sh2)) h = None" "\<forall>h. tr_dirty (track (sh_bm sh2)) h = None"
      "\<forall>h. tr_pending (track (sh_bm sh2)) h = None"
    using clone_one [OF assms(1-6)] by metis
  let ?sh = "on_bm (touch g) sh2" and ?e = "e\<lparr>cb_version := cb_version e + 1\<rparr>"
  have t: "track (sh_bm ?sh) = (a_snapshot_dirty (track bm))\<lparr>tr_cache := (tr_cache (track bm))(g \<mapsto> core ?e)\<rparr>"
    unfolding on_bm_def touch_def using c(2,5) by (simp add: track_upd_cached a_snapshot_dirty_def)
  have wf: "bm_wf (sh_bm ?sh)" and e': "cached_at (sh_bm ?sh) g = Some ?e" using c(2,3) by (simp_all add: on_bm_def touch_def)
  have fl': "tr_flushing (track (sh_bm ?sh)) g = Some 1" "\<forall>h. h \<noteq> g \<longrightarrow> tr_flushing (track (sh_bm ?sh)) h = None"
      "\<forall>h. tr_dirty (track (sh_bm ?sh)) h = None" "\<forall>h. tr_pending (track (sh_bm ?sh)) h = None"
    using fl by (simp_all add: t c(5))
  have run: "finish_checkpoint_snapshot [] [(g, s, cb_version e, cb_buf e)] ?sh = (Inr (), sh3)" using assms(11) c(1,4) by simp
  note R = finish_stale [OF wf e' _ fl' run, simplified]
  have store: "bs_blobs (bm_store (sh_bm ?sh)) = bs_blobs (bm_store bm)"
    using arg_cong [OF t, of tr_store] by (simp add: track_sel a_snapshot_dirty_def)
  have "sh_journal (?sh\<lparr>sh_bm := sh_bm sh3\<rparr>) = Some j2" using assms(7) by (simp add: on_bm_def)
  from maybe_truncate_ok [OF this assms(8)] assms(9,10) R(3) obtain j3 where
    j3: "maybe_truncate (?sh\<lparr>sh_bm := sh_bm sh3\<rparr>) = (Inr (), ?sh\<lparr>sh_bm := sh_bm sh3, sh_journal := Some j3\<rparr>)"
      "dv_file (jn_writer j3) = []" "dv_synced (jn_writer j3) = []" by auto
  then have "sh_journal sh3 = Some j3" using R(5) by (metis Pair_inject shared.select_convs(2) shared.surjective shared.update_convs(2))
  moreover have "map_option core (cached_at (sh_bm sh2) g) = tr_cache (track bm) g"
    using arg_cong [OF c(5), of "\<lambda>T. tr_cache T g"] by (simp add: track_sel a_snapshot_dirty_def)
  then have "map_option cb_buf (tr_cache (track bm) g) = Some (cb_buf e)" using c(2) by (metis core_sel(1) option.simps(9))
  moreover have "map_option cb_buf (tr_cache (track (sh_bm sh3)) g) = Some (cb_buf e)" using R(4) t by simp
  ultimately show ?thesis using R(1,3) store j3(2,3) by auto
qed

text \<open>A concrete run.\<close>

definition empty_disk :: "io_outcome list \<Rightarrow> blob_store" where
  "empty_disk fs = \<lparr>bs_blobs = (\<lambda>_. None), bs_unsynced = False, bs_faults = fs\<rparr>"

lemma bm_new_view:
  "bm_wf (bm_new st n)" "track (bm_new st n) = \<lparr>tr_cache = (\<lambda>_. None), tr_dirty = (\<lambda>_. None), tr_flushing = (\<lambda>_. None),
     tr_pending = (\<lambda>_. None), tr_store = st\<rparr>"
  by (simp_all add: bm_wf_def bm_new_def shard_wf_def ms_default_def positive_def track_def mutation_shard_def Let_def)

lemma capture_one_ok:
  assumes wf: "bm_wf bm" and d: "claimable (track bm) = {g}" and c: "tr_cache (track bm) g \<noteq> None"
  shows "\<exists>snap pending versioned up sh1. capture_intent \<lparr>sh_bm = bm, sh_journal = j\<rparr> = (Inr (snap, pending, versioned, up), sh1)"
proof -
  obtain sn b1 where s1: "snapshot_dirty bm = (sn, b1)" by force
  obtain pe b2 where s2: "snapshot_pending_deletes b1 = (pe, b2)" by force
  note r1 = snapshot_dirty_refines [OF wf s1]
  note r2 = snapshot_pending_refines [OF r1(2) s2]
  have "tr_cache (track b2) g \<noteq> None" using c by (simp add: r2(1) r1(1) a_snapshot_dirty_def)
  then obtain e where e: "cached_at b2 g = Some e" by (auto simp: track_sel)
  have ok: "\<exists>vs. snapshot_dirty_versions es b2 = Inr vs" if "fst ` set es \<subseteq> {g}" for es
    using that e by (induction es) (auto simp: rbind_def)
  have "fst ` set sn \<subseteq> {g}" using r1(4) d by simp
  from ok [OF this] obtain vs where "snapshot_dirty_versions sn b2 = Inr vs" ..
  then show ?thesis using s1 s2 by (simp add: capture_intent_def Let_def)
qed

lemma finish_stale_ok:
  assumes wf: "bm_wf (sh_bm sh)" and e: "cached_at (sh_bm sh) g = Some e" "cb_version e \<noteq> v"
    and nf: "bs_faults (bm_store (sh_bm sh)) = []" and nj: "sh_journal sh = Some j" "dv_ok (jn_writer j)" "jn_queue j = []" "jn_backlog j = []"
  shows "\<exists>sh'. finish_checkpoint_snapshot [] [(g, s, v, b)] sh = (Inr (), sh')"
proof -
  let ?w = "entry_of_clone (g, s, v, b)"
  let ?b1 = "retire_write_through g s (sh_bm sh)"
  have w: "write_through_batch [?w] (sh_bm sh) = (Inr [Stale], ?b1)"
    using write_through_stale [OF wf, of ?w e v] e by (simp add: entry_of_clone_def)
  have "bm_store ?b1 = bm_store (sh_bm sh)" by (simp add: retire_write_through_def Let_def)
  then obtain bm2 where f: "flush_inner ?b1 = (Inr (), bm2)" using nf by (simp add: flush_inner_def on_store_def store_flush_def io_next_def)
  have "\<exists>sh'. maybe_truncate (sh\<lparr>sh_bm := bm2\<rparr>) = (Inr (), sh')"
    using nj journal_truncate_ok [of j] by (auto simp: maybe_truncate_def in_journal_def)
  then show ?thesis
    using w f by (simp add: finish_checkpoint_snapshot_def write_checkpoint_bytes_def in_bm_def Let_def)
qed

definition logged :: journal where
  "logged = run_worker 0 (snd (submit [1] False (journal_open (fresh_device []))))"

lemma logged_flush:
  obtains j where "journal_flush (queued_work logged) logged = (Inr (), j)" and "dv_ok (jn_writer j)"
    and "jn_queue j = [] \<and> jn_backlog j = []" and "needs_checkpoint j" and "dv_synced (jn_writer j) = [1]"
proof -
  let ?j = "snd (submit [1] False (journal_open (fresh_device [])))"
  have j: "dv_ok (jn_writer ?j)" "jn_backlog ?j = []" "jn_queue ?j = [Append [1] 1 False]" "queued_work ?j = 1" "checkpointed_work ?j = 0"
      "flushed_work ?j = 0" "jn_writer ?j = fresh_device []"
    by (simp_all add: submit_fields fresh_journal fresh_device_view)
  obtain l where l: "logged = l" "jn_queue l = []" "jn_backlog l = []" "queued_work l = 1" "checkpointed_work l = 0" "flushed_work l = 0"
      "dv_file (jn_writer l) @ dv_pending (jn_writer l) = [1]" "dv_ok (jn_writer l)"
    by (rule lone_append [OF j(1-3), of 0]) (simp add: j fresh_device_view logged_def)
  obtain d where d: "dev_flush (jn_writer l) = (Inr (), d)" "dv_synced d = [1]" "dv_ok d"
    using dev_flush_ok [OF l(8)] l(7) by auto
  show thesis
    by (rule that [of "l\<lparr>jn_queue := [], jn_writer := d, flushed_work := 1, jn_acks := jn_acks l @ [FlushAck 1 (Inr ())]\<rparr>"])
      (use d l(2-6) in \<open>simp_all add: l(1) journal_flush_def flush_up_to_def worker_drain_def run_worker_def run_command_def
        last_result_def needs_checkpoint_def Let_def\<close>)
qed

definition dirty_cache :: "blob_guid \<Rightarrow> buf \<Rightarrow> io_outcome list \<Rightarrow> buffer_manager" where
  "dirty_cache g b fs = install_new_blob g b 5 (bm_new (empty_disk fs) 4)"

lemma dirty_cache_view:
  "bm_wf (dirty_cache g b fs)" "claimable (track (dirty_cache g b fs)) = {g}"
  "\<forall>h. tr_flushing (track (dirty_cache g b fs)) h = None \<and> tr_pending (track (dirty_cache g b fs)) h = None"
  "tr_cache (track (dirty_cache g b fs)) g = Some (core (cached_blob_new b))" "bm_store (dirty_cache g b fs) = empty_disk fs"
proof -
  have t: "track (dirty_cache g b fs) = a_install g b 5 (track (bm_new (empty_disk fs) 4))" "bm_wf (dirty_cache g b fs)"
    using install_refines [OF bm_new_view(1)] by (simp_all add: dirty_cache_def)
  show "bm_wf (dirty_cache g b fs)" "claimable (track (dirty_cache g b fs)) = {g}"
    "\<forall>h. tr_flushing (track (dirty_cache g b fs)) h = None \<and> tr_pending (track (dirty_cache g b fs)) h = None"
    "tr_cache (track (dirty_cache g b fs)) g = Some (core (cached_blob_new b))"
    using t by (auto simp: a_install_def bm_new_view claimable_def min_into_def)
  show "bm_store (dirty_cache g b fs) = empty_disk fs"
    using arg_cong [OF t(1), of tr_store] by (simp add: track_sel a_install_def bm_new_view)
qed

lemma prefix_run:
  obtains snap versioned up sh1 sh2 s e j2 where
    "capture_intent \<lparr>sh_bm = dirty_cache g b fs, sh_journal = Some logged\<rparr> = (Inr (snap, [], versioned, up), sh1)"
    "flush_wal up sh1 = (Inr (), sh2)" "clone_checkpoint_bytes versioned (sh_bm sh2) = Inr (Some [(g, s, cb_version e, cb_buf e)])"
    "cached_at (sh_bm sh2) g = Some e" "core e = core (cached_blob_new b)" "bm_wf (sh_bm sh2)" "bm_store (sh_bm sh2) = empty_disk fs"
    "sh_journal sh2 = Some j2" "dv_ok (jn_writer j2)" "jn_queue j2 = [] \<and> jn_backlog j2 = []" "needs_checkpoint j2"
proof -
  note V = dirty_cache_view [of g b fs]
  obtain snap pending versioned up sh1 where
    c: "capture_intent \<lparr>sh_bm = dirty_cache g b fs, sh_journal = Some logged\<rparr> = (Inr (snap, pending, versioned, up), sh1)"
    using capture_one_ok [OF V(1,2)] V(4) by fastforce
  obtain s e where o: "pending = []" "cached_at (sh_bm sh1) g = Some e" "bm_wf (sh_bm sh1)"
      "versioned = [\<lparr>ds_guid = g, ds_expected_seq = s, ds_content_version = cb_version e\<rparr>]"
      "track (sh_bm sh1) = a_snapshot_dirty (track (dirty_cache g b fs))" "sh_journal sh1 = Some logged" "up = Some (queued_work logged)"
  proof (rule capture_one [OF V(1,2) _ c])
    show "\<forall>h. tr_pending (track (dirty_cache g b fs)) h = None" using V(3) by simp
  qed (use that in simp)
  obtain j2 where j2: "journal_flush (queued_work logged) logged = (Inr (), j2)" "dv_ok (jn_writer j2)"
      "jn_queue j2 = [] \<and> jn_backlog j2 = []" "needs_checkpoint j2" using logged_flush by blast
  have core: "core e = core (cached_blob_new b)"
    using arg_cong [OF o(5), of "\<lambda>T. tr_cache T g"] V(4) o(2) by (auto simp: track_sel a_snapshot_dirty_def)
  have k: "clone_checkpoint_bytes versioned (sh_bm sh1) = Inr (Some [(g, s, cb_version e, cb_buf e)])"
    using o(2,4) by (simp add: snapshot_bytes_if_version_def rbind_def)
  have st: "bm_store (sh_bm sh1) = empty_disk fs"
    using arg_cong [OF o(5), of tr_store] V(5) by (simp add: track_sel a_snapshot_dirty_def)
  show thesis
    by (rule that [of snap versioned up sh1 "sh1\<lparr>sh_journal := Some j2\<rparr>" s e j2])
      (use c o j2 k st core in \<open>simp_all add: flush_wal_def in_journal_def\<close>)
qed

theorem manual_checkpoint_drops_touched_blob_witness:
  "\<exists>g (sh :: shared). bs_blobs (bm_store (sh_bm sh)) g = None \<and> map_option cb_buf (tr_cache (track (sh_bm sh)) g) = Some frame_zero
    \<and> all_settled (sh_bm sh) \<and> (\<exists>j. sh_journal sh = Some j \<and> dv_file (jn_writer j) = [])"
proof -
  let ?g = "[0] :: blob_guid"
  note V = dirty_cache_view [of ?g frame_zero "[]"]
  obtain snap versioned up sh1 sh2 s e j2 where p:
    "capture_intent \<lparr>sh_bm = dirty_cache ?g frame_zero [], sh_journal = Some logged\<rparr> = (Inr (snap, [], versioned, up), sh1)"
    "flush_wal up sh1 = (Inr (), sh2)" "clone_checkpoint_bytes versioned (sh_bm sh2) = Inr (Some [(?g, s, cb_version e, cb_buf e)])"
    and c: "cached_at (sh_bm sh2) ?g = Some e" "bm_wf (sh_bm sh2)" "bm_store (sh_bm sh2) = empty_disk []"
    and j: "sh_journal sh2 = Some j2" "dv_ok (jn_writer j2)" "jn_queue j2 = [] \<and> jn_backlog j2 = []" "needs_checkpoint j2"
    using prefix_run by metis
  obtain sh3 where r: "finish_checkpoint_snapshot [] [(?g, s, cb_version e, cb_buf e)] (on_bm (touch ?g) sh2) = (Inr (), sh3)"
    using finish_stale_ok [of "on_bm (touch ?g) sh2" ?g "e\<lparr>cb_version := cb_version e + 1\<rparr>" "cb_version e" j2 s "cb_buf e"] c j
    by (auto simp: on_bm_def touch_def empty_disk_def)
  have "bs_blobs (bm_store (sh_bm sh3)) ?g = None \<and> map_option cb_buf (tr_cache (track (sh_bm sh3)) ?g) = Some frame_zero
    \<and> all_settled (sh_bm sh3) \<and> (\<exists>j. sh_journal sh3 = Some j \<and> dv_file (jn_writer j) = [])"
    using manual_checkpoint_drops_touched_blob [OF V(1-3) p j r] V(4,5)
    by (auto simp: empty_disk_def cached_blob_new_def core_def)
  then show ?thesis by blast
qed

section \<open>A failed sync\<close>

text \<open>The end of a manual checkpoint whose only entry is written while the sync that follows fails.\<close>

lemma finish_unsynced:
  assumes e: "cached_at (sh_bm sh) g = Some e" "cb_version e = v" "\<not> cb_locked e"
    and io: "bs_faults (bm_store (sh_bm sh)) = IoOk # IoError n # fs"
  shows "\<exists>st. finish_checkpoint_snapshot [] [(g, s, v, b)] sh
      = (Inl io_error, sh\<lparr>sh_bm := (retire_write_through g s (sh_bm sh))\<lparr>bm_store := st\<rparr>\<rparr>)
    \<and> bs_blobs st = (blobs_of (sh_bm sh))(g \<mapsto> b) \<and> bs_unsynced st \<and> bs_faults st = fs"
proof -
  let ?st1 = "put_images [(g, b)] ((bm_store (sh_bm sh))\<lparr>bs_faults := IoError n # fs\<rparr>)"
  let ?b1 = "retire_write_through g s ((sh_bm sh)\<lparr>bm_store := ?st1\<rparr>)"
  have w: "write_through_batch [entry_of_clone (g, s, v, b)] (sh_bm sh) = (Inr [Written], ?b1)"
    using e io by (simp add: write_through_batch_def write_snapshot_is_current_def validate_content_version_def rbind_def
        retire_all_def entry_of_clone_def on_store_def store_write_blobs_def io_next_def)
  have st1: "bm_store ?b1 = ?st1" by (simp add: retire_write_through_def Let_def)
  have f: "flush_inner ?b1 = (Inl io_error, ?b1\<lparr>bm_store := ?st1\<lparr>bs_faults := fs\<rparr>\<rparr>)"
    by (simp add: flush_inner_def on_store_def store_flush_def io_next_def st1) (simp add: put_images_def)
  have "?b1\<lparr>bm_store := ?st1\<lparr>bs_faults := fs\<rparr>\<rparr> = (retire_write_through g s (sh_bm sh))\<lparr>bm_store := ?st1\<lparr>bs_faults := fs\<rparr>\<rparr>"
    by (simp add: retire_write_through_def Let_def set_shard_def upd_cached_def mutation_shard_def split: option.splits)
  then show ?thesis using w f
    by (intro exI [of _ "?st1\<lparr>bs_faults := fs\<rparr>"])
      (simp add: finish_checkpoint_snapshot_def write_checkpoint_bytes_def in_bm_def on_bm_def Let_def put_images_def)
qed

text \<open>C37. A manual checkpoint whose sync of the store fails stops tracking what it wrote. Let one blob be dirty, let its image be
  written and let the sync fail. The checkpoint reports the error, but the write-through has already retired the blob and only
  pending deletes are put back: nothing is dirty, in flight or pending while the store is unsynced, and the next truncation
  check of the background checkpointer empties the log without a sync.\<close>

theorem failed_sync_lets_log_go:
  assumes "bm_wf bm" and "claimable (track bm) = {g}" and "\<forall>h. tr_flushing (track bm) h = None \<and> tr_pending (track bm) h = None"
    and "capture_intent \<lparr>sh_bm = bm, sh_journal = Some j\<rparr> = (Inr (snap, pending, versioned, up), sh1)"
    and "flush_wal up sh1 = (Inr (), sh2)" and "clone_checkpoint_bytes versioned (sh_bm sh2) = Inr (Some bytes)"
    and "map_option cb_locked (tr_cache (track (sh_bm sh2)) g) = Some False" and "bs_faults (bm_store (sh_bm sh2)) = IoOk # IoError n # fs"
    and "sh_journal sh2 = Some j2" and "dv_ok (jn_writer j2)" and "jn_queue j2 = [] \<and> jn_backlog j2 = []" and "needs_checkpoint j2"
    and "finish_checkpoint_snapshot pending bytes sh2 = (r, sh3)" and "maybe_truncate sh3 = (r', sh4)"
  shows "r = Inl io_error \<and> all_settled (sh_bm sh3) \<and> r' = Inr () \<and> sh_bm sh4 = sh_bm sh3 \<and> bm_needs_flush (sh_bm sh4)
    \<and> (\<exists>j3. sh_journal sh4 = Some j3 \<and> dv_file (jn_writer j3) = [] \<and> dv_synced (jn_writer j3) = [])"
proof -
  obtain s e where c: "pending = []" "cached_at (sh_bm sh2) g = Some e" "bm_wf (sh_bm sh2)"
      "bytes = [(g, s, cb_version e, cb_buf e)]" and fl: "tr_flushing (track (sh_bm sh2)) g = Some 1"
      "\<forall>h. h \<noteq> g \<longrightarrow> tr_flushing (track (sh_bm sh2)) h = None" "\<forall>h. tr_dirty (track (sh_bm sh2)) h = None"
      "\<forall>h. tr_pending (track (sh_bm sh2)) h = None"
    using clone_one [OF assms(1-6)] by metis
  have u: "\<not> cb_locked e" using assms(7) c(2) by (simp add: track_sel)
  let ?b1 = "retire_write_through g s (sh_bm sh2)"
  from finish_unsynced [where v = "cb_version e" and s = s and b = "cb_buf e", OF c(2) refl u assms(8)] obtain st
    where run: "finish_checkpoint_snapshot [] [(g, s, cb_version e, cb_buf e)] sh2
      = (Inl io_error, sh2\<lparr>sh_bm := ?b1\<lparr>bm_store := st\<rparr>\<rparr>)" "bs_unsynced st" by blast
  then have sh3: "r = Inl io_error" "sh3 = sh2\<lparr>sh_bm := ?b1\<lparr>bm_store := st\<rparr>\<rparr>" using assms(13) c(1,4) by auto
  have wf1: "bm_wf ?b1" and t1: "track ?b1 = a_retire g s (track (sh_bm sh2))" using retire_refines [OF c(3)] by auto
  have wf3: "bm_wf (sh_bm sh3)" using wf1 sh3 by simp
  have "tr_dirty (track (sh_bm sh3)) h = None \<and> tr_flushing (track (sh_bm sh3)) h = None \<and> tr_pending (track (sh_bm sh3)) h = None" for h
    using fl sh3 by (cases "h = g") (simp_all add: t1 a_retire_def unref_def)
  then have settled: "all_settled (sh_bm sh3)" using all_settled_iff [OF wf3] by simp
  have "sh_journal sh3 = Some j2" using sh3 assms(9) by simp
  from maybe_truncate_ok [OF this assms(10) _ _ assms(12) settled] assms(11) obtain j3 where
    "maybe_truncate sh3 = (Inr (), sh3\<lparr>sh_journal := Some j3\<rparr>)" "dv_file (jn_writer j3) = []" "dv_synced (jn_writer j3) = []" by blast
  then show ?thesis using assms(14) sh3 settled run(2) by (auto simp: bm_needs_flush_def store_needs_flush_def)
qed

theorem failed_sync_lets_log_go_witness:
  "\<exists>g (sh :: shared). blobs_of (sh_bm sh) g = Some frame_zero \<and> bm_needs_flush (sh_bm sh) \<and> all_settled (sh_bm sh)
    \<and> (\<exists>j. sh_journal sh = Some j \<and> dv_file (jn_writer j) = [])"
proof -
  let ?g = "[0] :: blob_guid" and ?fs = "[IoOk, IoError 0]"
  note V = dirty_cache_view [of ?g frame_zero ?fs]
  obtain snap versioned up sh1 sh2 s e j2 where p:
    "capture_intent \<lparr>sh_bm = dirty_cache ?g frame_zero ?fs, sh_journal = Some logged\<rparr> = (Inr (snap, [], versioned, up), sh1)"
    "flush_wal up sh1 = (Inr (), sh2)" "clone_checkpoint_bytes versioned (sh_bm sh2) = Inr (Some [(?g, s, cb_version e, cb_buf e)])"
    and c: "cached_at (sh_bm sh2) ?g = Some e" "core e = core (cached_blob_new frame_zero)" "bm_store (sh_bm sh2) = empty_disk ?fs"
    and j: "sh_journal sh2 = Some j2" "dv_ok (jn_writer j2)" "jn_queue j2 = [] \<and> jn_backlog j2 = []" "needs_checkpoint j2"
    using prefix_run [of ?g frame_zero ?fs] by metis
  have io: "bs_faults (bm_store (sh_bm sh2)) = IoOk # IoError 0 # []" using c(3) by (simp add: empty_disk_def)
  have e: "\<not> cb_locked e" "cb_buf e = frame_zero" using arg_cong [OF c(2), of cb_locked] arg_cong [OF c(2), of cb_buf] by (simp_all add: cached_blob_new_def)
  from finish_unsynced [where v = "cb_version e" and s = s and b = "cb_buf e", OF c(1) refl e(1) io] obtain sh3 where
    r: "finish_checkpoint_snapshot [] [(?g, s, cb_version e, cb_buf e)] sh2 = (Inl io_error, sh3)" "blobs_of (sh_bm sh3) ?g = Some frame_zero"
    using e(2) by auto
  have l: "map_option cb_locked (tr_cache (track (sh_bm sh2)) ?g) = Some False" using c(1) e(1) by (simp add: track_sel)
  obtain r' sh4 where m: "maybe_truncate sh3 = (r', sh4)" by force
  have "blobs_of (sh_bm sh4) ?g = Some frame_zero \<and> bm_needs_flush (sh_bm sh4) \<and> all_settled (sh_bm sh4)
    \<and> (\<exists>j. sh_journal sh4 = Some j \<and> dv_file (jn_writer j) = [])"
    using failed_sync_lets_log_go [OF V(1-3) p l io j r(1) m] r(2) by auto
  then show ?thesis by blast
qed

section \<open>Two epochs with the same blob\<close>

text \<open>The I/O worker commits the epochs that wait in its queue together. One map keyed by the blob collects what a failed
  batch has to give back, so a blob of two epochs gives back one of its two references.\<close>

lemma pair_write_fails:
  assumes "be_entry a = Some w1" "be_entry b = Some w2" "be_children a = []" "be_children b = []" "\<not> be_flushed a" "\<not> be_flushed b"
    and "write_through_batch [w1, w2] bm = (Inl e, bm1)"
  shows "\<exists>es. write_entries_in_dependency_order [a, b] n bm = (Inl e, es, bm1) \<and> map be_guid es = [be_guid a, be_guid b]"
proof -
  let ?ws = "\<lparr>ws_entries = [a, b], ws_remaining_by_guid = count_remaining [a, b],
    ws_durable_this_batch = {}, ws_dirty_flushed_by_epoch = replicate n 0\<rparr>"
  have u: "[0..<Suc (Suc 0)] = [0, 1]" by (simp add: upt_rec)
  have w: "ready_wave ?ws bm = [0, 1]" using assms by (simp add: ready_wave_def Let_def u)
  have t: "take_wave [0, 1] [a, b] = (Inr [w1, w2], [a\<lparr>be_entry := None\<rparr>, b\<lparr>be_entry := None\<rparr>])" using assms by simp
  have "write_waves ?ws bm = (Inl e, ?ws\<lparr>ws_entries := [a\<lparr>be_entry := None\<rparr>, b\<lparr>be_entry := None\<rparr>]\<rparr>, bm1)"
    using w t assms(7) by (subst write_waves.simps) simp
  then show ?thesis by (simp add: write_entries_in_dependency_order_def)
qed

text \<open>C38. A failed batch leaks a reference of a blob that two of its epochs hold. Let the I/O worker commit two epochs with one
  write each for the same blob, which has two references in flight, and let the write fail. Both epochs are reported as
  failed and the blob is dirty again, but one reference stays in flight and no epoch holds it, so the truncation guard stays
  false.\<close>

theorem coalesced_epochs_leak_reference:
  assumes "bm_wf bm" and "tr_flushing (track bm) g = Some 2" and "tr_pending (track bm) g = None"
    and "wt_guid w1 = g \<and> wt_guid w2 = g" and "collect_entry_children fuel w1 = Inr [] \<and> collect_entry_children fuel w2 = Inr []"
    and "write_through_batch [w1, w2] bm = (Inl e, bm1)"
    and "commit_epoch_batch fuel [\<lparr>ce_entries = [w1], ce_pending = []\<rparr>, \<lparr>ce_entries = [w2], ce_pending = []\<rparr>] bm = (reports, bm')"
  shows "map er_result reports = [Inl e, Inl (Internal ''checkpoint epoch group failed'')]
    \<and> tr_dirty (track bm') g \<noteq> None \<and> tr_flushing (track bm') g = Some 1 \<and> \<not> all_settled bm'"
proof -
  let ?eps = "[\<lparr>ce_entries = [w1], ce_pending = []\<rparr>, \<lparr>ce_entries = [w2], ce_pending = []\<rparr>] :: checkpoint_epoch list"
  let ?a = "batch_entry_of fuel 0 w1" and ?b = "batch_entry_of fuel 1 w2"
  have es: "collect_entries fuel ?eps = [?a, ?b]" by (simp add: collect_entries_def)
  have ce: "collect_error fuel ?eps = None" using assms(5) by (simp add: collect_error_def)
  obtain es' where w: "write_entries_in_dependency_order [?a, ?b] (length ?eps) bm = (Inl e, es', bm1)" "map be_guid es' = [g, g]"
    using pair_write_fails [of ?a w1 ?b w2 bm e bm1 "length ?eps"] assms(4-6) by (auto simp: batch_entry_of_def)
  have b1: "bm_wf bm1 \<and> tr_flushing (track bm1) = tr_flushing (track bm) \<and> tr_pending (track bm1) = tr_pending (track bm)"
    using assms(6,1) by (cases rule: write_through_cases) auto
  let ?m = "entries_map es'"
  have "be_guid ` set es' = {g}" using arg_cong [OF w(2), of set] by simp
  then have keys: "fst ` set ?m = {g}" "distinct (map fst ?m)" using entries_map_keys [of es'] by simp_all
  have t: "track (restore_dirty ?m bm1) = fold a_restore_one ?m (track bm1)" "bm_wf (restore_dirty ?m bm1)"
    using restore_dirty_refines b1 by auto
  have "es' \<noteq> []" using w(2) by auto
  then have run: "reports = reports_with_error (map progress_of ?eps) (replicate 2 0) e"
      "bm' = restore_pending_deletes [] (restore_dirty ?m bm1)"
    using assms(7) ce es w(1) by (auto simp: commit_epoch_batch_def Let_def restore_batch_entries_def restore_all_pending_def
        extend_map_def numeral_2_eq_2)
  have g: "tr_flushing (track bm') g = Some 1" "tr_dirty (track bm') g \<noteq> None" "bm_wf bm'"
    using restored_sel(1,4) [OF keys(2), where T = "track bm1" and g = g] keys(1) t b1 assms(2,3) run(2)
    by (simp_all add: drop_ref_def)
  moreover have "\<not> all_settled bm'" using g all_settled_iff [OF g(3)] by auto
  ultimately show ?thesis using run(1) by (simp add: reports_with_error_def numeral_2_eq_2)
qed

lemma childless_frame: "\<exists>b. collect_blob_children_from_frame (Suc n) b = Inr []"
proof -
  have "length (replicate 16 0 :: bytes) = 16" by simp
  then obtain b where "root_slot b = 1" "node_at b 1 EmptyRoot DATA_AREA_START" using frame_init_spec by metis
  then have "collect_blob_children_from_frame (Suc n) b = Inr []" by (simp add: collect_blob_children_from_frame_def resolve_typed_node_at)
  then show ?thesis by blast
qed

lemma claimed_twice:
  obtains bm where "bm_wf bm" "tr_flushing (track bm) g = Some 2" "tr_pending (track bm) g = None"
    "tr_cache (track bm) g = Some (core (cached_blob_new b))" "bm_store bm = empty_disk fs"
proof -
  note V = dirty_cache_view [of g b fs]
  obtain s1 b1 where 1: "snapshot_dirty (dirty_cache g b fs) = (s1, b1)" by force
  note r1 = snapshot_dirty_refines [OF V(1) 1]
  let ?b2 = "mark_dirty_with_hint g 6 b1"
  note r2 = mark_dirty_refines [OF r1(2), of g 6]
  obtain s3 b3 where 3: "snapshot_dirty ?b2 = (s3, b3)" by force
  note r3 = snapshot_dirty_refines [OF r2(2) 3]
  have d: "tr_dirty (track (dirty_cache g b fs)) g \<noteq> None" using V(2) by (auto simp: claimable_def)
  have "tr_flushing (track b3) g = Some 2" "tr_pending (track b3) g = None" "tr_cache (track b3) g = Some (core (cached_blob_new b))"
    using V(3,4) d unfolding r3(1) r2(1) r1(1) by (auto simp: a_snapshot_dirty_def a_mark_dirty_def min_into_def)
  moreover have "bm_store b3 = empty_disk fs"
    using arg_cong [OF r3(1), of tr_store] V(5) unfolding r2(1) r1(1) by (simp add: track_sel a_snapshot_dirty_def a_mark_dirty_def)
  ultimately show thesis using that r3(2) by blast
qed

theorem coalesced_epochs_leak_reference_witness:
  "\<exists>g bm (reports :: checkpoint_epoch_report list).
    map er_result reports = [Inl io_error, Inl (Internal ''checkpoint epoch group failed'')]
    \<and> tr_flushing (track bm) g = Some 1 \<and> \<not> all_settled bm"
proof -
  let ?g = "[0] :: blob_guid"
  obtain b where b: "collect_blob_children_from_frame (Suc 0) b = Inr []" using childless_frame by blast
  obtain bm where bm: "bm_wf bm" "tr_flushing (track bm) ?g = Some 2" "tr_pending (track bm) ?g = None"
      "tr_cache (track bm) ?g = Some (core (cached_blob_new b))" "bm_store bm = empty_disk [IoError 0]"
    using claimed_twice by metis
  let ?w1 = "\<lparr>wt_guid = ?g, wt_bytes = b, wt_expected_seq = 5, wt_content_version = Some 0\<rparr>"
  let ?w2 = "\<lparr>wt_guid = ?g, wt_bytes = b, wt_expected_seq = 6, wt_content_version = Some 0\<rparr>"
  obtain c where c: "cached_at bm ?g = Some c" "core c = core (cached_blob_new b)" using bm(4) by (auto simp: track_sel)
  have v: "cb_version c = 0" "\<not> cb_locked c"
    using arg_cong [OF c(2), of cb_version] arg_cong [OF c(2), of cb_locked] by (simp_all add: cached_blob_new_def)
  obtain bm1 where w: "write_through_batch [?w1, ?w2] bm = (Inl io_error, bm1)"
    using c(1) v bm(5) by (simp add: write_through_batch_def write_snapshot_is_current_def validate_content_version_def rbind_def
        on_store_def store_write_blobs_def io_next_def empty_disk_def)
  obtain reports bm' where r: "commit_epoch_batch (Suc 0) [\<lparr>ce_entries = [?w1], ce_pending = []\<rparr>, \<lparr>ce_entries = [?w2], ce_pending = []\<rparr>] bm
    = (reports, bm')" by force
  have k: "collect_entry_children (Suc 0) ?w1 = Inr [] \<and> collect_entry_children (Suc 0) ?w2 = Inr []"
    using b by (simp add: collect_entry_children_def)
  have R: "map er_result reports = [Inl io_error, Inl (Internal ''checkpoint epoch group failed'')]"
      "tr_flushing (track bm') ?g = Some 1" "\<not> all_settled bm'"
    using coalesced_epochs_leak_reference [OF bm(1-3) _ k w r] by simp_all
  then show ?thesis by (intro exI [of _ ?g] exI [of _ bm'] exI [of _ reports]) simp
qed

end
