(* ===== verification/Checkpoint_Safe.thy ===== *)
theory Checkpoint_Safe
  imports Checkpoint_Gaps
begin

text \<open>
  What a commit of the I/O worker keeps: a stored blob only refers to stored blobs, and every blob
  an epoch claimed is stored as it was cloned or dirty again.
\<close>

section \<open>References\<close>

definition sample_write :: "blob_guid \<Rightarrow> buf \<Rightarrow> write_through_entry" where
  "sample_write g b = \<lparr>wt_guid = g, wt_bytes = b, wt_expected_seq = 5, wt_content_version = Some 0\<rparr>"



section \<open>Claims\<close>



end
