(* ===== verification/Checkpoint_Round.thy ===== *)
theory Checkpoint_Round
  imports Checkpoint_Gaps
begin

text \<open>
  A whole round of the checkpointer with no other thread at work: it keeps every changed blob
  tracked until it is stored, and drops the log only when everything in the cache is stored and
  synced.
\<close>

section \<open>What a commit can change\<close>

abbreviation unsynced_store :: "buffer_manager \<Rightarrow> bool" where
  "unsynced_store bm \<equiv> bs_unsynced (bm_store bm)"

text \<open>Nothing changes outside the blobs \<open>G\<close> that are written and the blobs \<open>D\<close> that are deleted; the cache stays as it is.\<close>

definition within :: "blob_guid set \<Rightarrow> blob_guid set \<Rightarrow> buffer_manager \<Rightarrow> buffer_manager \<Rightarrow> bool" where
  "within G D bm bm' \<longleftrightarrow> bm_wf bm' \<and> tr_cache (track bm') = tr_cache (track bm)
     \<and> (\<forall>g. g \<notin> G \<longrightarrow> tr_dirty (track bm') g = tr_dirty (track bm) g \<and> tr_flushing (track bm') g = tr_flushing (track bm) g)
     \<and> (\<forall>g. g \<notin> D \<longrightarrow> tr_pending (track bm') g = tr_pending (track bm) g)
     \<and> (\<forall>g. g \<notin> G \<union> D \<longrightarrow> blobs_of bm' g = blobs_of bm g)"

lemma within_refl: "bm_wf bm \<Longrightarrow> within G D bm bm"
  by (simp add: within_def)

lemma within_trans [trans]: "within G D bm bm1 \<Longrightarrow> within G D bm1 bm2 \<Longrightarrow> within G D bm bm2"
  by (simp add: within_def)

lemma within_wf: "within G D bm bm' \<Longrightarrow> bm_wf bm'"
  by (simp add: within_def)

lemma within_flush: "bm_wf bm \<Longrightarrow> flush_inner bm = (r, bm') \<Longrightarrow> within G D bm bm'"
  using flush_inner_track flush_inner_blobs by (fastforce simp: within_def)

lemma within_write:
  assumes "bm_wf bm" and "distinct (map wt_guid ws)" and "wt_guid ` set ws \<subseteq> G" and "write_through_batch ws bm = (r, bm')"
  shows "within G D bm bm'"
proof -
  note t = write_through_track [OF assms(1,2,4)]
  obtain im where im: "blobs_of bm' = put_all im (blobs_of bm)" "set im \<subseteq> image_of ` set ws"
    using write_through_puts [OF assms(4)] by blast
  have "blobs_of bm' g = blobs_of bm g" if "g \<notin> G" for g
  proof -
    have "g \<notin> fst ` set im" using im(2) assms(3) that by force
    then show ?thesis unfolding im(1) put_all_def by (simp add: map_add_dom_app_simps(3) dom_map_of_conv_image_fst)
  qed
  moreover have "g \<notin> wt_guid ` set ws" if "g \<notin> G" for g using that assms(3) by blast
  ultimately show ?thesis using t by (simp add: within_def)
qed

lemma within_restore_dirty:
  assumes "bm_wf bm" and "distinct (map fst m)" and "fst ` set m \<subseteq> G"
  shows "within G D bm (restore_dirty m bm)"
proof -
  have t: "track (restore_dirty m bm) = fold a_restore_one m (track bm)" "bm_wf (restore_dirty m bm)"
    using restore_dirty_refines [OF assms(1)] by auto
  note sel = restored_sel [OF assms(2)]
  have "tr_cache (fold a_restore_one m T) = tr_cache T" for T
    by (induction m arbitrary: T) (auto simp: a_restore_one_def)
  then show ?thesis using t sel(1,2,5) assms(3) by (auto simp: within_def)
qed

lemma restored_pending_other: "g \<notin> fst ` set ps \<Longrightarrow> tr_pending (fold a_restore_pending ps T) g = tr_pending T g"
  by (induction ps arbitrary: T) (auto simp: a_restore_pending_def min_into_def)

lemma restored_pending_in: "g \<in> fst ` set ps \<Longrightarrow> tr_pending (fold a_restore_pending ps T) g \<noteq> None"
proof (induction ps arbitrary: T)
  case (Cons p ps)
  have keep: "tr_pending (fold a_restore_pending ps T) g \<noteq> None" if "tr_pending T g \<noteq> None" for T
    using that by (induction ps arbitrary: T) (auto simp: a_restore_pending_def min_into_def split: option.splits)
  show ?case
  proof (cases "g = fst p")
    case True
    have "tr_pending (a_restore_pending p T) g \<noteq> None" using True by (simp add: a_restore_pending_def min_into_def)
    then show ?thesis using keep by simp
  next
    case False
    then show ?thesis using Cons by simp
  qed
qed simp

lemma within_restore_pending:
  assumes "bm_wf bm" and "fst ` set ps \<subseteq> D"
  shows "within G D bm (restore_pending_deletes ps bm)"
proof -
  have "tr_pending (fold a_restore_pending ps (track bm)) g = tr_pending (track bm) g" if "g \<notin> D" for g
    using that assms(2) by (intro restored_pending_other) blast
  then show ?thesis using restore_pending_refines [OF assms(1), of ps] by (simp add: within_def restored_pending_sel)
qed

lemma within_delete:
  assumes "bm_wf bm" and "g \<in> D" and "execute_pending_delete g bm = (r, bm')"
  shows "within G D bm bm'"
  using assms execute_pending_delete_track [OF assms(3)] execute_pending_delete_blobs [OF assms(3)]
  by (auto simp: within_def execute_pending_delete_def on_store_def split: prod.splits)

section \<open>Deletes\<close>

text \<open>\<open>busy\<close>: a changed or doomed blob is tracked, so the log is kept.\<close>

definition busy :: "buffer_manager \<Rightarrow> bool" where
  "busy bm \<longleftrightarrow> (\<exists>g. tr_dirty (track bm) g \<noteq> None \<or> tr_pending (track bm) g \<noteq> None)"

lemma busy_restore_pending:
  assumes "bm_wf bm" and "ps \<noteq> []"
  shows "busy (restore_pending_deletes ps bm)"
proof -
  have "fst (hd ps) \<in> fst ` set ps" using assms(2) by simp
  from restored_pending_in [OF this, of "track bm"] show ?thesis
    using restore_pending_refines [OF assms(1), of ps] by (auto simp: busy_def)
qed

lemma delete_pending_within:
  "bm_wf bm \<Longrightarrow> fst ` set ps \<subseteq> D \<Longrightarrow> delete_pending ps bm = ((failed, err), bm') \<Longrightarrow>
     within G D bm bm' \<and> fst ` set failed \<subseteq> fst ` set ps \<and> length failed \<le> length ps
     \<and> (length failed = length ps \<longrightarrow> unsynced_store bm' = unsynced_store bm)
     \<and> (distinct (map fst ps) \<longrightarrow> length failed < length ps \<longrightarrow> (\<exists>p \<in> set ps. map_of failed (fst p) = None))
     \<and> (err = None \<longleftrightarrow> failed = [])"
proof (induction ps arbitrary: bm failed err bm')
  case Nil
  then show ?case by (simp add: within_refl)
next
  case (Cons p rest)
  obtain g seq where p: "p = (g, seq)" by force
  note prems = Cons.prems [unfolded p]
  obtain r bm1 where e: "execute_pending_delete g bm = (r, bm1)" by force
  obtain f' err' bm2 where d: "delete_pending rest bm1 = ((f', err'), bm2)" by (metis prod.exhaust)
  have w: "within G D bm bm1" using within_delete [OF prems(1) _ e] prems(2) by simp
  have IH: "within G D bm1 bm2 \<and> fst ` set f' \<subseteq> fst ` set rest \<and> length f' \<le> length rest
     \<and> (length f' = length rest \<longrightarrow> unsynced_store bm2 = unsynced_store bm1)
     \<and> (distinct (map fst rest) \<longrightarrow> length f' < length rest \<longrightarrow> (\<exists>p \<in> set rest. map_of f' (fst p) = None))
     \<and> (err' = None \<longleftrightarrow> f' = [])"
    using prems(2) by (intro Cons.IH [OF within_wf [OF w] _ d]) simp
  show ?case
  proof (cases r)
    case (Inr u)
    then have o: "failed = f'" "err = err'" "bm' = bm2" using prems(3) e d by auto
    have "\<exists>p \<in> set ((g, seq) # rest). map_of failed (fst p) = None" if "distinct (map fst ((g, seq) # rest))"
    proof -
      have "g \<notin> fst ` set f'" using IH that by auto
      then show ?thesis using o(1) by (auto simp: map_of_eq_None_iff)
    qed
    moreover have "within G D bm bm2" using IH within_trans [OF w] by blast
    ultimately show ?thesis using IH unfolding o p by (simp add: subset_insertI2)
  next
    case (Inl x)
    then have o: "failed = (g, seq) # f'" "err = Some x" "bm' = bm2" using prems(3) e d by auto
    have st: "unsynced_store bm1 = unsynced_store bm"
      using e Inl by (auto simp: execute_pending_delete_def on_store_def store_delete_blob_def io_next_def
          split: prod.splits list.splits io_outcome.splits)
    have "\<exists>p \<in> set ((g, seq) # rest). map_of failed (fst p) = None"
      if n: "distinct (map fst ((g, seq) # rest))" "length f' < length rest"
    proof -
      obtain p where "p \<in> set rest" "map_of f' (fst p) = None" using IH n by auto
      then show ?thesis using o(1) n(1) by (intro bexI [of _ p]) auto
    qed
    moreover have "within G D bm bm2" using IH within_trans [OF w] by blast
    ultimately show ?thesis using IH st unfolding o p by (simp add: subset_insertI2)
  qed
qed

text \<open>The delete phase of one epoch, from a synced store.\<close>

lemma extend_map_keys: "fst ` set (extend_map m m2) = fst ` set m \<union> fst ` set m2"
  unfolding extend_map_def
proof (induction m2 arbitrary: m)
  case (Cons p m2)
  then show ?case by (cases p) (simp add: dom_update)
qed simp

lemma restore_applied_one:
  "restore_applied_pending [ep] [failed] bm
    = restore_pending_deletes (extend_map [] (filter (\<lambda>(g, _). map_of failed g = None) (ce_pending ep))) bm"
  by (simp add: restore_applied_pending_def)

lemma finish_deletes_one:
  assumes wf: "bm_wf bm" and d: "distinct (map fst (ce_pending ep))" and sync: "\<not> unsynced_store bm"
    and run: "finish_deletes [ep] fl bm = (reports, bm')"
  shows "within G (doomed [ep]) bm bm' \<and> (unsynced_store bm' \<longrightarrow> busy bm')"
proof -
  let ?ps = "ce_pending ep" and ?D = "doomed [ep]"
  have D: "?D = fst ` set ?ps" by (simp add: doomed_def)
  obtain failed err bm1 where del: "delete_pending ?ps bm = ((failed, err), bm1)" by (metis prod.exhaust)
  have P: "within G ?D bm bm1" "fst ` set failed \<subseteq> fst ` set ?ps" "length failed \<le> length ?ps"
      "length failed = length ?ps \<Longrightarrow> unsynced_store bm1 = unsynced_store bm"
      "length failed < length ?ps \<Longrightarrow> \<exists>p \<in> set ?ps. map_of failed (fst p) = None"
    using delete_pending_within [OF wf _ del, of ?D G] d D by auto
  define bm2 where "bm2 = (if failed = [] then bm1 else restore_pending_deletes failed bm1)"
  have "within G ?D bm1 bm2"
    using within_restore_pending [OF within_wf [OF P(1)]] within_refl [OF within_wf [OF P(1)]] P(2) D by (simp add: bm2_def)
  then have w2: "within G ?D bm bm2" by (rule within_trans [OF P(1)])
  have del2: "delete_epochs [ep] bm = ([(failed, err)], bm2)" using del by (simp add: bm2_def)
  have st2: "bm_store bm2 = bm_store bm1" by (simp add: bm2_def)
  show ?thesis
  proof (cases "length failed < length ?ps")
    case True
    obtain q bm3 where f: "flush_inner bm2 = (q, bm3)" by force
    have w3: "within G ?D bm bm3" using within_trans [OF w2 within_flush [OF within_wf [OF w2] f]] .
    show ?thesis
    proof (cases q)
      case (Inr u)
      have "\<not> unsynced_store bm3" using f Inr by (auto elim: flush_inner_cases)
      then show ?thesis using run True del2 f Inr w3 by (simp add: finish_deletes_def Let_def)
    next
      case (Inl e)
      let ?m = "extend_map [] (filter (\<lambda>(g, _). map_of failed g = None) ?ps)"
      have bm': "bm' = restore_pending_deletes ?m bm3"
        using run True del2 f Inl by (simp add: finish_deletes_def Let_def restore_applied_one)
      have keys: "fst ` set ?m \<subseteq> ?D" unfolding extend_map_keys D by auto
      obtain p where "p \<in> set ?ps" "map_of failed (fst p) = None" using P(5) True by blast
      then have "fst p \<in> fst ` set ?m" unfolding extend_map_keys by force
      then have "?m \<noteq> []" by auto
      then show ?thesis
        using busy_restore_pending [OF within_wf [OF w3]] within_trans [OF w3 within_restore_pending [OF within_wf [OF w3] keys]]
        by (simp add: bm')
    qed
  next
    case False
    then have "bm' = bm2" using run del2 by (simp add: finish_deletes_def Let_def)
    moreover have "\<not> unsynced_store bm2" using P(3,4) False st2 sync by (simp add: le_less)
    ultimately show ?thesis using w2 by simp
  qed
qed

section \<open>The write loop\<close>

lemma apply_statuses_stale: "apply_statuses ps ws = (True, ws') \<Longrightarrow> \<exists>j. (j, Stale) \<in> set ps"
proof (induction ps ws arbitrary: ws' rule: apply_statuses.induct)
  case (2 idx status rest ws)
  then show ?case by (cases status) (auto split: prod.splits)
qed simp

definition loop_frame :: "blob_guid list \<Rightarrow> blob_guid set \<Rightarrow> buffer_manager \<Rightarrow> batch_write_report res \<Rightarrow> wave_state \<Rightarrow> buffer_manager \<Rightarrow> bool" where
  "loop_frame gs D bm0 r ws bm \<longleftrightarrow> within (set gs) D bm0 bm
     \<and> (\<forall>rep. r = Inr rep \<longrightarrow> (if bw_deferred rep then \<exists>e \<in> set (ws_entries ws). \<not> be_flushed e else gs \<noteq> [] \<longrightarrow> \<not> unsynced_store bm))"

lemma write_waves_frame:
  assumes "settling img (ws_entries ws) bm" and "map be_guid (ws_entries ws) = gs" and "\<forall>e \<in> set (ws_entries ws). \<not> be_flushed e"
    and run: "write_waves ws bm = (r, ws', bm')"
  shows "loop_frame gs D bm r ws' bm'"
proof -
  let ?I = "\<lambda>ws b. settling img (ws_entries ws) b \<and> map be_guid (ws_entries ws) = gs \<and> within (set gs) D bm b
    \<and> ((\<exists>e \<in> set (ws_entries ws). be_flushed e) \<longrightarrow> \<not> unsynced_store b)"
  have wf: "bm_wf bm" using assms(1) by (simp add: settling_def settled_def)
  have I: "?I ws bm" using assms(1-3) within_refl [OF wf] by blast
  have step: "within (set gs) D bm b1" if I: "?I ws b" and t: "take_wave (ready_wave ws b) (ws_entries ws) = (Inr wes, es)"
      and w: "write_through_batch wes b = (q, b1)" for ws b wes es q b1
  proof -
    note s = I [THEN conjunct1] and gs = I [THEN conjunct2, THEN conjunct1] and wi = I [THEN conjunct2, THEN conjunct2, THEN conjunct1]
    have eq: "wt_guid ` set wes = (\<lambda>i. be_guid (ws_entries ws ! i)) ` set (ready_wave ws b)"
      using arg_cong [OF wave_writes(1) [OF s t], of set] by simp
    have mem: "be_guid (ws_entries ws ! i) \<in> set gs" if "i \<in> set (ready_wave ws b)" for i
    proof -
      have "ws_entries ws ! i \<in> set (ws_entries ws)" using ready_waveD [OF that] by simp
      then show ?thesis using gs by auto
    qed
    have "wt_guid ` set wes \<subseteq> set gs" unfolding eq by (rule image_subsetI) (rule mem)
    from within_trans [OF wi within_write [OF within_wf [OF wi] wave_writes(3) [OF s t] this w]] show ?thesis .
  qed
  have flushed: "within (set gs) D bm b2" if "?I ws b" "take_wave (ready_wave ws b) (ws_entries ws) = (Inr wes, es)"
      "write_through_batch wes b = (q, b1)" "flush_inner b1 = (q', b2)" for ws b wes es q q' b1 b2
    by (rule within_trans [OF step [OF that(1-3)] within_flush [OF within_wf [OF step [OF that(1-3)]] that(4)]])
  show ?thesis
  proof (rule write_waves_rule [where I = ?I and Q = "loop_frame gs D bm", OF I run], goal_cases idle taken unwritten unsynced stale round)
    case (idle ws b)
    note gs = idle(1) [THEN conjunct2, THEN conjunct1] and wi = idle(1) [THEN conjunct2, THEN conjunct2, THEN conjunct1]
      and sy = idle(1) [THEN conjunct2, THEN conjunct2, THEN conjunct2, THEN mp]
    show ?case
    proof (cases "list_ex (\<lambda>e. \<not> be_flushed e) (ws_entries ws)")
      case True
      then show ?thesis using wi by (simp add: loop_frame_def list_ex_iff)
    next
      case False
      have "\<not> unsynced_store b" if "gs \<noteq> []"
      proof (rule sy)
        show "\<exists>e \<in> set (ws_entries ws). be_flushed e" using that gs False by (cases "ws_entries ws") auto
      qed
      then show ?thesis using wi False by (simp add: loop_frame_def)
    qed
  next
    case (taken ws b e es)
    then show ?case unfolding loop_frame_def by blast
  next
    case (unwritten ws b wes es e b1)
    then show ?case using step [OF unwritten] by (simp add: loop_frame_def)
  next
    case (unsynced ws b wes es e sts b1 b2)
    then show ?case using flushed [OF unsynced] by (simp add: loop_frame_def)
  next
    case (stale ws b wes es sts b1 b2 ws1)
    obtain j where j: "(j, Stale) \<in> set (zip (ready_wave ws b) sts)" using apply_statuses_stale [OF stale(5)] by blast
    have jw: "j \<in> set (ready_wave ws b)" using j by (rule set_zip_leftD)
    have len: "length es = length (ws_entries ws)" "map bare es = map bare (ws_entries ws)"
      using take_wave_keeps [of "ready_wave ws b" "ws_entries ws"] stale(2) by (metis snd_conv length_map, metis snd_conv)
    have jl: "j < length (ws_entries ws)" "\<not> be_flushed (ws_entries ws ! j)" using ready_waveD [OF jw] by auto
    have "\<not> be_flushed (es ! j)" using bare_eqD(1) [OF bare_nth [OF len(2) jl(1)]] jl(2) by simp
    moreover have "(j, Written) \<notin> set (zip (ready_wave ws b) sts)"
      using j distinct_ready_wave [of ws b] by (metis distinct_zipI1 eq_key_imp_eq_value map_fst_zip_take distinct_take write_through_status.distinct(1))
    moreover have "\<forall>i \<in> fst ` set (zip (ready_wave ws b) sts). i < length es"
      using ready_waveD [of _ ws b] len(1) by (auto dest: set_zip_leftD)
    ultimately have "\<not> be_flushed (ws_entries ws1 ! j)"
      using apply_statuses_flushed [of "zip (ready_wave ws b) sts" "ws\<lparr>ws_entries := es\<rparr>" j] stale(5) jl(1) len(1) by simp
    moreover have "j < length (ws_entries ws1)"
      using arg_cong [OF apply_statuses_guids [OF stale(5)], of length] jl(1) len(1) by simp
    ultimately show ?case using flushed [OF stale(1-4)] by (auto simp: loop_frame_def)
  next
    case (round ws b wes es sts b1 b2 ws1)
    note r = wave_runI [OF round(1) [THEN conjunct1] round(3-5)]
    have "\<not> unsynced_store b2" using round(5) by (auto elim: flush_inner_cases)
    then show ?case
      using settle_round(3) [OF r round(6)] take_wave_guids [OF round(3)] apply_statuses_guids [OF round(6)] round(1)
        flushed [OF round(1,3-5)] by simp
  qed
qed

section \<open>The commit of one epoch\<close>

text \<open>The epoch holds the only reference to each of its blobs, and \<open>img\<close> gives the images it carries.\<close>

definition claims :: "(blob_guid \<Rightarrow> buf) \<Rightarrow> checkpoint_epoch \<Rightarrow> buffer_manager \<Rightarrow> bool" where
  "claims img ep bm \<longleftrightarrow> bm_wf bm \<and> distinct (map wt_guid (ce_entries ep)) \<and> distinct (map fst (ce_pending ep))
     \<and> doomed [ep] \<inter> wt_guid ` set (ce_entries ep) = {}
     \<and> (\<forall>w \<in> set (ce_entries ep). tr_flushing (track bm) (wt_guid w) = Some 1 \<and> tr_pending (track bm) (wt_guid w) = None
          \<and> wt_bytes w = img (wt_guid w))"

lemma busy_restore_dirty:
  assumes "bm_wf bm" and "distinct (map fst m)" and "g \<in> fst ` set m" and "tr_pending (track bm) g = None"
  shows "busy (restore_dirty m bm)"
  using restored_sel(4) [OF assms(2,3,4)] restore_dirty_refines [OF assms(1), of m] by (auto simp: busy_def)

lemma busy_pending: "bm_wf bm \<Longrightarrow> busy bm \<Longrightarrow> busy (restore_pending_deletes ps bm)"
proof -
  assume wf: "bm_wf bm" and "busy bm"
  have "tr_pending (fold a_restore_pending ps T) g \<noteq> None" if "tr_pending T g \<noteq> None" for g T
    using that by (induction ps arbitrary: T) (auto simp: a_restore_pending_def min_into_def split: option.splits)
  with \<open>busy bm\<close> show ?thesis using restore_pending_refines [OF wf, of ps] by (simp add: busy_def restored_pending_sel) blast
qed

text \<open>Giving back entries of the batch, then the pending deletes of the epoch.\<close>

lemma give_back:
  assumes s: "settled img es bm" and e: "e \<in> set es" "P e" and G: "be_guid ` set es \<subseteq> G"
    and b_def: "b = restore_all_pending [ep] (restore_dirty (entries_map (filter P es)) bm)"
  shows "within G (doomed [ep]) bm b \<and> busy b"
proof -
  let ?m = "entries_map (filter P es)"
  have wf: "bm_wf bm" and p: "tr_pending (track bm) (be_guid e) = None" using s e(1) by (simp_all add: settled_def Let_def)
  have keys: "fst ` set ?m = be_guid ` set (filter P es)" "distinct (map fst ?m)" by (rule entries_map_keys)+
  have in_m: "be_guid e \<in> fst ` set ?m" using keys(1) e by auto
  have w1: "within G (doomed [ep]) bm (restore_dirty ?m bm)"
    by (rule within_restore_dirty [OF wf keys(2)]) (use keys(1) G in auto)
  have b1: "busy (restore_dirty ?m bm)" by (rule busy_restore_dirty [OF wf keys(2) in_m p])
  have "fst ` set (extend_map [] (ce_pending ep)) \<subseteq> doomed [ep]" unfolding extend_map_keys by (simp add: doomed_def)
  then show ?thesis
    using within_trans [OF w1 within_restore_pending [OF within_wf [OF w1]]] busy_pending [OF within_wf [OF w1] b1]
    unfolding b_def restore_all_pending_def by simp
qed

lemma commit_within:
  assumes c: "claims img ep bm" and ne: "ce_entries ep \<noteq> [] \<or> ce_pending ep \<noteq> []"
    and run: "commit_epoch_batch fuel [ep] bm = (reports, bm')"
  shows "within (wt_guid ` set (ce_entries ep)) (doomed [ep]) bm bm' \<and> (unsynced_store bm' \<longrightarrow> busy bm')"
proof -
  let ?es = "collect_entries fuel [ep]" and ?G = "wt_guid ` set (ce_entries ep)"
  have es: "?es = map (batch_entry_of fuel 0) (ce_entries ep)" by (simp add: collect_entries_def)
  have guids: "map be_guid ?es = map wt_guid (ce_entries ep)" by (simp add: es batch_entry_of_def comp_def)
  have G: "be_guid ` set ?es = ?G" using arg_cong [OF guids, of set] by simp
  have wf: "bm_wf bm" and dp: "distinct (map fst (ce_pending ep))" using c by (simp_all add: claims_def)
  have s: "settling img ?es bm"
    unfolding settling_def settled_def Let_def guids using c by (auto simp: es batch_entry_of_def claims_def)
  have s0: "settled img ?es bm" using s by (simp add: settling_def)
  have un: "\<forall>e \<in> set ?es. \<not> be_flushed e" by (auto simp: es batch_entry_of_def)
  have all: "filter (\<lambda>_. True) xs = xs" for xs :: "batch_entry list" by simp
  show ?thesis
  proof (cases "collect_error fuel [ep]")
    case (Some x)
    then have "?es \<noteq> []" by (auto simp: es collect_error_def)
    then obtain e where e: "e \<in> set ?es" by (meson last_in_set)
    have "bm' = restore_all_pending [ep] (restore_dirty (entries_map (filter (\<lambda>_. True) ?es)) bm)"
      using run Some \<open>?es \<noteq> []\<close> by (simp add: commit_epoch_batch_def Let_def restore_batch_entries_def)
    from give_back [OF s0 e TrueI _ this, of ?G] G show ?thesis by simp
  next
    case None
    show ?thesis
    proof (cases "?es = []")
      case True
      then have ps: "ce_pending ep \<noteq> []" using ne by (simp add: es)
      obtain r bm1 where f: "flush_inner bm = (r, bm1)" by force
      have w1: "within ?G (doomed [ep]) bm bm1" by (rule within_flush [OF wf f])
      show ?thesis
      proof (cases r)
        case (Inl x)
        let ?m = "extend_map [] (ce_pending ep)"
        have m: "fst ` set ?m = doomed [ep]" unfolding extend_map_keys by (simp add: doomed_def)
        have "doomed [ep] \<noteq> {}" using ps by (simp add: doomed_def)
        then have "?m \<noteq> []" using m by auto
        moreover have "bm' = restore_pending_deletes ?m bm1"
          using run None True f Inl by (simp add: commit_epoch_batch_def Let_def restore_all_pending_def)
        ultimately show ?thesis
          using busy_restore_pending [OF within_wf [OF w1]] within_trans [OF w1 within_restore_pending [OF within_wf [OF w1]]] m by simp
      next
        case (Inr u)
        have "\<not> unsynced_store bm1" using f Inr by (auto elim: flush_inner_cases)
        moreover have "finish_deletes [ep] [0] bm1 = (reports, bm')"
          using run None True f Inr by (simp add: commit_epoch_batch_def Let_def)
        ultimately show ?thesis using finish_deletes_one [OF within_wf [OF w1] dp] within_trans [OF w1] by blast
      qed
    next
      case False
      obtain r es' bm1 where w: "write_entries_in_dependency_order ?es (length [ep]) bm = (r, es', bm1)" by (metis prod_cases3)
      obtain ws' where ww: "write_waves \<lparr>ws_entries = ?es, ws_remaining_by_guid = count_remaining ?es,
          ws_durable_this_batch = {}, ws_dirty_flushed_by_epoch = replicate (length [ep]) 0\<rparr> bm = (r, ws', bm1)" "es' = ws_entries ws'"
        using w by (auto simp: write_entries_in_dependency_order_def split: prod.splits)
      have lr: "loop_result img (map be_guid ?es) r ws' bm1" using write_waves_settle [OF _ ww(1)] s by simp
      have lf: "loop_frame (map be_guid ?es) (doomed [ep]) bm r ws' bm1" using write_waves_frame [OF _ _ _ ww(1)] s un by simp
      have s': "settled img es' bm1" and m': "map be_guid es' = map be_guid ?es" using lr ww(2) by (simp_all add: loop_result_def)
      have g': "be_guid ` set es' = ?G" using arg_cong [OF m', of set] G by simp
      have w1: "within ?G (doomed [ep]) bm bm1" using lf guids by (simp add: loop_frame_def)
      have ne': "es' \<noteq> []" using m' False by auto
      show ?thesis
      proof (cases r)
        case (Inl x)
        obtain e where e: "e \<in> set es'" using ne' by (meson last_in_set)
        have "bm' = restore_all_pending [ep] (restore_dirty (entries_map (filter (\<lambda>_. True) es')) bm1)"
          using run None False w Inl ne' by (simp add: commit_epoch_batch_def Let_def restore_batch_entries_def)
        from give_back [OF s' e TrueI _ this, of ?G] g' show ?thesis using within_trans [OF w1] by blast
      next
        case (Inr rep)
        show ?thesis
        proof (cases "bw_deferred rep")
          case True
          then obtain e where e: "e \<in> set es'" "\<not> be_flushed e" using lf Inr ww(2) by (auto simp: loop_frame_def)
          have "bm' = restore_all_pending [ep] (restore_dirty (entries_map (filter (\<lambda>e. \<not> be_flushed e) es')) bm1)"
            using run None False w Inr True by (simp add: commit_epoch_batch_def Let_def restore_unflushed_batch_entries_def)
          from give_back [OF s' e _ this, of ?G] g' show ?thesis using within_trans [OF w1] by blast
        next
          case nd: False
          then have "\<not> unsynced_store bm1" using lf Inr False by (auto simp: loop_frame_def)
          moreover have "finish_deletes [ep] (bw_dirty_flushed_by_epoch rep) bm1 = (reports, bm')"
            using run None False w Inr nd by (simp add: commit_epoch_batch_def Let_def)
          ultimately show ?thesis using finish_deletes_one [OF within_wf [OF w1] dp] within_trans [OF w1] by blast
        qed
      qed
    qed
  qed
qed

section \<open>The state between checkpoints\<close>

text \<open>
  Nothing is in flight, a changed blob is cached, a blob to be deleted is not, and a cached blob that is not
  dirty is stored as it is.  While the store has to be synced, something is tracked.
\<close>

definition tracked :: "buffer_manager \<Rightarrow> bool" where
  "tracked bm \<longleftrightarrow> bm_wf bm \<and> (\<forall>g. tr_flushing (track bm) g = None)
     \<and> (\<forall>g. tr_dirty (track bm) g \<noteq> None \<longrightarrow> tr_cache (track bm) g \<noteq> None)
     \<and> (\<forall>g. tr_pending (track bm) g \<noteq> None \<longrightarrow> tr_cache (track bm) g = None)
     \<and> (\<forall>g e. tr_cache (track bm) g = Some e \<longrightarrow> tr_dirty (track bm) g = None \<longrightarrow> blobs_of bm g = Some (cb_buf e))
     \<and> (unsynced_store bm \<longrightarrow> busy bm)"

definition all_stored :: "buffer_manager \<Rightarrow> bool" where
  "all_stored bm \<longleftrightarrow> (\<forall>g e. tr_cache (track bm) g = Some e \<longrightarrow> blobs_of bm g = Some (cb_buf e)) \<and> \<not> unsynced_store bm"

lemma settled_stored: "tracked bm \<Longrightarrow> all_settled bm \<Longrightarrow> all_stored bm"
  by (auto simp: tracked_def all_stored_def all_settled_iff busy_def)

lemma trackedD:
  assumes "tracked bm"
  shows "bm_wf bm" and "tr_flushing (track bm) g = None" and "tr_dirty (track bm) g \<noteq> None \<Longrightarrow> tr_cache (track bm) g \<noteq> None"
    and "tr_pending (track bm) g \<noteq> None \<Longrightarrow> tr_cache (track bm) g = None \<and> tr_dirty (track bm) g = None"
    and "tr_cache (track bm) g = Some e \<Longrightarrow> tr_dirty (track bm) g = None \<Longrightarrow> blobs_of bm g = Some (cb_buf e)"
    and "unsynced_store bm \<Longrightarrow> busy bm"
  using assms unfolding tracked_def by blast+

text \<open>The view of the buffer manager after a capture.\<close>

definition captured :: "tracking \<Rightarrow> tracking" where
  "captured T = T\<lparr>tr_dirty := (\<lambda>_. None), tr_pending := (\<lambda>_. None), tr_flushing := (\<lambda>g. if tr_dirty T g = None then None else Some 1)\<rparr>"

text \<open>After the captured blobs have been settled, the invariant holds again.\<close>

lemma tracked_again:
  assumes t: "tracked bm" and c: "track bm1 = captured (track bm)" and w: "within (dom (tr_dirty (track bm))) (dom (tr_pending (track bm))) bm1 bm'"
    and landed: "\<And>g e. tr_cache (track bm) g = Some e \<Longrightarrow> tr_dirty (track bm) g \<noteq> None \<Longrightarrow>
      tr_flushing (track bm') g = None \<and> (blobs_of bm' g = Some (cb_buf e) \<or> tr_dirty (track bm') g \<noteq> None)"
    and sync: "unsynced_store bm' \<longrightarrow> busy bm'"
  shows "tracked bm'"
proof -
  note T = trackedD [OF t]
  have cache: "tr_cache (track bm') = tr_cache (track bm)" using w c by (simp add: within_def captured_def)
  have W: "bm_wf bm'" "tr_dirty (track bm) g = None \<Longrightarrow> tr_dirty (track bm') g = None \<and> tr_flushing (track bm') g = None"
      "tr_pending (track bm) g = None \<Longrightarrow> tr_pending (track bm') g = None"
      "tr_dirty (track bm) g = None \<Longrightarrow> tr_pending (track bm) g = None \<Longrightarrow> blobs_of bm' g = blobs_of bm g" for g
  proof -
    have "tr_store (track bm1) = tr_store (track bm)" using c by (simp add: captured_def)
    then have "blobs_of bm1 = blobs_of bm" by (simp add: track_sel)
    then show "bm_wf bm'" "tr_dirty (track bm) g = None \<Longrightarrow> tr_dirty (track bm') g = None \<and> tr_flushing (track bm') g = None"
      "tr_pending (track bm) g = None \<Longrightarrow> tr_pending (track bm') g = None"
      "tr_dirty (track bm) g = None \<Longrightarrow> tr_pending (track bm) g = None \<Longrightarrow> blobs_of bm' g = blobs_of bm g"
      using w c by (simp_all add: within_def captured_def domIff)
  qed
  have fl: "tr_flushing (track bm') g = None" for g
    using W(2) [of g] T(3) [of g] landed [of g] by (cases "tr_dirty (track bm) g") auto
  have di: "tr_dirty (track bm') g \<noteq> None \<Longrightarrow> tr_cache (track bm) g \<noteq> None" for g using W(2) [of g] T(3) [of g] by (cases "tr_dirty (track bm) g") simp_all
  have pe: "tr_pending (track bm') g \<noteq> None \<Longrightarrow> tr_cache (track bm) g = None" for g using W(3) [of g] T(4) [of g] by (cases "tr_pending (track bm) g") simp_all
  have st: "blobs_of bm' g = Some (cb_buf e)" if e: "tr_cache (track bm) g = Some e" "tr_dirty (track bm') g = None" for g e
  proof (cases "tr_dirty (track bm) g = None")
    case True
    have "tr_pending (track bm) g = None" using T(4) [of g] e(1) by (cases "tr_pending (track bm) g") auto
    then show ?thesis using W(4) [OF True] T(5) [OF e(1) True] by simp
  next
    case False
    then show ?thesis using landed [OF e(1) False] e(2) by blast
  qed
  show ?thesis
    unfolding tracked_def cache by (intro conjI allI impI) (rule W(1), rule fl, erule di, erule pe, erule (1) st, erule sync [THEN mp])
qed

lemma capture_tracked:
  assumes t: "tracked bm" and run: "capture_intent \<lparr>sh_bm = bm, sh_journal = j\<rparr> = (res, sh)"
  obtains snap pending versioned where "res = Inr (snap, pending, versioned, map_option queued_work j)" and "sh_journal sh = j"
    and "bm_wf (sh_bm sh)" and "track (sh_bm sh) = captured (track bm)"
    and "distinct (map fst snap)" and "fst ` set snap = dom (tr_dirty (track bm))"
    and "distinct (map fst pending)" and "map_of pending = tr_pending (track bm)"
    and "snapshot_dirty_versions snap (sh_bm sh) = Inr versioned"
proof -
  note T = trackedD [OF t]
  obtain sn b1 where s1: "snapshot_dirty bm = (sn, b1)" by force
  obtain pe b2 where s2: "snapshot_pending_deletes b1 = (pe, b2)" by force
  note r1 = snapshot_dirty_refines [OF T(1) s1]
  note r2 = snapshot_pending_refines [OF r1(2) s2]
  have nd: "tr_dirty (track bm) g \<noteq> None \<Longrightarrow> tr_pending (track bm) g = None" for g using T(4) [of g] by fastforce
  have cl: "claimable (track bm) = dom (tr_dirty (track bm))" using nd by (auto simp: claimable_def)
  have "track b2 = captured (track bm)"
    using r2(1) r1(1) T(2) nd by (intro tracking_eqI) (auto simp: a_snapshot_dirty_def captured_def fun_eq_iff)
  then have tb: "track b2 = captured (track bm)" .
  have cached: "cached_at b2 g \<noteq> None" if "g \<in> fst ` set sn" for g
  proof -
    have "tr_cache (track b2) g \<noteq> None" using that r1(4) cl T(3) [of g] by (auto simp: tb captured_def)
    then show ?thesis by (simp add: track_sel)
  qed
  have "\<exists>vs. snapshot_dirty_versions es b2 = Inr vs" if "fst ` set es \<subseteq> fst ` set sn" for es
    using that
  proof (induction es)
    case (Cons p es)
    obtain g q where p: "p = (g, q)" by force
    obtain e where "cached_at b2 g = Some e" using cached [of g] Cons.prems p by auto
    then show ?case using Cons p by (auto simp: rbind_def)
  qed simp
  from this [OF subset_refl] obtain vs where v: "snapshot_dirty_versions sn b2 = Inr vs" by blast
  have res: "res = Inr (sn, pe, vs, map_option queued_work j)" "sh = \<lparr>sh_bm = b2, sh_journal = j\<rparr>"
    using run s1 s2 v by (simp_all add: capture_intent_def Let_def)
  show thesis
    by (rule that [OF res(1)]) (use res tb r1(3,4) cl r2(2-4) r1(1) v in \<open>simp_all add: a_snapshot_dirty_def\<close>)
qed

text \<open>With nobody else at work, every captured blob is cloned as it is in the cache.\<close>

definition cloned :: "buffer_manager \<Rightarrow> blob_guid list \<Rightarrow> cloned_bytes \<Rightarrow> bool" where
  "cloned bm gs bytes \<longleftrightarrow> map fst bytes = gs \<and> (\<forall>(g, s, v, b) \<in> set bytes. \<exists>e. cached_at bm g = Some e \<and> v = cb_version e \<and> b = cb_buf e)"

lemma clone_quiet:
  assumes "snapshot_dirty_versions snap bm = Inr versioned"
  shows "\<exists>bytes. clone_versioned_dirty versioned bm = Inr (bytes, []) \<and> clone_checkpoint_bytes versioned bm = Inr (Some bytes)
    \<and> cloned bm (map fst snap) bytes"
  using assms
proof (induction snap arbitrary: versioned)
  case (Cons p snap)
  obtain g s where p: "p = (g, s)" by force
  obtain e vs where v: "cached_at bm g = Some e" "snapshot_dirty_versions snap bm = Inr vs"
      "versioned = \<lparr>ds_guid = g, ds_expected_seq = s, ds_content_version = cb_version e\<rparr> # vs"
    using Cons.prems p by (auto simp: rbind_def split: option.splits sum.splits)
  obtain bytes where b: "clone_versioned_dirty vs bm = Inr (bytes, [])" "clone_checkpoint_bytes vs bm = Inr (Some bytes)" "cloned bm (map fst snap) bytes"
    using Cons.IH [OF v(2)] by blast
  show ?case
    by (rule exI [of _ "(g, s, cb_version e, cb_buf e) # bytes"])
      (use v b p in \<open>simp add: snapshot_bytes_if_version_def rbind_def cloned_def\<close>)
qed (simp add: cloned_def)

lemma cloned_entries:
  assumes "cloned bm gs bytes"
  shows "map wt_guid (map entry_of_clone bytes) = gs"
    and "w \<in> set (map entry_of_clone bytes) \<Longrightarrow> \<exists>e. cached_at bm (wt_guid w) = Some e \<and> wt_bytes w = cb_buf e \<and> wt_content_version w = Some (cb_version e)"
proof -
  show "map wt_guid (map entry_of_clone bytes) = gs" using assms by (simp add: cloned_def entry_of_clone_def comp_def split_def)
  assume "w \<in> set (map entry_of_clone bytes)"
  then obtain g s v b where "(g, s, v, b) \<in> set bytes" "w = entry_of_clone (g, s, v, b)" by auto
  then show "\<exists>e. cached_at bm (wt_guid w) = Some e \<and> wt_bytes w = cb_buf e \<and> wt_content_version w = Some (cb_version e)"
    using assms by (fastforce simp: cloned_def entry_of_clone_def)
qed

section \<open>The log\<close>

abbreviation log_of :: "journal \<Rightarrow> bytes" where
  "log_of j \<equiv> dv_file (jn_writer j)"

definition quiet :: "journal \<Rightarrow> bool" where
  "quiet j \<longleftrightarrow> jn_queue j = [] \<and> jn_backlog j = []"

lemma dev_flush_extends:
  assumes "dev_flush d = (r, d')"
  shows "\<exists>tail. dv_file d' = dv_file d @ tail"
proof -
  obtain d1 io where 1: "dv_call (ww_pending (dv_writer d) \<noteq> []) d = (io, d1)" by force
  obtain d2 sy where 2: "dv_call (io = IoOk) d1 = (sy, d2)" by force
  have w: "dv_writer d1 = dv_writer d" "dv_writer d2 = dv_writer d"
    using 1 2 by (auto simp: dv_call_def dv_next_def split: if_splits list.splits)
  have "\<exists>tail. ww_file (snd (wal_flush a b w)) = ww_file w @ tail" for a b w
    by (auto simp: wal_flush_def drain_to_os_def sbind_def smod_def sfail_def split: write_outcome.splits)
  then obtain tail where "ww_file (dv_writer d') = ww_file (dv_writer d) @ tail"
    using assms 1 2 w by (auto simp: dev_flush_def on_writer_def split: prod.splits) (metis snd_conv)
  then show ?thesis by (auto simp: dv_file_def)
qed

lemma journal_flush_quiet:
  assumes "quiet j" and "journal_flush u j = (r, j')"
  shows "quiet j' \<and> (\<exists>tail. log_of j' = log_of j @ tail)"
proof (cases "u \<le> flushed_work j")
  case True
  then show ?thesis using assms by (simp add: journal_flush_def flush_up_to_def)
next
  case False
  obtain q d where d: "dev_flush (jn_writer j) = (q, d)" by force
  have "worker_drain (j\<lparr>jn_queue := [Flush u]\<rparr>) = run_command 0 (Flush u) (j\<lparr>jn_queue := []\<rparr>)"
    using assms(1) by (simp add: worker_drain_def run_worker_def quiet_def)
  then have "j' = run_command 0 (Flush u) (j\<lparr>jn_queue := []\<rparr>)"
    using assms False by (simp add: journal_flush_def flush_up_to_def quiet_def Let_def)
  then show ?thesis
    using d dev_flush_extends [OF d] assms(1) by (auto simp: run_command_def quiet_def Let_def split: sum.splits)
qed

lemma dev_truncate_done:
  assumes "dev_truncate d = (Inr (), d')"
  shows "dv_file d' = [] \<and> dv_synced d' = [] \<and> dv_pending d' = []"
  using assms
  by (auto simp: dev_truncate_def on_writer_def wal_truncate_def sbind_def smod_def sfail_def dv_views split: prod.splits if_splits)

lemma journal_truncate_quiet:
  assumes "quiet j" and "journal_truncate j = (r, j')"
  shows "quiet j' \<and> (r = Inr () \<longrightarrow> needs_checkpoint j \<longrightarrow> log_of j' = [] \<and> dv_synced (jn_writer j') = [])"
proof (cases "needs_checkpoint j")
  case False
  then show ?thesis using assms by (simp add: journal_truncate_def truncate_send_def needs_checkpoint_def)
next
  case True
  obtain q d where d: "dev_truncate (jn_writer j) = (q, d)" by force
  have "worker_drain (j\<lparr>jn_queue := [Truncate]\<rparr>) = j\<lparr>jn_queue := [], jn_writer := d, jn_acks := jn_acks j @ [TruncateAck q]\<rparr>"
    using assms(1) d by (simp add: worker_drain_def run_worker_def run_command_def quiet_def)
  then have "quiet j' \<and> r = q \<and> jn_writer j' = d"
    using assms True
    by (auto simp: journal_truncate_def truncate_send_def needs_checkpoint_def quiet_def last_result_def truncate_acked_def Let_def
        split: sum.splits)
  then show ?thesis using dev_truncate_done d by blast
qed

text \<open>A truncation happens only when nothing is tracked.\<close>

lemma maybe_truncate_quiet:
  assumes "sh_journal sh = Some j" and "quiet j" and "maybe_truncate sh = (r, sh')"
  shows "sh_bm sh' = sh_bm sh \<and> (\<exists>j'. sh_journal sh' = Some j' \<and> quiet j' \<and> (j' = j \<or> all_settled (sh_bm sh))
    \<and> (r = Inr () \<longrightarrow> needs_checkpoint j \<longrightarrow> all_settled (sh_bm sh) \<longrightarrow> log_of j' = [] \<and> dv_synced (jn_writer j') = []))"
proof (cases "needs_checkpoint j \<and> all_settled (sh_bm sh)")
  case True
  obtain q j' where t: "journal_truncate j = (q, j')" by force
  then show ?thesis using assms True journal_truncate_quiet [OF assms(2) t] by (auto simp: maybe_truncate_def in_journal_def)
next
  case False
  then show ?thesis using assms by (auto simp: maybe_truncate_def split: if_splits)
qed

lemma flush_wal_quiet:
  assumes "sh_journal sh = Some j" and "quiet j" and "flush_wal (Some u) sh = (r, sh')"
  shows "sh_bm sh' = sh_bm sh \<and> (\<exists>j'. sh_journal sh' = Some j' \<and> quiet j' \<and> (\<exists>tail. log_of j' = log_of j @ tail))"
  using assms journal_flush_quiet [OF assms(2)] by (auto simp: flush_wal_def in_journal_def split: prod.splits)

section \<open>Settling a capture\<close>

definition capture_ok :: "buffer_manager \<Rightarrow> seq_map \<Rightarrow> seq_map \<Rightarrow> buffer_manager \<Rightarrow> bool" where
  "capture_ok bm snap pending bm1 \<longleftrightarrow> tracked bm \<and> bm_wf bm1 \<and> track bm1 = captured (track bm) \<and> distinct (map fst snap)
     \<and> fst ` set snap = dom (tr_dirty (track bm)) \<and> distinct (map fst pending) \<and> map_of pending = tr_pending (track bm)"

lemma capture_okD:
  assumes "capture_ok bm snap pending bm1"
  shows "tracked bm" and "bm_wf bm1" and "track bm1 = captured (track bm)" and "distinct (map fst snap)"
    and "fst ` set snap = dom (tr_dirty (track bm))" and "distinct (map fst pending)" and "fst ` set pending = dom (tr_pending (track bm))"
    and "dom (tr_dirty (track bm)) \<inter> dom (tr_pending (track bm)) = {}" and "bm_store bm1 = bm_store bm"
proof -
  show t: "tracked bm" "bm_wf bm1" "track bm1 = captured (track bm)" "distinct (map fst snap)"
    "fst ` set snap = dom (tr_dirty (track bm))" "distinct (map fst pending)" using assms by (simp_all add: capture_ok_def)
  show "fst ` set pending = dom (tr_pending (track bm))" using assms dom_map_of_conv_image_fst [of pending] by (simp add: capture_ok_def)
  show "dom (tr_dirty (track bm)) \<inter> dom (tr_pending (track bm)) = {}" using trackedD(4) [OF t(1)] by fastforce
  show "bm_store bm1 = bm_store bm" using arg_cong [OF t(3), of tr_store] by (simp add: captured_def track_sel)
qed

lemma restore_capture_tracked:
  assumes c: "capture_ok bm snap pending bm1"
  defines "bm' \<equiv> restore_dirty snap (restore_pending_deletes pending bm1)"
  shows "tracked bm' \<and> within (dom (tr_dirty (track bm))) (dom (tr_pending (track bm))) bm1 bm'"
proof -
  note C = capture_okD [OF c]
  let ?b = "restore_pending_deletes pending bm1"
  have w1: "within (dom (tr_dirty (track bm))) (dom (tr_pending (track bm))) bm1 ?b"
    by (rule within_restore_pending [OF C(2)]) (simp add: C(7))
  have w2: "within (dom (tr_dirty (track bm))) (dom (tr_pending (track bm))) ?b bm'"
    unfolding bm'_def by (rule within_restore_dirty [OF within_wf [OF w1] C(4)]) (simp add: C(5))
  have t1: "track ?b = fold a_restore_pending pending (track bm1)" using restore_pending_refines [OF C(2)] by blast
  have t2: "track bm' = fold a_restore_one snap (track ?b)" using restore_dirty_refines [OF within_wf [OF w1]] bm'_def by blast
  note sel = restored_sel [OF C(4), where T = "track ?b"]
  have d: "tr_flushing (track bm') g = None \<and> tr_dirty (track bm') g \<noteq> None" if "tr_dirty (track bm) g \<noteq> None" for g
  proof -
    have g: "g \<in> fst ` set snap" "g \<notin> fst ` set pending" using that C(5,7,8) by auto
    have "tr_pending (track ?b) g = None" unfolding t1 restored_pending_other [OF g(2)] C(3) by (simp add: captured_def)
    moreover have "tr_flushing (track ?b) g = Some 1" unfolding t1 restored_pending_sel C(3) using that by (simp add: captured_def)
    ultimately show ?thesis using sel(1,4) [of g] g(1) unfolding t2 by (simp add: drop_ref_def)
  qed
  have p: "tr_pending (track bm') g \<noteq> None" if "tr_pending (track bm) g \<noteq> None" for g
  proof -
    have "g \<in> fst ` set pending" using that C(7) by auto
    from restored_pending_in [OF this, of "track bm1"] show ?thesis using sel(2) by (simp add: t2 t1)
  qed
  have "unsynced_store bm' = unsynced_store bm" by (simp add: bm'_def C(9))
  moreover have "busy bm'" if "busy bm"
  proof -
    obtain g where "tr_dirty (track bm) g \<noteq> None \<or> tr_pending (track bm) g \<noteq> None" using \<open>busy bm\<close> unfolding busy_def by blast
    then show ?thesis using d [of g] p [of g] unfolding busy_def by blast
  qed
  ultimately have "unsynced_store bm' \<longrightarrow> busy bm'" using trackedD(6) [OF C(1)] by simp
  then show ?thesis using tracked_again [OF C(1,3) within_trans [OF w1 w2]] d within_trans [OF w1 w2] by blast
qed

lemma commit_tracked:
  assumes c: "capture_ok bm snap pending bm1" and k: "cloned bm1 (map fst snap) bytes" and ne: "snap \<noteq> [] \<or> pending \<noteq> []"
    and run: "commit_epoch_batch fuel [\<lparr>ce_entries = map entry_of_clone bytes, ce_pending = pending\<rparr>] bm1 = (reports, bm')"
  shows "tracked bm' \<and> within (dom (tr_dirty (track bm))) (dom (tr_pending (track bm))) bm1 bm'"
proof -
  let ?ep = "\<lparr>ce_entries = map entry_of_clone bytes, ce_pending = pending\<rparr>"
  let ?img = "\<lambda>g. cb_buf (the (cached_at bm1 g))"
  note C = capture_okD [OF c] and K = cloned_entries [OF k]
  have guids: "map wt_guid (ce_entries ?ep) = map fst snap" using K(1) by simp
  have G: "wt_guid ` set (ce_entries ?ep) = dom (tr_dirty (track bm))" using arg_cong [OF guids, of set] C(5) by (simp add: image_image)
  have D: "doomed [?ep] = dom (tr_pending (track bm))" using C(7) by (simp add: doomed_def)
  have f1: "tr_flushing (track bm1) (wt_guid w) = Some 1 \<and> tr_pending (track bm1) (wt_guid w) = None \<and> wt_bytes w = ?img (wt_guid w)"
    if w: "w \<in> set (ce_entries ?ep)" for w
  proof -
    have "wt_guid w \<in> dom (tr_dirty (track bm))" using w G by blast
    moreover have "w \<in> set (map entry_of_clone bytes)" using w by simp
    ultimately show ?thesis using K(2) [of w] by (auto simp: C(3) captured_def)
  qed
  have d: "distinct (map wt_guid (ce_entries ?ep))" unfolding guids by (rule C(4))
  have disj: "doomed [?ep] \<inter> wt_guid ` set (ce_entries ?ep) = {}" unfolding G D using C(8) by blast
  have cl: "claims ?img ?ep bm1"
    unfolding claims_def using C(2,6) d disj f1 by simp
  have ne': "ce_entries ?ep \<noteq> [] \<or> ce_pending ?ep \<noteq> []" using ne guids by auto
  have w: "within (dom (tr_dirty (track bm))) (dom (tr_pending (track bm))) bm1 bm'" and sy: "unsynced_store bm' \<longrightarrow> busy bm'"
    using commit_within [OF cl ne' run] unfolding G D by blast+
  have disj': "fst ` set (ce_pending ?ep) \<inter> wt_guid ` set (ce_entries ?ep) = {}" using disj by (simp add: doomed_def)
  have l: "landed ?img (dom (tr_dirty (track bm))) bm'"
    using commit_landed [OF C(2) d disj' f1, of fuel] unfolding G run by simp
  have "tr_flushing (track bm') g = None \<and> (blobs_of bm' g = Some (cb_buf e) \<or> tr_dirty (track bm') g \<noteq> None)"
    if "tr_cache (track bm) g = Some e" "tr_dirty (track bm) g \<noteq> None" for g e
  proof -
    have "tr_cache (track bm1) g = Some e" using that(1) by (simp add: C(3) captured_def)
    then have "?img g = cb_buf e" by (auto simp: track_sel)
    moreover have "g \<in> dom (tr_dirty (track bm))" using that(2) by auto
    then have "tr_flushing (track bm') g = None \<and> (blobs_of bm' g = Some (?img g) \<or> tr_dirty (track bm') g \<noteq> None)"
      using l unfolding landed_def by blast
    ultimately show ?thesis by simp
  qed
  then show ?thesis using tracked_again [OF C(1,3) w _ sy] w by blast
qed

text \<open>When nothing was tracked before, nothing is afterwards.\<close>

lemma idle_stays:
  assumes "capture_ok bm snap pending bm1" and "all_settled bm" and "tracked bm'"
    and "within (dom (tr_dirty (track bm))) (dom (tr_pending (track bm))) bm1 bm'"
  shows "all_stored bm'"
proof -
  note C = capture_okD [OF assms(1)]
  have none: "tr_dirty (track bm) g = None" "tr_pending (track bm) g = None" for g
    using assms(2) all_settled_iff [OF trackedD(1) [OF C(1)]] by simp_all
  have "tr_dirty (track bm') g = None \<and> tr_pending (track bm') g = None" for g
    using assms(4) none by (simp add: within_def C(3) captured_def domIff)
  then have "all_settled bm'" using all_settled_iff [OF trackedD(1) [OF assms(3)]] trackedD(2) [OF assms(3)] by simp
  then show ?thesis by (rule settled_stored [OF assms(3)])
qed

section \<open>A round of the planner\<close>

definition kept :: "bytes \<Rightarrow> shared \<Rightarrow> bool" where
  "kept log sh \<longleftrightarrow> tracked (sh_bm sh) \<and> (\<exists>j. sh_journal sh = Some j \<and> quiet j
     \<and> ((\<exists>tail. log_of j = log @ tail) \<or> all_stored (sh_bm sh)))"

lemma kept_truncate:
  assumes "kept log sh" and "maybe_truncate sh = (r, sh')"
  shows "kept log sh'"
proof -
  obtain j where j: "sh_journal sh = Some j" "quiet j" "(\<exists>tail. log_of j = log @ tail) \<or> all_stored (sh_bm sh)" and t: "tracked (sh_bm sh)"
    using assms(1) by (auto simp: kept_def)
  obtain j' where j': "sh_bm sh' = sh_bm sh" "sh_journal sh' = Some j'" "quiet j'" "j' = j \<or> all_settled (sh_bm sh)"
    using maybe_truncate_quiet [OF j(1,2) assms(2)] by blast
  show ?thesis using j'(4) j(3) t settled_stored [OF t] j'(1-3) by (auto simp: kept_def)
qed

lemma submit_kept:
  assumes c: "capture_ok bm snap pending (sh_bm sh)" and k: "cloned (sh_bm sh) (map fst snap) bytes"
    and j: "sh_journal sh = Some j" "quiet j" "(\<exists>tail. log_of j = log @ tail) \<or> all_settled bm"
    and run: "submit_epoch fuel snap pending bytes [] sh = (r, sh')"
  shows "kept log sh'"
proof -
  note C = capture_okD [OF c]
  let ?G = "dom (tr_dirty (track bm))" and ?D = "dom (tr_pending (track bm))"
  have log: "kept log (sh\<lparr>sh_bm := bm'\<rparr>)" if "tracked bm'" "within ?G ?D (sh_bm sh) bm'" for bm'
    using j that idle_stays [OF c _ that] by (auto simp: kept_def)
  show ?thesis
  proof (cases "snap = [] \<and> pending = []")
    case True
    then have G: "?G = {}" "?D = {}" using C(5,7) by simp_all
    then have "\<not> busy bm" by (simp add: busy_def)
    then have "\<not> unsynced_store (sh_bm sh)" using trackedD(6) [OF C(1)] C(9) by auto
    then have m: "maybe_truncate sh = (r, sh')"
      using run True by (simp add: submit_epoch_def bm_needs_flush_def store_needs_flush_def)
    have w: "within ?G ?D (sh_bm sh) (sh_bm sh)" by (rule within_refl [OF C(2)])
    have "tracked (sh_bm sh)"
      by (rule tracked_again [OF C(1,3) w]) (use G \<open>\<not> unsynced_store (sh_bm sh)\<close> in auto)
    from log [OF this w] have "kept log sh" by simp
    then show ?thesis using m by (rule kept_truncate)
  next
    case False
    obtain reports bm' where cm: "commit_epoch_batch fuel [\<lparr>ce_entries = map entry_of_clone bytes, ce_pending = pending\<rparr>] (sh_bm sh) = (reports, bm')"
      by force
    have "tracked bm'" "within ?G ?D (sh_bm sh) bm'" using commit_tracked [OF c k _ cm] False by auto
    note l = log [OF this]
    have "(r, sh') = (er_result (hd reports), sh\<lparr>sh_bm := bm'\<rparr>) \<or> maybe_truncate (sh\<lparr>sh_bm := bm'\<rparr>) = (r, sh')"
      using run False cm by (cases "er_result (hd reports)") (auto simp: submit_epoch_def commit_and_reap_def sbind_def)
    then show ?thesis using l kept_truncate by auto
  qed
qed


lemma dirty_cache_tracked: "tracked (dirty_cache g b fs)"
proof -
  have t: "track (dirty_cache g b fs) = a_install g b 5 (track (bm_new (empty_disk fs) 4))" "bm_wf (dirty_cache g b fs)"
    using install_refines [OF bm_new_view(1)] by (simp_all add: dirty_cache_def)
  have "\<not> unsynced_store (dirty_cache g b fs)" by (simp add: dirty_cache_view(5)) (simp add: empty_disk_def)
  then show ?thesis using t(2) by (auto simp: tracked_def t(1) a_install_def bm_new_view min_into_def)
qed

lemma logged_quiet: "quiet logged" "dv_ok (jn_writer logged)" "needs_checkpoint logged"
proof -
  let ?j = "snd (submit [1] False (journal_open (fresh_device [])))"
  have j: "dv_ok (jn_writer ?j)" "jn_backlog ?j = []" "jn_queue ?j = [Append [1] 1 False]" "queued_work ?j = 1" "checkpointed_work ?j = 0"
    by (simp_all add: submit_fields fresh_journal fresh_device_view)
  obtain l where "logged = l" "jn_queue l = []" "jn_backlog l = []" "dv_ok (jn_writer l)" "queued_work l = 1" "checkpointed_work l = 0"
    by (rule lone_append [OF j(1-3), of 0]) (simp add: logged_def j)
  then show "quiet logged" "dv_ok (jn_writer logged)" "needs_checkpoint logged" by (simp_all add: quiet_def needs_checkpoint_def)
qed


end
