(* ===== verification/Spec2Isabelle.thy ===== *)
theory Spec2Isabelle
  imports Blob_Runs Latch Gate Endpoint_Locks Bm_Cache Checkpoint_Safe Checkpoint_Round
begin

text \<open>
  A verification library for \<^verbatim>\<open>holt\<close>, an embedded metadata store: an adaptive radix tree
  kept in 512 KB page images ("blobs"), with a write-ahead log beside it.

  \<^bold>\<open>The program.\<close>  A blob (\<^verbatim>\<open>store/blob_frame.rs\<close>) is a byte image with a header, a table of
  slots and a data area; nodes and key/value extents are allocated in it by bumping a cursor
  and through free lists threaded through the slot table.  The walkers (\<^verbatim>\<open>engine/walker\<close>)
  implement the tree on top: lookup, insert, erase, deep cloning, compaction and the moving of
  subtrees between blobs.  Every mutation is described by a record of the log (\<^verbatim>\<open>journal\<close>),
  which is scanned when the store is opened; a worker thread appends the records in groups
  (\<^verbatim>\<open>journal/group_commit.rs\<close>).  Blobs in memory belong to the buffer manager
  (\<^verbatim>\<open>store/buffer_manager\<close>), which tracks the blobs that changed since they were stored; the
  checkpoint (\<^verbatim>\<open>checkpoint\<close>, \<^verbatim>\<open>Tree::checkpoint\<close>) stores them, a blob after the blobs it refers to,
  and truncates the log once nothing is tracked.  Threads meet in a content latch per blob, in the
  admission gates between writers and the checkpoint, and in the locks on the endpoints of a
  rename (\<^verbatim>\<open>concurrency\<close>).

  \<^bold>\<open>Conventions.\<close>  A page image is a function from byte offsets to bytes.  Code that mutates a
  frame is a function from the image to a result and an image; errors are values of
  \<open>error + 'a\<close>, one constructor for each error of the code, with \<open>Panic\<close> for an \<^verbatim>\<open>expect\<close> that
  fails.  Integers are natural numbers with the wrap-around or saturation of the code written
  out, machine words where bits are combined.  Recursion over nodes takes a fuel argument; running out is
  the error \<open>StackOverflow\<close>, and the theorems hold for every fuel above the height of the tree,
  which exists for every well-formed blob, so that the code returns.

  \<^bold>\<open>Theories.\<close>
  \<^item> \<open>Prelude\<close>: state and error monad, little-endian integers, page images.
  \<^item> \<open>Layout\<close>, \<open>Nodes\<close> (\<^verbatim>\<open>layout/*.rs\<close>): header fields, slot entries, node bodies with their
    byte encodings; round trips.
  \<^item> \<open>Blob_Frame\<close> (\<^verbatim>\<open>store/blob_frame.rs\<close>): the allocator, its invariant, and that memory is
    handed out and taken back without overlap.
  \<^item> \<open>Simd\<close> (\<^verbatim>\<open>engine/simd.rs\<close>): the vector routines lane by lane, equal to scalar references.
  \<^item> \<open>Search_Key\<close> (\<^verbatim>\<open>walker/key.rs\<close>), \<open>Walker_Nodes\<close> (\<^verbatim>\<open>walker/readers.rs\<close>, \<^verbatim>\<open>writers.rs\<close>),
    \<open>Child_Table\<close>, \<open>Inner_Nodes\<close>: the four inner node shapes seen as finite maps from bytes to slots.
  \<^item> \<open>Art\<close>, \<open>Art_Heap\<close>, \<open>Tree_Heap\<close>, \<open>Tree_Writers\<close>, \<open>Tree_Ops\<close>: the abstract radix tree, the
    predicate \<open>tree\<close> that a page image holds it in given memory, and the effect of the writers on it.
  \<^item> \<open>Lookup\<close>, \<open>Insert\<close>, \<open>Erase\<close> (\<^verbatim>\<open>walker/lookup.rs\<close>, \<^verbatim>\<open>insert.rs\<close>, \<^verbatim>\<open>erase.rs\<close>): the
    operations on one blob; \<open>Art_Insert\<close>, \<open>Insert_Refine\<close>, \<open>Insert_Correct\<close>, \<open>Erase_Correct\<close>:
    that they refine the abstract tree; \<open>Blob_Ops\<close>, \<open>Blob_Runs\<close>: whole operations and runs of them.
  \<^item> \<open>Migrate\<close>, \<open>Clone_Correct\<close>, \<open>Compact\<close> (\<^verbatim>\<open>walker/migrate.rs\<close>): cloning, compaction and the
    making of a blob from a subtree.
  \<^item> \<open>Wal_Codec\<close>, \<open>Wal_Replay\<close> (\<^verbatim>\<open>journal/*.rs\<close>): record encoders and decoder, log writer, crash
    and replay.
  \<^item> \<open>Transition\<close>, \<open>Latch\<close>, \<open>Gate\<close>, \<open>Endpoint_Locks\<close> (\<^verbatim>\<open>concurrency/*.rs\<close>): the atomic steps of
    interleaved threads as transition systems with inductive invariants.
  \<^item> \<open>Journal\<close>, \<open>Journal_Durable\<close> (\<^verbatim>\<open>journal/group_commit.rs\<close>): the log worker over that writer;
    that a record behind the flush barrier is replayed after a power failure, and two runs in which the
    barrier does not hold: numbers reserved out of order, and a failed write.
  \<^item> \<open>Bookkeeping\<close>, \<open>Cache_Policy\<close>, \<open>Buffer_Manager\<close> (\<^verbatim>\<open>store/buffer_manager/*.rs\<close>, the memory store of
    \<^verbatim>\<open>store/blob_store\<close>): the state and the operations; \<open>Bm_Spec\<close>: the sharded maps and hints refine
    plain maps from blobs to their tracking state; \<open>Bm_Cache\<close>: what eviction and pinning may change.
  \<^item> \<open>Blob_Children\<close> (\<^verbatim>\<open>walker/scan.rs\<close>): the blobs an image refers to.
  \<^item> \<open>Checkpoint_IO\<close> (\<^verbatim>\<open>checkpoint/io.rs\<close>), \<open>Checkpoint_Plan\<close> (\<^verbatim>\<open>checkpoint/round.rs\<close>, \<^verbatim>\<open>api/tree.rs\<close>): the
    commit of epochs, a round of the planner, the manual checkpoint in its phases;
    \<open>Checkpoint_Order\<close>, \<open>Checkpoint_Settle\<close>, \<open>Checkpoint_Safe\<close>: the order of writes and the fate of every
    claimed blob; \<open>Checkpoint_Round\<close>: a whole round, failures included, loses track of no changed blob and
    drops the log only over a stored and synced cache; \<open>Checkpoint_Gaps\<close>: runs that leave a state the code means to exclude.

  \<^bold>\<open>Bounds.\<close>  The fuel of the reference scan stands for the call stack, as for the walkers.  The loops of the
  I/O worker and of the cache eviction are total functions with their own measures.  The retry loop of the
  manual checkpoint takes a bound on its attempts, since another thread may change a blob again and again.

  \<^bold>\<open>Not modelled.\<close>  The drivers that carry an operation from blob to blob with their spillover and merge, the
  range scans and the route cache: they interleave latched frames of several blobs and retry.  The pipeline of several
  epochs in flight, thread start and stop, and the periodic eviction sweep.  The file store and its ring
  interface, which are system calls and raw memory.  The public interface and its configuration, statistics
  and metrics, the C interface and the tools.  Atomics are sequentially consistent.  The checksum of the
  crate \<^verbatim>\<open>crc32fast\<close> is a parameter.
\<close>

section \<open>Properties of one blob\<close>

text \<open>C1. A blob is a finite map: after any sequence of inserts and erases of user keys, under
  any conditions, and of compactions, from a freshly initialised frame, with inserts that ran
  out of space among them, every lookup returns exactly what the map of the specification holds.\<close>

theorem blob_refines_map:
  assumes "blob_run b M"
  shows "\<exists>n. \<forall>fuel \<ge> n. \<forall>key. lookup_in_blob fuel b key 0 = Inr (map_result (M (view key)))"
  using assms by (rule blob_run_lookup)

theorem blob_refines_map_witness:
  "\<exists>b M. blob_run b M \<and> M [97, 0] = Some ([1, 2], 5)
     \<and> (\<exists>n. \<forall>fuel \<ge> n. \<forall>key. lookup_in_blob fuel b key 0 = Inr (map_result (M (view key))))"
proof -
  obtain b where b: "blob_run b [[97, 0] \<mapsto> ([1, 2], 5)]" using one_key_run by blast
  show ?thesis using blob_refines_map [OF b] b by (intro exI [of _ b] exI [of _ "[[97, 0] \<mapsto> ([1, 2], 5)]"] conjI) simp_all
qed

text \<open>C2. An insert into a blob stores the value under the key and leaves every other key
  alone, exactly when its condition holds; it reports whether it changed the blob; an insert
  whose condition fails, or that must continue in a child blob, changes nothing; one that runs
  out of space keeps the tree; and it fails in no other way, except for a key that extends or
  is extended by a stored key.\<close>

theorem insert_correct:
  assumes "blob b t path" and "on_path path (view key)" and "height t < fuel"
    and "length (view key) < 65536" and "length v < 65536" and "q < 2 ^ 64"
  shows "case insert_in_blob fuel key v (length path) q cond b of
      (Inr (Done out), b') \<Rightarrow> ins_mutated out = proceeds cond (alook t (view key) (length path))
         \<and> (if ins_mutated out
            then \<exists>t'. blob b' t' path \<and> put_into t path (view key) v q t'
              \<and> (user_tree t path \<longrightarrow> user_key (view key) \<longrightarrow> user_tree t' path)
            else b' = b)
    | (Inr (InsCrossing g d), b') \<Rightarrow> b' = b \<and> alook t (view key) (length path) = Crossing g d
    | (Inl (Alloc _), b') \<Rightarrow> blob b' t path
    | (Inl (NotYetImplemented _), b') \<Rightarrow> blob b' t path \<and> key_stuck t (view key) (length path)
    | (Inl _, b') \<Rightarrow> False"
  using assms by (rule insert_in_blob_correct)

theorem insert_correct_witness:
  "\<exists>b t. alook t [97, 0] 0 = Found [1, 2] 5 \<and> blob b t [] \<and> on_path [] (view (sk_user [98]))
   \<and> height t < Suc (height t) \<and> length (view (sk_user [98])) < 65536 \<and> length [3 :: u8] < 65536 \<and> (6 :: nat) < 2 ^ 64
   \<and> (case insert_in_blob (Suc (height t)) (sk_user [98]) [3] (length ([] :: bytes)) 6 IfAbsent b of
      (Inr (Done out), b') \<Rightarrow> ins_mutated out = proceeds IfAbsent (alook t (view (sk_user [98])) (length ([] :: bytes)))
         \<and> (if ins_mutated out
            then \<exists>t'. blob b' t' [] \<and> put_into t [] (view (sk_user [98])) [3] 6 t'
              \<and> (user_tree t [] \<longrightarrow> user_key (view (sk_user [98])) \<longrightarrow> user_tree t' [])
            else b' = b)
    | (Inr (InsCrossing g d), b') \<Rightarrow> b' = b \<and> alook t (view (sk_user [98])) (length ([] :: bytes)) = Crossing g d
    | (Inl (Alloc _), b') \<Rightarrow> blob b' t []
    | (Inl (NotYetImplemented _), b') \<Rightarrow> blob b' t [] \<and> key_stuck t (view (sk_user [98])) (length ([] :: bytes))
    | (Inl _, b') \<Rightarrow> False)"
proof -
  obtain b t where b: "blob b t []" and a: "alook t [97, 0] 0 = Found [1, 2] 5" using one_key_blob by blast
  have h: "on_path [] (view (sk_user [98]))" "height t < Suc (height t)" "length (view (sk_user [98])) < 65536"
    "length [3 :: u8] < 65536" "(6 :: nat) < 2 ^ 64" by simp_all
  show ?thesis by (intro exI conjI) (rule a b h insert_correct [OF b h])+
qed

text \<open>C3. An erase removes the key and no other, exactly when the key is present and its
  condition holds, and reports whether it did; it never fails and never reshapes the nodes
  above the leaf; when the condition fails, or the key continues in a child blob, the frame
  is unchanged.\<close>

theorem erase_correct:
  assumes "blob b t path" and "height t < fuel"
  shows "case erase_in_blob fuel key (length path) cond b of
      (Inr (EDone r), b') \<Rightarrow> signal r = Unchanged \<and> era_mutated r = erases cond (alook t (view key) (length path))
         \<and> (if era_mutated r
            then \<exists>t'. blob b' t' path \<and> erased_from t path (view key) t' \<and> (user_tree t path \<longrightarrow> user_tree t' path)
            else b' = b)
    | (Inr (EraCrossing g d), b') \<Rightarrow> b' = b \<and> alook t (view key) (length path) = Crossing g d
    | (Inl _, b') \<Rightarrow> False"
  using assms by (rule erase_in_blob_correct)

theorem erase_correct_witness:
  "\<exists>b t. alook t [97, 0] 0 = Found [1, 2] 5 \<and> blob b t [] \<and> height t < Suc (height t)
   \<and> (case erase_in_blob (Suc (height t)) (sk_user [97]) (length ([] :: bytes)) EAlways b of
      (Inr (EDone r), b') \<Rightarrow> signal r = Unchanged \<and> era_mutated r = erases EAlways (alook t (view (sk_user [97])) (length ([] :: bytes)))
         \<and> (if era_mutated r
            then \<exists>t'. blob b' t' [] \<and> erased_from t [] (view (sk_user [97])) t' \<and> (user_tree t [] \<longrightarrow> user_tree t' [])
            else b' = b)
    | (Inr (EraCrossing g d), b') \<Rightarrow> b' = b \<and> alook t (view (sk_user [97])) (length ([] :: bytes)) = Crossing g d
    | (Inl _, b') \<Rightarrow> False)"
proof -
  obtain b t where b: "blob b t []" and a: "alook t [97, 0] 0 = Found [1, 2] 5" using one_key_blob by blast
  have h: "height t < Suc (height t)" by simp
  show ?thesis by (intro exI conjI) (rule a b h erase_correct [OF b h])+
qed

text \<open>C4. A lookup walks the nodes of the frame and returns exactly what the abstract tree
  holds for the key: the value and its sequence number, or that the key is absent or erased,
  or the child blob where the search continues.\<close>

theorem lookup_correct:
  assumes "blob b t path" and "height t < fuel"
  shows "lookup_in_blob fuel b key d = Inr (alook t (view key) d)"
  using assms by (rule lookup_in_blob_refines)

theorem lookup_correct_witness:
  "\<exists>b t. blob b t [] \<and> height t < Suc (height t)
     \<and> lookup_in_blob (Suc (height t)) b (sk_user [97]) 0 = Inr (Found [1, 2] 5)"
proof -
  obtain b t where b: "blob b t []" and a: "alook t [97, 0] 0 = Found [1, 2] 5" using one_key_blob by blast
  have h: "height t < Suc (height t)" by simp
  show ?thesis using lookup_correct [OF b h, of "sk_user [97]" 0] a b by auto
qed

text \<open>C5. Compacting a blob changes the result of no lookup, clears the tombstone count, keeps
  the GUID and counts the compaction (up to the largest 32-bit value); it can fail only for
  want of room, and then the buffer is as before, byte for byte.\<close>

theorem compact_correct:
  assumes "blob b t path" and "height t < fuel"
  shows "case compact_blob fuel b of
      (Inr _, b') \<Rightarrow> (\<exists>t'. blob b' t' path \<and> height t' \<le> height t \<and> (\<forall>k d. alook t' k d = alook t k d))
         \<and> header_guid b' = header_guid b \<and> tombstone_leaf_cnt b' = 0
         \<and> compact_times b' = min (compact_times b + 1) (2 ^ 32 - 1)
    | (Inl e, b') \<Rightarrow> b' = b \<and> (\<exists>a. e = Alloc a)"
proof -
  have wf: "wf_art t path" using assms(1) by (auto simp: blob_def)
  show ?thesis
    using assms
  proof (cases rule: compact_blob_spec)
    case (ok b')
    then show ?thesis using compacted_look [OF wf] compacted_height [of t] by auto
  qed simp
qed

theorem compact_correct_witness:
  "\<exists>b t. alook t [97, 0] 0 = Found [1, 2] 5 \<and> blob b t [] \<and> height t < Suc (height t)
    \<and> (case compact_blob (Suc (height t)) b of
      (Inr _, b') \<Rightarrow> (\<exists>t'. blob b' t' [] \<and> height t' \<le> height t \<and> (\<forall>k d. alook t' k d = alook t k d))
         \<and> header_guid b' = header_guid b \<and> tombstone_leaf_cnt b' = 0
         \<and> compact_times b' = min (compact_times b + 1) (2 ^ 32 - 1)
    | (Inl e, b') \<Rightarrow> b' = b \<and> (\<exists>a. e = Alloc a))"
proof -
  obtain b t where b: "blob b t []" and a: "alook t [97, 0] 0 = Found [1, 2] 5" using one_key_blob by blast
  have h: "height t < Suc (height t)" by simp
  show ?thesis by (intro exI conjI) (rule a b h compact_correct [OF b h])+
qed

text \<open>C6. A value just inserted is the one a lookup finds, with the sequence number it was
  inserted with, and lookups of all other keys give what they gave before the insert.\<close>

theorem insert_then_lookup:
  assumes "blob b t []" and "height t < fuel" and "length (view key) < 65536" and "length v < 65536" and "q < 2 ^ 64"
    and "insert_in_blob fuel key v 0 q cond b = (Inr (Done out), b')" and "ins_mutated out"
  shows "\<exists>n. \<forall>fuel' \<ge> n. \<forall>key'. lookup_in_blob fuel' b' key' 0
     = (if view key' = view key then Inr (Found v q) else lookup_in_blob fuel' b key' 0)"
proof -
  obtain t' where t': "blob b' t' []" "put_into t [] (view key) v q t'"
    using insert_in_blob_correct [OF assms(1) _ assms(2-5), of cond] assms(6,7) by auto
  have "lookup_in_blob fuel' b' key' 0 = (if view key' = view key then Inr (Found v q) else lookup_in_blob fuel' b key' 0)"
    if "max (Suc (height t)) (Suc (height t')) \<le> fuel'" for fuel' key'
    using lookup_in_blob_refines [OF t'(1), of fuel' key' 0] lookup_in_blob_refines [OF assms(1), of fuel' key' 0] t'(2) that
    by (simp add: put_into_def)
  then show ?thesis by blast
qed

theorem insert_then_lookup_witness:
  "\<exists>b t out b'. blob b t [] \<and> height t < Suc (height t) \<and> length (view (sk_user [97])) < 65536
     \<and> length [1 :: u8] < 65536 \<and> (5 :: nat) < 2 ^ 64
     \<and> insert_in_blob (Suc (height t)) (sk_user [97]) [1] 0 5 Always b = (Inr (Done out), b') \<and> ins_mutated out
     \<and> (\<exists>n. \<forall>fuel' \<ge> n. \<forall>key'. lookup_in_blob fuel' b' key' 0
         = (if view key' = view (sk_user [97]) then Inr (Found [1] 5) else lookup_in_blob fuel' b key' 0))"
proof -
  have g: "length (replicate 16 0 :: blob_guid) = 16" by simp
  obtain b where b: "blob b AEmpty []" "num_slots b = 1" "space_used b = DATA_AREA_START + 8" "\<forall>i<8. free_list_head b i = 0"
    by (rule frame_init_blob [OF g]) blast
  have ext: "leaf_extent_size (length (view (sk_user [97]))) (length [1 :: u8]) \<le> 16"
    using leaf_extent_size_bounds(3) [of "Suc (Suc 0)" "Suc 0"] by simp
  obtain out b' where r: "insert_in_blob (Suc (height AEmpty)) (sk_user [97]) [1] 0 5 Always b = (Inr (Done out), b')" "ins_mutated out"
    using insert_fresh [OF b(1-3), of "sk_user [97]" "[1]" 5 Always "height AEmpty"] b(4) ext
    by (auto simp: layout_consts SPILLOVER_RESERVATION_def)
  have h: "height AEmpty < Suc (height AEmpty)" "length (view (sk_user [97])) < 65536" "length [1 :: u8] < 65536"
    "(5 :: nat) < 2 ^ 64" by simp_all
  show ?thesis using insert_then_lookup [OF b(1) h r] b(1) h r by blast
qed

text \<open>C7. After an erase that changed the blob the key is not found, and lookups of all other
  keys give what they gave before.\<close>

theorem erase_then_lookup:
  assumes "blob b t []" and "height t < fuel" and "erase_in_blob fuel key 0 cond b = (Inr (EDone r), b')" and "era_mutated r"
  shows "\<exists>n. \<forall>fuel' \<ge> n. \<forall>key'. lookup_in_blob fuel' b' key' 0
     = (if view key' = view key then Inr NotFoundR else lookup_in_blob fuel' b key' 0)"
proof -
  obtain t' where t': "blob b' t' []" "erased_from t [] (view key) t'"
    using erase_in_blob_correct [OF assms(1,2), where key = key and cond = cond] assms(3,4) by auto
  have "lookup_in_blob fuel' b' key' 0 = (if view key' = view key then Inr NotFoundR else lookup_in_blob fuel' b key' 0)"
    if "max (Suc (height t)) (Suc (height t')) \<le> fuel'" for fuel' key'
    using lookup_in_blob_refines [OF t'(1), of fuel' key' 0] lookup_in_blob_refines [OF assms(1), of fuel' key' 0] t'(2) that
    by (simp add: erased_from_def)
  then show ?thesis by blast
qed

theorem erase_then_lookup_witness:
  "\<exists>b t r b'. blob b t [] \<and> height t < Suc (height t)
     \<and> erase_in_blob (Suc (height t)) (sk_user [97]) 0 EAlways b = (Inr (EDone r), b') \<and> era_mutated r
     \<and> (\<exists>n. \<forall>fuel' \<ge> n. \<forall>key'. lookup_in_blob fuel' b' key' 0
         = (if view key' = view (sk_user [97]) then Inr NotFoundR else lookup_in_blob fuel' b key' 0))"
proof -
  obtain b t where b: "blob b t []" and a: "alook t [97, 0] 0 = Found [1, 2] 5" using one_key_blob by blast
  have h: "height t < Suc (height t)" by simp
  obtain r b' where r: "erase_in_blob (Suc (height t)) (sk_user [97]) 0 EAlways b = (Inr (EDone r), b')" "era_mutated r"
    using erase_in_blob_correct [OF b h, where key = "sk_user [97]" and cond = EAlways] a
    by (cases "erase_in_blob (Suc (height t)) (sk_user [97]) 0 EAlways b") (auto split: sum.splits erase_step.splits)
  show ?thesis using erase_then_lookup [OF b h r] b h r by blast
qed

text \<open>C8. A user key, which has no zero byte before its terminator, is never refused: in a
  blob that holds user keys, an insert that does not run out of stack is done, or continues in
  a child blob, or is out of space; the not-yet-implemented branches for keys that are
  prefixes of each other cannot be reached.\<close>

theorem user_insert_accepted:
  assumes "blob b t []" and "user_tree t []" and "0 \<notin> set u" and "length u < 65535" and "length v < 65536"
    and "q < 2 ^ 64" and "height t < fuel"
  shows "case fst (insert_in_blob fuel (sk_user u) v 0 q cond b) of
      Inr _ \<Rightarrow> True | Inl e \<Rightarrow> (\<exists>a. e = Alloc a)"
proof -
  have k: "length (view (sk_user u)) < 65536" "user_key (view (sk_user u))" using assms(3,4) by auto
  have "wf_art t []" using assms(1) by (auto simp: blob_def)
  then have ns: "\<not> key_stuck t (view (sk_user u)) 0"
    using user_keys_not_stuck [of t "view (sk_user u)" 0 "[]"] assms(2) k(2) by auto
  obtain r b' where r: "insert_in_blob fuel (sk_user u) v 0 q cond b = (r, b')" by force
  then show ?thesis
    using insert_in_blob_correct [OF assms(1) _ assms(7) k(1) assms(5,6), of cond] ns
    by (auto split: sum.splits error.splits)
qed

theorem user_insert_accepted_witness:
  "\<exists>b t. blob b t [] \<and> user_tree t [] \<and> (0 :: u8) \<notin> set [97, 98] \<and> length [97, 98 :: u8] < 65535
     \<and> length [1 :: u8] < 65536 \<and> (7 :: nat) < 2 ^ 64 \<and> height t < Suc (height t)
     \<and> (case fst (insert_in_blob (Suc (height t)) (sk_user [97, 98]) [1] 0 7 Always b) of
        Inr _ \<Rightarrow> True | Inl e \<Rightarrow> (\<exists>a. e = Alloc a))"
proof -
  obtain b t where b: "blob b t []" "user_tree t []" using one_key_blob by blast
  have h: "(0 :: u8) \<notin> set [97, 98]" "length [97, 98 :: u8] < 65535" "length [1 :: u8] < 65536" "(7 :: nat) < 2 ^ 64"
    "height t < Suc (height t)" by simp_all
  show ?thesis by (intro exI conjI) (rule b h user_insert_accepted [OF b h])+
qed





section \<open>Properties of the writers\<close>

text \<open>A prefix chain above a subtree adds exactly its bytes to the path: after writing it,
  the new slot is the root of a tree in which a key is found if it continues with the bytes of
  the chain and is then found in the subtree, which is itself unchanged; when space runs out
  the subtree is still in place.\<close>

theorem prefix_chain_correct:
  assumes "tree b c t F" and "holds b fl F" and "bs \<noteq> []"
  shows "case write_prefix_chain bs c b of
      (Inl e, b') \<Rightarrow> (\<exists>a. e = Alloc a) \<and> tree b' c t F
    | (Inr s, b') \<Rightarrow> \<exists>t' F' fl'. tree b' s t' F' \<and> holds b' fl' F' \<and> tree b' c t F
        \<and> (\<forall>k d. alook t' k d = (if range_at k d bs then alook t k (d + length bs) else NotFoundR))"
proof -
  have c: "slot_ok c" "c < 65536" and e: "holds b fl {}" and sF: "F \<inter> {} = {}" "F \<inter> owned b fl = {}"
    using tree_slot_ok [OF assms(1)] assms(2) by (auto simp: holds_def)
  obtain r b' where r: "write_prefix_chain bs c b = (r, b')" by force
  then have w: "wrapped b fl c (pchain bs) r b'" using write_prefix_chain_spec [OF e c assms(3)] by simp
  obtain fl1 N where keep: "eff b fl {} b' fl1 N" using w by (cases r) (auto simp: wrapped_def)
  have t: "tree b' c t F" by (rule tree_eff [OF assms(1) keep sF])
  show ?thesis
  proof (cases r)
    case (Inl x)
    then show ?thesis using w t r by (auto simp: wrapped_def)
  next
    case (Inr s)
    obtain fl' N where "eff b fl F b' fl' (N \<union> F)" "tree b' s (pchain bs t) (N \<union> F)"
      using wrapped_tree [OF _ assms(1,2)] w Inr by blast
    then show ?thesis using t r Inr assms(3) eff_holds by (fastforce simp: alook_pchain)
  qed
qed

theorem prefix_chain_correct_witness:
  "\<exists>b c t F fl. tree b c t F \<and> holds b fl F \<and> [7 :: u8, 8] \<noteq> []
     \<and> (case write_prefix_chain [7, 8] c b of
      (Inl e, b') \<Rightarrow> (\<exists>a. e = Alloc a) \<and> tree b' c t F
    | (Inr s, b') \<Rightarrow> \<exists>t' F' fl'. tree b' s t' F' \<and> holds b' fl' F' \<and> tree b' c t F
        \<and> (\<forall>k d. alook t' k d = (if range_at k d [7, 8] then alook t k (d + length [7 :: u8, 8]) else NotFoundR)))"
proof -
  obtain b t where "blob b t []" using one_key_blob by blast
  then obtain fl F where b: "tree b (root_slot b) t F" "holds b fl F" by (auto simp: blob_def)
  have n: "[7 :: u8, 8] \<noteq> []" by simp
  show ?thesis by (intro exI conjI) (rule b n prefix_chain_correct [OF b n])+
qed

end
